(* ===== verification/Prelude.thy ===== *)
theory Prelude imports Main "HOL-Library.Word" begin

text \<open>
  Shared vocabulary of the development: bytes and byte strings, copying into a buffer
  (\<open>memcpy\<close> and \<open>memmove\<close> of the C code), reading a buffer circularly, and the
  little- and big-endian representation of a number as bytes.  The lemmas about these
  are collected in \<open>byte_simps\<close> and used by every component.
\<close>

named_theorems byte_simps \<comment> \<open>facts about buffers and byte encodings\<close>

type_synonym byte = "8 word"
type_synonym bytes = "byte list"

section \<open>Copying into a buffer\<close>

text \<open>\<open>blit buf off src\<close> is \<open>memcpy(buf + off, src, |src|)\<close>.\<close>

definition blit :: "'a list \<Rightarrow> nat \<Rightarrow> 'a list \<Rightarrow> 'a list" where
  "blit buf off src = take off buf @ src @ drop (off + length src) buf"

lemma length_blit [simp, byte_simps]:
  "off + length src \<le> length buf \<Longrightarrow> length (blit buf off src) = length buf"
  by (simp add: blit_def)

lemma nth_blit:
  assumes "off + length src \<le> length buf" and "i < length buf"
  shows "blit buf off src ! i =
    (if off \<le> i \<and> i < off + length src then src ! (i - off) else buf ! i)"
  using assms by (auto simp: blit_def nth_append min_def)

lemma blit_Nil [simp]: "blit buf off [] = buf"
  by (simp add: blit_def)

lemma take_blit_before [byte_simps]:
  "n \<le> off \<Longrightarrow> off \<le> length buf \<Longrightarrow> take n (blit buf off src) = take n buf"
  by (simp add: blit_def min_def)

lemma drop_blit_after [byte_simps]:
  "off + length src \<le> n \<Longrightarrow> off \<le> length buf \<Longrightarrow> drop n (blit buf off src) = drop n buf"
  by (simp add: blit_def min_def)

lemma slice_blit [byte_simps]:
  "off + length src \<le> length buf \<Longrightarrow> take (length src) (drop off (blit buf off src)) = src"
  by (simp add: blit_def min_def)

lemma slice_blit_disjoint [byte_simps]:
  assumes "off + length src \<le> length buf" "a + n \<le> off \<or> off + length src \<le> a"
  shows "take n (drop a (blit buf off src)) = take n (drop a buf)"
  using assms(2)
proof
  assume "a + n \<le> off"
  then have "take (a + n) (blit buf off src) = take (a + n) buf"
    using assms(1) by (intro take_blit_before) auto
  then show ?thesis by (metis add.commute take_drop)
qed (use assms(1) in \<open>simp add: drop_blit_after\<close>)

section \<open>Reading a buffer circularly\<close>

text \<open>\<open>ring xs s n\<close> is the \<open>n\<close> elements of \<open>xs\<close> from index \<open>s\<close> on, wrapping at its end.\<close>

definition ring :: "'a list \<Rightarrow> nat \<Rightarrow> nat \<Rightarrow> 'a list" where
  "ring xs s n = map (\<lambda>i. xs ! ((s + i) mod length xs)) [0..<n]"

lemma length_ring [simp, byte_simps]: "length (ring xs s n) = n"
  by (simp add: ring_def)

lemma nth_ring: "i < n \<Longrightarrow> ring xs s n ! i = xs ! ((s + i) mod length xs)"
  by (simp add: ring_def)

lemma ring_0 [simp]: "ring xs s 0 = []"
  by (simp add: ring_def)

lemma ring_full: "ring xs 0 (length xs) = xs"
  by (rule nth_equalityI) (simp_all add: nth_ring)

lemma ring_mod: "ring xs (s mod length xs) n = ring xs s n"
  by (simp add: ring_def mod_add_left_eq)

lemma ring_split: "ring xs s (m + n) = ring xs s m @ ring xs (s + m) n"
  by (rule nth_equalityI) (auto simp: nth_ring nth_append add.assoc)

lemma take_ring: "m \<le> n \<Longrightarrow> take m (ring xs s n) = ring xs s m"
  by (metis append_eq_conv_conj le_add_diff_inverse length_ring ring_split)

lemma drop_ring: "m \<le> n \<Longrightarrow> drop m (ring xs s n) = ring xs (s + m) (n - m)"
  by (metis append_eq_conv_conj le_add_diff_inverse length_ring ring_split)

lemma ring_linear: "s + n \<le> length xs \<Longrightarrow> ring xs s n = take n (drop s xs)"
  by (rule nth_equalityI) (simp_all add: nth_ring)

lemma ring_wrap:
  assumes "s \<le> length xs" "length xs \<le> s + n" "n \<le> length xs"
  shows "ring xs s n = drop s xs @ take (s + n - length xs) xs"
proof -
  let ?k = "length xs - s"
  have "ring xs s n = ring xs s ?k @ ring xs (s + ?k) (n - ?k)"
    using ring_split [of xs s ?k "n - ?k"] assms by simp
  moreover have "ring xs s ?k = drop s xs"
    using assms by (simp add: ring_linear)
  moreover have "ring xs (s + ?k) (n - ?k) = take (s + n - length xs) xs"
    using ring_mod [of xs "s + ?k" "n - ?k"] assms by (simp add: ring_linear add.commute)
  ultimately show ?thesis by simp
qed

text \<open>Cells outside a written region keep what a circular read of them sees.\<close>

lemma ring_cong:
  assumes "length ys = length xs"
    and "\<And>i. i < n \<Longrightarrow> ys ! ((s + i) mod length xs) = xs ! ((s + i) mod length xs)"
  shows "ring ys s n = ring xs s n"
  using assms by (simp add: ring_def)

text \<open>Writing at the end of a circular region appends to what is read from it.\<close>

lemma mod_wrap: "(a :: nat) < 2 * t \<Longrightarrow> a mod t = (if a < t then a else a - t)"
  by (simp add: mod_if)

lemma ring_blit_append:
  assumes "s < length xs" "n + length src \<le> length xs"
    and i: "i = (s + n) mod length xs" and fit: "i + length src \<le> length xs"
  shows "ring (blit xs i src) s (n + length src) = ring xs s n @ src"
proof (rule nth_equalityI)
  fix k assume "k < length (ring (blit xs i src) s (n + length src))"
  then have k: "k < n + length src" by simp
  let ?T = "length xs"
  have T: "0 < ?T" using assms(1) by linarith
  have i': "i = (if s + n < ?T then s + n else s + n - ?T)"
    using assms(1,2) i by (simp add: mod_wrap)
  have ix: "(s + k) mod ?T = (if s + k < ?T then s + k else s + k - ?T)"
    using assms(1,2) k by (intro mod_wrap) linarith
  have lt: "(s + k) mod ?T < ?T" using T by simp
  show "ring (blit xs i src) s (n + length src) ! k = (ring xs s n @ src) ! k"
  proof (cases "k < n")
    case True
    then have "\<not> (i \<le> (s + k) mod ?T \<and> (s + k) mod ?T < i + length src)"
      using ix i' fit assms(1,2) by (auto split: if_splits)
    then have "blit xs i src ! ((s + k) mod ?T) = xs ! ((s + k) mod ?T)"
      using nth_blit [OF fit lt] by auto
    then show ?thesis using True k fit by (simp add: nth_ring nth_append)
  next
    case False
    then obtain j where j: "k = n + j" "j < length src"
      using k by (metis add_diff_inverse_nat nat_add_left_cancel_less)
    have "(s + k) mod ?T = i + j"
      using ix i' fit assms(1,2) j by (auto split: if_splits)
    then show ?thesis using j fit nth_blit [OF fit, of "i + j"]
      by (simp add: nth_ring nth_append)
  qed
qed simp

lemma ring_blit_blit_append:
  assumes "s < length xs" "n + length src0 + length src1 \<le> length xs"
    and "i = (s + n) mod length xs" and "i + length src0 = length xs"
  shows "ring (blit (blit xs i src0) 0 src1) s (n + length src0 + length src1) =
    ring xs s n @ src0 @ src1"
proof -
  have "(s + (n + length src0)) mod length xs = 0"
    using assms(3,4) by (metis add.assoc mod_add_left_eq mod_self)
  then have "ring (blit (blit xs i src0) 0 src1) s (n + length src0 + length src1) =
      ring (blit xs i src0) s (n + length src0) @ src1"
    using assms by (intro ring_blit_append) auto
  then show ?thesis using assms by (simp add: ring_blit_append)
qed

section \<open>Numbers as bytes\<close>

text \<open>\<open>le_bytes n x\<close>: the \<open>n\<close> bytes of \<open>x\<close>, least significant first (the memory image of a
  \<open>8 * n\<close>-bit integer on a little-endian machine); \<open>le_nat\<close> reads such bytes back.\<close>

fun le_bytes :: "nat \<Rightarrow> nat \<Rightarrow> bytes" where
  "le_bytes 0 x = []"
| "le_bytes (Suc n) x = of_nat (x mod 256) # le_bytes n (x div 256)"

fun le_nat :: "bytes \<Rightarrow> nat" where
  "le_nat [] = 0"
| "le_nat (b # bs) = unat b + 256 * le_nat bs"

definition be_bytes :: "nat \<Rightarrow> nat \<Rightarrow> bytes" where
  "be_bytes n x = rev (le_bytes n x)"

definition be_nat :: "bytes \<Rightarrow> nat" where
  "be_nat bs = le_nat (rev bs)"

lemma length_le_bytes [simp, byte_simps]: "length (le_bytes n x) = n"
  by (induction n arbitrary: x) auto

lemma length_be_bytes [simp, byte_simps]: "length (be_bytes n x) = n"
  by (simp add: be_bytes_def)

lemma unat_byte_bound: "unat (b :: byte) < 256"
  using unsigned_less [of b] by simp

lemma le_nat_le_bytes [byte_simps]: "le_nat (le_bytes n x) = x mod 256 ^ n"
proof (induction n arbitrary: x)
  case (Suc n)
  have "unat (word_of_nat (x mod 256) :: byte) = x mod 256"
    by (simp add: unat_of_nat)
  with Suc show ?case
    by (simp add: mod_mult2_eq)
qed simp

lemma le_nat_bound: "le_nat bs < 256 ^ length bs"
proof (induction bs)
  case (Cons b bs)
  have "unat b + 256 * le_nat bs < 256 * (le_nat bs + 1)"
    using unat_byte_bound [of b] by simp
  also have "\<dots> \<le> 256 * 256 ^ length bs"
    using Cons by (intro mult_le_mono2) simp
  finally show ?case by simp
qed simp

lemma le_bytes_le_nat [byte_simps]: "le_bytes (length bs) (le_nat bs) = bs"
proof (induction bs)
  case (Cons b bs)
  have "(unat b + 256 * le_nat bs) mod 256 = unat b"
       "(unat b + 256 * le_nat bs) div 256 = le_nat bs"
    using unat_byte_bound [of b] by simp_all
  with Cons show ?case by simp
qed simp

lemma be_nat_be_bytes [byte_simps]: "be_nat (be_bytes n x) = x mod 256 ^ n"
  by (simp add: be_nat_def be_bytes_def le_nat_le_bytes)

lemma be_bytes_be_nat [byte_simps]: "be_bytes (length bs) (be_nat bs) = bs"
  using le_bytes_le_nat [of "rev bs"] by (simp add: be_nat_def be_bytes_def)

lemma le_bytes_inject:
  "x < 256 ^ n \<Longrightarrow> y < 256 ^ n \<Longrightarrow> le_bytes n x = le_bytes n y \<Longrightarrow> x = y"
  by (metis le_nat_le_bytes mod_less)

section \<open>C integers\<close>

text \<open>The value an \<open>int\<close> of 32 bits takes, for a conversion and for a sum that overflows.\<close>

definition int32 :: "int \<Rightarrow> int" where
  "int32 x = (x + 2 ^ 31) mod 2 ^ 32 - 2 ^ 31"

lemma int32_small: "- (2 ^ 31) \<le> x \<Longrightarrow> x < 2 ^ 31 \<Longrightarrow> int32 x = x"
  by (simp add: int32_def)

lemma int32_range: "- (2 ^ 31) \<le> int32 x" "int32 x < 2 ^ 31"
  by (simp_all add: int32_def)

lemma int32_over: "2 ^ 31 \<le> x \<Longrightarrow> x < 2 ^ 32 \<Longrightarrow> int32 x = x - 2 ^ 32"
proof -
  assume "2 ^ 31 \<le> x" "x < 2 ^ 32"
  then have "(x - 2 ^ 31) mod 2 ^ 32 = x - 2 ^ 31" by simp
  moreover have "(x + 2 ^ 31) mod 2 ^ 32 = (x - 2 ^ 31) mod 2 ^ 32"
    using mod_add_self2 [of "x - 2 ^ 31" "2 ^ 32"] by (simp add: algebra_simps)
  ultimately show "int32 x = x - 2 ^ 32" by (simp add: int32_def)
qed

section \<open>Checked access to a buffer\<close>

text \<open>Reading a byte, writing a byte and moving a pointer: \<open>None\<close> is an access outside the buffer,
  or a pointer more than one past its end.\<close>

text \<open>\<open>memcpy\<close> from and to an object in memory; a copy outside it is \<open>None\<close>.\<close>

definition copy_from :: "bytes \<Rightarrow> nat \<Rightarrow> nat \<Rightarrow> bytes option" where
  "copy_from mem p n = (if p + n \<le> length mem then Some (take n (drop p mem)) else None)"

definition copy_to :: "bytes \<Rightarrow> nat \<Rightarrow> bytes \<Rightarrow> bytes option" where
  "copy_to mem p src = (if p + length src \<le> length mem then Some (blit mem p src) else None)"

definition rd :: "bytes \<Rightarrow> nat \<Rightarrow> byte option" where
  "rd mem i = (if i < length mem then Some (mem ! i) else None)"

definition bump :: "bytes \<Rightarrow> nat \<Rightarrow> nat option" where
  "bump mem i = (if i < length mem then Some (i + 1) else None)"

definition wr :: "bytes \<Rightarrow> nat \<Rightarrow> byte \<Rightarrow> bytes option" where
  "wr mem i b = (if i < length mem then Some (mem[i := b]) else None)"

lemma rd_nth [simp]: "i < length mem \<Longrightarrow> rd mem i = Some (mem ! i)"
  by (simp add: rd_def)

lemma wr_update [simp]: "i < length mem \<Longrightarrow> wr mem i b = Some (mem[i := b])"
  by (simp add: wr_def)

lemma rd_at: "drop i mem = x # xs \<Longrightarrow> rd mem i = Some x"
  by (metis list.distinct(1) drop_eq_Nil2 linorder_not_less nth_via_drop rd_def)

lemma bump_at: "drop i mem = x # xs \<Longrightarrow> bump mem i = Some (i + 1)"
  by (metis bump_def list.distinct(1) drop_eq_Nil2 linorder_not_less)

lemma drop_at: "drop i mem = xs @ ys \<Longrightarrow> drop (i + length xs) mem = ys"
  by (metis append_eq_conv_conj drop_drop add.commute)

lemma drop_at_Cons: "drop i mem = x # ys \<Longrightarrow> drop (i + 1) mem = ys"
  using drop_at [of i mem "[x]" ys] by simp

end
