(* ===== verification/LoopBuff.thy ===== *)
theory LoopBuff imports Prelude begin

text \<open>
  The byte ring buffer \<open>FxLoopBuff\<close> of \<open>Server/Net/loopbuff.cpp\<close>, through which every
  socket of the network library sends and receives.  The record has the class's fields;
  \<open>m_pszBuff\<close> is the allocated block (\<open>None\<close> for \<open>NULL\<close>), cursors and lengths are C
  \<open>int\<close>s.  Data enters at the in-cursor (\<open>PushBuff\<close>, or \<open>CostBuff\<close> after the socket wrote into
  the block), is marked as parsed by moving the use-cursor (\<open>CostUsedBuff\<close>) and leaves at
  the out-cursor (\<open>PopBuff\<close>, or \<open>DiscardBuff\<close> after the socket read it).  A pointer result is
  the offset into the block, \<open>None\<close> for \<open>NULL\<close>.  The lock of the class makes every
  operation atomic, so an operation is one function of the state.  \<open>lb_inv\<close> is the class
  invariant, \<open>lb_data\<close> the queue of bytes it stands for.  The sums of the code are taken in 32 bits
  (\<open>int32\<close>, two's complement): \<open>lb_core\<close> bounds the block by \<open>2 ^ 30\<close> bytes, the library allocates at
  most 4 MB, and a request that makes a sum overflow is not refused (\<open>PopBuff_overflows\<close>).
\<close>

section \<open>State\<close>

record loopbuff =
  m_nTotalLen :: int
  m_nFreeLen :: int
  m_nInCursor :: int
  m_nOutCursor :: int
  m_nUseCursor :: int
  m_pszBuff :: "bytes option"
  m_bLoop :: bool
  m_bUseLoop :: bool

definition FxLoopBuff :: loopbuff where
  "FxLoopBuff = \<lparr>m_nTotalLen = 0, m_nFreeLen = 0, m_nInCursor = 0, m_nOutCursor = 0,
     m_nUseCursor = 0, m_pszBuff = None, m_bLoop = False, m_bUseLoop = False\<rparr>"

text \<open>\<open>realloc\<close> is the C library's: its outcome is the argument \<open>blk\<close> (\<open>None\<close> when it fails).\<close>

definition Init :: "bytes option \<Rightarrow> int \<Rightarrow> loopbuff \<Rightarrow> bool \<times> loopbuff" where
  "Init blk nLen b =
    (let pTem = m_pszBuff b;
         buf = (if nLen \<noteq> m_nTotalLen b then blk else m_pszBuff b)
     in if buf = None then (False, b\<lparr>m_pszBuff := pTem\<rparr>)
        else (True, b\<lparr>m_pszBuff := buf, m_nTotalLen := nLen, m_nFreeLen := nLen,
               m_nUseCursor := 0, m_nInCursor := 0, m_nOutCursor := 0,
               m_bLoop := False, m_bUseLoop := False\<rparr>))"

section \<open>Queries\<close>

definition IsEmpty :: "loopbuff \<Rightarrow> bool" where
  "IsEmpty b \<longleftrightarrow> m_nTotalLen b = m_nFreeLen b"

definition GetTotalLen :: "loopbuff \<Rightarrow> int" where
  "GetTotalLen b = m_nTotalLen b"

definition GetFreeLen :: "loopbuff \<Rightarrow> int" where
  "GetFreeLen b = m_nFreeLen b"

definition GetUseLen :: "loopbuff \<Rightarrow> int" where
  "GetUseLen b =
    (if m_nFreeLen b = m_nTotalLen b then 0
     else if m_bUseLoop b then int32 (m_nTotalLen b + m_nInCursor b - m_nUseCursor b)
     else m_nInCursor b - m_nUseCursor b)"

definition GetInCursorPtr :: "loopbuff \<Rightarrow> int option \<times> int" where
  "GetInCursorPtr b =
    (if m_nFreeLen b = 0 then (None, 0)
     else (Some (m_nInCursor b),
           if m_bLoop b then m_nOutCursor b - m_nInCursor b
           else m_nTotalLen b - m_nInCursor b))"

definition GetOutCursorPtr :: "loopbuff \<Rightarrow> int option \<times> int" where
  "GetOutCursorPtr b =
    (if m_nTotalLen b = m_nFreeLen b then (None, 0)
     else (Some (m_nOutCursor b),
           if m_bLoop b then m_nTotalLen b - m_nOutCursor b
           else m_nInCursor b - m_nOutCursor b))"

definition GetUsedCursorPtr :: "loopbuff \<Rightarrow> int option \<times> int" where
  "GetUsedCursorPtr b =
    (if m_nTotalLen b = m_nFreeLen b then (None, 0)
     else (Some (m_nUseCursor b),
           if m_bUseLoop b then m_nTotalLen b - m_nUseCursor b
           else m_nInCursor b - m_nUseCursor b))"

section \<open>The private cursor pointers\<close>

text \<open>\<open>__GetInCursorPtr\<close> and \<open>__GetOutCursorPtr\<close> wrap a cursor that stands at the end of the
  block and return it; a \<open>NULL\<close> result is \<open>None\<close>.\<close>

definition priv_GetInCursorPtr :: "loopbuff \<Rightarrow> int option \<times> loopbuff" where
  "priv_GetInCursorPtr b =
    (if m_nFreeLen b = 0 then (None, b)
     else let b' = (if m_nInCursor b = m_nTotalLen b then b\<lparr>m_nInCursor := 0\<rparr> else b)
          in (Some (m_nInCursor b'), b'))"

definition priv_GetOutCursorPtr :: "loopbuff \<Rightarrow> int option \<times> loopbuff" where
  "priv_GetOutCursorPtr b =
    (if m_nTotalLen b = m_nFreeLen b then (None, b)
     else let b' = (if m_nOutCursor b = m_nTotalLen b then b\<lparr>m_nOutCursor := 0\<rparr> else b)
          in (Some (m_nOutCursor b'), b'))"

text \<open>\<open>memcpy\<close> into and out of the block; a \<open>NULL\<close> address or a missing block would be
  undefined behaviour, the value \<open>None\<close> here.\<close>

definition copy_in :: "int option \<Rightarrow> bytes \<Rightarrow> loopbuff \<Rightarrow> loopbuff option" where
  "copy_in p src b =
    (case (p, m_pszBuff b) of
       (Some off, Some buf) \<Rightarrow>
         if 0 \<le> off \<and> nat off + length src \<le> length buf
         then Some (b\<lparr>m_pszBuff := Some (blit buf (nat off) src)\<rparr>) else None
     | _ \<Rightarrow> None)"

definition copy_out :: "int option \<Rightarrow> int \<Rightarrow> loopbuff \<Rightarrow> bytes option" where
  "copy_out p n b =
    (case (p, m_pszBuff b) of
       (Some off, Some buf) \<Rightarrow>
         if 0 \<le> off \<and> 0 \<le> n \<and> nat off + nat n \<le> length buf
         then Some (take (nat n) (drop (nat off) buf)) else None
     | _ \<Rightarrow> None)"

section \<open>Operations\<close>

text \<open>The first \<open>nLen\<close> bytes of the caller's array are \<open>take (nat nLen) src\<close>.  The outer
  \<open>option\<close> is \<open>None\<close> exactly when a copy would leave the block.\<close>

definition PushBuff :: "bytes \<Rightarrow> int \<Rightarrow> loopbuff \<Rightarrow> (bool \<times> loopbuff) option" where
  "PushBuff src nLen b =
    (if 0 \<ge> nLen then Some (False, b)
     else if nLen > m_nFreeLen b then Some (False, b)
     else if int32 (nLen + m_nInCursor b) = m_nTotalLen b then
       (let (p, b1) = priv_GetInCursorPtr b in
        case copy_in p (take (nat nLen) src) b1 of None \<Rightarrow> None
        | Some b2 \<Rightarrow> Some (True, b2\<lparr>m_nInCursor := 0, m_bLoop := True, m_bUseLoop := True,
                       m_nFreeLen := m_nFreeLen b2 - nLen\<rparr>))
     else if int32 (nLen + m_nInCursor b) < m_nTotalLen b then
       (let (p, b1) = priv_GetInCursorPtr b in
        case copy_in p (take (nat nLen) src) b1 of None \<Rightarrow> None
        | Some b2 \<Rightarrow> Some (True, b2\<lparr>m_nInCursor := int32 (m_nInCursor b2 + nLen),
                       m_nFreeLen := m_nFreeLen b2 - nLen\<rparr>))
     else
       (let nBuff0 = m_nTotalLen b - m_nInCursor b;
            (p, b1) = priv_GetInCursorPtr b in
        case copy_in p (take (nat nBuff0) src) b1 of None \<Rightarrow> None
        | Some b2 \<Rightarrow>
          (let nBuff1 = nLen - nBuff0 in
           case copy_in (Some 0) (take (nat nBuff1) (drop (nat nBuff0) src)) b2 of None \<Rightarrow> None
           | Some b3 \<Rightarrow> Some (True, b3\<lparr>m_nInCursor := nBuff1, m_bLoop := True,
                          m_bUseLoop := True, m_nFreeLen := m_nFreeLen b3 - nLen\<rparr>))))"

definition PopBuff :: "int \<Rightarrow> loopbuff \<Rightarrow> (bool \<times> bytes \<times> loopbuff) option" where
  "PopBuff nLen b =
    (if 0 \<ge> nLen then Some (False, [], b)
     else if int32 (nLen + m_nFreeLen b) > m_nTotalLen b then Some (False, [], b)
     else if int32 (nLen + m_nOutCursor b) = m_nTotalLen b then
       (let (p, b1) = priv_GetOutCursorPtr b in
        case copy_out p nLen b1 of None \<Rightarrow> None
        | Some out \<Rightarrow> Some (True, out, b1\<lparr>m_nOutCursor := 0, m_bLoop := False,
                        m_nFreeLen := int32 (m_nFreeLen b1 + nLen)\<rparr>))
     else if int32 (nLen + m_nOutCursor b) < m_nTotalLen b then
       (let (p, b1) = priv_GetOutCursorPtr b in
        case copy_out p nLen b1 of None \<Rightarrow> None
        | Some out \<Rightarrow> Some (True, out, b1\<lparr>m_nOutCursor := int32 (m_nOutCursor b1 + nLen),
                        m_nFreeLen := int32 (m_nFreeLen b1 + nLen)\<rparr>))
     else
       (let nBuff0 = m_nTotalLen b - m_nOutCursor b;
            (p, b1) = priv_GetOutCursorPtr b in
        case copy_out p nBuff0 b1 of None \<Rightarrow> None
        | Some out0 \<Rightarrow>
          (let nBuff1 = nLen - nBuff0 in
           case copy_out (Some 0) nBuff1 b1 of None \<Rightarrow> None
           | Some out1 \<Rightarrow> Some (True, out0 @ out1, b1\<lparr>m_nOutCursor := nBuff1,
                            m_bLoop := False, m_nFreeLen := int32 (m_nFreeLen b1 + nLen)\<rparr>))))"

definition DiscardBuff :: "int \<Rightarrow> loopbuff \<Rightarrow> bool \<times> loopbuff" where
  "DiscardBuff nLen b =
    (if 0 \<ge> nLen then (False, b)
     else if int32 (nLen + m_nFreeLen b) > m_nTotalLen b then (False, b)
     else if int32 (nLen + m_nOutCursor b) < m_nTotalLen b then
       (True, b\<lparr>m_nOutCursor := int32 (m_nOutCursor b + nLen), m_nFreeLen := int32 (m_nFreeLen b + nLen)\<rparr>)
     else
       (True, b\<lparr>m_nOutCursor := int32 (nLen + m_nOutCursor b - m_nTotalLen b), m_bLoop := False,
          m_nFreeLen := int32 (m_nFreeLen b + nLen)\<rparr>))"

definition CostBuff :: "int \<Rightarrow> loopbuff \<Rightarrow> bool \<times> loopbuff" where
  "CostBuff nLen b =
    (if 0 \<ge> nLen then (False, b)
     else if nLen > m_nFreeLen b then (False, b)
     else if int32 (nLen + m_nInCursor b) < m_nTotalLen b then
       (True, b\<lparr>m_nInCursor := int32 (m_nInCursor b + nLen), m_nFreeLen := m_nFreeLen b - nLen\<rparr>)
     else
       (True, b\<lparr>m_nInCursor := int32 (nLen + m_nInCursor b - m_nTotalLen b), m_bLoop := True,
          m_bUseLoop := True, m_nFreeLen := m_nFreeLen b - nLen\<rparr>))"

definition CostUsedBuff :: "int \<Rightarrow> loopbuff \<Rightarrow> bool \<times> loopbuff" where
  "CostUsedBuff nLen b =
    (if 0 \<ge> nLen then (False, b)
     else if int32 (m_nFreeLen b + nLen) > m_nTotalLen b then (False, b)
     else if m_bUseLoop b then
       (if int32 (nLen + m_nUseCursor b) < m_nTotalLen b then
          (True, b\<lparr>m_nUseCursor := int32 (m_nUseCursor b + nLen)\<rparr>)
        else
          (let nUseCursor = int32 (m_nUseCursor b + nLen - m_nTotalLen b) in
           if nUseCursor > m_nInCursor b then (False, b)
           else (True, b\<lparr>m_nUseCursor := nUseCursor, m_bUseLoop := False\<rparr>)))
     else if int32 (nLen + m_nUseCursor b) > m_nInCursor b then (False, b)
     else (True, b\<lparr>m_nUseCursor := int32 (m_nUseCursor b + nLen)\<rparr>))"

definition Clear :: "loopbuff \<Rightarrow> loopbuff" where
  "Clear b = b\<lparr>m_nUseCursor := 0, m_nInCursor := 0, m_nOutCursor := 0,
     m_bLoop := False, m_bUseLoop := False\<rparr>"

section \<open>Invariant and abstraction\<close>

definition used_len :: "loopbuff \<Rightarrow> int" where
  "used_len b = m_nTotalLen b - m_nFreeLen b"

definition pend_len :: "loopbuff \<Rightarrow> int" where
  "pend_len b = (if m_bUseLoop b then m_nTotalLen b else 0) + m_nInCursor b - m_nUseCursor b"

text \<open>\<open>lb_core\<close> is what the in- and out-cursors satisfy on every buffer; \<open>lb_inv\<close> adds what
  the use-cursor satisfies on a receive buffer, where data is parsed before it leaves.\<close>

definition lb_core :: "loopbuff \<Rightarrow> bool" where
  "lb_core b \<longleftrightarrow>
     (case m_pszBuff b of None \<Rightarrow> False | Some buf \<Rightarrow> int (length buf) = m_nTotalLen b) \<and>
     0 < m_nTotalLen b \<and> m_nTotalLen b \<le> 2 ^ 30 \<and>
     0 \<le> m_nFreeLen b \<and> m_nFreeLen b \<le> m_nTotalLen b \<and>
     0 \<le> m_nInCursor b \<and> m_nInCursor b < m_nTotalLen b \<and>
     0 \<le> m_nOutCursor b \<and> m_nOutCursor b < m_nTotalLen b \<and>
     0 \<le> m_nUseCursor b \<and>
     m_nOutCursor b + used_len b = m_nInCursor b + (if m_bLoop b then m_nTotalLen b else 0)"

definition lb_inv :: "loopbuff \<Rightarrow> bool" where
  "lb_inv b \<longleftrightarrow> lb_core b \<and> m_nUseCursor b < m_nTotalLen b \<and>
     0 \<le> pend_len b \<and> pend_len b \<le> used_len b"

text \<open>The queue of bytes: everything stored, oldest first; and the part not yet parsed.\<close>

definition lb_block :: "loopbuff \<Rightarrow> bytes" where
  "lb_block b = (case m_pszBuff b of None \<Rightarrow> [] | Some buf \<Rightarrow> buf)"

definition lb_data :: "loopbuff \<Rightarrow> bytes" where
  "lb_data b = ring (lb_block b) (nat (m_nOutCursor b)) (nat (used_len b))"

definition lb_pending :: "loopbuff \<Rightarrow> bytes" where
  "lb_pending b = ring (lb_block b) (nat (m_nUseCursor b)) (nat (pend_len b))"

section \<open>A normal form of the states that satisfy the invariant\<close>

definition mk_lb :: "bytes \<Rightarrow> nat \<Rightarrow> nat \<Rightarrow> nat \<Rightarrow> nat \<Rightarrow> bool \<Rightarrow> bool \<Rightarrow> loopbuff" where
  "mk_lb xs f i out u l v = \<lparr>m_nTotalLen = int (length xs), m_nFreeLen = int f,
     m_nInCursor = int i, m_nOutCursor = int out, m_nUseCursor = int u,
     m_pszBuff = Some xs, m_bLoop = l, m_bUseLoop = v\<rparr>"

definition mk_core :: "bytes \<Rightarrow> nat \<Rightarrow> nat \<Rightarrow> nat \<Rightarrow> bool \<Rightarrow> bool" where
  "mk_core xs f i out l \<longleftrightarrow>
     length xs \<le> 2 ^ 30 \<and> f \<le> length xs \<and> i < length xs \<and> out < length xs \<and>
     out + (length xs - f) = i + (if l then length xs else 0)"

definition mk_use :: "bytes \<Rightarrow> nat \<Rightarrow> nat \<Rightarrow> nat \<Rightarrow> bool \<Rightarrow> bool" where
  "mk_use xs f i u v \<longleftrightarrow>
     u < length xs \<and> u \<le> i + (if v then length xs else 0) \<and>
     i + (if v then length xs else 0) - u \<le> length xs - f"

lemma lb_core_mk: "lb_core (mk_lb xs f i out u l v) \<longleftrightarrow> mk_core xs f i out l"
  unfolding lb_core_def mk_lb_def mk_core_def used_len_def
  by (auto split: if_splits)

lemma lb_inv_mk:
  "lb_inv (mk_lb xs f i out u l v) \<longleftrightarrow> mk_core xs f i out l \<and> mk_use xs f i u v"
  unfolding lb_inv_def lb_core_mk
  unfolding mk_lb_def mk_core_def mk_use_def used_len_def pend_len_def
  by (auto split: if_splits)

lemma lb_core_mkE:
  assumes "lb_core b"
  obtains xs f i out u l v where "b = mk_lb xs f i out u l v" "mk_core xs f i out l"
proof -
  obtain xs where xs: "m_pszBuff b = Some xs"
    using assms by (auto simp: lb_core_def split: option.splits)
  have "b = mk_lb xs (nat (m_nFreeLen b)) (nat (m_nInCursor b)) (nat (m_nOutCursor b))
      (nat (m_nUseCursor b)) (m_bLoop b) (m_bUseLoop b)"
    using assms xs by (intro loopbuff.equality) (auto simp: lb_core_def mk_lb_def)
  then show thesis using that assms lb_core_mk by metis
qed

lemma lb_inv_mkE:
  assumes "lb_inv b"
  obtains xs f i out u l v where "b = mk_lb xs f i out u l v"
    "mk_core xs f i out l" "mk_use xs f i u v"
  using assms lb_inv_mk lb_core_mkE unfolding lb_inv_def by metis

lemma lb_data_mk: "f \<le> length xs \<Longrightarrow> lb_data (mk_lb xs f i out u l v) = ring xs out (length xs - f)"
  by (simp add: lb_data_def mk_lb_def lb_block_def used_len_def flip: of_nat_diff)

lemma lb_pending_mk:
  "lb_pending (mk_lb xs f i out u l v) =
     ring xs u (i + (if v then length xs else 0) - u)"
proof -
  have "nat (int (i + (if v then length xs else 0)) - int u) = i + (if v then length xs else 0) - u"
    by linarith
  then show ?thesis
    by (cases v) (simp_all add: lb_pending_def mk_lb_def lb_block_def pend_len_def ac_simps)
qed

section \<open>Every operation on a valid state\<close>

lemma int32_sum: "0 \<le> x \<Longrightarrow> 0 \<le> y \<Longrightarrow> x \<le> 2 ^ 30 \<Longrightarrow> y < 2 ^ 30 \<Longrightarrow> int32 (x + y) = x + y"
  by (intro int32_small) simp_all

lemmas lb_defs = mk_lb_def mk_core_def mk_use_def

lemma priv_in_mk: "mk_core xs f i out l \<Longrightarrow> 0 < f \<Longrightarrow>
    priv_GetInCursorPtr (mk_lb xs f i out u l v) = (Some (int i), mk_lb xs f i out u l v)"
  by (simp add: priv_GetInCursorPtr_def lb_defs)

lemma priv_out_mk: "mk_core xs f i out l \<Longrightarrow> f < length xs \<Longrightarrow>
    priv_GetOutCursorPtr (mk_lb xs f i out u l v) = (Some (int out), mk_lb xs f i out u l v)"
  by (simp add: priv_GetOutCursorPtr_def lb_defs)

lemma copy_in_mk: "off + length src \<le> length xs \<Longrightarrow>
    copy_in (Some (int off)) src (mk_lb xs f i out u l v) =
      Some (mk_lb (blit xs off src) f i out u l v)"
  by (simp add: copy_in_def lb_defs)

lemma copy_in_mk0: "length src \<le> length xs \<Longrightarrow>
    copy_in (Some 0) src (mk_lb xs f i out u l v) =
      Some (mk_lb (blit xs 0 src) f i out u l v)"
  using copy_in_mk [of 0] by simp

lemma copy_out_mk: "off + n \<le> length xs \<Longrightarrow>
    copy_out (Some (int off)) (int n) (mk_lb xs f i out u l v) = Some (take n (drop off xs))"
  by (simp add: copy_out_def lb_defs)

lemma copy_out_mk0: "n \<le> length xs \<Longrightarrow>
    copy_out (Some 0) (int n) (mk_lb xs f i out u l v) = Some (take n xs)"
  using copy_out_mk [of 0] by simp

lemma PushBuff_mk:
  assumes ok: "mk_core xs f i out l" and n: "0 < n" "n \<le> f" "n \<le> length src"
  shows "PushBuff src (int n) (mk_lb xs f i out u l v) =
    Some (True,
      if n + i < length xs then mk_lb (blit xs i (take n src)) (f - n) (i + n) out u l v
      else mk_lb (blit (blit xs i (take (length xs - i) src)) 0 (take (n - (length xs - i)) (drop (length xs - i) src)))
         (f - n) (n + i - length xs) out u True True)"
proof -
  let ?b = "mk_lb xs f i out u l v"
  note priv = priv_in_mk [OF ok]
  have s: "int32 (int n + int i) = int n + int i" "int32 (int i + int n) = int i + int n"
    using ok n by (intro int32_small; simp add: mk_core_def)+
  have T: "m_nTotalLen ?b = int (length xs)" "m_nInCursor ?b = int i" "m_nFreeLen ?b = int f"
    by (simp_all add: mk_lb_def)
  consider "n + i = length xs" | "n + i < length xs" | "n + i > length xs" by linarith
  then show ?thesis
  proof cases
    case 1
    then have "length xs - i = n" by simp
    with 1 show ?thesis using n ok
      by (simp add: PushBuff_def T priv copy_in_mk s) (simp add: lb_defs s)
  next
    case 2
    then show ?thesis using n ok
      by (simp add: PushBuff_def T priv copy_in_mk s) (simp add: lb_defs s)
  next
    case 3
    have i: "i < length xs" using ok by (simp add: mk_core_def)
    let ?k = "length xs - i"
    have e: "int (length xs) - int i = int ?k" "int n - int ?k = int (n - ?k)"
      "int (n - ?k) = int (n + i - length xs)" "n - ?k = n + i - length xs"
      using 3 i by linarith+
    have c0: "copy_in (Some (int i)) (take ?k src) ?b =
        Some (mk_lb (blit xs i (take ?k src)) f i out u l v)"
      using i by (intro copy_in_mk) simp
    have len: "length (blit xs i (take ?k src)) = length xs" using i by simp
    have c1: "copy_in (Some 0) (take (n - ?k) (drop ?k src)) (mk_lb (blit xs i (take ?k src)) f i out u l v) =
        Some (mk_lb (blit (blit xs i (take ?k src)) 0 (take (n - ?k) (drop ?k src))) f i out u l v)"
      using n ok len by (intro copy_in_mk0) (auto simp: mk_core_def)
    have g: "\<not> 0 \<ge> int n" "\<not> int n > int f" "int n + int i \<noteq> int (length xs)"
      "\<not> int n + int i < int (length xs)" "0 < f" "\<not> n + i < length xs"
      using 3 n by linarith+
    show ?thesis
      unfolding PushBuff_def T s using g
      by (simp add: priv e(1,2) c0 c1 Let_def del: of_nat_diff) (simp add: mk_lb_def e(3,4) len)
  qed
qed


lemma push_state_data:
  assumes ok: "mk_core xs f i out l" and n: "0 < n" "n \<le> f" "n \<le> length src"
    and s: "s < length xs" "s + m = i + (if w then length xs else 0)" "m \<le> length xs - f"
  defines "b' \<equiv> (if n + i < length xs then blit xs i (take n src)
      else blit (blit xs i (take (length xs - i) src)) 0 (take (n - (length xs - i)) (drop (length xs - i) src)))"
  shows "ring b' s (m + n) = ring xs s m @ take n src"
proof -
  have i: "i < length xs" "f \<le> length xs" using ok by (simp_all add: mk_core_def)
  have im: "i = (s + m) mod length xs" using s(2) i by (cases w) auto
  show ?thesis
  proof (cases "n + i < length xs")
    case True
    have "ring (blit xs i (take n src)) s (m + length (take n src)) = ring xs s m @ take n src"
      by (rule ring_blit_append [OF s(1) _ im]) (use True n s i in simp_all)
    then show ?thesis using True n by (simp add: b'_def)
  next
    case False
    let ?a = "take (length xs - i) src" and ?c = "take (n - (length xs - i)) (drop (length xs - i) src)"
    have ac: "?a @ ?c = take n src"
      using False by (metis add_diff_inverse_nat le_diff_conv not_less take_add)
    have la: "length ?a = length xs - i" "length ?c = n - (length xs - i)" using False n i by auto
    have "ring b' s (m + length ?a + length ?c) = ring xs s m @ ?a @ ?c"
      unfolding b'_def using False
      by (simp only: if_False, intro ring_blit_blit_append [OF s(1) _ im]) (use n s i la False in linarith)+
    moreover have "m + length ?a + length ?c = m + n" using la False by linarith
    ultimately show ?thesis using ac by (simp only:)
  qed
qed


lemma PopBuff_mk:
  assumes ok: "mk_core xs f i out l" and n: "0 < n" "n \<le> length xs - f"
  shows "PopBuff (int n) (mk_lb xs f i out u l v) =
    Some (True, ring xs out n,
      if n + out < length xs then mk_lb xs (f + n) i (out + n) u l v
      else mk_lb xs (f + n) i (n + out - length xs) u False v)"
proof -
  let ?b = "mk_lb xs f i out u l v"
  have f: "f < length xs" "out < length xs" "f + n \<le> length xs"
    using n ok by (auto simp: mk_core_def)
  note priv = priv_out_mk [OF ok f(1)]
  have s: "int32 (int n + int out) = int n + int out" "int32 (int out + int n) = int out + int n"
    "int32 (int n + int f) = int n + int f" "int32 (int f + int n) = int f + int n"
    using f n ok by (intro int32_small; simp add: mk_core_def)+
  have T: "m_nTotalLen ?b = int (length xs)" "m_nOutCursor ?b = int out" "m_nFreeLen ?b = int f"
    by (simp_all add: mk_lb_def)
  consider "n + out = length xs" | "n + out < length xs" | "n + out > length xs" by linarith
  then show ?thesis
  proof cases
    case 1
    then show ?thesis using n f
      by (simp add: PopBuff_def T priv copy_out_mk ring_linear s) (simp add: lb_defs s)
  next
    case 2
    then show ?thesis using n f
      by (simp add: PopBuff_def T priv copy_out_mk ring_linear s) (simp add: lb_defs s)
  next
    case 3
    let ?k = "length xs - out"
    have e: "int (length xs) - int out = int ?k" "int n - int ?k = int (n - ?k)"
      "n - ?k = n + out - length xs"
      using 3 f by linarith+
    have o0: "copy_out (Some (int out)) (int ?k) ?b = Some (drop out xs)"
      using f copy_out_mk [of out ?k xs] by simp
    have o1: "copy_out (Some 0) (int (n - ?k)) ?b = Some (take (n - ?k) xs)"
      using f by (intro copy_out_mk0) simp
    have r: "ring xs out n = drop out xs @ take (n - ?k) xs"
      using 3 f by (subst ring_wrap) (simp_all add: e(3) add.commute)
    have g: "\<not> 0 \<ge> int n" "\<not> int n + int f > int (length xs)" "int n + int out \<noteq> int (length xs)"
      "\<not> int n + int out < int (length xs)" "\<not> n + out < length xs" "n + f \<le> length xs"
      using 3 f n by linarith+
    show ?thesis
      unfolding PopBuff_def T s using g
      by (simp add: priv e(1,2) o0 o1 r Let_def del: of_nat_diff) (simp add: mk_lb_def e(3) s)
  qed
qed

lemma DiscardBuff_mk:
  assumes ok: "mk_core xs f i out l" and n: "0 < n" "n \<le> length xs - f"
  shows "DiscardBuff (int n) (mk_lb xs f i out u l v) =
    (True,
      if n + out < length xs then mk_lb xs (f + n) i (out + n) u l v
      else mk_lb xs (f + n) i (n + out - length xs) u False v)"
  using n ok by (auto simp: DiscardBuff_def lb_defs int32_small)

lemma CostBuff_mk:
  assumes ok: "mk_core xs f i out l" and n: "0 < n" "n \<le> f"
  shows "CostBuff (int n) (mk_lb xs f i out u l v) =
    (True,
      if n + i < length xs then mk_lb xs (f - n) (i + n) out u l v
      else mk_lb xs (f - n) (n + i - length xs) out u True True)"
  using n ok by (auto simp: CostBuff_def lb_defs int32_small)

lemma CostUsedBuff_mk:
  assumes ok: "mk_core xs f i out l" "mk_use xs f i u v"
    and n: "0 < n" "n \<le> i + (if v then length xs else 0) - u"
  shows "CostUsedBuff (int n) (mk_lb xs f i out u l v) =
    (True,
      if n + u < length xs then mk_lb xs f i out (u + n) l v
      else mk_lb xs f i out (n + u - length xs) l False)"
  using n ok by (cases v) (auto simp: CostUsedBuff_def lb_defs Let_def int32_small)

text \<open>The well-formedness of the states these reach.\<close>

lemma core_push:
  assumes "mk_core xs f i out l" "n \<le> f" "length ys = length xs"
  shows "n + i < length xs \<Longrightarrow> mk_core ys (f - n) (i + n) out l"
    and "\<not> n + i < length xs \<Longrightarrow> mk_core ys (f - n) (n + i - length xs) out True"
  using assms by (auto simp: mk_core_def split: if_splits)

lemma use_push:
  assumes "mk_core xs f i out l" "mk_use xs f i u v" "n \<le> f" "length ys = length xs"
  shows "n + i < length xs \<Longrightarrow> mk_use ys (f - n) (i + n) u v"
    and "\<not> n + i < length xs \<Longrightarrow> mk_use ys (f - n) (n + i - length xs) u True"
    and "\<not> n + i < length xs \<Longrightarrow> \<not> v"
  using assms by (auto simp: mk_core_def mk_use_def split: if_splits)

lemma core_pop:
  assumes "mk_core xs f i out l" "n \<le> length xs - f"
  shows "n + out < length xs \<Longrightarrow> mk_core xs (f + n) i (out + n) l"
    and "\<not> n + out < length xs \<Longrightarrow> mk_core xs (f + n) i (n + out - length xs) False"
  using assms by (auto simp: mk_core_def split: if_splits)

lemma use_pop:
  assumes "mk_use xs f i u v" "f \<le> length xs" "n + (i + (if v then length xs else 0) - u) \<le> length xs - f"
  shows "mk_use xs (f + n) i u v"
  using assms by (auto simp: mk_use_def)

lemma used_wf:
  assumes "mk_use xs f i u v" "n \<le> i + (if v then length xs else 0) - u" "i < length xs"
  shows "n + u < length xs \<Longrightarrow> mk_use xs f i (u + n) v"
    and "\<not> n + u < length xs \<Longrightarrow> mk_use xs f i (n + u - length xs) False"
    and "\<not> n + u < length xs \<Longrightarrow> v"
  using assms by (auto simp: mk_use_def split: if_splits)

section \<open>Functional behaviour\<close>

lemma nat_used_mk: "f \<le> length xs \<Longrightarrow> used_len (mk_lb xs f i out u l v) = int (length xs - f)"
  by (simp add: used_len_def mk_lb_def)

lemma length_lb_data: "lb_core b \<Longrightarrow> int (length (lb_data b)) = used_len b"
  by (elim lb_core_mkE) (simp add: lb_data_mk nat_used_mk mk_core_def)

lemma length_lb_pending: "lb_inv b \<Longrightarrow> int (length (lb_pending b)) = pend_len b"
  by (simp add: lb_inv_def lb_pending_def)

lemma lb_inv_core: "lb_inv b \<Longrightarrow> lb_core b"
  by (simp add: lb_inv_def)

lemma Init_ok:
  assumes "0 < nLen" "nLen \<le> 2 ^ 30" "length blk = nat nLen"
  shows "\<exists>b. Init (Some blk) nLen FxLoopBuff = (True, b) \<and> lb_inv b \<and> lb_data b = [] \<and>
    lb_pending b = [] \<and> m_nFreeLen b = nLen \<and> m_nTotalLen b = nLen"
  using assms by (auto simp: Init_def FxLoopBuff_def lb_inv_def lb_core_def used_len_def
    pend_len_def lb_data_def lb_pending_def)

lemma PushBuff_refused:
  "nLen \<le> 0 \<or> m_nFreeLen b < nLen \<Longrightarrow> PushBuff src nLen b = Some (False, b)"
  by (auto simp: PushBuff_def)

lemma length_pushed:
  assumes "mk_core xs f i out l" "n \<le> f" "n \<le> length src"
  shows "n + i < length xs \<Longrightarrow> length (blit xs i (take n src)) = length xs"
    and "\<not> n + i < length xs \<Longrightarrow>
      length (blit (blit xs i (take (length xs - i) src)) 0
        (take (n - (length xs - i)) (drop (length xs - i) src))) = length xs"
  using assms by (auto simp: mk_core_def)

text \<open>The state \<open>PushBuff\<close> leaves, whichever of its three branches ran.\<close>

lemma PushBuff_result:
  assumes ok: "mk_core xs f i out l" and n: "0 < n" "n \<le> f" "n \<le> length src"
  obtains ys i' l' v' where
    "PushBuff src (int n) (mk_lb xs f i out u l v) = Some (True, mk_lb ys (f - n) i' out u l' v')"
    "length ys = length xs" "mk_core ys (f - n) i' out l'"
    "mk_use xs f i u v \<Longrightarrow> mk_use ys (f - n) i' u v'"
    "mk_use xs f i u v \<Longrightarrow>
       i' + (if v' then length xs else 0) = i + (if v then length xs else 0) + n"
    "\<And>s m w. s < length xs \<Longrightarrow> s + m = i + (if w then length xs else 0) \<Longrightarrow> m \<le> length xs - f \<Longrightarrow>
       ring ys s (m + n) = ring xs s m @ take n src"
proof (cases "n + i < length xs")
  case True
  show ?thesis
  proof (rule that)
    show "PushBuff src (int n) (mk_lb xs f i out u l v) =
        Some (True, mk_lb (blit xs i (take n src)) (f - n) (i + n) out u l v)"
      using True PushBuff_mk [OF ok n] by simp
    show len: "length (blit xs i (take n src)) = length xs"
      using True length_pushed(1) [OF ok n(2,3)] by simp
    show "mk_core (blit xs i (take n src)) (f - n) (i + n) out l"
      using True core_push(1) [OF ok n(2) len] by simp
    show "mk_use (blit xs i (take n src)) (f - n) (i + n) u v" if "mk_use xs f i u v"
      using True use_push(1) [OF ok that n(2) len] by simp
    show "ring (blit xs i (take n src)) s (m + n) = ring xs s m @ take n src"
      if "s < length xs" "s + m = i + (if w then length xs else 0)" "m \<le> length xs - f" for s m w
      using True push_state_data [OF ok n that] by simp
  qed simp
next
  case False
  let ?ys = "blit (blit xs i (take (length xs - i) src)) 0
    (take (n - (length xs - i)) (drop (length xs - i) src))"
  show ?thesis
  proof (rule that)
    show "PushBuff src (int n) (mk_lb xs f i out u l v) =
        Some (True, mk_lb ?ys (f - n) (n + i - length xs) out u True True)"
      using False PushBuff_mk [OF ok n] by simp
    show len: "length ?ys = length xs"
      using False length_pushed(2) [OF ok n(2,3)] by simp
    show "mk_core ?ys (f - n) (n + i - length xs) out True"
      using False core_push(2) [OF ok n(2) len] by simp
    show "mk_use ?ys (f - n) (n + i - length xs) u True" if "mk_use xs f i u v"
      using False use_push(2) [OF ok that n(2) len] by simp
    show "n + i - length xs + (if True then length xs else 0) = i + (if v then length xs else 0) + n"
      if "mk_use xs f i u v"
      using False use_push(3) [OF ok that n(2) len] by simp
    show "ring ?ys s (m + n) = ring xs s m @ take n src"
      if "s < length xs" "s + m = i + (if w then length xs else 0)" "m \<le> length xs - f" for s m w
      using False push_state_data [OF ok n that] by simp
  qed
qed

lemma PushBuff_core:
  assumes "lb_core b" "0 < nLen" "nLen \<le> m_nFreeLen b" "nLen \<le> int (length src)"
  shows "\<exists>b'. PushBuff src nLen b = Some (True, b') \<and> lb_core b' \<and>
    lb_data b' = lb_data b @ take (nat nLen) src \<and>
    m_nFreeLen b' = m_nFreeLen b - nLen \<and> m_nTotalLen b' = m_nTotalLen b"
proof -
  obtain xs f i out u l v where b: "b = mk_lb xs f i out u l v" and ok: "mk_core xs f i out l"
    using assms(1) by (rule lb_core_mkE)
  define n where "n = nat nLen"
  have n: "nLen = int n" "0 < n" "n \<le> f" "n \<le> length src"
    using assms b by (auto simp: n_def mk_lb_def)
  have out: "out < length xs" "f \<le> length xs" "out + (length xs - f) = i + (if l then length xs else 0)"
    using ok by (simp_all add: mk_core_def)
  obtain ys i' l' v' where r:
    "PushBuff src nLen b = Some (True, mk_lb ys (f - n) i' out u l' v')"
    "length ys = length xs" "mk_core ys (f - n) i' out l'"
    "ring ys out (length xs - f + n) = ring xs out (length xs - f) @ take n src"
  proof (rule PushBuff_result [OF ok n(2-4), of u v], goal_cases)
    case (1 ys i' l' v')
    show ?thesis
      by (rule 1(1)) (use 1(2-4) 1(7) [OF out(1) out(3)] n(1) b in auto)
  qed
  have "lb_data (mk_lb ys (f - n) i' out u l' v') = lb_data b @ take (nat nLen) src"
    using r n out by (simp add: b lb_data_mk)
  then show ?thesis using r n by (simp add: lb_core_mk) (simp add: b mk_lb_def)
qed

lemma PushBuff_inv:
  assumes "lb_inv b" "0 < nLen" "nLen \<le> m_nFreeLen b" "nLen \<le> int (length src)"
    and p: "PushBuff src nLen b = Some (r, b')"
  shows "lb_inv b' \<and> lb_pending b' = lb_pending b @ take (nat nLen) src"
proof -
  obtain xs f i out u l v where b: "b = mk_lb xs f i out u l v" and ok: "mk_core xs f i out l"
    and use: "mk_use xs f i u v"
    using assms(1) by (rule lb_inv_mkE)
  define n where "n = nat nLen"
  have n: "nLen = int n" "0 < n" "n \<le> f" "n \<le> length src"
    using assms b by (auto simp: n_def mk_lb_def)
  define m where "m = i + (if v then length xs else 0) - u"
  have u: "u < length xs" "u + m = i + (if v then length xs else 0)" "m \<le> length xs - f"
    using use by (auto simp: mk_use_def m_def)
  obtain ys i' l' v' where r: "b' = mk_lb ys (f - n) i' out u l' v'"
    "length ys = length xs" "mk_core ys (f - n) i' out l'" "mk_use ys (f - n) i' u v'"
    "i' + (if v' then length xs else 0) = i + (if v then length xs else 0) + n"
    "ring ys u (m + n) = ring xs u m @ take n src"
    by (rule PushBuff_result [OF ok n(2-4), of u v]) (use u n(1) b p use in auto)
  have "i' + (if v' then length ys else 0) - u = m + n"
    unfolding r(2) using r(5) u(2) by linarith
  then show ?thesis using r n by (simp add: lb_inv_mk b lb_pending_mk flip: m_def)
qed

lemma PopBuff_refused:
  "nLen \<le> 0 \<or> used_len b < nLen \<and> 0 \<le> m_nFreeLen b \<and> nLen + m_nFreeLen b < 2 ^ 31 \<Longrightarrow>
    PopBuff nLen b = Some (False, [], b)"
  by (auto simp: PopBuff_def used_len_def int32_small)

lemma PopBuff_core:
  assumes "lb_core b" "0 < nLen" "nLen \<le> used_len b"
  shows "\<exists>b'. PopBuff nLen b = Some (True, take (nat nLen) (lb_data b), b') \<and> lb_core b' \<and>
    lb_data b' = drop (nat nLen) (lb_data b) \<and>
    m_nFreeLen b' = m_nFreeLen b + nLen \<and> m_nTotalLen b' = m_nTotalLen b"
proof -
  obtain xs f i out u l v where b: "b = mk_lb xs f i out u l v" and ok: "mk_core xs f i out l"
    using assms(1) by (rule lb_core_mkE)
  define n where "n = nat nLen"
  have f: "f \<le> length xs" "out < length xs" using ok by (auto simp: mk_core_def)
  have n: "nLen = int n" "0 < n" "n \<le> length xs - f"
    using assms b f by (auto simp: n_def nat_used_mk)
  note core = core_pop [OF ok n(3)]
  have r: "ring xs (n + out - length xs) k = ring xs (out + n) k" if "\<not> n + out < length xs" for k
  proof -
    have "(out + n) mod length xs = n + out - length xs"
      using that f n by (subst mod_wrap) auto
    then show ?thesis by (metis ring_mod)
  qed
  have e: "length xs - f - n = length xs - (f + n)" by simp
  show ?thesis
  proof (cases "n + out < length xs")
    case True
    then show ?thesis using n f
      by (simp add: b PopBuff_mk [OF ok] lb_core_mk core lb_data_mk take_ring drop_ring e)
         (simp add: mk_lb_def)
  next
    case False
    then show ?thesis using n f
      by (simp add: b PopBuff_mk [OF ok] lb_core_mk core lb_data_mk take_ring drop_ring e r)
         (simp add: mk_lb_def)
  qed
qed


lemma PopBuff_inv:
  assumes "lb_inv b" "0 < nLen" "nLen \<le> used_len b - pend_len b"
    and p: "PopBuff nLen b = Some (r, out', b')"
  shows "lb_inv b' \<and> lb_pending b' = lb_pending b"
proof -
  obtain xs f i out u l v where b: "b = mk_lb xs f i out u l v" and ok: "mk_core xs f i out l"
    and use: "mk_use xs f i u v"
    using assms(1) by (rule lb_inv_mkE)
  define n where "n = nat nLen"
  have f: "f \<le> length xs" "out < length xs" using ok by (auto simp: mk_core_def)
  have pl: "pend_len b = int (i + (if v then length xs else 0) - u)"
    using use by (auto simp: b pend_len_def mk_lb_def mk_use_def)
  have n: "nLen = int n" "0 < n" "n + (i + (if v then length xs else 0) - u) \<le> length xs - f"
    using assms pl f by (auto simp: b n_def nat_used_mk)
  have n': "n \<le> length xs - f" using n by simp
  show ?thesis
    using p n core_pop [OF ok n'] use_pop [OF use f(1) n(3)]
    by (auto simp: b PopBuff_mk [OF ok _ n'] lb_inv_mk lb_pending_mk split: if_splits)
qed

lemma DiscardBuff_Pop:
  assumes "lb_core b" "nLen + m_nFreeLen b < 2 ^ 31"
  shows "DiscardBuff nLen b = (case PopBuff nLen b of Some (r, out, b') \<Rightarrow> (r, b'))"
proof (cases "0 < nLen \<and> nLen \<le> used_len b")
  case True
  obtain xs f i out u l v where b: "b = mk_lb xs f i out u l v" and ok: "mk_core xs f i out l"
    using assms(1) by (rule lb_core_mkE)
  define n where "n = nat nLen"
  have n: "nLen = int n" "0 < n" "n \<le> length xs - f"
    using True b ok by (auto simp: n_def nat_used_mk mk_core_def)
  show ?thesis using n by (simp add: b DiscardBuff_mk [OF ok] PopBuff_mk [OF ok])
next
  case False
  have "0 \<le> m_nFreeLen b" using assms(1) by (simp add: lb_core_def)
  with False have "PopBuff nLen b = Some (False, [], b)"
    using assms(2) by (intro PopBuff_refused) auto
  then show ?thesis using False assms(2) \<open>0 \<le> m_nFreeLen b\<close>
    by (auto simp: DiscardBuff_def used_len_def int32_small)
qed

lemma DiscardBuff_core:
  assumes "lb_core b" "0 < nLen" "nLen \<le> used_len b"
  shows "\<exists>b'. DiscardBuff nLen b = (True, b') \<and> lb_core b' \<and> lb_data b' = drop (nat nLen) (lb_data b) \<and>
    m_nFreeLen b' = m_nFreeLen b + nLen \<and> m_nTotalLen b' = m_nTotalLen b"
proof -
  have "nLen + m_nFreeLen b < 2 ^ 31" using assms by (simp add: lb_core_def used_len_def)
  then show ?thesis using PopBuff_core [OF assms] DiscardBuff_Pop [OF assms(1), of nLen] by auto
qed

lemma CostUsedBuff_refused:
  assumes "lb_inv b" "nLen \<le> 0 \<or> pend_len b < nLen" "nLen \<le> 2 ^ 30"
  shows "CostUsedBuff nLen b = (False, b)"
  using assms by (auto simp: CostUsedBuff_def lb_inv_def lb_core_def pend_len_def used_len_def Let_def int32_small split: if_splits)

lemma CostUsedBuff_ok:
  assumes "lb_inv b" "0 < nLen" "nLen \<le> pend_len b"
  shows "\<exists>b'. CostUsedBuff nLen b = (True, b') \<and> lb_inv b' \<and> lb_data b' = lb_data b \<and>
    lb_pending b' = drop (nat nLen) (lb_pending b) \<and> m_nFreeLen b' = m_nFreeLen b"
proof -
  obtain xs f i out u l v where b: "b = mk_lb xs f i out u l v" and ok: "mk_core xs f i out l"
    and use: "mk_use xs f i u v"
    using assms(1) by (rule lb_inv_mkE)
  define n where "n = nat nLen"
  define m where "m = i + (if v then length xs else 0) - u"
  have i: "i < length xs" "f \<le> length xs" using ok by (simp_all add: mk_core_def)
  have pl: "pend_len b = int m"
    using use by (auto simp: b pend_len_def mk_lb_def mk_use_def m_def)
  have n: "nLen = int n" "0 < n" "n \<le> m"
    using assms pl by (auto simp: n_def)
  have n': "n \<le> i + (if v then length xs else 0) - u" using n m_def by simp
  note wf = used_wf [OF use n' i(1)] and ex = CostUsedBuff_mk [OF ok use n(2) n', folded m_def]
  show ?thesis
  proof (cases "n + u < length xs")
    case True
    have "i + (if v then length xs else 0) - (u + n) = m - n" by (simp add: m_def)
    then show ?thesis using True wf ex n ok i
      by (simp add: b lb_inv_mk lb_data_mk lb_pending_mk drop_ring flip: m_def)
         (simp add: mk_lb_def)
  next
    case False
    then have v: "v" using wf by simp
    have "(u + n) mod length xs = n + u - length xs"
      using False n use i by (subst mod_wrap) (auto simp: mk_use_def m_def split: if_splits)
    then have r: "ring xs (n + u - length xs) k = ring xs (u + n) k" for k
      by (metis ring_mod)
    have "i - (n + u - length xs) = m - n" using False v i by (simp add: m_def)
    moreover have "lb_pending b = ring xs u m" by (simp add: b lb_pending_mk m_def)
    ultimately have "lb_pending (mk_lb xs f i out (n + u - length xs) l False) =
        drop n (lb_pending b)"
      using n by (simp add: lb_pending_mk r drop_ring)
    then show ?thesis using False wf ex n ok i v
      by (simp add: b lb_inv_mk lb_data_mk) (simp add: mk_lb_def)
  qed
qed

lemma GetUseLen_pending: "lb_inv b \<Longrightarrow> GetUseLen b = int (length (lb_pending b))"
  by (auto simp: length_lb_pending GetUseLen_def lb_inv_def lb_core_def pend_len_def used_len_def int32_small)

text \<open>The contiguous regions the pointer queries hand out.\<close>

lemma GetUsedCursorPtr_region:
  assumes "lb_inv b" "GetUsedCursorPtr b = (Some p, k)"
  shows "0 \<le> p \<and> 0 \<le> k \<and> nat p + nat k \<le> length (lb_block b) \<and>
    take (nat k) (drop (nat p) (lb_block b)) = take (nat k) (lb_pending b) \<and>
    (k = 0 \<longrightarrow> lb_pending b = []) \<and> k \<le> pend_len b"
proof -
  obtain xs f i out u l v where b: "b = mk_lb xs f i out u l v" and ok: "mk_core xs f i out l"
    and use: "mk_use xs f i u v"
    using assms(1) by (rule lb_inv_mkE)
  define k' where "k' = (if v then length xs else i) - u"
  have pk: "p = int u" "k = int k'" "lb_block b = xs" "u + k' \<le> length xs"
    "k' \<le> i + (if v then length xs else 0) - u" "k' = 0 \<longrightarrow> i + (if v then length xs else 0) - u = 0"
    using assms(2) ok use
    by (auto simp: b GetUsedCursorPtr_def mk_lb_def k'_def mk_use_def mk_core_def lb_block_def split: if_splits)
  moreover have "pend_len b = int (i + (if v then length xs else 0) - u)"
    using use by (auto simp: b pend_len_def mk_lb_def mk_use_def)
  ultimately show ?thesis
    by (auto simp: b lb_pending_mk take_ring ring_linear)
qed

lemma GetOutCursorPtr_region:
  assumes "lb_core b" "GetOutCursorPtr b = (p, k)"
  shows "if lb_data b = [] then p = None \<and> k = 0
    else \<exists>off. p = Some off \<and> 0 \<le> off \<and> 0 < k \<and> nat off + nat k \<le> length (lb_block b) \<and>
      k \<le> used_len b \<and> take (nat k) (drop (nat off) (lb_block b)) = take (nat k) (lb_data b)"
proof -
  obtain xs f i out u l v where b: "b = mk_lb xs f i out u l v" and ok: "mk_core xs f i out l"
    using assms(1) by (rule lb_core_mkE)
  have f: "f \<le> length xs" using ok by (simp add: mk_core_def)
  then have data: "lb_data b = ring xs out (length xs - f)" by (simp add: b lb_data_mk)
  then have "length (lb_data b) = length xs - f" by simp
  then have empty: "lb_data b = [] \<longleftrightarrow> f = length xs" using f by (cases "lb_data b") auto
  define k' where "k' = (if l then length xs else i) - out"
  show ?thesis
  proof (cases "f = length xs")
    case True
    then show ?thesis using assms(2) empty by (auto simp: b GetOutCursorPtr_def mk_lb_def)
  next
    case False
    then have pk: "p = Some (int out)" "k = int k'" "lb_block b = xs" "out + k' \<le> length xs"
      "k' \<le> length xs - f" "0 < k'" "used_len b = int (length xs - f)"
      using assms(2) ok
      by (auto simp: b GetOutCursorPtr_def mk_lb_def k'_def mk_core_def lb_block_def used_len_def
          split: if_splits)
    then show ?thesis using False empty data by (simp add: take_ring ring_linear)
  qed
qed


section \<open>Receiving straight into the block\<close>

text \<open>The sockets \<open>recv\<close> into the address \<open>GetInCursorPtr\<close> returned and then call \<open>CostBuff\<close>
  with the number of bytes received: together this is a \<open>PushBuff\<close> of these bytes.\<close>

lemma GetInCursorPtr_room:
  assumes "lb_core b" "GetInCursorPtr b = (p, k)"
  shows "k \<le> m_nFreeLen b" "0 < m_nFreeLen b \<Longrightarrow> 0 < k \<and> p = Some (m_nInCursor b)"
    and "m_nInCursor b + k \<le> m_nTotalLen b"
  using assms by (auto simp: GetInCursorPtr_def lb_core_def used_len_def split: if_splits)

lemma CostBuff_after_recv:
  assumes "lb_core b" "GetInCursorPtr b = (Some off, k)" "src \<noteq> []" "int (length src) \<le> k"
  shows "\<exists>b1. copy_in (Some off) src b = Some b1 \<and>
    PushBuff src (int (length src)) b = Some (CostBuff (int (length src)) b1)"
proof -
  obtain xs f i out u l v where b: "b = mk_lb xs f i out u l v" and ok: "mk_core xs f i out l"
    using assms(1) by (rule lb_core_mkE)
  have k: "off = int i" "length src \<le> f" "i + length src \<le> length xs" "0 < f"
    using GetInCursorPtr_room [OF assms(1,2)] assms
    by (auto simp: b mk_lb_def GetInCursorPtr_def split: if_splits)
  have ok': "mk_core (blit xs i src) f i out l" using ok k by (simp add: mk_core_def)
  have "copy_in (Some off) src b = Some (mk_lb (blit xs i src) f i out u l v)"
    using k copy_in_mk [of i src xs] by (simp add: b)
  moreover have "PushBuff src (int (length src)) b =
      Some (CostBuff (int (length src)) (mk_lb (blit xs i src) f i out u l v))"
    using k assms(3) PushBuff_mk [OF ok, of "length src" src] CostBuff_mk [OF ok', of "length src"]
    by (auto simp: b)
  ultimately show ?thesis by blast
qed

section \<open>The interface: a bounded queue of bytes\<close>

datatype queue_event = Put bytes | Take int

datatype queue_answer = Stored bool | Handed "bytes option"

text \<open>A queue of at most \<open>cap\<close> bytes: what it answers to \<open>Put\<close>s and \<open>Take\<close>s, and what it holds
  after them.\<close>

fun queue_spec :: "int \<Rightarrow> queue_event list \<Rightarrow> bytes \<Rightarrow> queue_answer list \<times> bytes" where
  "queue_spec cap [] q = ([], q)"
| "queue_spec cap (Put src # es) q =
    (let fits = (src \<noteq> [] \<and> int (length q + length src) \<le> cap);
         (rs, q') = queue_spec cap es (if fits then q @ src else q)
     in (Stored fits # rs, q'))"
| "queue_spec cap (Take n # es) q =
    (let there = (0 < n \<and> n \<le> int (length q));
         (rs, q') = queue_spec cap es (if there then drop (nat n) q else q)
     in (Handed (if there then Some (take (nat n) q) else None) # rs, q'))"

text \<open>The answers of the buffer's own operations.\<close>

fun run_queue :: "(bytes \<Rightarrow> 's \<Rightarrow> (bool \<times> 's) option) \<Rightarrow> (int \<Rightarrow> 's \<Rightarrow> (bool \<times> bytes \<times> 's) option) \<Rightarrow>
    queue_event list \<Rightarrow> 's \<Rightarrow> (queue_answer list \<times> 's) option" where
  "run_queue push pop [] s = Some ([], s)"
| "run_queue push pop (Put src # es) s =
    (case push src s of None \<Rightarrow> None
     | Some (ok, s') \<Rightarrow> map_option (\<lambda>(rs, s''). (Stored ok # rs, s'')) (run_queue push pop es s'))"
| "run_queue push pop (Take n # es) s =
    (case pop n s of None \<Rightarrow> None
     | Some (ok, out, s') \<Rightarrow>
        map_option (\<lambda>(rs, s''). (Handed (if ok then Some out else None) # rs, s'')) (run_queue push pop es s'))"

text \<open>The lengths of a request are \<open>int\<close>s, and so is the number of bytes taken and the capacity
  together.\<close>

fun request_fits :: "int \<Rightarrow> queue_event \<Rightarrow> bool" where
  "request_fits cap (Put src) \<longleftrightarrow> int (length src) < 2 ^ 31"
| "request_fits cap (Take n) \<longleftrightarrow> n + cap < 2 ^ 31"

locale byte_queue =
  fixes inv :: "int \<Rightarrow> 's \<Rightarrow> bool" and data :: "'s \<Rightarrow> bytes"
    and push :: "bytes \<Rightarrow> 's \<Rightarrow> (bool \<times> 's) option"
    and pop :: "int \<Rightarrow> 's \<Rightarrow> (bool \<times> bytes \<times> 's) option"
  assumes push_accepts: "inv cap s \<Longrightarrow> src \<noteq> [] \<Longrightarrow> int (length (data s) + length src) \<le> cap \<Longrightarrow>
      \<exists>s'. push src s = Some (True, s') \<and> inv cap s' \<and> data s' = data s @ src"
    and push_refuses: "inv cap s \<Longrightarrow> src = [] \<or> cap < int (length (data s) + length src) \<Longrightarrow>
      push src s = Some (False, s)"
    and pop_accepts: "inv cap s \<Longrightarrow> 0 < n \<Longrightarrow> n \<le> int (length (data s)) \<Longrightarrow>
      \<exists>s'. pop n s = Some (True, take (nat n) (data s), s') \<and> inv cap s' \<and> data s' = drop (nat n) (data s)"
    and pop_refuses: "inv cap s \<Longrightarrow> n + cap < 2 ^ 31 \<Longrightarrow> n \<le> 0 \<or> int (length (data s)) < n \<Longrightarrow>
      pop n s = Some (False, [], s)"
begin

lemma put_spec:
  assumes "inv cap s"
  shows "\<exists>s'. push src s = Some (src \<noteq> [] \<and> int (length (data s) + length src) \<le> cap, s') \<and> inv cap s' \<and>
    data s' = (if src \<noteq> [] \<and> int (length (data s) + length src) \<le> cap then data s @ src else data s)"
proof (cases "src \<noteq> [] \<and> int (length (data s) + length src) \<le> cap")
  case True
  then show ?thesis using push_accepts [OF assms] by simp
next
  case False
  then have "push src s = Some (False, s)" by (intro push_refuses [OF assms]) linarith
  then show ?thesis using False assms by (simp only: if_False) simp
qed

lemma take_spec:
  assumes "inv cap s" "n + cap < 2 ^ 31"
  shows "\<exists>ok out s'. pop n s = Some (ok, out, s') \<and> inv cap s' \<and>
    (if ok then Some out else None) = (if 0 < n \<and> n \<le> int (length (data s)) then Some (take (nat n) (data s)) else None) \<and>
    data s' = (if 0 < n \<and> n \<le> int (length (data s)) then drop (nat n) (data s) else data s)"
proof (cases "0 < n \<and> n \<le> int (length (data s))")
  case True
  then obtain s' where "pop n s = Some (True, take (nat n) (data s), s')" "inv cap s'" "data s' = drop (nat n) (data s)"
    using pop_accepts [OF assms(1)] by blast
  then show ?thesis using True by (intro exI [of _ True] exI [of _ "take (nat n) (data s)"] exI [of _ s']) simp
next
  case False
  then have "pop n s = Some (False, [], s)" using assms by (intro pop_refuses) auto
  then show ?thesis using False assms(1)
    by (intro exI [of _ False] exI [of _ "[]"] exI [of _ s]) (simp only: if_False if_False simp_thms)
qed

lemma run_spec:
  "inv cap s \<Longrightarrow> \<forall>e \<in> set es. request_fits cap e \<Longrightarrow>
    \<exists>s'. run_queue push pop es s = Some (fst (queue_spec cap es (data s)), s') \<and> inv cap s' \<and>
      data s' = snd (queue_spec cap es (data s))"
proof (induction es arbitrary: s)
  case (Cons e es)
  have es: "\<forall>e \<in> set es. request_fits cap e" using Cons.prems(2) by simp
  show ?case
  proof (cases e)
    case (Put src)
    obtain s' where s': "push src s = Some (src \<noteq> [] \<and> int (length (data s) + length src) \<le> cap, s')" "inv cap s'"
      "data s' = (if src \<noteq> [] \<and> int (length (data s) + length src) \<le> cap then data s @ src else data s)"
      using put_spec [OF Cons.prems(1)] by blast
    obtain s'' where "run_queue push pop es s' = Some (fst (queue_spec cap es (data s')), s'')" "inv cap s''"
      "data s'' = snd (queue_spec cap es (data s'))"
      using Cons.IH [OF s'(2) es] by blast
    then show ?thesis using s'(1) by (simp add: Put Let_def case_prod_beta s'(3))
  next
    case (Take n)
    have n: "n + cap < 2 ^ 31" using Cons.prems(2) Take by simp
    obtain ok out s' where s': "pop n s = Some (ok, out, s')" "inv cap s'"
      "(if ok then Some out else None) = (if 0 < n \<and> n \<le> int (length (data s)) then Some (take (nat n) (data s)) else None)"
      "data s' = (if 0 < n \<and> n \<le> int (length (data s)) then drop (nat n) (data s) else data s)"
      using take_spec [OF Cons.prems(1) n] by blast
    obtain s'' where "run_queue push pop es s' = Some (fst (queue_spec cap es (data s')), s'')" "inv cap s''"
      "data s'' = snd (queue_spec cap es (data s'))"
      using Cons.IH [OF s'(2) es] by blast
    moreover have "run_queue push pop (e # es) s = map_option (\<lambda>(rs, s''). (Handed (if 0 < n \<and> n \<le> int (length (data s))
        then Some (take (nat n) (data s)) else None) # rs, s'')) (run_queue push pop es s')"
      using s'(1) by (simp add: Take flip: s'(3))
    ultimately show ?thesis by (simp add: Take Let_def case_prod_beta s'(4))
  qed
qed simp

end

interpretation lbq: byte_queue "\<lambda>cap b. lb_core b \<and> m_nTotalLen b = cap" lb_data
  "\<lambda>src. PushBuff src (int (length src))" PopBuff
proof unfold_locales
  fix cap and s :: loopbuff and src :: bytes
  assume s: "lb_core s \<and> m_nTotalLen s = cap" and ne: "src \<noteq> []" and fit: "int (length (lb_data s) + length src) \<le> cap"
  have "int (length src) \<le> m_nFreeLen s" using fit s length_lb_data [of s] by (simp add: used_len_def)
  then show "\<exists>s'. PushBuff src (int (length src)) s = Some (True, s') \<and> (lb_core s' \<and> m_nTotalLen s' = cap) \<and>
      lb_data s' = lb_data s @ src"
    using PushBuff_core [of s "int (length src)" src] s ne by auto
next
  fix cap and s :: loopbuff and src :: bytes
  assume s: "lb_core s \<and> m_nTotalLen s = cap" and no: "src = [] \<or> cap < int (length (lb_data s) + length src)"
  have "int (length src) \<le> 0 \<or> m_nFreeLen s < int (length src)"
    using no s length_lb_data [of s] by (auto simp: used_len_def)
  then show "PushBuff src (int (length src)) s = Some (False, s)" by (rule PushBuff_refused)
next
  fix cap and s :: loopbuff and n :: int
  assume "lb_core s \<and> m_nTotalLen s = cap" "0 < n" "n \<le> int (length (lb_data s))"
  then show "\<exists>s'. PopBuff n s = Some (True, take (nat n) (lb_data s), s') \<and> (lb_core s' \<and> m_nTotalLen s' = cap) \<and>
      lb_data s' = drop (nat n) (lb_data s)"
    using PopBuff_core [of s n] by (auto simp: length_lb_data)
next
  fix cap and s :: loopbuff and n :: int
  assume s: "lb_core s \<and> m_nTotalLen s = cap" and n: "n + cap < 2 ^ 31" "n \<le> 0 \<or> int (length (lb_data s)) < n"
  have "0 \<le> m_nFreeLen s" "m_nFreeLen s \<le> cap" using s by (auto simp: lb_core_def)
  then show "PopBuff n s = Some (False, [], s)"
    using s n by (intro PopBuff_refused) (auto simp: length_lb_data)
qed

text \<open>A length near the largest \<open>int\<close> passes the guard of \<open>PopBuff\<close>: the sum is negative, and the
  copy leaves the block.\<close>

lemma PopBuff_overflows:
  assumes "lb_core b" "m_nTotalLen b \<le> 2 ^ 29" "nLen < 2 ^ 31" "2 ^ 31 \<le> nLen + m_nFreeLen b"
  shows "PopBuff nLen b = None"
proof -
  obtain xs f i out u l v where b: "b = mk_lb xs f i out u l v" and ok: "mk_core xs f i out l"
    using assms(1) by (rule lb_core_mkE)
  have T: "m_nTotalLen b = int (length xs)" "m_nOutCursor b = int out" "m_nFreeLen b = int f" "m_pszBuff b = Some xs"
    by (simp_all add: b mk_lb_def)
  have r: "out < length xs" "f \<le> length xs" "int (length xs) \<le> 2 ^ 29"
    using ok assms(2) T by (auto simp: mk_core_def)
  have big: "2 ^ 30 < nLen" using assms(4) r T by simp
  have sum: "int32 (nLen + int f) = nLen + int f - 2 ^ 32"
    using assms(3,4) r T by (intro int32_over) simp_all
  have pass: "\<not> int32 (nLen + m_nFreeLen b) > m_nTotalLen b" using sum assms(3) r T by simp
  have ptr: "priv_GetOutCursorPtr b = (if f = length xs then None else Some (int out), b)"
    using ok r by (auto simp: b priv_GetOutCursorPtr_def lb_defs)
  have far: "copy_out p k b = None" if "int (length xs) < k" for p k
    using that by (auto simp: copy_out_def T split: option.splits)
  have n: "int (length xs) < nLen" "int (length xs) < nLen - (int (length xs) - int out)" "0 < nLen" using big r by simp_all
  show ?thesis
    using n pass far [OF n(1)] far [OF n(2)]
    by (auto simp: PopBuff_def ptr T Let_def split: option.splits)
qed

section \<open>Properties\<close>

text \<open>
  C1: The ring buffer is a bounded FIFO queue of bytes: whatever pushes and pops run on a valid
  buffer, in any order, it answers each of them as the queue does, refusing exactly a push that is
  empty or does not fit and a pop of no byte or of more than are there, and holds at the end what
  the queue holds; no copy leaves the block and the invariant and the capacity are kept.  The
  number of bytes of a pop and the capacity together must be an \<open>int\<close>.
\<close>

theorem loopbuff_fifo:
  assumes "lb_core b" "\<forall>e \<in> set es. request_fits (m_nTotalLen b) e"
  shows "\<exists>b'. run_queue (\<lambda>src. PushBuff src (int (length src))) PopBuff es b =
      Some (fst (queue_spec (m_nTotalLen b) es (lb_data b)), b') \<and>
    lb_core b' \<and> m_nTotalLen b' = m_nTotalLen b \<and> lb_data b' = snd (queue_spec (m_nTotalLen b) es (lb_data b))"
  using lbq.run_spec [of b "m_nTotalLen b" es] assms by auto

theorem loopbuff_fifo_witness:
  "\<exists>b'. run_queue (\<lambda>src. PushBuff src (int (length src))) PopBuff [Put [1, 2], Take 1, Put [3, 4, 5], Put [3, 4], Take 2]
      (snd (Init (Some [0, 0, 0]) 3 FxLoopBuff)) =
        Some ([Stored True, Handed (Some [1]), Stored False, Stored True, Handed (Some [2, 3])], b') \<and>
    lb_core b' \<and> lb_data b' = [4]"
proof -
  obtain b where b: "Init (Some [0, 0, 0]) 3 FxLoopBuff = (True, b)" "lb_core b" "lb_data b = []" "m_nTotalLen b = 3"
    using Init_ok [of 3 "[0, 0, 0]"] by (auto simp: lb_inv_def)
  have "\<forall>e \<in> set [Put [1, 2], Take 1, Put [3, 4, 5], Put [3, 4], Take 2]. request_fits (m_nTotalLen b) e"
    using b(4) by simp
  from loopbuff_fifo [OF b(2) this] show ?thesis using b by (auto simp: Let_def)
qed

text \<open>
  On a receive buffer \<open>PushBuff\<close> accepts exactly the requests of 1 to \<open>m_nFreeLen\<close> bytes;
  an accepted one appends the bytes both to the stored queue and to the part not yet
  parsed and keeps the invariant of all three cursors; a refused one changes nothing.
\<close>

theorem PushBuff_correct:
  assumes "lb_inv b" "nLen \<le> int (length src)"
  shows "if 0 < nLen \<and> nLen \<le> m_nFreeLen b
    then \<exists>b'. PushBuff src nLen b = Some (True, b') \<and> lb_inv b' \<and>
      lb_data b' = lb_data b @ take (nat nLen) src \<and>
      lb_pending b' = lb_pending b @ take (nat nLen) src \<and>
      m_nFreeLen b' = m_nFreeLen b - nLen
    else PushBuff src nLen b = Some (False, b)"
proof (cases "0 < nLen \<and> nLen \<le> m_nFreeLen b")
  case True
  then show ?thesis
    using PushBuff_core [OF lb_inv_core [OF assms(1)], of nLen src] assms
      PushBuff_inv [OF assms(1), of nLen src True]
    by auto
next
  case False
  then have "nLen \<le> 0 \<or> m_nFreeLen b < nLen" by linarith
  from PushBuff_refused [OF this] show ?thesis using False by (simp only: if_False)
qed

theorem PushBuff_correct_witness:
  "\<exists>b'. PushBuff [7, 8] 2 (snd (Init (Some [0, 0, 0]) 3 FxLoopBuff)) = Some (True, b') \<and>
     lb_inv b' \<and> lb_data b' = [7, 8]"
proof -
  obtain b where b: "Init (Some [0, 0, 0]) 3 FxLoopBuff = (True, b)" "lb_inv b" "lb_data b = []"
    "m_nFreeLen b = 3"
    using Init_ok [of 3 "[0, 0, 0]"] by auto
  show ?thesis using PushBuff_correct [OF b(2), of 2 "[7, 8]"] b by auto
qed

text \<open>
  \<open>PopBuff\<close> accepts exactly the requests of 1 to the stored length, returns the oldest
  bytes and removes them; \<open>DiscardBuff\<close> changes the state in the same way.  As long as
  only parsed bytes are popped the unparsed part and the full invariant are kept.
\<close>

theorem PopBuff_correct:
  assumes "lb_inv b" "nLen + m_nFreeLen b < 2 ^ 31"
  shows "if 0 < nLen \<and> nLen \<le> used_len b
    then \<exists>b'. PopBuff nLen b = Some (True, take (nat nLen) (lb_data b), b') \<and>
      DiscardBuff nLen b = (True, b') \<and> lb_core b' \<and>
      lb_data b' = drop (nat nLen) (lb_data b) \<and> m_nFreeLen b' = m_nFreeLen b + nLen \<and>
      (nLen \<le> used_len b - pend_len b \<longrightarrow> lb_inv b' \<and> lb_pending b' = lb_pending b)
    else PopBuff nLen b = Some (False, [], b) \<and> DiscardBuff nLen b = (False, b)"
proof (cases "0 < nLen \<and> nLen \<le> used_len b")
  case True
  then obtain b' where b': "PopBuff nLen b = Some (True, take (nat nLen) (lb_data b), b')"
    "lb_core b'" "lb_data b' = drop (nat nLen) (lb_data b)" "m_nFreeLen b' = m_nFreeLen b + nLen"
    using PopBuff_core [OF lb_inv_core [OF assms(1)], of nLen] by auto
  then show ?thesis using True PopBuff_inv [OF assms(1), of nLen] DiscardBuff_Pop [OF lb_inv_core [OF assms(1)] assms(2)]
    by auto
next
  case False
  have "0 \<le> m_nFreeLen b" using assms(1) by (simp add: lb_inv_def lb_core_def)
  then have "PopBuff nLen b = Some (False, [], b)" using False assms(2) by (intro PopBuff_refused) auto
  then show ?thesis using False DiscardBuff_Pop [OF lb_inv_core [OF assms(1)] assms(2)]
    by (simp only: if_False) simp
qed

theorem PopBuff_correct_witness:
  "\<exists>b'. PopBuff 1 (mk_lb [1, 2, 3] 1 2 0 1 False False) = Some (True, [1], b') \<and> lb_inv b' \<and>
     lb_data b' = [2]"
proof -
  let ?b = "mk_lb [1, 2, 3] 1 2 0 1 False False"
  have inv: "lb_inv ?b" by (simp add: lb_inv_mk mk_core_def mk_use_def)
  have d: "lb_data ?b = [1, 2]" by (simp add: lb_data_mk ring_def upt_rec)
  have l: "used_len ?b = 2" "pend_len ?b = 1" by (simp_all add: used_len_def pend_len_def mk_lb_def)
  have "1 + m_nFreeLen ?b < 2 ^ 31" by (simp add: mk_lb_def)
  from PopBuff_correct [OF inv this] show ?thesis using d l by auto
qed

text \<open>
  Parsing: \<open>CostUsedBuff\<close> accepts exactly 1 to the number of unparsed bytes, which
  \<open>GetUseLen\<close> reports, drops them from the unparsed part and leaves the stored queue alone;
  \<open>GetUsedCursorPtr\<close> hands out a region inside the block that holds the next unparsed
  bytes, and it is empty only when nothing is left to parse.
\<close>

theorem CostUsedBuff_correct:
  assumes "lb_inv b" "nLen \<le> 2 ^ 30"
  shows "GetUseLen b = int (length (lb_pending b)) \<and>
    (if 0 < nLen \<and> nLen \<le> int (length (lb_pending b))
     then \<exists>b'. CostUsedBuff nLen b = (True, b') \<and> lb_inv b' \<and> lb_data b' = lb_data b \<and>
       lb_pending b' = drop (nat nLen) (lb_pending b)
     else CostUsedBuff nLen b = (False, b)) \<and>
    (\<forall>p k. GetUsedCursorPtr b = (Some p, k) \<longrightarrow>
       0 \<le> p \<and> nat p + nat k \<le> length (lb_block b) \<and>
       take (nat k) (drop (nat p) (lb_block b)) = take (nat k) (lb_pending b) \<and>
       (k = 0 \<longrightarrow> lb_pending b = []))"
proof (intro conjI)
  show "if 0 < nLen \<and> nLen \<le> int (length (lb_pending b))
     then \<exists>b'. CostUsedBuff nLen b = (True, b') \<and> lb_inv b' \<and> lb_data b' = lb_data b \<and>
       lb_pending b' = drop (nat nLen) (lb_pending b)
     else CostUsedBuff nLen b = (False, b)"
    using CostUsedBuff_ok [OF assms(1), of nLen] CostUsedBuff_refused [OF assms(1), of nLen] assms(2)
    by (auto simp: length_lb_pending [OF assms(1)])
qed (use GetUsedCursorPtr_region [OF assms(1)] GetUseLen_pending [OF assms(1)] in blast)+

theorem CostUsedBuff_correct_witness:
  "fst (CostUsedBuff 1 (mk_lb [1, 2, 3] 1 2 0 0 False False))"
proof -
  let ?b = "mk_lb [1, 2, 3] 1 2 0 0 False False"
  have inv: "lb_inv ?b" by (simp add: lb_inv_mk mk_core_def mk_use_def)
  have d: "lb_pending ?b = [1, 2]" by (simp add: lb_pending_mk ring_def upt_rec)
  show ?thesis using CostUsedBuff_correct [OF inv, of 1] d by auto
qed

text \<open>
  Receiving in place: after \<open>GetInCursorPtr\<close>, writing the received bytes at the returned
  address and calling \<open>CostBuff\<close> with their number leaves exactly the state a \<open>PushBuff\<close> of
  these bytes leaves, for every amount up to the returned length.
\<close>

theorem recv_in_place:
  assumes "lb_core b" "GetInCursorPtr b = (Some off, k)" "src \<noteq> []" "int (length src) \<le> k"
  shows "\<exists>b1 b2. copy_in (Some off) src b = Some b1 \<and> CostBuff (int (length src)) b1 = (True, b2) \<and>
    PushBuff src (int (length src)) b = Some (True, b2) \<and> lb_data b2 = lb_data b @ src"
proof -
  have "int (length src) \<le> m_nFreeLen b"
    using GetInCursorPtr_room(1) [OF assms(1,2)] assms(4) by simp
  then show ?thesis
    using CostBuff_after_recv [OF assms] PushBuff_core [OF assms(1), of "int (length src)" src] assms(3)
    by (metis int_eq_iff nat_int length_greater_0_conv of_nat_0_less_iff option.inject order_refl take_all)
qed

theorem recv_in_place_witness:
  "\<exists>b1 b2. copy_in (Some 2) [9] (mk_lb [1, 2, 3] 1 2 0 0 False False) = Some b1 \<and>
     CostBuff 1 b1 = (True, b2) \<and> lb_data b2 = [1, 2, 9]"
proof -
  let ?b = "mk_lb [1, 2, 3] 1 2 0 0 False False"
  have core: "lb_core ?b" by (simp add: lb_core_mk mk_core_def)
  have p: "GetInCursorPtr ?b = (Some 2, 1)" by (simp add: GetInCursorPtr_def mk_lb_def)
  have d: "lb_data ?b = [1, 2]" by (simp add: lb_data_mk ring_def upt_rec)
  show ?thesis using recv_in_place [OF core p, of "[9]"] d by auto
qed

text \<open>\<open>Clear\<close> rewinds the cursors and leaves \<open>m_nFreeLen\<close> alone, so it keeps a buffer valid
  exactly when the buffer is empty: its callers all test \<open>IsEmpty\<close> first.\<close>

lemma Clear_needs_empty:
  assumes "lb_core b"
  shows "lb_core (Clear b) \<longleftrightarrow> IsEmpty b"
  using assms by (cases "m_pszBuff b") (auto simp: lb_core_def Clear_def IsEmpty_def used_len_def)

lemma Clear_core:
  assumes "lb_core b" "IsEmpty b"
  shows "lb_core (Clear b) \<and> lb_data (Clear b) = lb_data b \<and> m_nFreeLen (Clear b) = m_nFreeLen b \<and> m_nTotalLen (Clear b) = m_nTotalLen b"
proof -
  have "lb_data b = []" using assms length_lb_data [OF assms(1)] by (auto simp: IsEmpty_def used_len_def)
  moreover have "lb_data (Clear b) = []" using assms(2) by (simp add: lb_data_def used_len_def Clear_def IsEmpty_def)
  ultimately show ?thesis using assms Clear_needs_empty [OF assms(1)] by (simp add: Clear_def)
qed

end
