(* ===== verification/Endianconv.thy ===== *)
theory Endianconv imports Prelude begin

text \<open>
  Byte-order conversion, \<open>Server/redis-3.2.1/src/endianconv.c\<close>: \<open>memrev16/32/64\<close> swap the
  bytes at the start of a memory area in place, \<open>intrev16/32/64\<close> do so on a value.  The
  swap is written as the code does it, one exchange of two cells at a time.  The development
  models a little-endian host, where the \<open>...ifbe\<close> macros of \<open>endianconv.h\<close> are no-ops.
  Below that, signed values of 2, 4 or 8 bytes in memory, as the containers store them.
\<close>

text \<open>\<open>t = x[i]; x[i] = x[j]; x[j] = t;\<close>\<close>

definition swap_cells :: "nat \<Rightarrow> nat \<Rightarrow> bytes \<Rightarrow> bytes" where
  "swap_cells i j x = (let t = x ! i; x1 = x[i := x ! j] in x1[j := t])"

definition memrev16 :: "bytes \<Rightarrow> bytes" where
  "memrev16 p = swap_cells 0 1 p"

definition memrev32 :: "bytes \<Rightarrow> bytes" where
  "memrev32 p = swap_cells 1 2 (swap_cells 0 3 p)"

definition memrev64 :: "bytes \<Rightarrow> bytes" where
  "memrev64 p = swap_cells 3 4 (swap_cells 2 5 (swap_cells 1 6 (swap_cells 0 7 p)))"

definition intrev16 :: "nat \<Rightarrow> nat" where
  "intrev16 v = le_nat (memrev16 (le_bytes 2 v))"

definition intrev32 :: "nat \<Rightarrow> nat" where
  "intrev32 v = le_nat (memrev32 (le_bytes 4 v))"

definition intrev64 :: "nat \<Rightarrow> nat" where
  "intrev64 v = le_nat (memrev64 (le_bytes 8 v))"

lemma list2E: assumes "length (p :: 'a list) = 2" obtains a b where "p = [a, b]"
  using assms by (auto simp: numeral_eq_Suc length_Suc_conv)

lemma list4E: assumes "length (p :: 'a list) = 4" obtains a b c d where "p = [a, b, c, d]"
  using assms by (auto simp: numeral_eq_Suc length_Suc_conv)

lemma list8E: assumes "length (p :: 'a list) = 8"
  obtains a b c d e f g h where "p = [a, b, c, d, e, f, g, h]"
  using assms by (auto simp: numeral_eq_Suc length_Suc_conv)

lemma memrev16_rev: "length p = 2 \<Longrightarrow> memrev16 p = rev p"
  by (erule list2E) (simp add: memrev16_def swap_cells_def Let_def)

lemma memrev32_rev: "length p = 4 \<Longrightarrow> memrev32 p = rev p"
  by (erule list4E) (simp add: memrev32_def swap_cells_def Let_def numeral_eq_Suc)

lemma memrev64_rev: "length p = 8 \<Longrightarrow> memrev64 p = rev p"
  by (erule list8E) (simp add: memrev64_def swap_cells_def Let_def numeral_eq_Suc)

text \<open>Only the addressed cells are touched.\<close>

lemma swap_cells_append: "i < length p \<Longrightarrow> j < length p \<Longrightarrow> swap_cells i j (p @ q) = swap_cells i j p @ q"
  by (simp add: swap_cells_def Let_def nth_append list_update_append)

lemma length_swap_cells [simp]: "length (swap_cells i j p) = length p"
  by (simp add: swap_cells_def Let_def)

lemma memrev64_append: "length p = 8 \<Longrightarrow> memrev64 (p @ q) = rev p @ q"
  by (subst memrev64_rev [symmetric]) (simp_all add: memrev64_def swap_cells_append)

lemma memrev32_append: "length p = 4 \<Longrightarrow> memrev32 (p @ q) = rev p @ q"
  by (subst memrev32_rev [symmetric]) (simp_all add: memrev32_def swap_cells_append)

lemma memrev16_append: "length p = 2 \<Longrightarrow> memrev16 (p @ q) = rev p @ q"
  by (subst memrev16_rev [symmetric]) (simp_all add: memrev16_def swap_cells_append)

lemma intrev64_be: "intrev64 v = be_nat (le_bytes 8 v)"
  by (simp add: intrev64_def memrev64_rev be_nat_def)

text \<open>
  The conversions between host and network order are each other's inverse: \<open>memrev16\<close>,
  \<open>memrev32\<close> and \<open>memrev64\<close> applied twice give the memory back whatever follows the
  integer, and \<open>intrev64\<close> (\<open>htonu64\<close> and \<open>ntohu64\<close>) is an involution on 64-bit values
  whose memory image is the big-endian one.
\<close>

theorem endianconv_involution:
  assumes "8 \<le> length p"
  shows "memrev16 (memrev16 p) = p \<and> memrev32 (memrev32 p) = p \<and> memrev64 (memrev64 p) = p \<and>
    intrev64 (intrev64 v) = v mod 2 ^ 64 \<and> le_bytes 8 (intrev64 v) = be_bytes 8 v"
proof -
  have s: "\<exists>q r. p = q @ r \<and> length q = n" if "n \<le> 8" for n
    by (rule exI [of _ "take n p"], rule exI [of _ "drop n p"]) (use that assms in simp)
  have "memrev16 (memrev16 p) = p" using s [of 2] by (auto simp: memrev16_append)
  moreover have "memrev32 (memrev32 p) = p" using s [of 4] by (auto simp: memrev32_append)
  moreover have "memrev64 (memrev64 p) = p" using s [of 8] by (auto simp: memrev64_append)
  moreover have be: "le_bytes 8 (intrev64 v) = be_bytes 8 v" for v
    using le_bytes_le_nat [of "rev (le_bytes 8 v)"]
    by (simp add: intrev64_def memrev64_rev be_bytes_def)
  moreover have "intrev64 (intrev64 v) = v mod 2 ^ 64"
    unfolding intrev64_be [of "intrev64 v"] be
    by (simp add: be_nat_def be_bytes_def le_nat_le_bytes)
  ultimately show ?thesis by blast
qed

theorem endianconv_involution_witness:
  "intrev64 (intrev64 5) = 5 \<and> memrev64 (memrev64 [1,2,3,4,5,6,7,8]) = [1,2,3,4,5,6,7,8]"
  using endianconv_involution [of "[1,2,3,4,5,6,7,8]" 5] by simp

section \<open>Signed integers in memory\<close>

text \<open>The two's complement value of an unsigned \<open>w\<close>-bit number, and the bytes of a signed
  value stored in \<open>n\<close> bytes.\<close>

definition sext :: "nat \<Rightarrow> nat \<Rightarrow> int" where
  "sext w x = (if x < 2 ^ (w - 1) then int x else int x - 2 ^ w)"

definition int_bytes :: "nat \<Rightarrow> int \<Rightarrow> bytes" where
  "int_bytes n v = le_bytes n (nat (v mod 2 ^ (8 * n)))"

definition bytes_int :: "bytes \<Rightarrow> int" where
  "bytes_int bs = sext (8 * length bs) (le_nat bs)"

definition fits :: "nat \<Rightarrow> int \<Rightarrow> bool" where
  "fits n v \<longleftrightarrow> - (2 ^ (8 * n - 1)) \<le> v \<and> v < 2 ^ (8 * n - 1)"

lemma length_int_bytes [simp]: "length (int_bytes n v) = n"
  by (simp add: int_bytes_def)

lemma pow256: "(256 :: 'a :: comm_semiring_1) ^ n = 2 ^ (8 * n)"
  by (simp add: power_mult)

lemma half_pow: "0 < n \<Longrightarrow> (2 :: int) ^ (8 * n) = 2 * 2 ^ (8 * n - 1)"
  by (metis mult_pos_pos power_eq_if zero_less_numeral less_numeral_extra(3))

lemma bytes_int_bytes: "0 < n \<Longrightarrow> fits n v \<Longrightarrow> bytes_int (int_bytes n v) = v"
proof -
  assume n: "0 < n" and f: "fits n v"
  let ?h = "(2 :: int) ^ (8 * n - 1)"
  have m: "v mod (2 * ?h) = (if 0 \<le> v then v else v + 2 * ?h)"
  proof (cases "0 \<le> v")
    case False
    then have "(v + 2 * ?h) mod (2 * ?h) = v + 2 * ?h"
      using f by (intro mod_pos_pos_trivial) (auto simp: fits_def)
    then show ?thesis using False by (metis mod_add_self2)
  qed (use f in \<open>auto simp: fits_def\<close>)
  define w where "w = v mod 2 ^ (8 * n)"
  have w: "0 \<le> w" "w < 2 ^ (8 * n)" by (simp_all add: w_def)
  have le: "le_nat (le_bytes n (nat w)) = nat w"
    using w by (simp add: le_nat_le_bytes pow256 nat_less_iff)
  have lt: "nat w < 2 ^ (8 * n - 1) \<longleftrightarrow> w < ?h"
    using w by (simp add: nat_less_iff)
  have "bytes_int (int_bytes n v) = (if w < ?h then w else w - 2 * ?h)"
    unfolding bytes_int_def int_bytes_def sext_def length_le_bytes w_def [symmetric] le lt
    using w half_pow [OF n] by simp
  moreover have "w = (if 0 \<le> v then v else v + 2 * ?h)"
    using m half_pow [OF n] by (simp add: w_def)
  ultimately show ?thesis using f by (auto simp: fits_def)
qed

lemma fits_bytes_int: "bs \<noteq> [] \<Longrightarrow> fits (length bs) (bytes_int bs)"
proof -
  assume ne: "bs \<noteq> []"
  have b: "int (le_nat bs) < 2 ^ (8 * length bs)"
    using le_nat_bound [of bs] by (simp add: pow256 flip: of_nat_less_iff)
  have "le_nat bs < 2 ^ (8 * length bs - 1) \<longleftrightarrow> int (le_nat bs) < 2 ^ (8 * length bs - 1)"
    by (simp flip: of_nat_less_iff)
  then show ?thesis using b ne half_pow [of "length bs"]
    by (auto simp: fits_def bytes_int_def sext_def)
qed

end
