(* ===== verification/Intset.thy ===== *)
theory Intset imports Endianconv "HOL-Library.Monad_Syntax" begin

text \<open>
  The integer set of \<open>Server/redis-3.2.1/src/intset.c\<close>: a sorted array of 2-, 4- or 8-byte
  integers in one block of memory, searched by bisection, whose element width is raised
  when a value needs it.  The model is at the level of the memory block: \<open>contents\<close> are
  its bytes and an access at an index reads or writes \<open>encoding\<close> bytes; a write or a move outside the
  block is \<open>None\<close>.  \<open>encoding\<close> and
  \<open>length\<close> are C \<open>uint32_t\<close>: arithmetic on them is taken \<open>mod 2 ^ 32\<close>.  Values are \<open>int\<close>,
  within the \<open>int64_t\<close> range where a statement needs it.  The bytes a grown block holds are
  indeterminate in C: the argument \<open>junk\<close>.  The leading underscore of the static functions is
  dropped, as Isabelle does not allow it.  \<open>is_ints\<close> is the list of elements the block
  stands for and \<open>is_ok\<close> the representation invariant.
\<close>

section \<open>Model\<close>

record intset =
  encoding :: nat
  is_length :: nat
  contents :: bytes

definition u32 :: "nat \<Rightarrow> nat" where
  "u32 n = n mod 2 ^ 32"

definition INTSET_ENC_INT16 :: nat where "INTSET_ENC_INT16 = 2"
definition INTSET_ENC_INT32 :: nat where "INTSET_ENC_INT32 = 4"
definition INTSET_ENC_INT64 :: nat where "INTSET_ENC_INT64 = 8"

lemmas enc_defs = INTSET_ENC_INT16_def INTSET_ENC_INT32_def INTSET_ENC_INT64_def

definition intsetValueEncoding :: "int \<Rightarrow> nat" where
  "intsetValueEncoding v =
    (if v < - (2 ^ 31) \<or> v > 2 ^ 31 - 1 then INTSET_ENC_INT64
     else if v < - (2 ^ 15) \<or> v > 2 ^ 15 - 1 then INTSET_ENC_INT32
     else INTSET_ENC_INT16)"

definition intsetGetEncoded :: "intset \<Rightarrow> nat \<Rightarrow> nat \<Rightarrow> int" where
  "intsetGetEncoded is pos enc =
    (if enc = INTSET_ENC_INT64 then bytes_int (take 8 (drop (pos * 8) (contents is)))
     else if enc = INTSET_ENC_INT32 then bytes_int (take 4 (drop (pos * 4) (contents is)))
     else bytes_int (take 2 (drop (pos * 2) (contents is))))"

definition intsetGetAt :: "intset \<Rightarrow> nat \<Rightarrow> int" where
  "intsetGetAt is pos = intsetGetEncoded is pos (encoding is)"

definition intsetSet :: "intset \<Rightarrow> nat \<Rightarrow> int \<Rightarrow> intset option" where
  "intsetSet is pos v =
    do { c \<leftarrow> (if encoding is = INTSET_ENC_INT64 then copy_to (contents is) (pos * 8) (int_bytes 8 v)
           else if encoding is = INTSET_ENC_INT32 then copy_to (contents is) (pos * 4) (int_bytes 4 v)
           else copy_to (contents is) (pos * 2) (int_bytes 2 v));
         Some (is\<lparr>contents := c\<rparr>) }"

definition intsetNew :: intset where
  "intsetNew = \<lparr>encoding = INTSET_ENC_INT16, is_length = 0, contents = []\<rparr>"

text \<open>\<open>zrealloc\<close> keeps the common prefix; \<open>zmalloc\<close> and \<open>zrealloc\<close> abort when out of memory.\<close>

definition zrealloc :: "byte \<Rightarrow> bytes \<Rightarrow> nat \<Rightarrow> bytes" where
  "zrealloc junk p n = take n p @ replicate (n - length p) junk"

definition intsetResize :: "byte \<Rightarrow> intset \<Rightarrow> nat \<Rightarrow> intset" where
  "intsetResize junk is len =
    (let size = u32 (len * encoding is)
     in is\<lparr>contents := zrealloc junk (contents is) size\<rparr>)"

text \<open>The bisection loop, from the values of \<open>min\<close>, \<open>max\<close>, \<open>mid\<close> and \<open>cur\<close>; it returns
  \<open>min\<close>, \<open>mid\<close> and \<open>cur\<close>.  The code adds \<open>min\<close> and \<open>max\<close> as unsigned numbers so that the sum of
  two non-negative \<open>int\<close>s cannot overflow: it is their sum.\<close>

function search_loop :: "intset \<Rightarrow> int \<Rightarrow> int \<Rightarrow> int \<Rightarrow> int \<Rightarrow> int \<Rightarrow> int \<times> int \<times> int" where
  "search_loop is v mn mx mid cur =
    (if mx \<ge> mn then
       (let mid' = (mn + mx) div 2; cur' = intsetGetAt is (nat mid') in
        if v > cur' then search_loop is v (mid' + 1) mx mid' cur'
        else if v < cur' then search_loop is v mn (mid' - 1) mid' cur'
        else (mn, mid', cur'))
     else (mn, mid, cur))"
  by pat_completeness auto
termination by (relation "measure (\<lambda>(is, v, mn, mx, mid, cur). nat (mx - mn + 1))") auto

declare search_loop.simps [simp del]

text \<open>\<open>intsetSearch\<close> returns its result and what it stores in \<open>*pos\<close>.\<close>

definition intsetSearch :: "intset \<Rightarrow> int \<Rightarrow> bool \<times> nat" where
  "intsetSearch is v =
    (if is_length is = 0 then (False, 0)
     else if v > intsetGetAt is (is_length is - 1) then (False, is_length is)
     else if v < intsetGetAt is 0 then (False, 0)
     else
       (let (mn, mid, cur) = search_loop is v 0 (int (is_length is) - 1) (-1) (-1) in
        if v = cur then (True, nat mid) else (False, nat mn)))"

fun upgrade_loop :: "nat \<Rightarrow> nat \<Rightarrow> nat \<Rightarrow> intset \<Rightarrow> intset option" where
  "upgrade_loop 0 prepend curenc is = Some is"
| "upgrade_loop (Suc len) prepend curenc is =
     do { is \<leftarrow> intsetSet is (len + prepend) (intsetGetEncoded is len curenc);
          upgrade_loop len prepend curenc is }"

definition intsetUpgradeAndAdd :: "byte \<Rightarrow> intset \<Rightarrow> int \<Rightarrow> intset option" where
  "intsetUpgradeAndAdd junk is v =
    (let curenc = encoding is; newenc = intsetValueEncoding v; len = is_length is;
         prepend = (if v < 0 then 1 else 0);
         is1 = intsetResize junk (is\<lparr>encoding := newenc\<rparr>) (u32 (is_length is + 1))
     in do { is2 \<leftarrow> upgrade_loop len prepend curenc is1;
             is3 \<leftarrow> (if prepend = 1 then intsetSet is2 0 v else intsetSet is2 (is_length is2) v);
             Some (is3\<lparr>is_length := u32 (is_length is3 + 1)\<rparr>) })"

definition intsetMoveTail :: "intset \<Rightarrow> nat \<Rightarrow> nat \<Rightarrow> intset option" where
  "intsetMoveTail is from to =
    (let n = is_length is - from;
         w = (if encoding is = INTSET_ENC_INT64 then 8
              else if encoding is = INTSET_ENC_INT32 then 4 else 2)
     in do { src \<leftarrow> copy_from (contents is) (from * w) (n * w);
             c \<leftarrow> copy_to (contents is) (to * w) src;
             Some (is\<lparr>contents := c\<rparr>) })"

definition intsetAdd :: "byte \<Rightarrow> intset \<Rightarrow> int \<Rightarrow> (intset \<times> bool) option" where
  "intsetAdd junk is v =
    (let valenc = intsetValueEncoding v in
     if valenc > encoding is then do { is1 \<leftarrow> intsetUpgradeAndAdd junk is v; Some (is1, True) }
     else
       (let (found, pos) = intsetSearch is v in
        if found then Some (is, False)
        else do {
          let is1 = intsetResize junk is (u32 (is_length is + 1));
          is2 \<leftarrow> (if pos < is_length is1 then intsetMoveTail is1 pos (pos + 1) else Some is1);
          is3 \<leftarrow> intsetSet is2 pos v;
          Some (is3\<lparr>is_length := u32 (is_length is3 + 1)\<rparr>, True) }))"

definition intsetRemove :: "byte \<Rightarrow> intset \<Rightarrow> int \<Rightarrow> (intset \<times> bool) option" where
  "intsetRemove junk is v =
    (let valenc = intsetValueEncoding v; (found, pos) = intsetSearch is v in
     if valenc \<le> encoding is \<and> found then do {
       let len = is_length is;
       is1 \<leftarrow> (if pos < len - 1 then intsetMoveTail is (pos + 1) pos else Some is);
       let is2 = intsetResize junk is1 (len - 1);
       Some (is2\<lparr>is_length := len - 1\<rparr>, True) }
     else Some (is, False))"

definition intsetFind :: "intset \<Rightarrow> int \<Rightarrow> bool" where
  "intsetFind is v \<longleftrightarrow> intsetValueEncoding v \<le> encoding is \<and> fst (intsetSearch is v)"

text \<open>\<open>rand()\<close> is the C library's: its value is the argument \<open>r\<close>.\<close>

definition intsetRandom :: "nat \<Rightarrow> intset \<Rightarrow> int" where
  "intsetRandom r is = intsetGetAt is (r mod is_length is)"

definition intsetGet :: "intset \<Rightarrow> nat \<Rightarrow> int option" where
  "intsetGet is pos = (if pos < is_length is then Some (intsetGetAt is pos) else None)"

definition intsetLen :: "intset \<Rightarrow> nat" where
  "intsetLen is = is_length is"

definition intsetBlobLen :: "intset \<Rightarrow> nat" where
  "intsetBlobLen is = 8 + u32 (is_length is * encoding is)"

section \<open>The elements a block stands for\<close>

definition slot :: "nat \<Rightarrow> bytes \<Rightarrow> nat \<Rightarrow> int" where
  "slot e c k = bytes_int (take e (drop (k * e) c))"

definition slots :: "nat \<Rightarrow> bytes \<Rightarrow> int list" where
  "slots e c = map (slot e c) [0..<length c div e]"

definition is_ints :: "intset \<Rightarrow> int list" where
  "is_ints is = slots (encoding is) (contents is)"

definition is_ok :: "intset \<Rightarrow> bool" where
  "is_ok is \<longleftrightarrow> encoding is \<in> {2, 4, 8} \<and>
     length (contents is) = is_length is * encoding is \<and>
     is_length is * 8 < 2 ^ 32 \<and>
     sorted_wrt (<) (is_ints is)"

section \<open>Slots of a block\<close>

lemma slots_append:
  assumes e: "0 < e" and a: "length a = m * e"
  shows "slots e (a @ b) = slots e a @ slots e b"
proof (rule nth_equalityI)
  have d: "length (a @ b) div e = m + length b div e" using e a by simp
  show "length (slots e (a @ b)) = length (slots e a @ slots e b)"
    using e a d by (simp add: slots_def)
  fix k assume "k < length (slots e (a @ b))"
  then have k: "k < m + length b div e" using d by (simp add: slots_def)
  show "slots e (a @ b) ! k = (slots e a @ slots e b) ! k"
  proof (cases "k < m")
    case True
    then have "(k + 1) * e \<le> length a" unfolding a by (intro mult_le_mono1) simp
    then show ?thesis using True k d e a by (simp add: slots_def nth_append slot_def)
  next
    case False
    then obtain j where j: "k = m + j" using le_Suc_ex not_less by blast
    then show ?thesis using k d e a by (simp add: slots_def nth_append slot_def add_mult_distrib)
  qed
qed

lemma length_slots: "length c = n * e \<Longrightarrow> 0 < e \<Longrightarrow> length (slots e c) = n"
  by (simp add: slots_def)

lemma slots_take_drop:
  assumes "0 < e" "m * e \<le> length c"
  shows "slots e (take (m * e) c) = take m (slots e c)"
    and "slots e (drop (m * e) c) = drop m (slots e c)"
proof -
  have l: "length (take (m * e) c) = m * e" using assms by simp
  have "slots e c = slots e (take (m * e) c) @ slots e (drop (m * e) c)"
    using slots_append [OF assms(1) l, of "drop (m * e) c"] by simp
  moreover have "length (slots e (take (m * e) c)) = m" using l assms(1) by (rule length_slots)
  ultimately show "slots e (take (m * e) c) = take m (slots e c)"
    "slots e (drop (m * e) c) = drop m (slots e c)"
    by simp_all
qed

lemma slots_blit:
  assumes "0 < e" "(j + m) * e \<le> length c" "length s = m * e"
  shows "slots e (blit c (j * e) s) = blit (slots e c) j (slots e s)"
proof -
  have "j * e \<le> length c" "j * e + length s = (j + m) * e"
    using assms by (simp_all add: add_mult_distrib)
  moreover have "length (take (j * e) c) = j * e" using \<open>j * e \<le> length c\<close> by simp
  ultimately show ?thesis using assms
    by (simp add: blit_def slots_append [OF assms(1)] slots_take_drop length_slots [OF assms(3,1)])
qed

lemma slots_int_bytes: "0 < e \<Longrightarrow> fits e v \<Longrightarrow> slots e (int_bytes e v) = [v]"
  by (simp add: slots_def slot_def bytes_int_bytes)

lemma slots_nth: "0 < e \<Longrightarrow> k < length c div e \<Longrightarrow> slots e c ! k = slot e c k"
  by (simp add: slots_def)

lemma fits_slot: "0 < e \<Longrightarrow> (k + 1) * e \<le> length c \<Longrightarrow> fits e (slot e c k)"
proof -
  assume "0 < e" "(k + 1) * e \<le> length c"
  then have "length (take e (drop (k * e) c)) = e" by simp
  then show ?thesis using fits_bytes_int [of "take e (drop (k * e) c)"] \<open>0 < e\<close>
    unfolding slot_def by force
qed

section \<open>Accesses in terms of slots\<close>

lemma GetEncoded_slot: "e \<in> {2, 4, 8} \<Longrightarrow> intsetGetEncoded is k e = slot e (contents is) k"
  by (auto simp: intsetGetEncoded_def slot_def enc_defs)

lemma Set_blit:
  assumes "encoding is \<in> {2, 4, 8}" "k * encoding is + encoding is \<le> length (contents is)"
  shows "intsetSet is k v =
    Some (is\<lparr>contents := blit (contents is) (k * encoding is) (int_bytes (encoding is) v)\<rparr>)"
  using assms by (auto simp: intsetSet_def enc_defs copy_to_def)

lemma MoveTail_blit:
  assumes "encoding is \<in> {2, 4, 8}" "from * encoding is + (is_length is - from) * encoding is \<le> length (contents is)"
    "to * encoding is + (is_length is - from) * encoding is \<le> length (contents is)"
  shows "intsetMoveTail is from to = Some (is\<lparr>contents := blit (contents is) (to * encoding is)
      (take ((is_length is - from) * encoding is) (drop (from * encoding is) (contents is)))\<rparr>)"
proof -
  have w: "(if encoding is = INTSET_ENC_INT64 then 8 else if encoding is = INTSET_ENC_INT32 then 4 else 2) = encoding is"
    using assms(1) by (auto simp: enc_defs)
  show ?thesis
    unfolding intsetMoveTail_def w Let_def using assms(2,3) by (simp add: copy_from_def copy_to_def)
qed

lemma length_is_ints: "is_ok is \<Longrightarrow> length (is_ints is) = is_length is"
  by (auto simp: is_ok_def is_ints_def length_slots)

lemma GetAt_nth: "is_ok is \<Longrightarrow> k < is_length is \<Longrightarrow> intsetGetAt is k = is_ints is ! k"
  by (auto simp: is_ok_def is_ints_def intsetGetAt_def GetEncoded_slot slots_nth)

lemma fits_mono: "fits m v \<Longrightarrow> m \<le> n \<Longrightarrow> 0 < m \<Longrightarrow> fits n v"
proof -
  assume a: "fits m v" "m \<le> n" "0 < m"
  have "(2 :: int) ^ (8 * m - 1) \<le> 2 ^ (8 * n - 1)" using a by (intro power_increasing) auto
  then show ?thesis using a(1) unfolding fits_def by linarith
qed

lemma fits_is_ints:
  assumes "is_ok is" "x \<in> set (is_ints is)"
  shows "fits (encoding is) x"
proof -
  obtain k where k: "k < is_length is" "x = slot (encoding is) (contents is) k"
    using assms by (auto simp: is_ok_def is_ints_def slots_def)
  have "(k + 1) * encoding is \<le> is_length is * encoding is" using k by (intro mult_le_mono1) simp
  then show ?thesis using k assms by (auto simp: is_ok_def intro!: fits_slot)
qed

lemma ValueEncoding_fits:
  assumes "fits 8 v" "e \<in> {2, 4, 8}"
  shows "intsetValueEncoding v \<le> e \<longleftrightarrow> fits e v"
  using assms by (auto simp: intsetValueEncoding_def fits_def enc_defs)

lemma ValueEncoding_cases: "intsetValueEncoding v \<in> {2, 4, 8}"
  by (auto simp: intsetValueEncoding_def enc_defs)

section \<open>Search\<close>

definition insertion_point :: "int list \<Rightarrow> int \<Rightarrow> nat \<Rightarrow> bool" where
  "insertion_point xs v p \<longleftrightarrow> p \<le> length xs \<and>
     (\<forall>i < p. xs ! i < v) \<and> (\<forall>i. p \<le> i \<and> i < length xs \<longrightarrow> v < xs ! i)"

lemma search_loop_correct:
  assumes "is_ok is" "0 \<le> mn" "mx < int (is_length is)" "mn \<le> mx + 1"
    and "\<And>i. int i < mn \<Longrightarrow> is_ints is ! i < v"
    and "\<And>i. mx < int i \<Longrightarrow> i < is_length is \<Longrightarrow> v < is_ints is ! i"
    and "mn \<le> mx \<or> cur \<noteq> v"
    and "search_loop is v mn mx mid cur = (mn', mid', cur')"
  shows "if v = cur' then 0 \<le> mid' \<and> nat mid' < is_length is \<and> is_ints is ! nat mid' = v
    else 0 \<le> mn' \<and> insertion_point (is_ints is) v (nat mn')"
  using assms
proof (induction "is" v mn mx mid cur rule: search_loop.induct)
  case (1 iset v mn mx mid cur)
  note ok = "1.prems"(1)
  have sorted: "is_ints iset ! i < is_ints iset ! j" if "i < j" "j < is_length iset" for i j
    using ok that length_is_ints [OF ok] by (auto simp: is_ok_def sorted_wrt_iff_nth_less)
  then have sorted_le: "is_ints iset ! i \<le> is_ints iset ! j" if "i \<le> j" "j < is_length iset" for i j
    using that by (cases "i = j") (auto simp: less_imp_le)
  show ?case
  proof (cases "mn \<le> mx")
    case True
    let ?m = "(mn + mx) div 2"
    have m: "0 \<le> ?m" "mn \<le> ?m" "?m \<le> mx" "nat ?m < is_length iset"
      using True "1.prems"(2-4) by linarith+
    have get: "intsetGetAt iset (nat ?m) = is_ints iset ! nat ?m"
      using GetAt_nth [OF ok m(4)] .
    consider "v > is_ints iset ! nat ?m" | "v < is_ints iset ! nat ?m" | "v = is_ints iset ! nat ?m"
      by linarith
    then show ?thesis
    proof cases
      case 1
      show ?thesis
      proof (rule "1.IH"(1) [OF True refl refl])
        show "is_ints iset ! i < v" if "int i < ?m + 1" for i
          using 1 that m sorted_le [of i "nat ?m"] by linarith
        show "search_loop iset v (?m + 1) mx ?m (intsetGetAt iset (nat ?m)) = (mn', mid', cur')"
          using "1.prems"(8) True 1 get by (subst (asm) search_loop.simps) (simp add: Let_def)
      qed (use 1 get ok m "1.prems" in auto)
    next
      case 2
      show ?thesis
      proof (rule "1.IH"(2) [OF True refl refl])
        show "v < is_ints iset ! i" if "?m - 1 < int i" "i < is_length iset" for i
          using 2 that m sorted_le [of "nat ?m" i] by linarith
        show "search_loop iset v mn (?m - 1) ?m (intsetGetAt iset (nat ?m)) = (mn', mid', cur')"
          using "1.prems"(8) True 2 get by (subst (asm) search_loop.simps) (simp add: Let_def)
      qed (use 2 get ok m "1.prems" in auto)
    next
      case 3
      then have "search_loop iset v mn mx mid cur = (mn, ?m, v)"
        using True get by (subst search_loop.simps) (simp add: Let_def)
      then show ?thesis using "1.prems"(8) m 3 by auto
    qed
  next
    case False
    then have r: "(mn', mid', cur') = (mn, mid, cur)"
      using "1.prems"(8) by (subst (asm) search_loop.simps) simp
    have "mn = mx + 1" using False "1.prems"(4) by simp
    then show ?thesis
      using r "1.prems"(2-7) length_is_ints [OF ok] False by (auto simp: insertion_point_def)
  qed
qed

lemma intsetSearch_correct:
  assumes "is_ok is" "intsetSearch is v = (found, pos)"
  shows "if found then pos < is_length is \<and> is_ints is ! pos = v
    else insertion_point (is_ints is) v pos"
proof -
  note len = length_is_ints [OF assms(1)]
  have sorted: "is_ints is ! i < is_ints is ! j" if "i < j" "j < is_length is" for i j
    using assms(1) that len by (auto simp: is_ok_def sorted_wrt_iff_nth_less)
  then have sorted_le: "is_ints is ! i \<le> is_ints is ! j" if "i \<le> j" "j < is_length is" for i j
    using that by (cases "i = j") (auto simp: less_imp_le)
  have ne: "0 < is_length is \<Longrightarrow> is_length is - 1 < is_length is" by simp
  consider "is_length is = 0" | "0 < is_length is" "v > is_ints is ! (is_length is - 1)"
    | "0 < is_length is" "v < is_ints is ! 0" "v \<le> is_ints is ! (is_length is - 1)"
    | "0 < is_length is" "is_ints is ! 0 \<le> v" "v \<le> is_ints is ! (is_length is - 1)"
    by linarith
  then show ?thesis
  proof cases
    case 1
    then show ?thesis using assms(2) len by (auto simp: intsetSearch_def insertion_point_def)
  next
    case 2
    have "is_ints is ! i < v" if "i < is_length is" for i
      using 2 that sorted_le [of i "is_length is - 1"] by linarith
    then show ?thesis using 2 assms(2) len GetAt_nth [OF assms(1) ne]
      by (auto simp: intsetSearch_def insertion_point_def)
  next
    case 3
    have "v < is_ints is ! i" if "i < is_length is" for i
      using 3 that sorted_le [of 0 i] by linarith
    then show ?thesis using 3 assms(2) len GetAt_nth [OF assms(1) ne] GetAt_nth [OF assms(1), of 0]
      by (auto simp: intsetSearch_def insertion_point_def)
  next
    case 4
    obtain mn mid cur where r: "search_loop is v 0 (int (is_length is) - 1) (-1) (-1) = (mn, mid, cur)"
      by (metis prod_cases3)
    have "if v = cur then 0 \<le> mid \<and> nat mid < is_length is \<and> is_ints is ! nat mid = v
        else 0 \<le> mn \<and> insertion_point (is_ints is) v (nat mn)"
      by (rule search_loop_correct [OF assms(1) _ _ _ _ _ _ r]) (use 4 in auto)
    moreover have "intsetSearch is v = (if v = cur then (True, nat mid) else (False, nat mn))"
      using 4 r GetAt_nth [OF assms(1) ne] GetAt_nth [OF assms(1), of 0]
      by (auto simp: intsetSearch_def)
    ultimately show ?thesis using assms(2) by (auto split: if_splits)
  qed
qed

lemma insertion_point_notin: "insertion_point xs v p \<Longrightarrow> v \<notin> set xs"
  by (metis in_set_conv_nth insertion_point_def linorder_not_less less_irrefl)

lemma insertion_point_sorted:
  assumes "sorted_wrt (<) xs" "insertion_point xs v p"
  shows "sorted_wrt (<) (take p xs @ v # drop p xs)"
proof -
  have "x < v" if "x \<in> set (take p xs)" for x
    using that assms(2) by (auto simp: in_set_conv_nth insertion_point_def)
  moreover have "v < x" if "x \<in> set (drop p xs)" for x
    using that assms(2) by (auto simp: in_set_conv_nth insertion_point_def)
  moreover have "x < y" if "x \<in> set (take p xs)" "y \<in> set (drop p xs)" for x y
    using calculation that by (meson less_trans)
  ultimately show ?thesis using assms(1)
    by (auto simp: sorted_wrt_append sorted_wrt_take sorted_wrt_drop)
qed

lemma search_found_iff:
  assumes "is_ok is"
  shows "fst (intsetSearch is v) \<longleftrightarrow> v \<in> set (is_ints is)"
proof -
  obtain f p where "intsetSearch is v = (f, p)" by fastforce
  then show ?thesis
    using intsetSearch_correct [OF assms, of v f p] length_is_ints [OF assms] insertion_point_notin
    by (auto split: if_splits)
qed


section \<open>Insertion and removal\<close>

lemma contents_zrealloc: "length (zrealloc junk p n) = n"
  by (simp add: zrealloc_def)

lemma slots_zrealloc:
  assumes "0 < e" "length c = n * e" "n \<le> m"
  shows "\<exists>g. slots e (zrealloc junk c (m * e)) = slots e c @ g \<and> length g = m - n"
proof -
  have "n * e \<le> m * e" using assms by simp
  then have "zrealloc junk c (m * e) = c @ replicate ((m - n) * e) junk"
    using assms by (simp add: zrealloc_def diff_mult_distrib)
  then show ?thesis using assms
    by (intro exI [of _ "slots e (replicate ((m - n) * e) junk)"])
       (simp add: slots_append [OF assms(1,2)] length_slots)
qed

lemma slots_zrealloc_shrink:
  "0 < e \<Longrightarrow> m * e \<le> length c \<Longrightarrow> slots e (zrealloc junk c (m * e)) = take m (slots e c)"
  by (simp add: zrealloc_def slots_take_drop)

lemma u32_id: "n < 2 ^ 32 \<Longrightarrow> u32 n = n"
  by (simp add: u32_def)

lemma enc_cases_pos: "e \<in> {2, 4, 8 :: nat} \<Longrightarrow> 0 < e \<and> e \<le> 8"
  by auto

lemma Resize_eq:
  assumes "encoding is \<in> {2, 4, 8}" "len * 8 < 2 ^ 32"
  shows "intsetResize junk is len = is\<lparr>contents := zrealloc junk (contents is) (len * encoding is)\<rparr>"
proof -
  have "len * encoding is \<le> len * 8" using enc_cases_pos [OF assms(1)] by simp
  from u32_id [OF order.strict_trans1 [OF this assms(2)]]
  have "u32 (len * encoding is) = len * encoding is" .
  then show ?thesis by (simp add: intsetResize_def)
qed

lemma Add_same_encoding:
  assumes ok: "is_ok is" and bound: "(is_length is + 1) * 8 < 2 ^ 32"
    and v: "fits (encoding is) v" "v \<notin> set (is_ints is)" "fits 8 v"
  shows "\<exists>is' p. intsetAdd junk is v = Some (is', True) \<and> is_ok is' \<and> encoding is' = encoding is \<and>
    insertion_point (is_ints is) v p \<and> is_ints is' = take p (is_ints is) @ v # drop p (is_ints is)"
proof -
  define e n xs where "e = encoding is" and "n = is_length is" and "xs = is_ints is"
  have e: "e \<in> {2, 4, 8}" "0 < e" and c: "length (contents is) = n * e" and xs: "length xs = n"
    "sorted_wrt (<) xs" "xs = slots e (contents is)"
    using ok enc_cases_pos by (auto simp: is_ok_def e_def n_def xs_def is_ints_def length_slots)
  obtain p where s: "intsetSearch is v = (False, p)" and p: "insertion_point xs v p"
    using intsetSearch_correct [OF ok] search_found_iff [OF ok, of v] v(2)
    by (metis (full_types) fst_conv surj_pair xs_def)
  have pn: "p \<le> n" using p xs by (simp add: insertion_point_def)
  define c1 where "c1 = zrealloc junk (contents is) ((n + 1) * e)"
  define c2 where "c2 = (if p < n then blit c1 ((p + 1) * e) (take ((n - p) * e) (drop (p * e) c1)) else c1)"
  define c3 where "c3 = blit c2 (p * e) (int_bytes e v)"
  have ve: "\<not> intsetValueEncoding v > e"
    using ValueEncoding_fits [OF v(3) e(1)] v(1) by (simp add: e_def)
  have l1: "length c1 = (n + 1) * e" by (simp add: c1_def contents_zrealloc)
  have l2: "length c2 = (n + 1) * e"
  proof (cases "p < n")
    case True
    then have "(p + 1) * e + (n - p) * e = (n + 1) * e"
      by (simp flip: add_mult_distrib)
    then show ?thesis using True l1 by (simp add: c2_def)
  qed (simp add: c2_def l1)
  have pe: "p * e + e \<le> (n + 1) * e" using pn by simp
  have r: "intsetResize junk is (u32 (n + 1)) = is\<lparr>contents := c1\<rparr>"
    using e bound by (simp add: Resize_eq u32_id c1_def flip: e_def n_def)
  have m: "(if p < n then intsetMoveTail (is\<lparr>contents := c1\<rparr>) p (p + 1) else Some (is\<lparr>contents := c1\<rparr>)) =
      Some (is\<lparr>contents := c2\<rparr>)"
  proof (cases "p < n")
    case True
    then have "p * e + (n - p) * e \<le> length c1" "(p + 1) * e + (n - p) * e \<le> length c1"
      unfolding l1 by (simp_all flip: add_mult_distrib del: mult_Suc)
    then show ?thesis using True e by (simp add: MoveTail_blit c2_def flip: e_def n_def)
  qed (simp add: c2_def)
  have t: "intsetSet (is\<lparr>contents := c2\<rparr>) p v = Some (is\<lparr>contents := c3\<rparr>)"
    using e pe l2 by (simp add: Set_blit c3_def flip: e_def)
  have "intsetAdd junk is v = Some (is\<lparr>contents := c3, is_length := n + 1\<rparr>, True)"
    unfolding intsetAdd_def using s bound ve m t r by (cases "p < n") (simp_all add: Let_def u32_id flip: e_def n_def)
  moreover have l3: "length c3 = (n + 1) * e" using pe by (simp add: c3_def l2)
  obtain g where g: "slots e c1 = xs @ [g]"
    using slots_zrealloc [OF e(2) c, of "n + 1" junk] xs by (auto simp: c1_def length_Suc_conv)
  have s2: "slots e c2 = take p xs @ (xs @ [g]) ! p # drop p xs"
  proof (cases "p < n")
    case True
    have "p * e + (n - p) * e \<le> (n + 1) * e" using pn by (simp flip: add_mult_distrib)
    then have lt: "length (take ((n - p) * e) (drop (p * e) c1)) = (n - p) * e"
      using l1 by simp
    have "p + 1 + (n - p) = n + 1" using pn by simp
    then have "(p + 1 + (n - p)) * e \<le> length c1" using l1 by simp
    from slots_blit [OF e(2) this lt]
    have "slots e c2 = blit (slots e c1) (p + 1) (slots e (take ((n - p) * e) (drop (p * e) c1)))"
      using True by (simp add: c2_def)
    also have "slots e (take ((n - p) * e) (drop (p * e) c1)) = take (n - p) (drop p (xs @ [g]))"
    proof -
      have "p * e \<le> length c1" "(n - p) * e \<le> length (drop (p * e) c1)"
        using \<open>p * e + (n - p) * e \<le> (n + 1) * e\<close> by (simp_all add: l1)
      then show ?thesis using e(2) g by (simp only: slots_take_drop)
    qed
    finally show ?thesis using True xs by (simp add: g blit_def take_Suc_conv_app_nth nth_append)
  next
    case False
    then show ?thesis using pn g xs(1) by (simp add: c2_def nth_append)
  qed
  have "slots e c3 = blit (slots e c2) p [v]"
    unfolding c3_def using slots_blit [of e p 1 c2 "int_bytes e v"] e(2) l2 pe v(1)
    by (simp add: slots_int_bytes e_def)
  then have s3: "slots e c3 = take p xs @ v # drop p xs"
    using pn xs by (simp add: s2 blit_def)
  have "is_ok (is\<lparr>contents := c3, is_length := n + 1\<rparr>)"
    unfolding is_ok_def is_ints_def
    using e l3 bound s3 insertion_point_sorted [OF xs(2) p] by (simp flip: e_def n_def)
  moreover have "is_ints (is\<lparr>contents := c3, is_length := n + 1\<rparr>) = take p xs @ v # drop p xs"
    by (simp add: is_ints_def s3 flip: e_def)
  ultimately show ?thesis using p by (auto simp: xs_def)
qed

lemma Add_present:
  assumes "is_ok is" "v \<in> set (is_ints is)" "fits 8 v"
  shows "intsetAdd junk is v = Some (is, False)"
proof -
  have "\<not> intsetValueEncoding v > encoding is"
    using ValueEncoding_fits [OF assms(3), of "encoding is"] fits_is_ints [OF assms(1,2)] assms(1)
    by (simp add: is_ok_def)
  then show ?thesis using search_found_iff [OF assms(1), of v] assms(2)
    by (auto simp: intsetAdd_def Let_def split: prod.split)
qed

lemma Remove_absent:
  assumes "is_ok is" "v \<notin> set (is_ints is)"
  shows "intsetRemove junk is v = Some (is, False)"
  using search_found_iff [OF assms(1), of v] assms(2)
  by (auto simp: intsetRemove_def Let_def split: prod.split)

lemma Remove_present:
  assumes ok: "is_ok is" and v: "v \<in> set (is_ints is)" "fits 8 v"
  shows "\<exists>is' p. intsetRemove junk is v = Some (is', True) \<and> is_ok is' \<and> p < length (is_ints is) \<and>
    is_ints is ! p = v \<and> is_ints is' = take p (is_ints is) @ drop (p + 1) (is_ints is)"
proof -
  define e n xs where "e = encoding is" and "n = is_length is" and "xs = is_ints is"
  have e: "e \<in> {2, 4, 8}" "0 < e" and c: "length (contents is) = n * e" and xs: "length xs = n"
    "sorted_wrt (<) xs" "xs = slots e (contents is)" and b: "n * 8 < 2 ^ 32"
    using ok enc_cases_pos by (auto simp: is_ok_def e_def n_def xs_def is_ints_def length_slots)
  obtain p where s: "intsetSearch is v = (True, p)"
    using search_found_iff [OF ok, of v] v(1) by (metis fst_conv surj_pair)
  then have p: "p < n" "xs ! p = v"
    using intsetSearch_correct [OF ok s] by (auto simp: n_def xs_def)
  define c1 where "c1 = (if p < n - 1 then blit (contents is) (p * e)
      (take ((n - (p + 1)) * e) (drop ((p + 1) * e) (contents is))) else contents is)"
  define c2 where "c2 = zrealloc junk c1 ((n - 1) * e)"
  have ve: "intsetValueEncoding v \<le> e"
    using ValueEncoding_fits [OF v(2) e(1)] fits_is_ints [OF ok v(1)] by (simp add: e_def)
  have pe: "p * e + (n - (p + 1)) * e \<le> n * e" "(p + 1) * e + (n - (p + 1)) * e \<le> n * e"
    using p by (simp_all flip: add_mult_distrib del: mult_Suc)
  have m: "(if p < n - 1 then intsetMoveTail is (p + 1) p else Some is) = Some (is\<lparr>contents := c1\<rparr>)"
    using e pe c by (simp add: MoveTail_blit c1_def flip: e_def n_def)
  have r: "intsetResize junk (is\<lparr>contents := c1\<rparr>) (n - 1) = is\<lparr>contents := c2\<rparr>"
    using e b by (simp add: Resize_eq c2_def flip: e_def)
  have "intsetRemove junk is v = Some (is\<lparr>contents := c2, is_length := n - 1\<rparr>, True)"
    unfolding intsetRemove_def using s ve m r by (simp add: Let_def flip: e_def n_def)
  moreover
  have l1: "length c1 = n * e" using pe(1) c by (simp add: c1_def)
  have l2: "length c2 = (n - 1) * e" by (simp add: c2_def contents_zrealloc)
  have s1: "take (n - 1) (slots e c1) = take p xs @ drop (p + 1) xs"
  proof (cases "p < n - 1")
    case True
    have "(p + 1) * e + (n - (p + 1)) * e = n * e"
      using p by (metis Suc_eq_plus1 Suc_leI add_mult_distrib le_add_diff_inverse)
    then have lt: "length (take ((n - (p + 1)) * e) (drop ((p + 1) * e) (contents is))) = (n - (p + 1)) * e"
      using c by simp
    have "(p + (n - (p + 1))) * e \<le> length (contents is)" using c p by (simp add: mult_le_mono1)
    from slots_blit [OF e(2) this lt]
    have "slots e c1 = blit xs p (slots e (take ((n - (p + 1)) * e) (drop ((p + 1) * e) (contents is))))"
      using True xs by (simp add: c1_def)
    also have "slots e (take ((n - (p + 1)) * e) (drop ((p + 1) * e) (contents is))) = drop (p + 1) xs"
    proof -
      have "take ((n - (p + 1)) * e) (drop ((p + 1) * e) (contents is)) = drop ((p + 1) * e) (contents is)"
        using c by (simp add: diff_mult_distrib)
      moreover have "(p + 1) * e \<le> length (contents is)" using p c by (simp del: add_mult_distrib mult_Suc)
      ultimately show ?thesis using e(2) xs(3) slots_take_drop(2) by metis
    qed
    finally show ?thesis using True xs(1) p by (simp add: blit_def)
  next
    case False
    then have "p = n - 1" using p by simp
    then show ?thesis using xs p by (simp add: c1_def)
  qed
  have "(n - 1) * e \<le> length c1" using l1 by simp
  then have s2: "slots e c2 = take p xs @ drop (p + 1) xs"
    using slots_zrealloc_shrink [OF e(2)] s1 by (simp add: c2_def)
  have "sorted_wrt (<) (take p xs @ drop (p + 1) xs)"
    using xs(2) id_take_nth_drop [of p xs] p xs(1)
    by (metis Suc_eq_plus1 sorted_wrt_append list.set_intros(2) sorted_wrt.simps(2))
  then have "is_ok (is\<lparr>contents := c2, is_length := n - 1\<rparr>)"
    unfolding is_ok_def is_ints_def using e l2 b s2 by (simp flip: e_def)
  moreover have "is_ints (is\<lparr>contents := c2, is_length := n - 1\<rparr>) = take p xs @ drop (p + 1) xs"
    by (simp add: is_ints_def s2 flip: e_def)
  ultimately show ?thesis using p xs by (auto simp: xs_def)
qed


section \<open>Upgrade\<close>

lemma slot_blit:
  assumes "0 < e" "(j + 1) * e \<le> length c" "fits e v"
  shows "slot e (blit c (j * e) (int_bytes e v)) j = v"
  using assms slice_blit [of "j * e" "int_bytes e v" c]
  by (simp add: slot_def bytes_int_bytes add_mult_distrib)

lemma slot_blit_other:
  assumes "off + length s \<le> length c" "(k + 1) * e \<le> off \<or> off + length s \<le> k * e"
  shows "slot e (blit c off s) k = slot e c k"
proof -
  have "k * e + e = (k + 1) * e" by simp
  then show ?thesis unfolding slot_def
    using slice_blit_disjoint [OF assms(1), of "k * e" e] assms(2) by (metis (no_types))
qed

lemma upgrade_loop_slots:
  assumes "encoding is = ne" "ne \<in> {2, 4, 8}" "ce \<in> {2, 4, 8}" "ce \<le> ne"
    and "(len + p) * ne \<le> length (contents is)"
  shows "\<exists>r. upgrade_loop len p ce is = Some r \<and>
    length (contents r) = length (contents is) \<and> encoding r = ne \<and> is_length r = is_length is \<and>
    (\<forall>k. p \<le> k \<and> (k + 1) * ne \<le> length (contents is) \<longrightarrow> slot ne (contents r) k =
      (if k < len + p then slot ce (contents is) (k - p) else slot ne (contents is) k))"
  using assms(1,5)
proof (induction len arbitrary: "is")
  case 0
  then show ?case by simp
next
  case (Suc len)
  define v where "v = slot ce (contents is) len"
  define is' where "is' = is\<lparr>contents := blit (contents is) ((len + p) * ne) (int_bytes ne v)\<rparr>"
  have ne: "0 < ne" "0 < ce" using assms(2,3) by auto
  have room: "(len + p) * ne + ne \<le> length (contents is)" using Suc.prems(2) by simp
  have is': "is' = is\<lparr>contents := blit (contents is) ((len + p) * ne) (int_bytes ne v)\<rparr>"
    by (rule is'_def)
  have len': "length (contents is') = length (contents is)" using room by (simp add: is')
  have loop: "upgrade_loop (Suc len) p ce is = upgrade_loop len p ce is'"
    using assms(2,3) Suc.prems(1) room by (simp add: is'_def v_def GetEncoded_slot Set_blit)
  have "encoding is' = ne" "(len + p) * ne \<le> length (contents is')"
    using Suc.prems(1) room len' by (simp_all add: is')
  from Suc.IH [OF this] obtain r where r: "upgrade_loop len p ce is' = Some r" and
    IH: "length (contents r) = length (contents is') \<and> encoding r = ne \<and> is_length r = is_length is' \<and>
      (\<forall>k. p \<le> k \<and> (k + 1) * ne \<le> length (contents is') \<longrightarrow> slot ne (contents r) k =
        (if k < len + p then slot ce (contents is') (k - p) else slot ne (contents is') k))"
    by blast
  have below: "slot ce (contents is') j = slot ce (contents is) j" if "j < len" for j
  proof -
    have "(j + 1) * ce \<le> len * ne" using that assms(4) by (intro mult_le_mono) auto
    also have "\<dots> \<le> (len + p) * ne" by simp
    finally show ?thesis using room by (simp add: is' slot_blit_other)
  qed
  have fits_v: "fits ne v"
  proof -
    have "(len + 1) * ce \<le> (len + 1) * ne" using assms(4) by (rule mult_le_mono2)
    also have "\<dots> \<le> (len + p) * ne + ne" by (simp add: add_mult_distrib)
    finally have "(len + 1) * ce \<le> length (contents is)" using room by (rule order.trans)
    then show ?thesis unfolding v_def using ne assms(4) fits_slot fits_mono by blast
  qed
  have at: "slot ne (contents is') (len + p) = v"
    using room ne fits_v by (simp add: is' slot_blit)
  have above: "slot ne (contents is') k = slot ne (contents is) k" if "len + p < k" for k
  proof -
    have "(len + p + 1) * ne \<le> k * ne" using that by (intro mult_le_mono1) simp
    then show ?thesis using room by (simp add: is' slot_blit_other)
  qed
  have "slot ne (contents r) k =
      (if k < Suc len + p then slot ce (contents is) (k - p) else slot ne (contents is) k)"
    if k: "p \<le> k" "(k + 1) * ne \<le> length (contents is)" for k
  proof -
    consider "k < len + p" | "k = len + p" | "len + p < k" by linarith
    then show ?thesis using IH k len' below [of "k - p"] at above [of k]
      by cases (auto simp: v_def)
  qed
  moreover have "is_length is' = is_length is" by (simp add: is')
  ultimately show ?case using IH len' by (intro exI [of _ r]) (auto simp only: loop r)
qed

lemma fits_lt_not_fits:
  "fits e x \<Longrightarrow> \<not> fits e v \<Longrightarrow> (if v < 0 then v < x else x < v)"
  by (auto simp: fits_def)

lemma Add_upgrade:
  assumes ok: "is_ok is" and bound: "(is_length is + 1) * 8 < 2 ^ 32"
    and v: "\<not> fits (encoding is) v" "fits 8 v"
  shows "\<exists>is'. intsetAdd junk is v = Some (is', True) \<and> intsetUpgradeAndAdd junk is v = Some is' \<and>
    is_ok is' \<and> encoding is' = intsetValueEncoding v \<and> is_length is' = is_length is + 1 \<and>
    is_ints is' = (if v < 0 then v # is_ints is else is_ints is @ [v])"
proof -
  define ce ne n xs where "ce = encoding is" and "ne = intsetValueEncoding v"
    and "n = is_length is" and "xs = is_ints is"
  define p :: nat where "p = (if v < 0 then 1 else 0)"
  define q where "q = (if v < 0 then 0 else n)"
  have ce: "ce \<in> {2, 4, 8}" "0 < ce" and c: "length (contents is) = n * ce"
    and xs: "length xs = n" "sorted_wrt (<) xs" "xs = slots ce (contents is)"
    using ok enc_cases_pos by (auto simp: is_ok_def ce_def n_def xs_def is_ints_def length_slots)
  have ne: "ne \<in> {2, 4, 8}" "0 < ne" "ce < ne" "fits ne v"
    using ValueEncoding_cases [of v] ValueEncoding_fits [OF v(2) ce(1)] v(1)
      ValueEncoding_fits [OF v(2), of ne] enc_cases_pos
    by (auto simp: ne_def ce_def)
  define is1 where "is1 = is\<lparr>encoding := ne, contents := zrealloc junk (contents is) ((n + 1) * ne)\<rparr>"
  have l1: "length (contents is1) = (n + 1) * ne" by (simp add: is1_def contents_zrealloc)
  have "(n + p) * ne \<le> length (contents is1)" unfolding l1 p_def by (intro mult_le_mono1) simp
  from upgrade_loop_slots [OF _ ne(1) ce(1) less_imp_le [OF ne(3)] this]
  obtain is2 where loop: "upgrade_loop n p ce is1 = Some is2" and a:
      "length (contents is2) = length (contents is1) \<and> encoding is2 = ne \<and> is_length is2 = is_length is1 \<and>
      (\<forall>k. p \<le> k \<and> (k + 1) * ne \<le> length (contents is1) \<longrightarrow> slot ne (contents is2) k =
        (if k < n + p then slot ce (contents is1) (k - p) else slot ne (contents is1) k))"
    by (auto simp: is1_def)
  have is2: "length (contents is2) = (n + 1) * ne" "encoding is2 = ne" "is_length is2 = n"
    "\<And>k. p \<le> k \<Longrightarrow> k < n + p \<Longrightarrow> slot ne (contents is2) k = slot ce (contents is1) (k - p)"
  proof -
    have e1: "encoding is1 = ne" "is_length is1 = n" by (simp_all add: is1_def n_def)
    show "length (contents is2) = (n + 1) * ne" "encoding is2 = ne" "is_length is2 = n"
      using a l1 e1 by auto
    fix k assume k: "p \<le> k" "k < n + p"
    then have "k + 1 \<le> n + 1" by (simp add: p_def split: if_splits)
    then have "(k + 1) * ne \<le> length (contents is1)" unfolding l1 by (rule mult_le_mono1)
    then show "slot ne (contents is2) k = slot ce (contents is1) (k - p)"
      using a k by auto
  qed
  define c3 where "c3 = blit (contents is2) (q * ne) (int_bytes ne v)"
  have qn: "q \<le> n" by (simp add: q_def)
  then have q: "(q + 1) * ne \<le> length (contents is2)"
    unfolding is2(1) by (intro mult_le_mono1) simp
  have l3: "length c3 = (n + 1) * ne" using q is2(1) by (simp add: c3_def)
  have add: "intsetAdd junk is v = Some (is\<lparr>encoding := ne, contents := c3, is_length := n + 1\<rparr>, True)"
  proof -
    have "intsetResize junk (is\<lparr>encoding := ne\<rparr>) (u32 (n + 1)) = is1"
      using bound ne(1) by (simp add: Resize_eq u32_id is1_def n_def)
    then have up: "intsetUpgradeAndAdd junk is v =
        do { is3 \<leftarrow> (if p = 1 then intsetSet is2 0 v else intsetSet is2 (is_length is2) v);
             Some (is3\<lparr>is_length := u32 (is_length is3 + 1)\<rparr>) }"
      using loop by (simp add: intsetUpgradeAndAdd_def p_def Let_def flip: ne_def ce_def n_def)
    have shape: "is2 = is\<lparr>encoding := ne, contents := contents is2\<rparr>"
      using is2(2,3) by (intro intset.equality) (simp_all add: n_def)
    have "(if p = 1 then intsetSet is2 0 v else intsetSet is2 (is_length is2) v) = intsetSet is2 q v"
      using is2(3) by (simp add: p_def q_def)
    also have "\<dots> = Some (is2\<lparr>contents := c3\<rparr>)"
      using q is2(2) ne(1) by (simp add: Set_blit c3_def)
    finally have "intsetUpgradeAndAdd junk is v = Some (is\<lparr>encoding := ne, contents := c3, is_length := n + 1\<rparr>)"
      unfolding up using bound is2(3) arg_cong [OF shape, of "\<lambda>s. s\<lparr>contents := c3, is_length := n + 1\<rparr>"]
      by (simp add: u32_id n_def)
    then show ?thesis using ne(3) by (simp add: intsetAdd_def flip: ne_def ce_def)
  qed
  then have up: "intsetUpgradeAndAdd junk is v = Some (is\<lparr>encoding := ne, contents := c3, is_length := n + 1\<rparr>)"
    using ne(3) by (simp add: intsetAdd_def split: bind_splits flip: ne_def ce_def)
  have keep: "slot ce (contents is1) j = xs ! j" if "j < n" for j
  proof -
    have "(j + 1) * ce \<le> n * ce" using that by (intro mult_le_mono1) simp
    moreover have "n * ce \<le> (n + 1) * ne" using ne(3) by (intro mult_le_mono) auto
    ultimately have "take ce (drop (j * ce) (contents is1)) = take ce (drop (j * ce) (contents is))"
      using c by (simp add: is1_def zrealloc_def)
    then show ?thesis using that c ce(2) by (simp add: slot_def xs(3) slots_def)
  qed
  have ints: "slots ne c3 = take q xs @ v # drop q xs"
  proof (rule nth_equalityI)
    show "length (slots ne c3) = length (take q xs @ v # drop q xs)"
      using length_slots [OF l3 ne(2)] xs(1) qn by simp
    fix k assume "k < length (slots ne c3)"
    then have k: "k < n + 1" using length_slots [OF l3 ne(2)] by simp
    have sk: "slots ne c3 ! k = slot ne c3 k"
      using k l3 ne(2) by (intro slots_nth) simp_all
    show "slots ne c3 ! k = (take q xs @ v # drop q xs) ! k"
    proof (cases "k = q")
      case True
      then show ?thesis using sk slot_blit [OF ne(2) q ne(4)] xs(1) qn by (simp add: c3_def nth_append)
    next
      case False
      have "(k + 1) * ne \<le> q * ne \<or> (q + 1) * ne \<le> k * ne"
        using False by (metis Suc_eq_plus1 Suc_leI linorder_neqE_nat mult_le_mono1)
      then have "slot ne c3 k = slot ne (contents is2) k"
        unfolding c3_def using q by (intro slot_blit_other) auto
      also have "\<dots> = xs ! (k - p)"
        using False k is2(4) [of k] keep [of "k - p"] by (auto simp: p_def q_def split: if_splits)
      finally show ?thesis using False k sk xs(1) by (auto simp: p_def q_def nth_append)
    qed
  qed
  have point: "insertion_point xs v q"
  proof -
    have "if v < 0 then v < xs ! i else xs ! i < v" if "i < n" for i
      using fits_is_ints [OF ok, of "xs ! i"] that xs(1) v(1) fits_lt_not_fits
      by (metis nth_mem xs_def)
    then show ?thesis using xs(1) by (auto simp: insertion_point_def q_def split: if_splits)
  qed
  have "is_ok (is\<lparr>encoding := ne, contents := c3, is_length := n + 1\<rparr>)"
    unfolding is_ok_def is_ints_def
    using ne(1) l3 bound ints insertion_point_sorted [OF xs(2) point] by (simp add: n_def)
  moreover have "is_ints (is\<lparr>encoding := ne, contents := c3, is_length := n + 1\<rparr>) =
      (if v < 0 then v # is_ints is else is_ints is @ [v])"
    using ints xs(1) unfolding xs_def by (simp add: is_ints_def q_def)
  ultimately show ?thesis using add up by (simp add: ne_def n_def)
qed


section \<open>A set of integers under a sequence of operations\<close>

datatype set_op = Ins int | Del int | Has int

fun op_val :: "set_op \<Rightarrow> int" where
  "op_val (Ins v) = v" | "op_val (Del v) = v" | "op_val (Has v) = v"

fun run_spec :: "set_op list \<Rightarrow> int set \<Rightarrow> bool list \<times> int set" where
  "run_spec [] S = ([], S)"
| "run_spec (Ins v # ops) S = (let (r, S') = run_spec ops (insert v S) in ((v \<notin> S) # r, S'))"
| "run_spec (Del v # ops) S = (let (r, S') = run_spec ops (S - {v}) in ((v \<in> S) # r, S'))"
| "run_spec (Has v # ops) S = (let (r, S') = run_spec ops S in ((v \<in> S) # r, S'))"

fun run_set :: "(int \<Rightarrow> 's \<Rightarrow> ('s \<times> bool) option) \<Rightarrow> (int \<Rightarrow> 's \<Rightarrow> ('s \<times> bool) option) \<Rightarrow> (int \<Rightarrow> 's \<Rightarrow> bool)
    \<Rightarrow> set_op list \<Rightarrow> 's \<Rightarrow> (bool list \<times> 's) option" where
  "run_set add del has [] s = Some ([], s)"
| "run_set add del has (Ins v # ops) s =
     do { (s1, b) \<leftarrow> add v s; (r, s') \<leftarrow> run_set add del has ops s1; Some (b # r, s') }"
| "run_set add del has (Del v # ops) s =
     do { (s1, b) \<leftarrow> del v s; (r, s') \<leftarrow> run_set add del has ops s1; Some (b # r, s') }"
| "run_set add del has (Has v # ops) s =
     do { (r, s') \<leftarrow> run_set add del has ops s; Some (has v s # r, s') }"

locale int_set =
  fixes inv :: "'s \<Rightarrow> bool" and elems :: "'s \<Rightarrow> int set" and cap :: nat
    and add :: "int \<Rightarrow> 's \<Rightarrow> ('s \<times> bool) option" and del :: "int \<Rightarrow> 's \<Rightarrow> ('s \<times> bool) option"
    and has :: "int \<Rightarrow> 's \<Rightarrow> bool"
  assumes finite_elems: "inv s \<Longrightarrow> finite (elems s)"
    and add_law: "inv s \<Longrightarrow> fits 8 v \<Longrightarrow> card (elems s) < cap \<Longrightarrow>
      \<exists>s'. add v s = Some (s', v \<notin> elems s) \<and> inv s' \<and> elems s' = insert v (elems s)"
    and del_law: "inv s \<Longrightarrow> fits 8 v \<Longrightarrow>
      \<exists>s'. del v s = Some (s', v \<in> elems s) \<and> inv s' \<and> elems s' = elems s - {v}"
    and has_law: "inv s \<Longrightarrow> fits 8 v \<Longrightarrow> has v s \<longleftrightarrow> v \<in> elems s"
begin

lemma run_refines_spec:
  assumes "inv s" "\<forall>x \<in> set ops. fits 8 (op_val x)" "card (elems s) + length ops \<le> cap"
  shows "\<exists>s'. run_set add del has ops s = Some (fst (run_spec ops (elems s)), s') \<and> inv s' \<and>
    elems s' = snd (run_spec ops (elems s))"
  using assms
proof (induction ops arbitrary: s)
  case (Cons x ops)
  note fin = finite_elems [OF Cons.prems(1)]
  show ?case
  proof (cases x)
    case (Ins v)
    obtain s1 where s1: "add v s = Some (s1, v \<notin> elems s)" "inv s1" "elems s1 = insert v (elems s)"
      using add_law [OF Cons.prems(1), of v] Cons.prems(2,3) Ins by auto
    have "card (elems s1) + length ops \<le> cap"
      using Cons.prems(3) card_insert_le_m1 [of "card (elems s) + 1" "elems s" v] fin s1(3)
      by (auto simp: card_insert_if)
    from Cons.IH [OF s1(2) _ this] Cons.prems(2) obtain s' where
      "run_set add del has ops s1 = Some (fst (run_spec ops (elems s1)), s')" "inv s'"
      "elems s' = snd (run_spec ops (elems s1))"
      by auto
    then show ?thesis using s1 Ins by (auto simp: case_prod_beta Let_def)
  next
    case (Del v)
    obtain s1 where s1: "del v s = Some (s1, v \<in> elems s)" "inv s1" "elems s1 = elems s - {v}"
      using del_law [OF Cons.prems(1), of v] Cons.prems(2) Del by auto
    have "card (elems s1) + length ops \<le> cap"
      using Cons.prems(3) card_Diff1_le [of "elems s" v] s1(3) by simp
    from Cons.IH [OF s1(2) _ this] Cons.prems(2) obtain s' where
      "run_set add del has ops s1 = Some (fst (run_spec ops (elems s1)), s')" "inv s'"
      "elems s' = snd (run_spec ops (elems s1))"
      by auto
    then show ?thesis using s1 Del by (auto simp: case_prod_beta Let_def)
  next
    case (Has v)
    have "card (elems s) + length ops \<le> cap" using Cons.prems(3) by simp
    from Cons.IH [OF Cons.prems(1) _ this] Cons.prems(2) obtain s' where
      "run_set add del has ops s = Some (fst (run_spec ops (elems s)), s')" "inv s'"
      "elems s' = snd (run_spec ops (elems s))"
      by auto
    then show ?thesis using has_law [OF Cons.prems(1), of v] Cons.prems(2) Has
      by (auto simp: case_prod_beta Let_def)
  qed
qed simp

end

lemma card_is_ints: "is_ok is \<Longrightarrow> card (set (is_ints is)) = is_length is"
  using length_is_ints strict_sorted_iff [of "is_ints is"] distinct_card is_ok_def by metis

lemma set_insert_at: "set (take p xs @ v # drop p xs) = insert v (set xs)"
  by (metis append_take_drop_id set_append list.simps(15) Un_insert_right)

lemma set_remove_at:
  assumes "sorted_wrt (<) (xs :: int list)" "p < length xs"
  shows "set (take p xs @ drop (p + 1) xs) = set xs - {xs ! p}"
proof -
  have "distinct xs" using assms(1) strict_sorted_iff by blast
  then have "distinct (take p xs @ xs ! p # drop (p + 1) xs)"
    using id_take_nth_drop [OF assms(2)] by simp
  moreover have "set xs = set (take p xs @ xs ! p # drop (p + 1) xs)"
    using id_take_nth_drop [OF assms(2)] by simp
  ultimately show ?thesis by auto
qed

definition intset_cap :: nat where
  "intset_cap = 2 ^ 29 - 1"

interpretation its: int_set is_ok "\<lambda>s. set (is_ints s)" intset_cap
  "\<lambda>v s. intsetAdd junk s v" "\<lambda>v s. intsetRemove junk s v" "\<lambda>v s. intsetFind s v" for junk
proof unfold_locales
  fix s v
  assume s: "is_ok s" and v: "fits 8 v"
  show "\<exists>s'. intsetRemove junk s v = Some (s', v \<in> set (is_ints s)) \<and> is_ok s' \<and>
      set (is_ints s') = set (is_ints s) - {v}"
  proof (cases "v \<in> set (is_ints s)")
    case True
    from Remove_present [OF s this v, of junk] show ?thesis
      using set_remove_at [of "is_ints s"] s True unfolding is_ok_def by metis
  qed (use Remove_absent [OF s] s in auto)
  have "v \<in> set (is_ints s) \<Longrightarrow> intsetValueEncoding v \<le> encoding s"
    using fits_is_ints [OF s] ValueEncoding_fits [OF v] s by (simp add: is_ok_def)
  then show "intsetFind s v \<longleftrightarrow> v \<in> set (is_ints s)"
    using search_found_iff [OF s, of v] by (auto simp: intsetFind_def)
  assume "card (set (is_ints s)) < intset_cap"
  then have b: "(is_length s + 1) * 8 < 2 ^ 32"
    using card_is_ints [OF s] by (simp add: intset_cap_def)
  show "\<exists>s'. intsetAdd junk s v = Some (s', v \<notin> set (is_ints s)) \<and> is_ok s' \<and>
      set (is_ints s') = insert v (set (is_ints s))"
  proof (cases "v \<in> set (is_ints s)")
    case True
    then show ?thesis using Add_present [OF s True v] s by auto
  next
    case False
    show ?thesis
    proof (cases "fits (encoding s) v")
      case True
      then show ?thesis using Add_same_encoding [OF s b _ False v, of junk] False set_insert_at by metis
    next
      case out: False
      then show ?thesis using Add_upgrade [OF s b out v, of junk] False by (auto split: if_splits)
    qed
  qed
qed (simp_all)

lemma is_ok_New: "is_ok intsetNew" and is_ints_New: "is_ints intsetNew = []"
  by (simp_all add: is_ok_def is_ints_def slots_def intsetNew_def enc_defs)

section \<open>Properties\<close>

text \<open>C2: from an empty intset, any sequence of \<open>intsetAdd\<close>, \<open>intsetRemove\<close> and \<open>intsetFind\<close>
  calls on 64-bit values answers call by call what a mathematical set of integers answers, and
  the block it ends with represents that set, strictly sorted, at one width that fits every
  element, and nothing is written outside it: the encoding upgrades on the way, in either direction, are not observable.  The
  bound on the number of calls keeps the byte size of the block below \<open>2 ^ 32\<close>.\<close>

theorem intset_refines_set:
  assumes "\<forall>x \<in> set ops. fits 8 (op_val x)" "length ops \<le> intset_cap"
  shows "\<exists>is. run_set (\<lambda>v s. intsetAdd junk s v) (\<lambda>v s. intsetRemove junk s v)
      (\<lambda>v s. intsetFind s v) ops intsetNew = Some (fst (run_spec ops {}), is) \<and> is_ok is \<and>
    set (is_ints is) = snd (run_spec ops {})"
  using its.run_refines_spec [OF is_ok_New assms(1), of junk] assms(2) by (simp add: is_ints_New)

theorem intset_refines_set_witness:
  "\<exists>is. run_set (\<lambda>v s. intsetAdd 0 s v) (\<lambda>v s. intsetRemove 0 s v) (\<lambda>v s. intsetFind s v)
      [Ins 5, Ins (-70000), Ins 5, Ins (2 ^ 40), Del 5, Has 5, Has (2 ^ 40)] intsetNew =
      Some ([True, True, False, True, True, False, True], is) \<and> is_ok is \<and>
    set (is_ints is) = {-70000, 2 ^ 40}"
  using intset_refines_set
    [of "[Ins 5, Ins (-70000), Ins 5, Ins (2 ^ 40), Del 5, Has 5, Has (2 ^ 40)]" 0]
  by (simp add: fits_def intset_cap_def insert_commute)

text \<open>C3: adding a value that the current width cannot hold (\<open>intsetUpgradeAndAdd\<close>) rewrites
  every element at the new width in place, from the back, without losing any: the elements
  afterwards are the old ones with the value in front when it is negative and at the end when
  it is not, the new width is the value's, and the block has exactly one more cell.\<close>

theorem intsetUpgradeAndAdd_correct:
  assumes "is_ok is" "fits 8 v" "encoding is < intsetValueEncoding v"
    "(is_length is + 1) * 8 < 2 ^ 32"
  shows "\<exists>is'. intsetAdd junk is v = Some (is', True) \<and> intsetUpgradeAndAdd junk is v = Some is' \<and>
    is_ok is' \<and> encoding is' = intsetValueEncoding v \<and> is_length is' = is_length is + 1 \<and>
    is_ints is' = (if v < 0 then v # is_ints is else is_ints is @ [v])"
proof -
  have "\<not> fits (encoding is) v"
    using assms(1,3) ValueEncoding_fits [OF assms(2), of "encoding is"] by (simp add: is_ok_def)
  from Add_upgrade [OF assms(1,4) this assms(2)] show ?thesis .
qed

lemma sample_is_ok: "is_ok \<lparr>encoding = 2, is_length = 3, contents = [1, 0, 5, 0, 9, 0]\<rparr>"
  by (simp add: is_ok_def is_ints_def slots_def slot_def bytes_int_def sext_def upt_rec)

theorem intsetUpgradeAndAdd_correct_witness:
  "\<exists>is'. intsetAdd 0 \<lparr>encoding = 2, is_length = 3, contents = [1, 0, 5, 0, 9, 0]\<rparr> (-100000) = Some (is', True) \<and>
     is_ok is' \<and> encoding is' = 4 \<and> is_ints is' = [-100000, 1, 5, 9]"
proof -
  have "is_ints \<lparr>encoding = 2, is_length = 3, contents = [1, 0, 5, 0, 9, 0]\<rparr> = [1, 5, 9]"
    "intsetValueEncoding (-100000) = 4"
    by (simp_all add: is_ints_def slots_def slot_def bytes_int_def sext_def upt_rec
        intsetValueEncoding_def enc_defs)
  then show ?thesis
    using intsetUpgradeAndAdd_correct [OF sample_is_ok, of "-100000" 0] by (auto simp: fits_def)
qed

text \<open>C4: the bisection of \<open>intsetSearch\<close> ends, and answers where the value is, or else the only
  position at which inserting it keeps the set sorted.\<close>

theorem intsetSearch_position:
  assumes "is_ok is"
  shows "case intsetSearch is v of
      (True, pos) \<Rightarrow> pos < is_length is \<and> intsetGet is pos = Some v
    | (False, pos) \<Rightarrow> pos \<le> is_length is \<and>
        (\<forall>i < pos. \<exists>x. intsetGet is i = Some x \<and> x < v) \<and>
        (\<forall>i < is_length is. pos \<le> i \<longrightarrow> (\<exists>x. intsetGet is i = Some x \<and> v < x))"
proof -
  obtain f p where s: "intsetSearch is v = (f, p)" by fastforce
  show ?thesis
    using intsetSearch_correct [OF assms s] length_is_ints [OF assms] GetAt_nth [OF assms]
    by (cases f) (auto simp: s intsetGet_def insertion_point_def)
qed

lemma sample_search:
  "intsetSearch \<lparr>encoding = 2, is_length = 3, contents = [1, 0, 5, 0, 9, 0]\<rparr> 7 = (False, 2)"
  by (simp add: intsetSearch_def intsetGetAt_def intsetGetEncoded_def enc_defs bytes_int_def sext_def
      search_loop.simps)

theorem intsetSearch_position_witness:
  "is_ok \<lparr>encoding = 2, is_length = 3, contents = [1, 0, 5, 0, 9, 0]\<rparr> \<and>
   (case intsetSearch \<lparr>encoding = 2, is_length = 3, contents = [1, 0, 5, 0, 9, 0]\<rparr> 7 of
      (True, pos) \<Rightarrow> False | (False, pos) \<Rightarrow> pos = 2)"
  using intsetSearch_position [OF sample_is_ok, of 7] sample_is_ok sample_search by simp

end
