(* ===== verification/Util.thy ===== *)
theory Util imports Endianconv "HOL-Library.Monad_Syntax" begin

text \<open>
  String routines of \<open>Server/redis-3.2.1/src/util.c\<close>: the decimal conversions \<open>digits10\<close>,
  \<open>ll2string\<close>, \<open>string2ll\<close>, \<open>string2l\<close> and the glob matcher \<open>stringmatchlen\<close>.  Characters are
  bytes, written by their ASCII codes.  \<open>unsigned long long\<close> values that the code guards against
  overflow are \<open>64 word\<close>s, \<open>long long\<close> values are \<open>int\<close>s within \<open>fits 8\<close>.  A buffer the code
  writes is returned updated; a result stored through a pointer is part of the result.

  A string that \<open>stringmatchlen\<close> reads is its memory, the terminating NUL included, and a
  position in it; reading outside or moving a pointer more than one past the end is \<open>None\<close>.
\<close>

section \<open>Decimal numbers\<close>

function digits10 :: "nat \<Rightarrow> nat" where
  "digits10 v =
    (if v < 10 then 1
     else if v < 100 then 2
     else if v < 1000 then 3
     else if v < 1000000000000 then
       (if v < 100000000 then
          (if v < 1000000 then (if v < 10000 then 4 else 5 + of_bool (v \<ge> 100000))
           else 7 + of_bool (v \<ge> 10000000))
        else if v < 10000000000 then 9 + of_bool (v \<ge> 1000000000)
        else 11 + of_bool (v \<ge> 100000000000))
     else 12 + digits10 (v div 1000000000000))"
  by pat_completeness auto
termination by (relation "measure id") auto

declare digits10.simps [simp del]

definition LLONG_MIN :: int where "LLONG_MIN = - (2 ^ 63)"
definition LLONG_MAX :: int where "LLONG_MAX = 2 ^ 63 - 1"
definition ULLONG_MAX :: "64 word" where "ULLONG_MAX = -1"

definition sdigits10 :: "int \<Rightarrow> nat" where
  "sdigits10 v =
    (if v < 0 then
       (let uv = (if v \<noteq> LLONG_MIN then nat (- v) else nat LLONG_MAX + 1) in digits10 uv + 1)
     else digits10 (nat v))"

text \<open>The 200 characters of the table \<open>digits\<close>, two for each number below 100.\<close>

definition digits :: bytes where
  "digits = concat (map (\<lambda>d. concat (map (\<lambda>e. [48 + of_nat d, 48 + of_nat e]) [0..<10])) [0..<10])"

text \<open>The loop of \<open>ll2string\<close> and the last one or two digits after it.\<close>

function ll2string_digits :: "bytes \<Rightarrow> nat \<Rightarrow> nat \<Rightarrow> bytes" where
  "ll2string_digits dst next value =
    (if value \<ge> 100 then
       (let i = (value mod 100) * 2
        in ll2string_digits (dst[next := digits ! (i + 1), next - 1 := digits ! i]) (next - 2)
             (value div 100))
     else if value < 10 then dst[next := 48 + of_nat value]
     else (let i = value * 2 in dst[next := digits ! (i + 1), next - 1 := digits ! i]))"
  by pat_completeness auto
termination by (relation "measure (\<lambda>(dst, next, value). value)") auto

declare ll2string_digits.simps [simp del]

definition ll2string :: "bytes \<Rightarrow> nat \<Rightarrow> int \<Rightarrow> nat \<times> bytes" where
  "ll2string dst dstlen svalue =
    (let (value, negative) =
       (if svalue < 0 then
          (if svalue \<noteq> LLONG_MIN then (nat (- svalue), 1) else (nat LLONG_MAX + 1, 1))
        else (nat svalue, 0));
         len = digits10 value + negative
     in if len \<ge> dstlen then (0, dst)
        else
          (let dst = dst[len := 0];
               next = len - 1;
               dst = ll2string_digits dst next value;
               dst = (if negative \<noteq> 0 then dst[0 := 45] else dst)
           in (len, dst)))"

text \<open>The digit loop of \<open>string2ll\<close> on the rest of the string: the value, or \<open>None\<close> on
  overflow, and what it has left unread.\<close>

fun string2ll_digits :: "bytes \<Rightarrow> 64 word \<Rightarrow> (64 word \<times> bytes) option" where
  "string2ll_digits [] v = Some (v, [])"
| "string2ll_digits (c # p) v =
    (if 48 \<le> c \<and> c \<le> 57 then
       (if v > ULLONG_MAX div 10 then None
        else
          (let v = v * 10; d = ucast (c - 48) in
           if v > ULLONG_MAX - d then None else string2ll_digits p (v + d)))
     else Some (v, c # p))"

definition string2ll :: "bytes \<Rightarrow> int option" where
  "string2ll s =
    (let slen = length s in
     if slen = 0 then None
     else if slen = 1 \<and> s ! 0 = 48 then Some 0
     else
       (let negative = (s ! 0 = 45); p = (if negative then tl s else s) in
        if p = [] then None
        else if 49 \<le> p ! 0 \<and> p ! 0 \<le> 57 then
          (case string2ll_digits (tl p) (ucast (p ! 0 - 48)) of
             None \<Rightarrow> None
           | Some (v, rest) \<Rightarrow>
               if rest \<noteq> [] then None
               else if negative then
                 (if v > of_int (- (LLONG_MIN + 1)) + 1 then None else Some (sint (- v)))
               else (if v > of_int LLONG_MAX then None else Some (sint v)))
        else if p ! 0 = 48 \<and> slen = 1 then Some 0
        else None))"

text \<open>\<open>long\<close> is 64 bits wide on the platforms the server is built for.\<close>

definition string2l :: "bytes \<Rightarrow> int option" where
  "string2l s =
    (case string2ll s of None \<Rightarrow> None
     | Some llval \<Rightarrow> if llval < - (2 ^ 63) \<or> llval > 2 ^ 63 - 1 then None else Some llval)"

section \<open>Glob patterns\<close>

text \<open>\<open>tolower\<close> in the C locale; a \<open>char\<close> is signed when it is widened to an \<open>int\<close>.\<close>

definition tolower :: "byte \<Rightarrow> byte" where
  "tolower c = (if 65 \<le> c \<and> c \<le> 90 then c + 32 else c)"

definition char_eq :: "bool \<Rightarrow> byte \<Rightarrow> byte \<Rightarrow> bool" where
  "char_eq nocase a b = (if nocase then tolower a = tolower b else a = b)"

definition in_range :: "bool \<Rightarrow> byte \<Rightarrow> byte \<Rightarrow> byte \<Rightarrow> bool" where
  "in_range nocase p0 p2 c =
    (let (lo, hi) = (if sint p0 > sint p2 then (p2, p0) else (p0, p2));
         (lo, hi, c) = (if nocase then (tolower lo, tolower hi, tolower c) else (lo, hi, c))
     in sint c \<ge> sint lo \<and> sint c \<le> sint hi)"

text \<open>The number of stars at a position: the loops \<open>while (pattern[1] == '*')\<close> and
  \<open>while (*pattern == '*')\<close>.\<close>

function stars_from :: "bytes \<Rightarrow> nat \<Rightarrow> nat option" where
  "stars_from pat i =
    do { c \<leftarrow> rd pat i;
         if c = 42 then map_option Suc (stars_from pat (i + 1)) else Some 0 }"
  by pat_completeness auto
termination by (relation "measure (\<lambda>(pat, i). length pat - i)") (auto simp: rd_def split: if_splits)

text \<open>The loop over the body of a class \<open>[...]\<close>: where it stops, and \<open>match\<close>.\<close>

function class_loop :: "bytes \<Rightarrow> bytes \<Rightarrow> bool \<Rightarrow> nat \<Rightarrow> nat \<Rightarrow> int \<Rightarrow> bool
    \<Rightarrow> (nat \<times> int \<times> bool) option" where
  "class_loop pat str nocase si pi plen match =
    do { p0 \<leftarrow> rd pat pi;
         if p0 = 92 then
           do { p1 \<leftarrow> rd pat (pi + 1); c \<leftarrow> rd str si;
                class_loop pat str nocase si (pi + 2) (plen - 2) (match \<or> p1 = c) }
         else if p0 = 93 then Some (pi, plen, match)
         else if plen = 0 then Some (pi - 1, plen + 1, match)
         else
           do { p1 \<leftarrow> rd pat (pi + 1);
                if p1 = 45 \<and> plen \<ge> 3 then
                  do { p2 \<leftarrow> rd pat (pi + 2); c \<leftarrow> rd str si;
                       class_loop pat str nocase si (pi + 3) (plen - 3)
                         (match \<or> in_range nocase p0 p2 c) }
                else
                  do { c \<leftarrow> rd str si;
                       class_loop pat str nocase si (pi + 1) (plen - 1)
                         (match \<or> char_eq nocase p0 c) } } }"
  by pat_completeness auto
termination
  by (relation "measure (\<lambda>(pat, str, nocase, si, pi, plen, match). length pat - pi)")
    (auto simp: rd_def split: if_splits)

declare stars_from.simps [simp del] class_loop.simps [simp del]

lemma class_loop_mono: "class_loop pat str nocase si pi plen m = Some (pi', plen', m') \<Longrightarrow> pi - 1 \<le> pi'"
proof (induction pat str nocase si pi plen m rule: class_loop.induct)
  case (1 pat str nocase si pi plen m)
  from "1.prems" obtain p0 where p0: "rd pat pi = Some p0"
    by (subst (asm) class_loop.simps) (auto split: Option.bind_splits)
  consider "p0 = 92" | "p0 = 93 \<or> p0 \<noteq> 92 \<and> plen = 0" | "p0 \<noteq> 92" "p0 \<noteq> 93" "plen \<noteq> 0" by blast
  then show ?case
  proof cases
    case 1
    then show ?thesis using "1.prems" p0 "1.IH"(1) [OF p0 1]
      by (subst (asm) class_loop.simps) (fastforce split: Option.bind_splits)
  next
    case 2
    then show ?thesis using "1.prems" p0
      by (subst (asm) class_loop.simps) (auto split: if_splits)
  next
    case 3
    then obtain p1 where p1: "rd pat (pi + 1) = Some p1"
      using "1.prems" p0 by (subst (asm) class_loop.simps) (auto split: Option.bind_splits)
    show ?thesis using "1.prems" p0 p1 3 "1.IH"(2) [OF p0 3 p1] "1.IH"(3) [OF p0 3 p1]
      by (subst (asm) class_loop.simps) (fastforce split: Option.bind_splits if_splits)
  qed
qed

text \<open>The cases of the \<open>switch\<close> that consume a character of the string: \<open>None\<close> inside \<open>Some\<close> is
  \<open>return 0\<close>, otherwise the pattern position and length the case leaves.\<close>

definition match_char :: "bytes \<Rightarrow> bytes \<Rightarrow> bool \<Rightarrow> byte \<Rightarrow> nat \<Rightarrow> int \<Rightarrow> nat \<Rightarrow> int
    \<Rightarrow> (nat \<times> int) option option" where
  "match_char pat str nocase p0 pi plen si slen =
    (if p0 = 63 then Some (if slen = 0 then None else Some (pi, plen))
     else if p0 = 91 then
       do { p1 \<leftarrow> rd pat (pi + 1);
            (pi1, plen1, match) \<leftarrow> class_loop pat str nocase si
               (if p1 = 94 then pi + 2 else pi + 1) (if p1 = 94 then plen - 2 else plen - 1) False;
            Some (if match \<noteq> (p1 = 94) then Some (pi1, plen1) else None) }
     else if p0 = 92 \<and> plen \<ge> 2 then
       do { p1 \<leftarrow> rd pat (pi + 1); c \<leftarrow> rd str si;
            Some (if char_eq nocase p1 c then Some (pi + 1, plen - 1) else None) }
     else
       do { c \<leftarrow> rd str si; Some (if char_eq nocase p0 c then Some (pi, plen) else None) })"

lemma match_char_mono: "match_char pat str nocase p0 pi plen si slen = Some (Some (pi1, plen1)) \<Longrightarrow> pi \<le> pi1"
  by (auto simp: match_char_def split: if_splits Option.bind_splits dest!: class_loop_mono)

text \<open>\<open>match_loop\<close> is the outer loop of \<open>stringmatchlen\<close>, with the pattern at \<open>pi\<close> and the string
  at \<open>si\<close>; \<open>star_loop\<close> is the loop of the case \<open>*\<close>, which calls \<open>stringmatchlen\<close> again.\<close>

function match_loop :: "bytes \<Rightarrow> bytes \<Rightarrow> bool \<Rightarrow> nat \<Rightarrow> int \<Rightarrow> nat \<Rightarrow> int \<Rightarrow> bool option"
  and star_loop :: "bytes \<Rightarrow> bytes \<Rightarrow> bool \<Rightarrow> nat \<Rightarrow> int \<Rightarrow> nat \<Rightarrow> int \<Rightarrow> bool option" where
  "match_loop pat str nocase pi plen si slen =
    (if plen = 0 then Some (slen = 0)
     else do {
       p0 \<leftarrow> rd pat pi;
       if p0 = 42 then
         do { k \<leftarrow> stars_from pat (pi + 1);
              if plen - int k = 1 then Some True
              else star_loop pat str nocase (pi + k) (plen - int k) si slen }
       else do {
         r \<leftarrow> match_char pat str nocase p0 pi plen si slen;
         case r of None \<Rightarrow> Some False
         | Some (pi1, plen1) \<Rightarrow>
             do { si1 \<leftarrow> bump str si;
                  if slen - 1 = 0 then
                    do { k \<leftarrow> stars_from pat (pi1 + 1); Some (plen1 - 1 - int k = 0) }
                  else match_loop pat str nocase (pi1 + 1) (plen1 - 1) si1 (slen - 1) } } })"
| "star_loop pat str nocase pi plen si slen =
    (if slen = 0 then Some False
     else do {
       pi1 \<leftarrow> bump pat pi;
       r \<leftarrow> match_loop pat str nocase pi1 (plen - 1) si slen;
       if r then Some True
       else do { si1 \<leftarrow> bump str si; star_loop pat str nocase pi plen si1 (slen - 1) } })"
  by pat_completeness auto
termination
  by (relation "measures [\<lambda>x. case x of Inl (pat, str, nocase, pi, plen, si, slen) \<Rightarrow> length pat - pi
        | Inr (pat, str, nocase, pi, plen, si, slen) \<Rightarrow> length pat - pi,
      \<lambda>x. case x of Inl (pat, str, nocase, pi, plen, si, slen) \<Rightarrow> 2 * (length str - si) + 1
        | Inr (pat, str, nocase, pi, plen, si, slen) \<Rightarrow> 2 * (length str - si)]")
    (auto simp: rd_def bump_def split: if_splits dest!: match_char_mono)

declare match_loop.simps [simp del] star_loop.simps [simp del]

text \<open>Both buffers are NUL-terminated, as the strings of the server are.\<close>

definition stringmatchlen :: "bytes \<Rightarrow> bytes \<Rightarrow> bool \<Rightarrow> bool option" where
  "stringmatchlen pattern str nocase =
    match_loop (pattern @ [0]) (str @ [0]) nocase 0 (int (length pattern)) 0 (int (length str))"

section \<open>Decimal numerals\<close>

function dec :: "nat \<Rightarrow> bytes" where
  "dec n = (if n < 10 then [48 + of_nat n] else dec (n div 10) @ [48 + of_nat (n mod 10)])"
  by pat_completeness auto
termination by (relation "measure id") auto

declare dec.simps [simp del]

definition show_ll :: "int \<Rightarrow> bytes" where
  "show_ll v = (if v < 0 then 45 # dec (nat (- v)) else dec (nat v))"

definition is_digit :: "byte \<Rightarrow> bool" where
  "is_digit c \<longleftrightarrow> 48 \<le> c \<and> c \<le> 57"

definition num :: "nat \<Rightarrow> bytes \<Rightarrow> nat" where
  "num n ds = foldl (\<lambda>n d. 10 * n + unat (d - 48)) n ds"

lemma num_simps [simp]:
  "num n [] = n" "num n (d # ds) = num (10 * n + unat (d - 48)) ds"
  "num n (ds @ es) = num (num n ds) es"
  by (simp_all add: num_def)

lemma unat_small: "n < 256 \<Longrightarrow> unat (of_nat n :: byte) = n"
  by (simp add: unsigned_of_nat take_bit_nat_eq_self)

lemma digit_char: "n < 10 \<Longrightarrow> unat (48 + of_nat n - 48 :: byte) = n"
  by (simp add: unat_small)

lemma is_digit_char: "n < 10 \<Longrightarrow> is_digit (48 + of_nat n)"
proof -
  assume n: "n < 10"
  have "unat (of_nat (48 + n) :: byte) = 48 + n" by (rule unat_small) (use n in simp)
  then show ?thesis using n by (simp add: is_digit_def word_le_nat_alt)
qed

lemma is_digit_val:
  assumes "is_digit c"
  shows "unat (c - 48) < 10 \<and> 48 + of_nat (unat (c - 48)) = c"
proof -
  have "unat (c - 48) = unat c - 48" using assms by (simp add: is_digit_def unat_sub)
  moreover have "unat c \<le> 57" using assms by (simp add: is_digit_def word_le_nat_alt)
  ultimately have "unat (c - 48) < 10" by simp
  moreover have "48 + of_nat (unat (c - 48)) = c" by simp
  ultimately show ?thesis by blast
qed

lemma dec_small: "n < 10 \<Longrightarrow> dec n = [48 + of_nat n]"
  and dec_big: "10 \<le> n \<Longrightarrow> dec n = dec (n div 10) @ [48 + of_nat (n mod 10)]"
  by (subst dec.simps, simp)+

lemma dec_digits: "list_all is_digit (dec n)"
  by (induction n rule: dec.induct) (subst dec.simps, simp add: is_digit_char)

lemma num_dec: "num 0 (dec n) = n"
proof (induction n rule: dec.induct)
  case (1 n)
  then show ?case using unat_small [of n] unat_small [of "n mod 10"]
    by (cases "n < 10") (simp_all add: dec_small dec_big)
qed

lemma dec_not_Nil [simp]: "dec n \<noteq> []"
  by (subst dec.simps) simp

lemma hd_dec: "0 < n \<Longrightarrow> hd (dec n) \<noteq> 48"
proof (induction n rule: dec.induct)
  case (1 n)
  then show ?case using digit_char [of n] by (cases "n < 10") (auto simp: dec_small dec_big)
qed

lemma num_mono: "n \<le> num n ds"
proof (induction ds arbitrary: n)
  case (Cons d ds)
  have "n \<le> 10 * n + unat (d - 48)" by simp
  also have "\<dots> \<le> num (10 * n + unat (d - 48)) ds" by (rule Cons)
  finally show ?case by (simp only: num_simps)
qed simp

lemma dec_num:
  assumes "list_all is_digit ds" "ds \<noteq> []" "hd ds \<noteq> 48"
  shows "dec (num 0 ds) = ds \<and> 0 < num 0 ds"
  using assms
proof (induction ds rule: rev_induct)
  case (snoc d ds)
  note d = is_digit_val [of d]
  show ?case
  proof (cases "ds = []")
    case True
    then have "d - 48 \<noteq> 0" using snoc.prems(3) by simp
    then have "unat (d - 48) \<noteq> 0" by (metis unat_eq_zero)
    then have "0 < unat (d - 48)" by (rule neq0_conv [THEN iffD1])
    then show ?thesis using True d snoc.prems(1) by (simp add: dec_small del: unat_gt_0)
  next
    case False
    then have IH: "dec (num 0 ds) = ds" "0 < num 0 ds" using snoc by auto
    have "dec (10 * num 0 ds + unat (d - 48)) = dec (num 0 ds) @ [48 + of_nat (unat (d - 48))]"
      using d snoc.prems(1) IH(2) by (subst dec_big) auto
    then show ?thesis using IH d snoc.prems(1) by simp
  qed
qed simp

lemma length_dec_div: "10 \<le> n \<Longrightarrow> length (dec n) = Suc (length (dec (n div 10)))"
  by (simp add: dec_big)

lemma length_dec_range: "10 ^ k \<le> n \<Longrightarrow> n < 10 ^ Suc k \<Longrightarrow> length (dec n) = Suc k"
proof (induction k arbitrary: n)
  case (Suc k)
  then have "10 ^ k \<le> n div 10" "n div 10 < 10 ^ Suc k"
    by (auto simp: less_mult_imp_div_less less_eq_div_iff_mult_less_eq)
  moreover have "10 \<le> n" using Suc.prems(1) order.trans [of 10 "10 ^ Suc k" n] by simp
  ultimately show ?case using Suc.IH length_dec_div by simp
qed (simp add: dec_small)

lemma length_dec_pow: "10 ^ k \<le> n \<Longrightarrow> length (dec n) = k + length (dec (n div 10 ^ k))"
proof (induction k)
  case (Suc k)
  then have "10 ^ k \<le> n" by simp
  then have "length (dec n) = k + length (dec (n div 10 ^ k))" by (rule Suc.IH)
  moreover have "10 \<le> n div 10 ^ k" using Suc.prems by (simp add: less_eq_div_iff_mult_less_eq)
  moreover have "n div 10 ^ Suc k = n div 10 ^ k div 10" by (simp only: power_Suc2 div_mult2_eq)
  ultimately show ?case by (simp only: length_dec_div)
qed simp

lemma digits10_range:
  assumes "10 ^ k \<le> v" "v < 10 ^ Suc k" "k < 12"
  shows "digits10 v = Suc k"
proof -
  have "k = 0 \<or> k = 1 \<or> k = 2 \<or> k = 3 \<or> k = 4 \<or> k = 5 \<or> k = 6 \<or> k = 7 \<or> k = 8 \<or> k = 9 \<or>
      k = 10 \<or> k = 11"
    using assms(3) by arith
  then show ?thesis using assms(1,2) by (elim disjE) (subst digits10.simps; simp)+
qed

lemma dec_range_ex: "0 < v \<Longrightarrow> \<exists>k. 10 ^ k \<le> v \<and> v < 10 ^ Suc (k :: nat)" for v :: nat
proof (induction v rule: less_induct)
  case (less v)
  show ?case
  proof (cases "v < 10")
    case True
    then show ?thesis using less.prems by (intro exI [of _ 0]) simp
  next
    case False
    then obtain k where "10 ^ k \<le> v div 10" "v div 10 < 10 ^ Suc k" using less.IH [of "v div 10"]
      by (metis False div_greater_zero_iff div_less_dividend less.prems linorder_not_less one_less_numeral_iff
          semiring_norm(76) zero_less_numeral)
    then show ?thesis by (intro exI [of _ "Suc k"]) (simp; linarith)
  qed
qed

lemma digits10_length: "digits10 v = length (dec v)"
proof (induction v rule: digits10.induct)
  case (1 v)
  show ?case
  proof (cases "v < 10 ^ 12")
    case True
    show ?thesis
    proof (cases "v = 0")
      case False
      then obtain k where k: "10 ^ k \<le> v" "v < 10 ^ Suc k" using dec_range_ex by blast
      have "(10 :: nat) ^ k < 10 ^ 12" using k(1) True by (rule order.strict_trans1)
      then have "k < 12" by (rule power_less_imp_less_exp [rotated]) simp
      then show ?thesis using k digits10_range length_dec_range by simp
    qed (simp add: digits10.simps dec_small)
  next
    case False
    then show ?thesis using length_dec_pow [of 12 v] "1"
      by (subst digits10.simps) simp
  qed
qed

section \<open>Writing a number\<close>

lemma digits_table: "map (\<lambda>i. (digits ! (2 * i), digits ! (2 * i + 1))) [0..<100] =
    map (\<lambda>i. (48 + of_nat (i div 10), 48 + of_nat (i mod 10))) [0..<100]"
  by code_simp

lemma digits_nth:
  assumes "i < 100"
  shows "digits ! (2 * i) = 48 + of_nat (i div 10)" "digits ! (2 * i + 1) = 48 + of_nat (i mod 10)"
  using arg_cong [OF digits_table, of "\<lambda>t. t ! i"] assms by simp_all

lemma dec_two: "10 \<le> n \<Longrightarrow> n < 100 \<Longrightarrow> dec n = [48 + of_nat (n div 10), 48 + of_nat (n mod 10)]"
  by (simp add: dec_big dec_small)

lemma dec_step: "100 \<le> n \<Longrightarrow>
    dec n = dec (n div 100) @ [digits ! (2 * (n mod 100)), digits ! (2 * (n mod 100) + 1)]"
proof -
  assume n: "100 \<le> n"
  have "n div 10 div 10 = n div 100" "n div 10 mod 10 = n mod 100 div 10" "n mod 100 mod 10 = n mod 10"
    using div_mult2_eq [of n 10 10] mod_mult2_eq [of n 10 10] by simp_all
  then have "dec n = (dec (n div 100) @ [48 + of_nat (n mod 100 div 10)]) @ [48 + of_nat (n mod 100 mod 10)]"
    using n dec_big [of n] dec_big [of "n div 10"] by (simp add: less_eq_div_iff_mult_less_eq)
  moreover have "n mod 100 < 100" by simp
  ultimately show ?thesis by (simp only: digits_nth append.assoc append.simps)
qed

lemma blit_updates:
  assumes "off + length xs + 1 = nxt" "nxt < length dst"
  shows "blit (dst[nxt := b, nxt - 1 := a]) off xs = blit dst off (xs @ [a, b])"
  using assms by (intro nth_equalityI) (auto simp: nth_blit nth_list_update nth_append)

lemma ll2string_digits_correct:
  assumes "nxt < length dst" "off + length (dec w) = nxt + 1"
  shows "ll2string_digits dst nxt w = blit dst off (dec w)"
  using assms
proof (induction dst nxt w rule: ll2string_digits.induct)
  case (1 dst nxt w)
  note two = digits_nth [of w]
  consider "100 \<le> w" | "w < 10" | "10 \<le> w" "w < 100" by linarith
  then show ?case
  proof cases
    case 1
    define a b where "a = digits ! (2 * (w mod 100))" and "b = digits ! (2 * (w mod 100) + 1)"
    have d: "dec w = dec (w div 100) @ [a, b]" using dec_step [OF 1] by (simp add: a_def b_def)
    have "ll2string_digits dst nxt w =
        ll2string_digits (dst[nxt := b, nxt - 1 := a]) (nxt - 2) (w div 100)"
      using 1 by (subst ll2string_digits.simps) (simp add: Let_def a_def b_def mult.commute)
    also have "\<dots> = blit (dst[nxt := b, nxt - 1 := a]) off (dec (w div 100))"
    proof -
      have "1 \<le> length (dec (w div 100))" by (simp add: Suc_le_eq)
      then have "off + length (dec (w div 100)) = nxt - 2 + 1" using "1.prems"(2) d by simp
      then show ?thesis using "1.IH" [OF 1 refl] "1.prems"(1) by (simp add: a_def b_def mult.commute)
    qed
    also have "\<dots> = blit dst off (dec w)"
      using "1.prems" unfolding d by (intro blit_updates) simp_all
    finally show ?thesis .
  next
    case 2
    then show ?thesis using "1.prems"
      by (subst ll2string_digits.simps) (simp add: dec_small blit_def upd_conv_take_nth_drop)
  next
    case 3
    then have "dst[nxt := b, nxt - 1 := a] = blit dst off [a, b]" for a b
      using "1.prems" blit_updates [of off "[]" nxt dst b a] by (simp add: dec_two)
    then show ?thesis using 3 two
      by (subst ll2string_digits.simps) (simp add: dec_two Let_def mult.commute)
  qed
qed

lemma ll2string_eq:
  assumes "fits 8 v" "dstlen \<le> length dst"
  shows "ll2string dst dstlen v =
    (if length (show_ll v) \<ge> dstlen then (0, dst)
     else (length (show_ll v), blit dst 0 (show_ll v @ [0])))"
proof -
  define u where "u = nat \<bar>v\<bar>"
  define neg :: nat where "neg = (if v < 0 then 1 else 0)"
  have "(if v < 0 then (if v \<noteq> LLONG_MIN then (nat (- v), 1) else (nat LLONG_MAX + 1, 1))
        else (nat v, 0)) = (u, neg)"
    by (auto simp: u_def neg_def LLONG_MIN_def LLONG_MAX_def)
  moreover have sh: "show_ll v = (if v < 0 then [45] else []) @ dec u"
    by (simp add: show_ll_def u_def)
  ultimately have ll: "ll2string dst dstlen v = (if length (show_ll v) \<ge> dstlen then (0, dst)
      else (length (show_ll v), (let d = ll2string_digits (dst[length (show_ll v) := 0]) (length (show_ll v) - 1) u
        in if neg \<noteq> 0 then d[0 := 45] else d)))"
    unfolding ll2string_def by (simp add: digits10_length neg_def Let_def)
  show ?thesis
  proof (cases "length (show_ll v) \<ge> dstlen")
    case False
    then have l: "length (show_ll v) < length dst" "length (show_ll v) = neg + length (dec u)"
      using assms(2) sh by (auto simp: neg_def)
    have "ll2string_digits (dst[length (show_ll v) := 0]) (length (show_ll v) - 1) u =
        blit (dst[length (show_ll v) := 0]) neg (dec u)"
      by (rule ll2string_digits_correct) (use l in auto)
    moreover have "(if neg \<noteq> 0 then (blit (dst[length (show_ll v) := 0]) neg (dec u))[0 := 45]
        else blit (dst[length (show_ll v) := 0]) neg (dec u)) = blit dst 0 (show_ll v @ [0])"
      using l unfolding sh neg_def
      by (intro nth_equalityI) (auto simp: nth_blit nth_list_update nth_append nth_Cons')
    ultimately show ?thesis using False unfolding ll by (simp only: if_False Let_def)
  qed (simp add: ll)
qed

section \<open>Reading a number\<close>

lemma string2ll_digits_correct:
  assumes "list_all is_digit ds" "rest = [] \<or> \<not> is_digit (hd rest)"
  shows "string2ll_digits (ds @ rest) v =
    (if num (unat v) ds < 2 ^ 64 then Some (of_nat (num (unat v) ds), rest) else None)"
  using assms(1)
proof (induction ds arbitrary: v)
  case Nil
  then show ?case using assms(2)
    using unsigned_less [of v] by (cases rest) (auto simp: is_digit_def)
next
  case (Cons c ds)
  then have c: "48 \<le> c \<and> c \<le> 57" and x: "unat (c - 48) < 10"
    using is_digit_val [of c] by (auto simp: is_digit_def)
  define d :: "64 word" where "d = ucast (c - 48)"
  have d: "unat d = unat (c - 48)" using x by (simp add: d_def unsigned_ucast_eq take_bit_nat_eq_self)
  have m: "unat ULLONG_MAX = 2 ^ 64 - 1" "unat (ULLONG_MAX div 10) = (2 ^ 64 - 1) div 10"
    by (simp_all add: ULLONG_MAX_def unsigned_minus_1_eq_mask mask_eq_exp_minus_1 unat_div)
  have v10: "v > ULLONG_MAX div 10 \<longleftrightarrow> 2 ^ 64 \<le> 10 * unat v"
    by (simp add: word_less_nat_alt m) linarith
  show ?case
  proof (cases "2 ^ 64 \<le> 10 * unat v + unat (c - 48)")
    case True
    then have "\<not> num (unat v) (c # ds) < 2 ^ 64" using num_mono [of "10 * unat v + unat (c - 48)" ds] by simp
    moreover have "string2ll_digits ((c # ds) @ rest) v = None"
    proof (cases "v > ULLONG_MAX div 10")
      case False
      then have n: "unat (v * 10) = 10 * unat v" using v10 by (simp add: unat_word_ariths)
      have "unat (ULLONG_MAX - d) = 2 ^ 64 - 1 - unat (c - 48)"
        using x d m(1) by (simp add: unat_sub word_le_nat_alt)
      then have "v * 10 > ULLONG_MAX - d"
        using True n x by (simp add: word_less_nat_alt)
      then show ?thesis using c by (simp add: d_def Let_def)
    qed (use c in simp)
    ultimately show ?thesis by simp
  next
    case False
    then have u: "unat (v * 10 + d) = 10 * unat v + unat (c - 48)" "unat (v * 10) = 10 * unat v"
      using d by (simp_all add: unat_word_ariths)
    have "unat (ULLONG_MAX - d) = 2 ^ 64 - 1 - unat (c - 48)"
      using x d m(1) by (simp add: unat_sub word_le_nat_alt)
    then have "\<not> v * 10 > ULLONG_MAX - d" "\<not> v > ULLONG_MAX div 10"
      using False u x v10 by (simp_all add: word_less_nat_alt)
    then have "string2ll_digits ((c # ds) @ rest) v = string2ll_digits (ds @ rest) (v * 10 + d)"
      using c by (simp add: d_def Let_def)
    then show ?thesis using Cons u by simp
  qed
qed

lemma string2ll_body:
  assumes "is_digit c"
  shows "string2ll_digits p (ucast (c - 48)) = Some (w, []) \<longleftrightarrow>
    list_all is_digit p \<and> num 0 (c # p) < 2 ^ 64 \<and> w = of_nat (num 0 (c # p))"
proof -
  define ds rest where "ds = takeWhile is_digit p" and "rest = dropWhile is_digit p"
  have p: "p = ds @ rest" by (simp add: ds_def rest_def)
  have "list_all is_digit ds" by (auto simp: ds_def list_all_iff dest: set_takeWhileD)
  moreover have "rest = [] \<or> \<not> is_digit (hd rest)"
    using hd_dropWhile [of is_digit p] by (auto simp: rest_def)
  ultimately have r: "string2ll_digits p v = (if num (unat v) ds < 2 ^ 64
      then Some (of_nat (num (unat v) ds), rest) else None)" for v
    unfolding p by (rule string2ll_digits_correct)
  have "unat (ucast (c - 48) :: 64 word) = unat (c - 48)"
    using is_digit_val [OF assms] by (simp add: unsigned_ucast_eq take_bit_nat_eq_self)
  moreover have "rest = [] \<longleftrightarrow> list_all is_digit p"
    by (simp add: rest_def list_all_iff)
  moreover have "rest = [] \<Longrightarrow> ds = p" using p by simp
  ultimately show ?thesis unfolding r by auto
qed

lemma unat_LLONG: "unat (of_int (- (LLONG_MIN + 1)) + 1 :: 64 word) = 2 ^ 63"
  "unat (of_int LLONG_MAX :: 64 word) = 2 ^ 63 - 1"
  by (simp_all add: LLONG_MIN_def LLONG_MAX_def)

lemma sint_of_nat64:
  "n < 2 ^ 63 \<Longrightarrow> sint (of_nat n :: 64 word) = int n"
  "n \<le> 2 ^ 63 \<Longrightarrow> sint (- of_nat n :: 64 word) = - int n"
proof -
  show "n < 2 ^ 63 \<Longrightarrow> sint (of_nat n :: 64 word) = int n"
    by (simp add: signed_of_nat signed_take_bit_int_eq_self)
  have "- of_nat n = (of_int (- int n) :: 64 word)" by simp
  then show "n \<le> 2 ^ 63 \<Longrightarrow> sint (- of_nat n :: 64 word) = - int n"
    by (simp only: signed_of_int) (simp add: signed_take_bit_int_eq_self)
qed

lemma digit_split: "is_digit c \<longleftrightarrow> c = 48 \<or> 49 \<le> c \<and> c \<le> 57"
  by (simp add: is_digit_def word_le_nat_alt word_unat_eq_iff) arith

lemma word_of_nat_le64: "n < 2 ^ 64 \<Longrightarrow> unat (of_nat n :: 64 word) = n"
  by (simp add: unsigned_of_nat take_bit_nat_eq_self)

lemma string2ll_pos:
  assumes "c \<noteq> 45" "c # p \<noteq> [48]"
  shows "string2ll (c # p) = Some v \<longleftrightarrow>
    0 \<le> v \<and> fits 8 v \<and> list_all is_digit (c # p) \<and> c \<noteq> 48 \<and> num 0 (c # p) = nat v"
proof (cases "49 \<le> c \<and> c \<le> 57")
  case True
  then have c: "is_digit c" "c \<noteq> 48" using digit_split by auto
  define r where "r = string2ll_digits p (ucast (c - 48))"
  have e: "string2ll (c # p) = (case r of None \<Rightarrow> None | Some (w, rest) \<Rightarrow>
      if rest \<noteq> [] then None else if w > of_int LLONG_MAX then None else Some (sint w))"
    using assms c(2) True by (auto simp: string2ll_def Let_def r_def split: option.split prod.split)
  show ?thesis
  proof (cases "\<exists>w. r = Some (w, [])")
    case True
    then obtain w where w: "r = Some (w, [])" by blast
    then have n: "list_all is_digit p" "num 0 (c # p) < 2 ^ 64" "w = of_nat (num 0 (c # p))"
      using string2ll_body [OF c(1), of p w] unfolding r_def by blast+
    have "w > of_int LLONG_MAX \<longleftrightarrow> \<not> num 0 (c # p) < 2 ^ 63"
      using unat_LLONG(2) word_of_nat_le64 [OF n(2)] by (simp only: n(3) word_less_nat_alt) (simp del: num_simps, linarith)
    then show ?thesis using n(1) c sint_of_nat64(1) [of "num 0 (c # p)"]
      unfolding e w by (auto simp: n(3) fits_def simp del: num_simps)
  next
    case False
    then have "string2ll (c # p) \<noteq> Some v" unfolding e by (auto split: option.splits prod.splits if_splits)
    moreover have "\<not> (list_all is_digit p \<and> num 0 (c # p) < 2 ^ 64)"
      using False string2ll_body [OF c(1), of p] unfolding r_def by blast
    ultimately show ?thesis by (auto simp: fits_def simp del: num_simps)
  qed
next
  case False
  then have "string2ll (c # p) = None" using assms by (auto simp: string2ll_def Let_def)
  then show ?thesis using False digit_split [of c] by auto
qed

lemma string2ll_neg:
  "string2ll (45 # c # p) = Some v \<longleftrightarrow>
    v < 0 \<and> fits 8 v \<and> list_all is_digit (c # p) \<and> c \<noteq> 48 \<and> num 0 (c # p) = nat (- v)"
proof (cases "49 \<le> c \<and> c \<le> 57")
  case True
  then have c: "is_digit c" "c \<noteq> 48" using digit_split by auto
  define r where "r = string2ll_digits p (ucast (c - 48))"
  have e: "string2ll (45 # c # p) = (case r of None \<Rightarrow> None | Some (w, rest) \<Rightarrow>
      if rest \<noteq> [] then None else if w > of_int (- (LLONG_MIN + 1)) + 1 then None else Some (sint (- w)))"
    using True by (auto simp: string2ll_def Let_def r_def split: option.split prod.split)
  have pos: "0 < num 0 (c # p)" if "list_all is_digit p"
    using dec_num [of "c # p"] c that by simp
  show ?thesis
  proof (cases "\<exists>w. r = Some (w, [])")
    case True
    then obtain w where w: "r = Some (w, [])" by blast
    then have n: "list_all is_digit p" "num 0 (c # p) < 2 ^ 64" "w = of_nat (num 0 (c # p))"
      using string2ll_body [OF c(1), of p w] unfolding r_def by blast+
    have "w > of_int (- (LLONG_MIN + 1)) + 1 \<longleftrightarrow> \<not> num 0 (c # p) \<le> 2 ^ 63"
      using unat_LLONG(1) word_of_nat_le64 [OF n(2)] by (simp only: n(3) word_less_nat_alt) linarith
    then show ?thesis using n(1) c pos [OF n(1)] sint_of_nat64(2) [of "num 0 (c # p)"]
      unfolding e w by (auto simp: n(3) fits_def simp del: num_simps)
  next
    case False
    then have "string2ll (45 # c # p) \<noteq> Some v" unfolding e by (auto split: option.splits prod.splits if_splits)
    moreover have "\<not> (list_all is_digit p \<and> num 0 (c # p) < 2 ^ 64)"
      using False string2ll_body [OF c(1), of p] unfolding r_def by blast
    ultimately show ?thesis by (auto simp: fits_def simp del: num_simps)
  qed
next
  case False
  then have "string2ll (45 # c # p) = None" by (auto simp: string2ll_def Let_def)
  then show ?thesis using False digit_split [of c] by auto
qed

lemma dec_unique: "list_all is_digit p \<and> p \<noteq> [] \<and> hd p \<noteq> 48 \<and> num 0 p = n \<longleftrightarrow> p = dec n \<and> 0 < n"
  using dec_num [of p] dec_digits [of n] num_dec [of n] hd_dec [of n] dec_not_Nil by metis

lemma dec_no_minus: "dec n \<noteq> 45 # p"
proof
  assume "dec n = 45 # p"
  then show False using dec_digits [of n] by (simp add: is_digit_def)
qed

lemma dec_zero: "[48] = dec n \<longleftrightarrow> n = 0"
proof (cases "n = 0")
  case False
  then show ?thesis using hd_dec [of n] by (metis list.sel(1) neq0_conv)
qed (simp add: dec_small)

lemma string2ll_show: "string2ll s = Some v \<longleftrightarrow> fits 8 v \<and> s = show_ll v"
proof -
  consider "s = []" | "s = [48]" | c p where "s = c # p" "c \<noteq> 45" "c # p \<noteq> [48]"
    | "s = [45]" | c p where "s = 45 # c # p"
    by (metis list.exhaust)
  then show ?thesis
  proof cases
    case 1
    then show ?thesis by (simp add: string2ll_def show_ll_def) (metis dec_not_Nil)
  next
    case 2
    have "string2ll [48] = Some 0" by (simp add: string2ll_def)
    moreover have "fits 8 v \<and> [48] = show_ll v \<longleftrightarrow> v = 0"
      using dec_zero [of "nat v"] by (auto simp: show_ll_def fits_def)
    ultimately show ?thesis using 2 by auto
  next
    case (3 c p)
    show ?thesis unfolding 3(1) string2ll_pos [OF 3(2,3)] show_ll_def
      using dec_unique [of "c # p" "nat v"] 3 dec_small [of 0] by auto
  next
    case 4
    have "[45] \<noteq> dec n" "[] \<noteq> dec n" for n
      using dec_no_minus dec_not_Nil by metis+
    then show ?thesis using 4 by (simp add: string2ll_def show_ll_def)
  next
    case (5 c p)
    have "45 # c # p = dec n \<longleftrightarrow> False" for n using dec_no_minus by metis
    then show ?thesis unfolding 5 string2ll_neg show_ll_def
      using dec_unique [of "c # p" "nat (- v)"] by auto
  qed
qed

lemma sdigits10_length: "sdigits10 v = length (show_ll v)"
  by (simp add: sdigits10_def show_ll_def digits10_length LLONG_MIN_def LLONG_MAX_def)

lemma length_show_ll: "fits 8 v \<Longrightarrow> length (show_ll v) \<le> 20"
proof -
  assume v: "fits 8 v"
  have "length (dec n) \<le> 19" if "n \<le> 2 ^ 63" for n
  proof (cases "n = 0")
    case False
    then obtain k where k: "10 ^ k \<le> n" "n < 10 ^ Suc k" using dec_range_ex by blast
    have "(10 :: nat) ^ k < 10 ^ 19" using k(1) that by (rule order.strict_trans1 [OF order.trans]) simp
    then have "k < 19" by (rule power_less_imp_less_exp [rotated]) simp
    then show ?thesis using length_dec_range [OF k] by simp
  qed (simp add: dec_small)
  from this [of "nat \<bar>v\<bar>"] have "length (dec (nat \<bar>v\<bar>)) \<le> 19"
    using v by (simp add: fits_def nat_le_iff abs_if)
  then show ?thesis by (auto simp: show_ll_def)
qed

section \<open>Properties of the conversions\<close>

text \<open>C7: \<open>string2ll\<close> accepts exactly the canonical decimal representations of the 64-bit
  integers (no sign but a minus, no space, no leading zero, no \<open>-0\<close>), with their value, and
  rejects every other string, overflowing ones included.\<close>

theorem string2ll_exact:
  "string2ll s = Some v \<longleftrightarrow> - (2 ^ 63) \<le> v \<and> v < 2 ^ 63 \<and> s = show_ll v"
  using string2ll_show [of s v] by (auto simp: fits_def)

text \<open>C8: \<open>ll2string\<close> writes the canonical decimal representation of a 64-bit integer and a NUL
  at the start of the buffer, changes nothing after it, and returns its length, which
  \<open>sdigits10\<close> computes without writing; when the buffer cannot hold the NUL too it returns 0
  and leaves the buffer alone.  Reading the result back gives the integer.\<close>

theorem ll2string_roundtrip:
  assumes "- (2 ^ 63) \<le> v" "v < 2 ^ 63" "dstlen \<le> length dst"
  defines "n \<equiv> sdigits10 v"
  shows "n \<le> 20 \<and> ll2string dst dstlen v =
      (if n \<ge> dstlen then (0, dst) else (n, show_ll v @ [0] @ drop (n + 1) dst)) \<and>
    (n < dstlen \<longrightarrow> string2ll (take n (snd (ll2string dst dstlen v))) = Some v)"
proof -
  have v: "fits 8 v" using assms(1,2) by (simp add: fits_def)
  have n: "n = length (show_ll v)" unfolding n_def by (rule sdigits10_length)
  have "n \<le> 20" unfolding n using length_show_ll [OF v] .
  moreover have "blit dst 0 (show_ll v @ [0]) = show_ll v @ [0] @ drop (n + 1) dst"
    by (simp add: blit_def n)
  moreover have "string2ll (show_ll v) = Some v" using string2ll_show v by blast
  ultimately show ?thesis unfolding ll2string_eq [OF v assms(3)] n [symmetric] by (simp add: n)
qed

theorem ll2string_roundtrip_witness:
  "ll2string (replicate 8 7) 8 (-1204) = (5, [45, 49, 50, 48, 52, 0, 7, 7]) \<and>
   string2ll [45, 49, 50, 48, 52] = Some (-1204)"
proof -
  have "sdigits10 (-1204) = 5" "show_ll (-1204) = [45, 49, 50, 48, 52]"
    by (simp_all add: sdigits10_def digits10.simps LLONG_MIN_def show_ll_def dec.simps)
  moreover have "replicate 8 7 = [7, 7, 7, 7, 7, 7, 7, 7 :: byte]" by (simp add: numeral_eq_Suc)
  ultimately show ?thesis using ll2string_roundtrip [of "-1204" 8 "replicate 8 7"] by auto
qed

section \<open>What a glob pattern means\<close>

datatype item = Chr byte | Esc byte | Rng byte byte

datatype glob = Star | AnyChar | Lit byte | Quo byte | Cls bool "item list"

fun item_bytes :: "item \<Rightarrow> bytes" where
  "item_bytes (Chr c) = [c]"
| "item_bytes (Esc c) = [92, c]"
| "item_bytes (Rng a b) = [a, 45, b]"

fun glob_bytes :: "glob \<Rightarrow> bytes" where
  "glob_bytes Star = [42]"
| "glob_bytes AnyChar = [63]"
| "glob_bytes (Lit c) = [c]"
| "glob_bytes (Quo c) = [92, c]"
| "glob_bytes (Cls neg its) =
     91 # (if neg then [94] else []) @ concat (map item_bytes its) @ [93]"

definition render :: "glob list \<Rightarrow> bytes" where
  "render p = concat (map glob_bytes p)"

text \<open>The characters with a meaning of their own are written with a backslash.\<close>

fun item_wf :: "item \<Rightarrow> bool" where
  "item_wf (Chr c) \<longleftrightarrow> c \<notin> {92, 93, 94, 45}"
| "item_wf (Esc c) \<longleftrightarrow> True"
| "item_wf (Rng a b) \<longleftrightarrow> a \<notin> {92, 93, 94, 45}"

fun glob_wf :: "glob \<Rightarrow> bool" where
  "glob_wf (Lit c) \<longleftrightarrow> c \<notin> {42, 63, 91, 92}"
| "glob_wf (Cls neg its) \<longleftrightarrow> list_all item_wf its"
| "glob_wf _ \<longleftrightarrow> True"

text \<open>Without case a capital letter and the small one 32 places behind it are the same character, and a
  range goes between the small letters of its ends, in either order.  Characters are signed.\<close>

definition capital :: "byte \<Rightarrow> bool" where
  "capital x \<longleftrightarrow> 65 \<le> uint x \<and> uint x \<le> 90"

definition letter :: "byte \<Rightarrow> bool" where
  "letter x \<longleftrightarrow> capital x \<or> 97 \<le> uint x \<and> uint x \<le> 122"

definition same_char :: "bool \<Rightarrow> byte \<Rightarrow> byte \<Rightarrow> bool" where
  "same_char nocase x c \<longleftrightarrow> x = c \<or> nocase \<and> (capital x \<and> uint c = uint x + 32 \<or> capital c \<and> uint x = uint c + 32)"

definition place :: "bool \<Rightarrow> byte \<Rightarrow> int" where
  "place nocase x = (let u = uint x in if nocase \<and> capital x then u + 32 else if u < 128 then u else u - 256)"

fun item_match :: "bool \<Rightarrow> item \<Rightarrow> byte \<Rightarrow> bool" where
  "item_match nocase (Chr x) c \<longleftrightarrow> same_char nocase x c"
| "item_match nocase (Esc x) c \<longleftrightarrow> same_char nocase x c"
| "item_match nocase (Rng a b) c \<longleftrightarrow>
    min (place nocase a) (place nocase b) \<le> place nocase c \<and> place nocase c \<le> max (place nocase a) (place nocase b)"

fun glob_char :: "bool \<Rightarrow> glob \<Rightarrow> byte \<Rightarrow> bool" where
  "glob_char nocase Star c \<longleftrightarrow> False"
| "glob_char nocase AnyChar c \<longleftrightarrow> True"
| "glob_char nocase (Lit x) c \<longleftrightarrow> same_char nocase x c"
| "glob_char nocase (Quo x) c \<longleftrightarrow> same_char nocase x c"
| "glob_char nocase (Cls neg its) c \<longleftrightarrow> list_ex (\<lambda>i. item_match nocase i c) its \<noteq> neg"

fun glob_match :: "bool \<Rightarrow> glob list \<Rightarrow> bytes \<Rightarrow> bool" where
  "glob_match nocase [] s \<longleftrightarrow> s = []"
| "glob_match nocase (g # p) s \<longleftrightarrow>
    (if g = Star then list_ex (\<lambda>k. glob_match nocase p (drop k s)) [0..<length s + 1]
     else (case s of [] \<Rightarrow> False | c # t \<Rightarrow> glob_char nocase g c \<and> glob_match nocase p t))"

text \<open>Two items of a class do not have that meaning in the code when case does not count: an escaped
  letter, which it compares as it is, and a range whose ends change their order when they become small
  letters, which is empty.\<close>

fun item_plain :: "bool \<Rightarrow> item \<Rightarrow> bool" where
  "item_plain nocase (Esc x) \<longleftrightarrow> \<not> (nocase \<and> letter x)"
| "item_plain nocase (Rng a b) \<longleftrightarrow> (place False a \<le> place False b \<longleftrightarrow> place nocase a \<le> place nocase b) \<or> place nocase a = place nocase b"
| "item_plain nocase (Chr x) \<longleftrightarrow> True"

fun glob_plain :: "bool \<Rightarrow> glob \<Rightarrow> bool" where
  "glob_plain nocase (Cls neg its) \<longleftrightarrow> list_all (item_plain nocase) its"
| "glob_plain nocase _ \<longleftrightarrow> True"

section \<open>The matcher against it\<close>

lemma uint_tolower: "uint (tolower c) = (if capital c then uint c + 32 else uint c)"
proof (cases "capital c")
  case True
  then have "uint (c + 32) = uint c + 32" by (simp add: capital_def uint_word_ariths)
  then show ?thesis using True by (simp add: tolower_def capital_def word_le_def)
qed (auto simp: tolower_def capital_def word_le_def)

lemma sint_place: "sint c = place False c"
proof -
  have "sint c = (uint c + 128) mod 256 - 128"
    by (simp add: sint_uint signed_take_bit_eq_take_bit_shift take_bit_eq_mod)
  moreover have "0 \<le> uint c" "uint c < 256" using uint_bounded [of c] by simp_all
  moreover have "(uint c + 128) mod 256 = uint c - 128" if "128 \<le> uint c" "uint c < 256"
    using that mod_add_self2 [of "uint c - 128" 256] by (simp add: add.commute del: mod_add_self2)
  ultimately show ?thesis by (auto simp: place_def Let_def)
qed

lemma place_tolower: "place False (tolower c) = place True c"
  by (auto simp: place_def uint_tolower capital_def Let_def)

lemma char_eq_same: "char_eq nocase x c \<longleftrightarrow> same_char nocase x c"
proof -
  have "tolower x = tolower c \<longleftrightarrow> uint (tolower x) = uint (tolower c)" by (simp add: word_uint_eq_iff)
  also have "\<dots> \<longleftrightarrow> same_char True x c"
    by (auto simp: uint_tolower same_char_def capital_def word_uint_eq_iff)
  finally show ?thesis by (simp add: char_eq_def same_char_def)
qed

lemma in_range_between: "item_plain nocase (Rng a b) \<Longrightarrow> in_range nocase a b c \<longleftrightarrow> item_match nocase (Rng a b) c"
  by (cases nocase) (auto simp: in_range_def Let_def sint_place place_tolower min_def max_def)

lemma escaped_same: "item_plain nocase (Esc x) \<Longrightarrow> x = c \<longleftrightarrow> item_match nocase (Esc x) c"
  by (auto simp: same_char_def letter_def capital_def)

lemma render_simps [simp]: "render [] = []" "render (g # p) = glob_bytes g @ render p"
  by (simp_all add: render_def)

lemma class_loop_correct:
  assumes "list_all (\<lambda>i. item_wf i \<and> item_plain nocase i) its" "drop pi pat = concat (map item_bytes its) @ 93 # rest"
    "rd str si = Some c" "plen = int (length (concat (map item_bytes its))) + n" "0 < n"
  shows "class_loop pat str nocase si pi plen m =
    Some (pi + length (concat (map item_bytes its)), n, m \<or> list_ex (\<lambda>i. item_match nocase i c) its)"
  using assms(1,2,4)
proof (induction its arbitrary: pi plen m)
  case Nil
  then show ?case using rd_at [of pi pat 93 rest] by (subst class_loop.simps) simp
next
  case (Cons i its)
  define body where "body = concat (map item_bytes its)"
  have d: "drop pi pat = item_bytes i @ body @ 93 # rest" using Cons.prems by (simp add: body_def)
  have IH: "class_loop pat str nocase si (pi + length (item_bytes i)) (plen - int (length (item_bytes i))) m' =
      Some (pi + length (item_bytes i) + length body, n, m' \<or> list_ex (\<lambda>i. item_match nocase i c) its)" for m'
    using Cons.IH [of "pi + length (item_bytes i)"] drop_at [OF d] Cons.prems by (simp add: body_def)
  have len: "plen = int (length (item_bytes i)) + int (length body) + n"
    using Cons.prems(3) by (simp add: body_def)
  have hd: "hd (body @ 93 # rest) \<noteq> 45 \<and> body @ 93 # rest \<noteq> []"
  proof (cases its)
    case (Cons j js)
    then show ?thesis using Cons.prems(1) by (cases j) (simp_all add: body_def)
  qed (simp add: body_def)
  show ?case
  proof (cases i)
    case (Chr x)
    obtain y ys where y: "body @ 93 # rest = y # ys" "y \<noteq> 45" using hd by (cases "body @ 93 # rest") auto
    have d0: "drop pi pat = x # y # ys" using d Chr y by simp
    note r = rd_at [OF d0] rd_at [OF drop_at_Cons [OF d0]]
    show ?thesis using r IH [of "m \<or> char_eq nocase x c"] Chr y(2) Cons.prems(1) len assms(3,5) char_eq_same
      by (subst class_loop.simps) (simp add: body_def)
  next
    case (Esc x)
    have d0: "drop pi pat = 92 # x # body @ 93 # rest" using d Esc by simp
    show ?thesis using rd_at [OF d0] rd_at [OF drop_at_Cons [OF d0]] IH [of "m \<or> x = c"] Esc len assms(3,5) escaped_same [of nocase x] Cons.prems(1)
      by (subst class_loop.simps) (simp add: body_def)
  next
    case (Rng a b)
    have d0: "drop pi pat = a # 45 # b # body @ 93 # rest" using d Rng by simp
    note d1 = drop_at_Cons [OF d0] and d2 = drop_at_Cons [OF drop_at_Cons [OF d0]]
    have "rd pat (pi + 2) = Some b" using rd_at [OF d2] by simp
    then show ?thesis using rd_at [OF d0] rd_at [OF d1] IH [of "m \<or> in_range nocase a b c"] Rng len assms(3,5) Cons.prems(1) in_range_between [of nocase a b c]
      by (subst class_loop.simps) (simp add: body_def numeral_3_eq_3)
  qed
qed

lemma match_char_correct:
  assumes "glob_wf g" "g \<noteq> Star" "drop pi pat = glob_bytes g @ rest" "rest \<noteq> []"
    "drop si str = c # t" "plen = int (length (glob_bytes g)) + n" "0 \<le> n" "slen \<noteq> 0 \<or> g \<noteq> AnyChar" "glob_plain nocase g"
  shows "\<exists>p0. rd pat pi = Some p0 \<and> p0 \<noteq> 42 \<and>
    match_char pat str nocase p0 pi plen si slen =
      Some (if glob_char nocase g c then Some (pi + length (glob_bytes g) - 1, n + 1) else None)"
proof -
  have c: "rd str si = Some c" using assms(5) by (rule rd_at)
  show ?thesis
  proof (cases g)
    case Star
    then show ?thesis using assms(2) by simp
  next
    case AnyChar
    then show ?thesis using assms rd_at [of pi pat 63 rest] by (simp add: match_char_def)
  next
    case (Lit x)
    then show ?thesis using assms c rd_at [of pi pat x rest] by (auto simp: match_char_def char_eq_same)
  next
    case (Quo x)
    then have "drop pi pat = 92 # x # rest" using assms by simp
    from rd_at [OF this] rd_at [OF drop_at_Cons [OF this]] show ?thesis
      using Quo assms(6-8) c by (auto simp: match_char_def char_eq_same)
  next
    case (Cls neg its)
    define body where "body = concat (map item_bytes its)"
    define off :: nat where "off = (if neg then 2 else 1)"
    have d: "drop pi pat = 91 # (if neg then [94] else []) @ body @ 93 # rest"
      using assms(3) Cls by (simp add: body_def)
    have wf: "list_all (\<lambda>i. item_wf i \<and> item_plain nocase i) its" using assms(1,9) Cls by (simp add: list_all_iff)
    obtain y ys where y: "(if neg then [94] else []) @ body @ 93 # rest = y # ys" "y = 94 \<longleftrightarrow> neg"
    proof (cases neg)
      case True
      then show ?thesis using that [of 94 "body @ 93 # rest"] by simp
    next
      case False
      show ?thesis
      proof (cases its)
        case Nil
        then show ?thesis using that [of 93 rest] False by (simp add: body_def)
      next
        case (Cons j js)
        then show ?thesis using that False wf by (cases j) (auto simp: body_def)
      qed
    qed
    have "drop (pi + 1) pat = y # ys" using drop_at_Cons [OF d] y(1) by simp
    then have r: "rd pat pi = Some 91" "rd pat (pi + 1) = Some y"
      using rd_at [OF d] rd_at by auto
    have "drop (pi + off) pat = body @ 93 # rest"
      using drop_at_Cons [OF d] drop_at_Cons [of "pi + 1" pat 94 "body @ 93 # rest"]
      by (auto simp: off_def split: if_splits)
    moreover have "plen - int off = int (length body) + (n + 1)"
      using assms(6) Cls by (auto simp: body_def off_def)
    ultimately have "class_loop pat str nocase si (pi + off) (plen - int off) False =
        Some (pi + off + length body, n + 1, list_ex (\<lambda>i. item_match nocase i c) its)"
      using class_loop_correct [OF wf _ c, of "pi + off" pat rest "plen - int off" "n + 1" False]
        assms(7) by (simp add: body_def)
    then show ?thesis using r y(2) Cls
      by (auto simp: match_char_def off_def body_def)
  qed
qed


lemma glob_bytes_start: "glob_wf g \<Longrightarrow> g \<noteq> Star \<Longrightarrow> \<exists>x xs. glob_bytes g = x # xs \<and> x \<noteq> 42"
  by (cases g) auto

lemma stars_from_render:
  assumes "list_all glob_wf p" "drop i pat = render p @ [0]"
  shows "stars_from pat i = Some (length (takeWhile (\<lambda>g. g = Star) p))"
  using assms
proof (induction p arbitrary: i)
  case Nil
  then show ?case using rd_at [of i pat 0 "[]"] by (subst stars_from.simps) simp
next
  case (Cons g p)
  show ?case
  proof (cases "g = Star")
    case True
    then have d: "drop i pat = 42 # render p @ [0]" using Cons.prems by simp
    then show ?thesis using rd_at [OF d] drop_at_Cons [OF d] Cons True by (subst stars_from.simps) simp
  next
    case False
    then obtain x xs where "glob_bytes g = x # xs" "x \<noteq> 42" using glob_bytes_start [of g] Cons.prems(1) by (simp, blast)
    then show ?thesis using Cons.prems(2) rd_at [of i pat x "xs @ render p @ [0]"] False
      by (subst stars_from.simps) simp
  qed
qed

lemma length_render_stars: "length (render p) = length (takeWhile (\<lambda>g. g = Star) p) \<longleftrightarrow> list_all (\<lambda>g. g = Star) p"
proof (induction p)
  case (Cons g p)
  have "length (takeWhile (\<lambda>g. g = Star) p) \<le> length (render p)" for p
    by (induction p) auto
  moreover have "glob_bytes g \<noteq> []" by (cases g) auto
  ultimately show ?case using Cons by auto
qed simp

lemma glob_match_Nil: "glob_match nocase p [] \<longleftrightarrow> list_all (\<lambda>g. g = Star) p"
  by (induction p) auto

lemma stars_split:
  assumes "drop i pat = render p @ [0]" "k \<le> length (takeWhile (\<lambda>g. g = Star) p)"
  shows "drop (i + k) pat = render (drop k p) @ [0]"
    and "length (render p) = k + length (render (drop k p))"
proof -
  have "drop (i + k) pat = render (drop k p) @ [0] \<and> length (render p) = k + length (render (drop k p))"
    using assms
  proof (induction p arbitrary: i k)
    case (Cons g p)
    show ?case
    proof (cases "g = Star \<and> 0 < k")
      case True
      then have d: "drop i pat = 42 # render p @ [0]" using Cons.prems by simp
      obtain j where "k = Suc j" using True gr0_implies_Suc by blast
      then show ?thesis using Cons.IH [OF drop_at_Cons [OF d], of j] True Cons.prems(2) by simp
    qed (use Cons in \<open>auto split: if_splits\<close>)
  qed simp
  then show "drop (i + k) pat = render (drop k p) @ [0]"
    "length (render p) = k + length (render (drop k p))" by simp_all
qed

lemma drop_stars: "drop (length (takeWhile (\<lambda>g. g = Star) q)) (Star # q) =
    Star # drop (length (takeWhile (\<lambda>g. g = Star) q)) q"
  by (induction q) auto

lemma drop_stars_hd: "drop (length (takeWhile (\<lambda>g. g = Star) q)) q = g # p \<Longrightarrow> g \<noteq> Star"
  by (induction q) (auto split: if_splits)

lemma glob_match_Star: "glob_match nocase (Star # p) s \<longleftrightarrow> (\<exists>k \<le> length s. glob_match nocase p (drop k s))"
proof -
  have "glob_match nocase (Star # p) s \<longleftrightarrow>
      list_ex (\<lambda>k. glob_match nocase p (drop k s)) [0..<length s + 1]"
    by (subst glob_match.simps) (rule if_P, rule refl)
  also have "\<dots> \<longleftrightarrow> (\<exists>k \<in> {0..<length s + 1}. glob_match nocase p (drop k s))"
    by (simp only: list_ex_iff set_upt)
  also have "\<dots> \<longleftrightarrow> (\<exists>k \<le> length s. glob_match nocase p (drop k s))"
    by (auto simp: less_Suc_eq_le)
  finally show ?thesis .
qed

lemma ex_le_Suc_conv: "(\<exists>k \<le> Suc n. P k) \<longleftrightarrow> P 0 \<or> (\<exists>k \<le> n. P (Suc k))"
  by (metis Suc_le_mono le0 not0_implies_Suc)

lemma glob_match_Star_Cons:
  "glob_match nocase (Star # p) (c # s) \<longleftrightarrow> glob_match nocase p (c # s) \<or> glob_match nocase (Star # p) s"
  unfolding glob_match_Star by (simp only: list.size add_Suc_right add_0_right ex_le_Suc_conv drop0 drop_Suc_Cons)

lemma glob_match_Star_Star: "glob_match nocase (Star # Star # p) s = glob_match nocase (Star # p) s"
  by (induction s) (simp_all add: glob_match_Star_Cons glob_match_Nil del: glob_match.simps)

lemma glob_match_stars:
  "glob_match nocase (Star # p) s =
   glob_match nocase (Star # drop (length (takeWhile (\<lambda>g. g = Star) p)) p) s"
  by (induction p) (simp_all add: glob_match_Star_Star del: glob_match.simps)

lemma star_loop_correct:
  assumes "glob_wf g" "g \<noteq> Star" "drop pi pat = 42 # render (g # p) @ [0]" "plen = 1 + int (length (render (g # p)))"
    and IH: "\<And>s si. drop si str = s @ [0] \<Longrightarrow> s \<noteq> [] \<Longrightarrow>
      match_loop pat str nocase (pi + 1) (plen - 1) si (int (length s)) = Some (glob_match nocase (g # p) s)"
    and "drop si str = s @ [0]"
  shows "star_loop pat str nocase pi plen si (int (length s)) = Some (glob_match nocase (Star # g # p) s)"
  using assms(6)
proof (induction s arbitrary: si)
  case Nil
  then show ?case using assms(2) by (subst star_loop.simps) simp
next
  case (Cons c s)
  have d: "drop si str = c # s @ [0]" using Cons.prems by simp
  show ?case using glob_match_Star_Cons [of nocase "g # p" c s] bump_at [OF assms(3)] bump_at [OF d] IH [OF Cons.prems] Cons.IH [OF drop_at_Cons [OF d]]
    by (subst star_loop.simps) (simp del: glob_match.simps)
qed

lemma match_loop_correct:
  assumes "list_all glob_wf p" "drop pi pat = render p @ [0]" "drop si str = s @ [0]" "s \<noteq> []" "list_all (glob_plain nocase) p"
  shows "match_loop pat str nocase pi (int (length (render p))) si (int (length s)) =
    Some (glob_match nocase p s)"
  using assms
proof (induction "length p" arbitrary: p pi si s rule: less_induct)
  case less
  show ?case
  proof (cases p)
    case Nil
    then show ?thesis using less.prems by (subst match_loop.simps) simp
  next
    case (Cons g q)
    show ?thesis
    proof (cases "g = Star")
      case True
      define k where "k = length (takeWhile (\<lambda>g. g = Star) q)"
      have d: "drop pi pat = 42 # render q @ [0]" using less.prems Cons True by simp
      have wf: "list_all glob_wf q" using less.prems Cons by simp
      note st = stars_from_render [OF wf drop_at_Cons [OF d], folded k_def]
      have d0: "drop pi pat = render (Star # q) @ [0]" "k \<le> length (takeWhile (\<lambda>g. g = Star) (Star # q))"
        using d by (simp_all add: k_def)
      have split: "drop (pi + k) pat = render (Star # drop k q) @ [0]"
        "length (render p) = k + (1 + length (render (drop k q)))"
        using stars_split [OF d0] drop_stars [of q] Cons True by (simp_all add: k_def)
      have loop: "match_loop pat str nocase pi (int (length (render p))) si (int (length s)) =
          (if drop k q = [] then Some True
           else star_loop pat str nocase (pi + k) (1 + int (length (render (drop k q)))) si (int (length s)))"
        (is "_ = ?r")
      proof -
        have "render (drop k q) = [] \<longleftrightarrow> drop k q = []"
          by (cases "drop k q"; cases "hd (drop k q)") auto
        then show ?thesis using split(2) st rd_at [OF d] by (subst match_loop.simps) auto
      qed
      have spec: "glob_match nocase p s = glob_match nocase (Star # drop k q) s"
        unfolding Cons True k_def by (rule glob_match_stars)
      show ?thesis
      proof (cases "drop k q")
        case Nil
        have "glob_match nocase [Star] s"
          unfolding glob_match_Star by (intro exI [of _ "length s"]) simp
        then show ?thesis unfolding loop spec Nil by simp
      next
        case (Cons h r)
        note dk = this
        have "h \<noteq> Star" using drop_stars_hd [of q h r] dk by (simp add: k_def)
        moreover have wf': "list_all glob_wf (h # r)"
          using wf dk by (metis append_take_drop_id list_all_append)
        moreover have "list_all (glob_plain nocase) (h # r)"
          using less.prems(5) dk \<open>p = g # q\<close> by (metis append_take_drop_id list_all_append list.pred_inject(2))
        moreover have "length (h # r) < length p" using dk \<open>p = g # q\<close>
          by (metis length_drop length_Cons diff_le_self le_imp_less_Suc)
        moreover have "drop (pi + k) pat = 42 # render (h # r) @ [0]" using split(1) dk by simp
        ultimately show ?thesis using less.hyps [OF _ wf' drop_at_Cons] less.prems(3) dk
          unfolding loop spec dk
          by (simp add: star_loop_correct del: glob_match.simps render_simps)
      qed
    next
      case False
      obtain c t where s: "s = c # t" using less.prems(4) by (cases s) auto
      have wf: "glob_wf g" "list_all glob_wf q" using less.prems Cons by simp_all
      have d: "drop pi pat = glob_bytes g @ render q @ [0]" using less.prems Cons by simp
      have ds: "drop si str = c # t @ [0]" using less.prems s by simp
      have ne: "0 < length (glob_bytes g)" by (cases g) auto
      then have off: "pi + length (glob_bytes g) - 1 + 1 = pi + length (glob_bytes g)" by simp
      obtain p0 where p0: "rd pat pi = Some p0" "p0 \<noteq> 42"
        "match_char pat str nocase p0 pi (int (length (render p))) si (int (length s)) =
          Some (if glob_char nocase g c then Some (pi + length (glob_bytes g) - 1, int (length (render q)) + 1) else None)"
        using match_char_correct [OF wf(1) False d _ ds, of "int (length (render p))"
            "int (length (render q))" "int (length s)" nocase] Cons s less.prems(5) by auto
      have tail: "stars_from pat (pi + length (glob_bytes g)) = Some (length (takeWhile (\<lambda>g. g = Star) q))"
        by (rule stars_from_render [OF wf(2) drop_at [OF d]])
      have IH: "t \<noteq> [] \<Longrightarrow> match_loop pat str nocase (pi + length (glob_bytes g)) (int (length (render q)))
          (si + 1) (int (length t)) = Some (glob_match nocase q t)"
        using less.hyps [OF _ wf(2) drop_at [OF d] drop_at_Cons [OF ds]] Cons less.prems(5) by simp
      have pos: "length (render p) \<noteq> 0" using ne Cons by simp
      show ?thesis
      proof (cases "glob_char nocase g c")
        case True
        then have "match_loop pat str nocase pi (int (length (render p))) si (int (length s)) =
            (if t = [] then Some (length (render q) = length (takeWhile (\<lambda>g. g = Star) q))
             else match_loop pat str nocase (pi + length (glob_bytes g)) (int (length (render q)))
               (si + 1) (int (length t)))"
          using p0 bump_at [OF ds] tail off pos s by (subst match_loop.simps) auto
        then show ?thesis
          using IH True False Cons s length_render_stars [of q] glob_match_Nil [of nocase q] by simp
      next
        case no: False
        then show ?thesis using p0 pos s False Cons by (subst match_loop.simps) simp
      qed
    qed
  qed
qed

section \<open>The empty string\<close>







text \<open>What the two items mean that are not plain.\<close>

lemma escape_keeps_case: "stringmatchlen (render [Cls False [Esc x]]) [c] True = Some (x = c)"
  by (auto simp: stringmatchlen_def render_def match_loop.simps match_char_def class_loop.simps stars_from.simps rd_def bump_def)

lemma reversed_range_empty:
  assumes "\<not> item_plain True (Rng a b)"
  shows "\<not> in_range True a b c"
  using assms by (auto simp: in_range_def Let_def sint_place place_tolower)

section \<open>Properties of the matcher\<close>

text \<open>C9: on a non-empty string \<open>stringmatchlen\<close> ends, reads no byte outside the pattern and the
  string, and decides exactly what the pattern means: a star matches any run of characters,
  repeated stars included, \<open>?\<close> any character, a class its characters, escaped characters and
  ranges or, after \<open>^\<close>, all others, a backslash the character after it, and the rest themselves.
  Without case a letter matches its other form, also in a class.  The patterns are those written with
  a backslash before each character that would otherwise have a meaning and, without case, those whose
  classes escape no letter (the code compares it as it is, \<open>escape_keeps_case\<close>) and have no range whose
  ends change their order as small letters (it is empty in the code, \<open>reversed_range_empty\<close>).\<close>

theorem stringmatchlen_correct:
  assumes "list_all glob_wf p" "list_all (glob_plain nocase) p" "str \<noteq> []"
  shows "stringmatchlen (render p) str nocase = Some (glob_match nocase p str)"
  unfolding stringmatchlen_def
  by (rule match_loop_correct) (use assms in auto)

theorem stringmatchlen_correct_witness:
  "stringmatchlen (render [Lit 104, Cls False [Rng 97 101, Chr 120], Star, AnyChar, Quo 42]) [72, 98, 99, 42] True
   = Some (glob_match True [Lit 104, Cls False [Rng 97 101, Chr 120], Star, AnyChar, Quo 42] [72, 98, 99, 42])"
  by (rule stringmatchlen_correct) (simp_all add: place_def capital_def)



end
