(* ===== verification/Lzf.thy ===== *)
theory Lzf imports Prelude "HOL-Library.Monad_Syntax" begin

text \<open>
  The LZF compressor and decompressor of \<open>Server/redis-3.2.1/src/lzf_c.c\<close> and \<open>lzf_d.c\<close>, with the
  configuration of \<open>lzfP.h\<close>: \<open>HLOG\<close> 16, \<open>VERY_FAST\<close>, no \<open>ULTRA_FAST\<close>, \<open>CHECK_INPUT\<close>, offsets in
  the hash table, and \<open>INIT_HTAB\<close> 0: the hash table is not initialised, so its contents are an
  argument here and the theorems hold for all of them.  The pointers \<open>ip\<close>, \<open>op\<close> and \<open>ref\<close> are
  offsets into the input or output buffer, as an \<open>int\<close> where the code lets one leave the buffer
  before it is compared.  An access outside a buffer is \<open>None\<close>.
\<close>

unbundle bit_operations_syntax

section \<open>Compression\<close>

definition MAX_LIT :: nat where "MAX_LIT = 32"
definition MAX_OFF :: nat where "MAX_OFF = 8192"
definition MAX_REF :: nat where "MAX_REF = 264"

lemmas lzf_consts = MAX_LIT_def MAX_OFF_def MAX_REF_def

definition FRST :: "byte \<Rightarrow> byte \<Rightarrow> 32 word" where
  "FRST p0 p1 = push_bit 8 (ucast p0) OR ucast p1"

definition NEXT :: "32 word \<Rightarrow> byte \<Rightarrow> 32 word" where
  "NEXT v p2 = push_bit 8 v OR ucast p2"

definition IDX :: "32 word \<Rightarrow> nat" where
  "IDX h = unat ((drop_bit 8 h - h * 5) AND 0xFFFF)"

text \<open>The length of a match: sixteen unrolled comparisons when there is room for them, which
  report whether they broke off, then the \<open>do ... while\<close> loop.\<close>

fun match_unrolled :: "bytes \<Rightarrow> nat \<Rightarrow> nat \<Rightarrow> nat \<Rightarrow> nat \<Rightarrow> (bool \<times> nat) option" where
  "match_unrolled inp ref ip 0 len = Some (False, len)"
| "match_unrolled inp ref ip (Suc n) len =
    do { a \<leftarrow> rd inp (ref + (len + 1)); b \<leftarrow> rd inp (ip + (len + 1));
         if a \<noteq> b then Some (True, len + 1) else match_unrolled inp ref ip n (len + 1) }"

function match_while :: "bytes \<Rightarrow> nat \<Rightarrow> nat \<Rightarrow> nat \<Rightarrow> nat \<Rightarrow> nat option" where
  "match_while inp ref ip maxlen len =
    (if len + 1 < maxlen then
       do { a \<leftarrow> rd inp (ref + (len + 1)); b \<leftarrow> rd inp (ip + (len + 1));
            if a = b then match_while inp ref ip maxlen (len + 1) else Some (len + 1) }
     else Some (len + 1))"
  by pat_completeness auto
termination by (relation "measure (\<lambda>(inp, ref, ip, maxlen, len). maxlen - len)") auto

definition match_len :: "bytes \<Rightarrow> nat \<Rightarrow> nat \<Rightarrow> nat \<Rightarrow> nat option" where
  "match_len inp ref ip maxlen =
    do { (broken, len) \<leftarrow> (if maxlen > 16 then match_unrolled inp ref ip 16 2 else Some (False, 2));
         if broken then Some len else match_while inp ref ip maxlen len }"

text \<open>The test for a match at \<open>ref\<close>; \<open>off\<close> is an \<open>unsigned long\<close>.\<close>

definition match_at :: "bytes \<Rightarrow> nat \<Rightarrow> nat \<Rightarrow> bool option" where
  "match_at inp ref ip =
    (if nat ((int ip - int ref - 1) mod 2 ^ 64) < MAX_OFF \<and> ref > 0 then
       do { r2 \<leftarrow> rd inp (ref + 2); p2 \<leftarrow> rd inp (ip + 2);
            if r2 \<noteq> p2 then Some False
            else do { r0 \<leftarrow> rd inp ref; r1 \<leftarrow> rd inp (ref + 1); p0 \<leftarrow> rd inp ip; p1 \<leftarrow> rd inp (ip + 1);
                      Some (r0 = p0 \<and> r1 = p1) } }
     else Some False)"

text \<open>The bytes of a back reference: \<open>len\<close> is the number of octets less two.\<close>

definition put_ref :: "bytes \<Rightarrow> nat \<Rightarrow> nat \<Rightarrow> nat \<Rightarrow> (bytes \<times> nat) option" where
  "put_ref out op off len =
    do { (out, op) \<leftarrow>
           (if len < 7 then
              do { out \<leftarrow> wr out op (of_nat (off div 256) + of_nat (len * 32)); Some (out, op + 1) }
            else
              do { out \<leftarrow> wr out op (of_nat (off div 256) + of_nat (7 * 32));
                   out \<leftarrow> wr out (op + 1) (of_nat (len - 7)); Some (out, op + 2) });
         out \<leftarrow> wr out op (of_nat off);
         Some (out, op + 1) }"

text \<open>One more literal byte, and the end of the run when it is full.\<close>

definition put_lit :: "bytes \<Rightarrow> nat \<Rightarrow> nat \<Rightarrow> byte \<Rightarrow> (bytes \<times> nat \<times> nat) option" where
  "put_lit out op lit b =
    do { out \<leftarrow> wr out op b;
         let (lit, op) = (lit + 1, op + 1);
         if lit = MAX_LIT then
           do { out \<leftarrow> wr out (op - lit - 1) (of_nat lit - 1); Some (out, op + 1, 0) }
         else Some (out, op, lit) }"

text \<open>The last bytes, after the main loop.\<close>

function compress_tail :: "bytes \<Rightarrow> nat \<Rightarrow> nat \<Rightarrow> nat \<Rightarrow> bytes \<Rightarrow> (nat \<times> bytes) option" where
  "compress_tail inp ip op lit out =
    (if ip < length inp then
       do { b \<leftarrow> rd inp ip; (out, op, lit) \<leftarrow> put_lit out op lit b;
            compress_tail inp (ip + 1) op lit out }
     else
       do { out \<leftarrow> wr out (op - lit - 1) (of_nat lit - 1);
            Some (op - of_bool (lit = 0), out) })"
  by pat_completeness auto
termination by (relation "measure (\<lambda>(inp, ip, op, lit, out). length inp - ip)") auto

definition compress_end :: "bytes \<Rightarrow> nat \<Rightarrow> nat \<Rightarrow> nat \<Rightarrow> bytes \<Rightarrow> (nat \<times> bytes) option" where
  "compress_end inp ip op lit out =
    (if op + 3 > length out then Some (0, out) else compress_tail inp ip op lit out)"

text \<open>The main loop.  A result is what the function returns with the output buffer; 0 is failure.\<close>

function compress_loop :: "bytes \<Rightarrow> nat \<Rightarrow> nat \<Rightarrow> nat \<Rightarrow> 32 word \<Rightarrow> (nat \<Rightarrow> nat) \<Rightarrow> bytes
    \<Rightarrow> (nat \<times> bytes) option" where
  "compress_loop inp ip op lit hval htab out =
    (if ip + 2 < length inp then
       do { p2 \<leftarrow> rd inp (ip + 2);
            let hval = NEXT hval p2;
            let ref = htab (IDX hval);
            let htab = htab(IDX hval := ip);
            m \<leftarrow> match_at inp ref ip;
            if m then
              (let off = ip - ref - 1;
                   maxlen = min (length inp - ip - 2) MAX_REF in
               if op + 3 + 1 \<ge> length out \<and> op - of_bool (lit = 0) + 3 + 1 \<ge> length out then Some (0, out)
               else
                 do { out \<leftarrow> wr out (op - lit - 1) (of_nat lit - 1);
                      len \<leftarrow> match_len inp ref ip maxlen;
                      (out, op) \<leftarrow> put_ref out (op - of_bool (lit = 0)) off (len - 2);
                      let ip' = ip + 1 + (len - 2 + 1);
                      if ip' + 2 \<ge> length inp then compress_end inp ip' (op + 1) 0 out
                      else
                        do { q0 \<leftarrow> rd inp (ip' - 2); q1 \<leftarrow> rd inp (ip' - 1); q2 \<leftarrow> rd inp ip';
                             q3 \<leftarrow> rd inp (ip' + 1);
                             let hval = NEXT (FRST q0 q1) q2;
                             let htab = htab(IDX hval := ip' - 2);
                             let hval = NEXT hval q3;
                             let htab = htab(IDX hval := ip' - 1);
                             compress_loop inp ip' (op + 1) 0 hval htab out } })
            else if op \<ge> length out then Some (0, out)
            else
              do { b \<leftarrow> rd inp ip; (out, op, lit) \<leftarrow> put_lit out op lit b;
                   compress_loop inp (ip + 1) op lit hval htab out } }
     else compress_end inp ip op lit out)"
  by pat_completeness auto
termination by (relation "measure (\<lambda>(inp, ip, op, lit, hval, htab, out). length inp - ip)") auto

declare match_while.simps [simp del] compress_tail.simps [simp del] compress_loop.simps [simp del]

definition lzf_compress :: "(nat \<Rightarrow> nat) \<Rightarrow> bytes \<Rightarrow> bytes \<Rightarrow> (nat \<times> bytes) option" where
  "lzf_compress htab inp out =
    (if length inp = 0 \<or> length out = 0 then Some (0, out)
     else do { p0 \<leftarrow> rd inp 0; p1 \<leftarrow> rd inp 1;
               compress_loop inp 0 1 0 (FRST p0 p1) htab out })"

section \<open>Decompression\<close>

datatype lzf_error = E2BIG | EINVAL

text \<open>Octet by octet copying within the output, which repeats what it has just written.\<close>

fun copy_fwd :: "bytes \<Rightarrow> nat \<Rightarrow> nat \<Rightarrow> nat \<Rightarrow> bytes option" where
  "copy_fwd out op ref 0 = Some out"
| "copy_fwd out op ref (Suc n) =
    do { b \<leftarrow> rd out ref; out \<leftarrow> wr out op b; copy_fwd out (op + 1) (ref + 1) n }"

text \<open>The unrolled copy of a literal run.\<close>

fun copy_run :: "bytes \<Rightarrow> nat \<Rightarrow> bytes \<Rightarrow> nat \<Rightarrow> nat \<Rightarrow> bytes option" where
  "copy_run inp ip out op 0 = Some out"
| "copy_run inp ip out op (Suc n) =
    do { b \<leftarrow> rd inp ip; out \<leftarrow> wr out op b; copy_run inp (ip + 1) out (op + 1) n }"

definition copy_ref :: "bytes \<Rightarrow> nat \<Rightarrow> nat \<Rightarrow> nat \<Rightarrow> bytes option" where
  "copy_ref out op ref len =
    (if len > 9 \<and> op \<ge> ref + (len + 2) then
       (if op + (len + 2) \<le> length out then Some (blit out op (take (len + 2) (drop ref out))) else None)
     else copy_fwd out op ref (len + 2))"

function decompress_loop :: "bytes \<Rightarrow> nat \<Rightarrow> nat \<Rightarrow> bytes \<Rightarrow> ((lzf_error + nat) \<times> bytes) option" where
  "decompress_loop inp ip op out =
    do { ctrl \<leftarrow> rd inp ip;
         let ip = ip + 1;
         if ctrl < 32 then
           (let ctrl = unat ctrl + 1 in
            if op + ctrl > length out then Some (Inl E2BIG, out)
            else if ip + ctrl > length inp then Some (Inl EINVAL, out)
            else do { out \<leftarrow> copy_run inp ip out op ctrl;
                      if ip + ctrl < length inp then decompress_loop inp (ip + ctrl) (op + ctrl) out
                      else Some (Inr (op + ctrl), out) })
         else
           (let len = unat (drop_bit 5 ctrl);
                ref = int op - int (unat (ctrl AND 0x1f) * 256) - 1 in
            if ip \<ge> length inp then Some (Inl EINVAL, out)
            else
              do { (len, ip) \<leftarrow> (if len = 7 then do { b \<leftarrow> rd inp ip; Some (len + unat b, ip + 1) }
                                 else Some (len, ip));
                   if ip \<ge> length inp then Some (Inl EINVAL, out)
                   else
                     do { b \<leftarrow> rd inp ip;
                          let ref = ref - int (unat b);
                          let ip = ip + 1;
                          if op + len + 2 > length out then Some (Inl E2BIG, out)
                          else if ref < 0 then Some (Inl EINVAL, out)
                          else do { out \<leftarrow> copy_ref out op (nat ref) len;
                                    if ip < length inp then decompress_loop inp ip (op + len + 2) out
                                    else Some (Inr (op + len + 2), out) } } }) }"
  by pat_completeness auto
termination
  by (relation "measure (\<lambda>(inp, ip, op, out). length inp - ip)")
    (auto simp: rd_def split: if_splits)

declare decompress_loop.simps [simp del]

text \<open>\<open>Inl\<close> is the return value 0 with \<open>errno\<close> set; on an error too the output buffer is changed.\<close>

definition lzf_decompress :: "bytes \<Rightarrow> bytes \<Rightarrow> ((lzf_error + nat) \<times> bytes) option" where
  "lzf_decompress inp out = decompress_loop inp 0 0 out"

section \<open>The format\<close>

text \<open>The bytes of a back reference to \<open>off + 1\<close> octets behind, of \<open>len + 2\<close> octets.\<close>

definition ref_bytes :: "nat \<Rightarrow> nat \<Rightarrow> bytes" where
  "ref_bytes off len =
    (if len < 7 then [of_nat (off div 256) + of_nat (len * 32)]
     else [of_nat (off div 256) + of_nat (7 * 32), of_nat (len - 7)]) @ [of_nat off]"

definition is_copy :: "bytes \<Rightarrow> nat \<Rightarrow> bytes \<Rightarrow> bool" where
  "is_copy ys ref zs \<longleftrightarrow> ref < length ys \<and> (\<forall>j < length zs. zs ! j = (ys @ zs) ! (ref + j))"

text \<open>The compressed streams and what they stand for: literal runs of up to 32 octets and
  references to what has been produced so far.\<close>

inductive encodes :: "bytes \<Rightarrow> bytes \<Rightarrow> bool" where
  encodes_Nil: "encodes [] []"
| encodes_run: "encodes xs ys \<Longrightarrow> 1 \<le> length l \<Longrightarrow> length l \<le> 32 \<Longrightarrow>
    encodes (xs @ of_nat (length l - 1) # l) (ys @ l)"
| encodes_ref: "encodes xs ys \<Longrightarrow> off < 8192 \<Longrightarrow> off < length ys \<Longrightarrow> 3 \<le> length zs \<Longrightarrow> length zs \<le> 264 \<Longrightarrow>
    is_copy ys (length ys - 1 - off) zs \<Longrightarrow>
    encodes (xs @ ref_bytes off (length zs - 2)) (ys @ zs)"

section \<open>The decompressor reads it\<close>

lemma blit_Cons: "op < length out \<Longrightarrow> blit out op (z # zs) = blit (out[op := z]) (op + 1) zs"
  by (simp add: blit_def take_Suc_conv_app_nth drop_update_cancel)

lemma copy_run_correct:
  "drop ip inp = l @ rest \<Longrightarrow> op + length l \<le> length out \<Longrightarrow>
   copy_run inp ip out op (length l) = Some (blit out op l)"
proof (induction l arbitrary: ip op out)
  case (Cons a l)
  have d: "drop ip inp = a # l @ rest" using Cons.prems(1) by simp
  show ?case using rd_at [OF d] Cons.IH [OF drop_at_Cons [OF d]] Cons.prems(2)
    by (simp add: blit_Cons)
qed simp

lemma copy_fwd_correct:
  "is_copy (take op out) ref zs \<Longrightarrow> op + length zs \<le> length out \<Longrightarrow>
   copy_fwd out op ref (length zs) = Some (blit out op zs)"
proof (induction zs arbitrary: op ref out)
  case (Cons z zs)
  have ref: "ref < op" "op < length out" using Cons.prems by (auto simp: is_copy_def)
  have c: "(z # zs) ! j = (take op out @ z # zs) ! (ref + j)" if "j < length (z # zs)" for j
    using Cons.prems(1) that unfolding is_copy_def by blast
  have z: "out ! ref = z" using c [of 0] ref by (simp add: nth_append)
  have t: "take (op + 1) (out[op := z]) = take op out @ [z]"
    using ref by (simp add: take_Suc_conv_app_nth)
  have "is_copy (take (op + 1) (out[op := z])) (ref + 1) zs"
    unfolding t is_copy_def using ref c [of "Suc j" for j] by simp
  then show ?case using Cons.IH ref z Cons.prems(2) by (simp add: blit_Cons)
qed simp

lemma copy_ref_correct:
  assumes "is_copy (take op out) ref zs" "op + length zs \<le> length out" "length zs = len + 2"
  shows "copy_ref out op ref len = Some (blit out op zs)"
proof (cases "len > 9 \<and> op \<ge> ref + (len + 2)")
  case True
  have "take (len + 2) (drop ref out) = zs"
  proof (rule nth_equalityI)
    fix j assume "j < length (take (len + 2) (drop ref out))"
    then have j: "j < length zs" "ref + j < op" using assms(3) True by auto
    then have "zs ! j = (take op out @ zs) ! (ref + j)" using assms(1) by (simp add: is_copy_def)
    then show "take (len + 2) (drop ref out) ! j = zs ! j" using j assms(2,3) True by (simp add: nth_append)
  next
    have "ref + (len + 2) \<le> length out" using assms(2,3) True by linarith
    then show "length (take (len + 2) (drop ref out)) = length zs" using assms(3) by simp
  qed
  then show ?thesis using True assms(2,3) by (simp add: copy_ref_def)
next
  case False
  then show ?thesis using copy_fwd_correct [OF assms(1,2)] assms(3) by (auto simp: copy_ref_def)
qed

definition decompress_next :: "bytes \<Rightarrow> nat \<Rightarrow> nat \<Rightarrow> bytes \<Rightarrow> ((lzf_error + nat) \<times> bytes) option" where
  "decompress_next inp ip op out =
    (if ip < length inp then decompress_loop inp ip op out else Some (Inr op, out))"

lemma decompress_run:
  assumes "drop ip inp = of_nat (length l - 1) # l @ rest" "1 \<le> length l" "length l \<le> 32"
    "op + length l \<le> length out"
  shows "decompress_loop inp ip op out =
    decompress_next inp (ip + (1 + length l)) (op + length l) (blit out op l)"
proof -
  obtain c where c: "length l = Suc c" using assms(2) by (cases "length l") auto
  have u: "unat (of_nat c :: byte) = c"
    using assms(3) c by (simp add: unsigned_of_nat take_bit_nat_eq_self)
  then have lt: "(of_nat c :: byte) < 32" using assms(3) c by (simp add: word_less_nat_alt)
  have d: "drop ip inp = of_nat c # l @ rest" using assms(1) c by simp
  then have "length (drop ip inp) = 1 + length l + length rest" by simp
  then have le: "ip + 1 + length l \<le> length inp" by simp
  show ?thesis
    using rd_at [OF d] lt u copy_run_correct [OF drop_at_Cons [OF d] assms(4)] assms(4) le c
    by (subst decompress_loop.simps) (simp add: decompress_next_def Let_def)
qed

lemma ref_ctrl:
  assumes "off < 8192" "k < 8"
  shows "unat (of_nat (off div 256) + of_nat (k * 32) :: byte) = off div 256 + k * 32"
    "drop_bit 5 (of_nat (off div 256) + of_nat (k * 32) :: byte) = of_nat k"
    "(of_nat (off div 256) + of_nat (k * 32) :: byte) AND 0x1f = of_nat (off div 256)"
proof -
  let ?w = "of_nat (off div 256) + of_nat (k * 32) :: byte"
  have u: "unat (of_nat n :: byte) = n" if "n < 256" for n
    using that by (simp add: unsigned_of_nat take_bit_nat_eq_self)
  have w: "?w = of_nat (off div 256 + k * 32)" by simp
  have a: "off div 256 < 32" using assms(1) by (simp add: less_mult_imp_div_less)
  then have "off div 256 + k * 32 < 256" using assms(2) by simp
  from u [OF this] show uw: "unat ?w = off div 256 + k * 32" unfolding w .
  have "unat (drop_bit 5 ?w) = k"
    unfolding unsigned_drop_bit_eq uw using a \<open>off div 256 + k * 32 < 256\<close>
    by (simp add: drop_bit_eq_div take_bit_nat_eq_self)
  then show "drop_bit 5 ?w = of_nat k" by (metis of_nat_unat ucast_id)
  have "unat (take_bit 5 ?w) = off div 256"
    unfolding unsigned_take_bit_eq uw using a by (simp add: take_bit_eq_mod)
  moreover have "?w AND 0x1f = take_bit 5 ?w" by (simp add: take_bit_eq_mask mask_eq_exp_minus_1)
  ultimately show "?w AND 0x1f = of_nat (off div 256)" using a u [of "off div 256"]
    by (metis of_nat_unat ucast_id)
qed


lemma decompress_ref:
  assumes d: "drop ip inp = ref_bytes off (length zs - 2) @ rest"
    and "off < 8192" "off < op" "3 \<le> length zs" "length zs \<le> 264" "op + length zs \<le> length out"
    and copy: "is_copy (take op out) (op - 1 - off) zs"
  shows "decompress_loop inp ip op out =
    decompress_next inp (ip + length (ref_bytes off (length zs - 2))) (op + length zs) (blit out op zs)"
proof -
  define len where "len = length zs - 2"
  have len: "length zs = len + 2" "0 < len" "len \<le> 262" using assms(4,5) by (auto simp: len_def)
  have cp: "copy_ref out op (op - Suc off) len = Some (blit out op zs)"
    using copy_ref_correct [OF copy assms(6) len(1)] by simp
  have "unat (of_nat off :: byte) = off mod 256" by (simp add: unat_of_nat)
  then have lo: "uint (of_nat off :: byte) = int (off mod 256)" using of_nat_unat [of "of_nat off :: byte", where 'a = int] by (simp only: ucast_id)
  have off: "int op - int (off div 256) * 256 - 1 - int (off mod 256) = int (op - Suc off)"
    "\<not> int op - int (off div 256) * 256 - 1 < int (off mod 256)"
    using assms(3) div_mult_mod_eq [of off 256] by linarith+
  define k where "k = min len 7"
  define c :: byte where "c = of_nat (off div 256) + of_nat (k * 32)"
  have "k < 8" by (simp add: k_def)
  note ctrl = ref_ctrl [OF assms(2) this, folded c_def]
  have "1 \<le> k" using len by (simp add: k_def)
  then have ge: "\<not> c < 32" by (simp add: word_less_nat_alt ctrl(1))
  have k: "unat (drop_bit 5 c) = k" "unat (c AND 0x1f) = off div 256"
    using assms(2) \<open>k < 8\<close> by (simp_all add: ctrl unat_of_nat)
  show ?thesis
  proof (cases "len < 7")
    case True
    then have kl: "k = len" by (simp add: k_def)
    have d0: "drop ip inp = c # of_nat off # rest" using d True kl by (simp add: ref_bytes_def c_def flip: len_def)
    note d1 = drop_at_Cons [OF d0]
    have "ip + 1 < length inp" using rd_at [OF d1] by (simp add: rd_def split: if_splits)
    then show ?thesis using rd_at [OF d0] rd_at [OF d1] ge k lo off cp assms(6) len True kl
      by (subst decompress_loop.simps) (simp add: decompress_next_def Let_def ref_bytes_def)
  next
    case False
    then have kl: "k = 7" by (simp add: k_def)
    have d0: "drop ip inp = c # of_nat (len - 7) # of_nat off # rest"
      using d False kl by (simp add: ref_bytes_def c_def flip: len_def)
    note d1 = drop_at_Cons [OF d0] and d2 = drop_at_Cons [OF drop_at_Cons [OF d0]]
    have l7: "unat (of_nat (len - 7) :: byte) = len - 7" using len by (simp add: unat_of_nat)
    have "ip + 1 + 1 < length inp" using rd_at [OF d2] by (simp add: rd_def split: if_splits)
    then show ?thesis using rd_at [OF d0] rd_at [OF d1] rd_at [OF d2] ge k lo off cp assms(6) len False kl l7
      by (subst decompress_loop.simps) (simp add: decompress_next_def Let_def ref_bytes_def)
  qed
qed

lemma blit_blit: "off = length ys \<Longrightarrow> length (ys @ zs) \<le> length out \<Longrightarrow> blit (blit out 0 ys) off zs = blit out 0 (ys @ zs)"
  by (simp add: blit_def add.commute)

lemma decompress_encoded:
  assumes "encodes xs ys" "inp = xs @ rest" "length ys \<le> length out"
  shows "decompress_next inp 0 0 out = decompress_next inp (length xs) (length ys) (blit out 0 ys)"
  using assms
proof (induction arbitrary: rest rule: encodes.induct)
  case encodes_Nil
  then show ?case by simp
next
  case (encodes_run xs ys l)
  have d: "drop (length xs) inp = of_nat (length l - 1) # l @ rest" using encodes_run.prems(1) by simp
  have lt: "length xs < length inp" using encodes_run.prems(1) by simp
  have "decompress_next inp 0 0 out = decompress_next inp (length xs) (length ys) (blit out 0 ys)"
    using encodes_run.prems by (intro encodes_run.IH) auto
  also have "\<dots> = decompress_loop inp (length xs) (length ys) (blit out 0 ys)"
    using lt by (simp add: decompress_next_def)
  also have "\<dots> = decompress_next inp (length xs + (1 + length l)) (length ys + length l)
      (blit (blit out 0 ys) (length ys) l)"
    using encodes_run.hyps encodes_run.prems(2) by (intro decompress_run [OF d]) auto
  finally show ?case using encodes_run.prems(2) by (simp add: blit_blit)
next
  case (encodes_ref xs ys off zs)
  have d: "drop (length xs) inp = ref_bytes off (length zs - 2) @ rest" using encodes_ref.prems(1) by simp
  have lt: "length xs < length inp" using encodes_ref.prems(1) by (simp add: ref_bytes_def)
  have "decompress_next inp 0 0 out = decompress_next inp (length xs) (length ys) (blit out 0 ys)"
    using encodes_ref.prems by (intro encodes_ref.IH) auto
  also have "\<dots> = decompress_loop inp (length xs) (length ys) (blit out 0 ys)"
    using lt by (simp add: decompress_next_def)
  also have "\<dots> = decompress_next inp (length xs + length (ref_bytes off (length zs - 2)))
      (length ys + length zs) (blit (blit out 0 ys) (length ys) zs)"
    using encodes_ref.hyps encodes_ref.prems(2) by (intro decompress_ref [OF d]) (auto simp: blit_def)
  finally show ?case using encodes_ref.prems(2) by (simp add: blit_blit)
qed

section \<open>The compressor writes it\<close>

definition eq_upto :: "bytes \<Rightarrow> nat \<Rightarrow> nat \<Rightarrow> nat \<Rightarrow> bool" where
  "eq_upto inp ref ip n \<longleftrightarrow> (\<forall>j < n. inp ! (ref + j) = inp ! (ip + j))"

lemma eq_upto_Suc: "eq_upto inp ref ip (Suc n) \<longleftrightarrow> eq_upto inp ref ip n \<and> inp ! (ref + n) = inp ! (ip + n)"
  by (auto simp: eq_upto_def less_Suc_eq)

lemma eq_upto_3: "eq_upto inp ref ip 3 \<longleftrightarrow>
    inp ! ref = inp ! ip \<and> inp ! Suc ref = inp ! Suc ip \<and> inp ! Suc (Suc ref) = inp ! Suc (Suc ip)"
  by (simp add: numeral_3_eq_3 eq_upto_Suc) (simp add: eq_upto_def)

lemma match_unrolled_correct:
  assumes "eq_upto inp ref ip (len + 1)" "ip + len + n < length inp" "ref < ip"
  shows "\<exists>broken len'. match_unrolled inp ref ip n len = Some (broken, len') \<and> len \<le> len' \<and> len' \<le> len + n \<and>
    (if broken then len < len' \<and> eq_upto inp ref ip len' else len' = len + n \<and> eq_upto inp ref ip (len' + 1))"
  using assms
proof (induction n arbitrary: len)
  case (Suc n)
  then have b: "ref + (len + 1) < length inp" "ip + (len + 1) < length inp" by simp_all
  show ?case
  proof (cases "inp ! (ref + (len + 1)) = inp ! (ip + (len + 1))")
    case True
    then have "eq_upto inp ref ip (len + 1 + 1)" using Suc.prems(1) by (simp add: eq_upto_Suc)
    moreover have "ip + (len + 1) + n < length inp" using Suc.prems by simp
    ultimately obtain broken len' where u: "match_unrolled inp ref ip n (len + 1) = Some (broken, len')"
      "len + 1 \<le> len'" "len' \<le> len + 1 + n"
      "if broken then len + 1 < len' \<and> eq_upto inp ref ip len'
       else len' = len + 1 + n \<and> eq_upto inp ref ip (len' + 1)"
      using Suc.IH Suc.prems(3) by blast
    have "match_unrolled inp ref ip (Suc n) len = Some (broken, len')" using b True u(1) by simp
    then show ?thesis using u(2-4) by (intro exI conjI) (auto split: if_splits)
  next
    case False
    then show ?thesis using Suc.prems(1) b by auto
  qed
qed auto

lemma match_while_correct:
  assumes "eq_upto inp ref ip (len + 1)" "ip + maxlen < length inp + 1" "ref < ip"
  shows "\<exists>m. match_while inp ref ip maxlen len = Some m \<and> len < m \<and> m \<le> max maxlen (len + 1) \<and>
    eq_upto inp ref ip m"
  using assms
proof (induction inp ref ip maxlen len rule: match_while.induct)
  case (1 inp ref ip maxlen len)
  show ?case
  proof (cases "len + 1 < maxlen")
    case True
    then have b: "ref + (len + 1) < length inp" "ip + (len + 1) < length inp" using "1.prems" by simp_all
    show ?thesis
    proof (cases "inp ! (ref + (len + 1)) = inp ! (ip + (len + 1))")
      case eq: True
      then have "eq_upto inp ref ip (len + 1 + 1)" using "1.prems"(1) by (simp add: eq_upto_Suc)
      from "1.IH" [OF True rd_nth rd_nth _ this] "1.prems" b eq True show ?thesis
        by (subst match_while.simps) auto
    next
      case False
      then show ?thesis using "1.prems"(1) b True by (subst match_while.simps) auto
    qed
  next
    case False
    then show ?thesis using "1.prems"(1) by (subst match_while.simps) simp
  qed
qed

lemma match_len_correct:
  assumes "eq_upto inp ref ip 3" "ip + 2 < length inp" "ref < ip"
    and "maxlen = min (length inp - ip - 2) 264"
  shows "\<exists>m. match_len inp ref ip maxlen = Some m \<and> 3 \<le> m \<and> m \<le> 264 \<and> ip + m \<le> length inp \<and>
    eq_upto inp ref ip m"
proof (cases "maxlen > 16")
  case True
  then have in19: "ip + 19 \<le> length inp" using assms(4) by simp
  obtain broken len where u: "match_unrolled inp ref ip 16 2 = Some (broken, len)" "2 \<le> len" "len \<le> 18"
    "if broken then 2 < len \<and> eq_upto inp ref ip len else len = 18 \<and> eq_upto inp ref ip (len + 1)"
  proof -
    have pre: "eq_upto inp ref ip (2 + 1)" "ip + 2 + 16 < length inp" using assms(1) in19 by simp_all
    from match_unrolled_correct [OF pre assms(3)] obtain broken len where
      "match_unrolled inp ref ip 16 2 = Some (broken, len)" "2 \<le> len" "len \<le> 2 + 16"
      "if broken then 2 < len \<and> eq_upto inp ref ip len else len = 2 + 16 \<and> eq_upto inp ref ip (len + 1)"
      by blast
    then show thesis by (cases broken) (auto intro!: that)
  qed
  show ?thesis
  proof (cases broken)
    case b: True
    then show ?thesis using u True in19 by (auto simp: match_len_def)
  next
    case b: False
    have "ip + maxlen < length inp + 1" using assms(4) in19 by simp
    with b obtain m where "match_while inp ref ip maxlen len = Some m" "len < m" "m \<le> max maxlen (len + 1)"
      "eq_upto inp ref ip m"
      using match_while_correct [of inp ref ip len maxlen] u(4) assms(3) by auto
    then show ?thesis using u b True in19 assms(4) by (auto simp: match_len_def)
  qed
next
  case False
  have "ip + maxlen < length inp + 1" using assms(2,4) by simp
  then obtain m where "match_while inp ref ip maxlen 2 = Some m" "2 < m" "m \<le> max maxlen 3"
    "eq_upto inp ref ip m"
    using match_while_correct [of inp ref ip 2 maxlen] assms(1,3) by auto
  then show ?thesis using False assms(2,4) by (auto simp: match_len_def)
qed

lemma match_at_correct:
  assumes "ip + 2 < length inp" "length inp < 2 ^ 32" "ref < 2 ^ 32"
  shows "\<exists>m. match_at inp ref ip = Some m \<and>
    (m \<longrightarrow> 0 < ref \<and> ref < ip \<and> ip - ref - 1 < 8192 \<and> eq_upto inp ref ip 3)"
proof -
  let ?d = "int ip - int ref - 1"
  have off: "ref < ip \<and> nat (?d mod 2 ^ 64) = ip - ref - 1" if "nat (?d mod 2 ^ 64) < MAX_OFF"
  proof -
    have "\<not> ?d < 0"
    proof
      assume "?d < 0"
      then have "?d mod 2 ^ 64 = ?d + 2 ^ 64" using assms(3) by (subst mod_add_self2 [symmetric]) (intro mod_pos_pos_trivial; simp)
      then show False using that assms(3) by (simp add: lzf_consts)
    qed
    moreover have "?d < 2 ^ 64" using assms by simp
    ultimately have "?d mod 2 ^ 64 = ?d" by simp
    then show ?thesis using \<open>\<not> ?d < 0\<close> by auto
  qed
  show ?thesis
  proof (cases "nat (?d mod 2 ^ 64) < MAX_OFF \<and> ref > 0")
    case True
    note o = off [OF conjunct1 [OF True]]
    have "ip - ref - 1 < MAX_OFF" using True unfolding o [THEN conjunct2] by (rule conjunct1)
    then have "ref < ip" "ip - ref - 1 < 8192" using o by (simp_all add: MAX_OFF_def)
    then show ?thesis using True assms(1) by (auto simp: match_at_def eq_upto_3)
  qed (auto simp: match_at_def)
qed

lemma put_ref_correct:
  assumes "op + length (ref_bytes off len) \<le> length out"
  shows "put_ref out op off len = Some (blit out op (ref_bytes off len), op + length (ref_bytes off len))"
  using assms by (auto simp: put_ref_def ref_bytes_def blit_Cons)


text \<open>The state of the compressor at \<open>ip\<close>: what precedes the header of the current run stands for
  the input before the run, and the run holds its last \<open>lit\<close> bytes.\<close>

definition lzf_state :: "bytes \<Rightarrow> nat \<Rightarrow> nat \<Rightarrow> nat \<Rightarrow> bytes \<Rightarrow> bool" where
  "lzf_state inp ip op lit out \<longleftrightarrow> lit \<le> 32 \<and> lit \<le> ip \<and> ip \<le> length inp \<and> lit + 1 \<le> op \<and>
     op \<le> length out + of_bool (lit = 0) \<and>
     encodes (take (op - lit - 1) out) (take (ip - lit) inp) \<and>
     take lit (drop (op - lit) out) = take lit (drop (ip - lit) inp)"

lemma stop_run:
  assumes "lzf_state inp ip op lit out" "op \<le> length out"
  shows "encodes (take (op - of_bool (lit = 0)) (out[op - lit - 1 := of_nat lit - 1])) (take ip inp)"
proof (cases "lit = 0")
  case True
  then show ?thesis using assms by (simp add: lzf_state_def)
next
  case False
  define l where "l = take lit (drop (ip - lit) inp)"
  have ll: "length l = lit" using assms(1) by (auto simp: l_def lzf_state_def)
  have out: "l = take lit (drop (op - lit) out)" using assms(1) by (simp add: l_def lzf_state_def)
  have op: "lit + 1 \<le> op" using assms(1) by (simp add: lzf_state_def)
  have e: "encodes (take (op - lit - 1) out @ of_nat (lit - 1) # l) (take (ip - lit) inp @ l)"
    using assms(1) False ll encodes_run [of "take (op - lit - 1) out" "take (ip - lit) inp" l]
    by (simp add: lzf_state_def)
  have "take ip inp = take (ip - lit) inp @ l"
    using assms(1) unfolding l_def by (simp add: lzf_state_def flip: take_add)
  moreover have "take op (out[op - lit - 1 := of_nat lit - 1]) = take (op - lit - 1) out @ of_nat (lit - 1) # l"
  proof -
    obtain h where h: "op = h + 1 + lit" using op by (metis add.commute le_Suc_ex Suc_eq_plus1 add.assoc)
    then have "take op (out[h := b]) = take h out @ b # take lit (drop (h + 1) out)" for b
      using assms(2) by (simp add: take_add upd_conv_take_nth_drop)
    then show ?thesis using h False out by (simp add: of_nat_diff)
  qed
  ultimately show ?thesis using e False by simp
qed

lemma put_lit_state:
  assumes "lzf_state inp ip op lit out" "lit < 32" "ip < length inp" "op < length out" "b = inp ! ip"
  shows "\<exists>out' op' lit'. put_lit out op lit b = Some (out', op', lit') \<and> length out' = length out \<and>
    lzf_state inp (ip + 1) op' lit' out' \<and> lit' < 32 \<and>
    (if lit = 31 then op' = op + 2 \<and> lit' = 0 else op' = op + 1 \<and> lit' = lit + 1)"
proof -
  define out1 where "out1 = out[op := b]"
  note st = assms(1) [unfolded lzf_state_def]
  have s1: "lzf_state inp (ip + 1) (op + 1) (lit + 1) out1"
  proof -
    have "take (lit + 1) (drop (op - lit) out1) = take lit (drop (op - lit) out) @ [b]"
      using st assms(4) by (simp add: out1_def take_Suc_conv_app_nth drop_update_swap)
    moreover have "take (lit + 1) (drop (ip - lit) inp) = take lit (drop (ip - lit) inp) @ [b]"
      using st assms(3,5) by (simp add: take_Suc_conv_app_nth)
    ultimately show ?thesis using st assms by (auto simp: lzf_state_def out1_def)
  qed
  show ?thesis
  proof (cases "lit = 31")
    case False
    then show ?thesis using s1 assms(2,4) by (simp add: put_lit_def out1_def lzf_consts)
  next
    case True
    have "encodes (take (op + 1) (out1[op + 1 - (lit + 1) - 1 := of_nat (lit + 1) - 1])) (take (ip + 1) inp)"
      using stop_run [OF s1] assms(4) by (simp add: out1_def)
    then show ?thesis using st True assms(3,4)
      by (simp add: put_lit_def out1_def lzf_consts lzf_state_def)
  qed
qed

lemma compress_tail_correct:
  assumes "lzf_state inp ip op lit out" "lit < 32"
    "op + (length inp - ip) + of_bool (lit + (length inp - ip) \<ge> 32) \<le> length out" "length inp - ip \<le> 31"
  shows "\<exists>n out'. compress_tail inp ip op lit out = Some (n, out') \<and> length out' = length out \<and>
    n \<le> length out \<and> encodes (take n out') inp"
  using assms
proof (induction inp ip op lit out rule: compress_tail.induct)
  case (1 inp ip op lit out)
  show ?case
  proof (cases "ip < length inp")
    case True
    then have "op < length out" using "1.prems"(3) by simp
    then obtain out' op' lit' where p: "put_lit out op lit (inp ! ip) = Some (out', op', lit')"
      "length out' = length out" "lzf_state inp (ip + 1) op' lit' out'" "lit' < 32"
      "if lit = 31 then op' = op + 2 \<and> lit' = 0 else op' = op + 1 \<and> lit' = lit + 1"
      using put_lit_state [OF "1.prems"(1,2) True _ refl] by blast
    obtain r where r: "length inp - ip = Suc r" "length inp - (ip + 1) = r"
      using True by (metis Suc_diff_Suc Suc_eq_plus1)
    have "op' + (length inp - (ip + 1)) + of_bool (lit' + (length inp - (ip + 1)) \<ge> 32) \<le> length out'"
      using p(2,5) "1.prems"(3,4) unfolding r by (auto split: if_splits)
    moreover have "length inp - (ip + 1) \<le> 31" using "1.prems"(4) by simp
    ultimately show ?thesis using "1.IH" [OF True rd_nth p(1) refl refl p(3,4)] True p(1,2)
      by (subst compress_tail.simps) simp
  next
    case False
    then have "ip = length inp" "op \<le> length out" using "1.prems" by (simp_all add: lzf_state_def)
    moreover have "op - lit - 1 < length out"
      using "1.prems"(1) \<open>op \<le> length out\<close> by (auto simp: lzf_state_def)
    ultimately show ?thesis using stop_run [OF "1.prems"(1)]
      by (subst compress_tail.simps) simp
  qed
qed


lemma compress_end_correct:
  assumes "lzf_state inp ip op lit out" "lit < 32" "length inp \<le> ip + 2"
  shows "\<exists>n out'. compress_end inp ip op lit out = Some (n, out') \<and> length out' = length out \<and>
    (n = 0 \<or> n \<le> length out \<and> encodes (take n out') inp)"
proof (cases "op + 3 > length out")
  case False
  then have "op + (length inp - ip) + of_bool (lit + (length inp - ip) \<ge> 32) \<le> length out"
    "length inp - ip \<le> 31"
    using assms(3) by auto
  from compress_tail_correct [OF assms(1,2) this] show ?thesis
    using False by (auto simp: compress_end_def)
qed (simp add: compress_end_def)

text \<open>A match of \<open>m\<close> bytes: the run is stopped, the reference written and an empty run started.\<close>

lemma match_state:
  assumes st: "lzf_state inp ip op lit out" and room: "op - of_bool (lit = 0) + 4 < length out"
    and m: "0 < ref" "ref < ip" "ip - ref - 1 < 8192" "3 \<le> m" "m \<le> 264" "ip + m \<le> length inp" "eq_upto inp ref ip m"
  defines "out1 \<equiv> out[op - lit - 1 := of_nat lit - 1]" and "op1 \<equiv> op - of_bool (lit = 0)"
    and "rb \<equiv> ref_bytes (ip - ref - 1) (m - 2)"
  shows "op - lit - 1 < length out \<and> put_ref out1 op1 (ip - ref - 1) (m - 2) = Some (blit out1 op1 rb, op1 + length rb) \<and>
    lzf_state inp (ip + m) (op1 + length rb + 1) 0 (blit out1 op1 rb)"
proof -
  define off zs where "off = ip - ref - 1" and "zs = take m (drop ip inp)"
  have op: "op \<le> length out" "op - lit - 1 < length out" using st room by (cases "lit = 0"; auto simp: lzf_state_def)+
  have e: "encodes (take op1 out1) (take ip inp)"
    unfolding op1_def out1_def by (rule stop_run [OF st op(1)])
  have rb: "length rb \<le> 3" by (simp add: rb_def ref_bytes_def)
  have zs: "length zs = m" "ip < length inp" using m(4,6) by (simp_all add: zs_def)
  have nth: "take ip inp @ zs = take (ip + m) inp" by (simp add: zs_def take_add)
  have copy: "is_copy (take ip inp) (length (take ip inp) - 1 - off) zs"
    unfolding is_copy_def nth
  proof (intro conjI allI impI)
    show "length (take ip inp) - 1 - off < length (take ip inp)" using m zs by (simp add: off_def)
    fix j assume j: "j < length zs"
    have "length (take ip inp) - 1 - off = ref" using m zs by (simp add: off_def)
    then show "zs ! j = take (ip + m) inp ! (length (take ip inp) - 1 - off + j)"
      using j m(2,7) zs by (simp add: eq_upto_def zs_def)
  qed
  have "encodes (take op1 out1 @ rb) (take ip inp @ zs)"
    using encodes_ref [OF e _ _ _ _ copy] m zs by (simp add: rb_def off_def)
  moreover have fit: "op1 + length rb \<le> length out1" using room rb by (simp add: op1_def out1_def)
  moreover have "take (op1 + length rb) (blit out1 op1 rb) = take op1 out1 @ rb"
    using fit by (simp add: blit_def)
  ultimately have "lzf_state inp (ip + m) (op1 + length rb + 1) 0 (blit out1 op1 rb)"
    using m(6) nth fit by (simp add: lzf_state_def)
  then show ?thesis using op put_ref_correct [of op1 "ip - ref - 1" "m - 2" out1] fit by (simp add: rb_def)
qed


lemma compress_loop_correct:
  assumes "lzf_state inp ip op lit out" "lit < 32" "length inp < 2 ^ 32" "\<forall>i. htab i < 2 ^ 32"
  shows "\<exists>n out'. compress_loop inp ip op lit hval htab out = Some (n, out') \<and> length out' = length out \<and>
    (n = 0 \<or> n \<le> length out \<and> encodes (take n out') inp)"
  using assms
proof (induction "length inp - ip" arbitrary: ip op lit hval htab out rule: less_induct)
  case less
  show ?case
  proof (cases "ip + 2 < length inp")
    case False
    then show ?thesis using compress_end_correct [OF less.prems(1,2)]
      by (subst compress_loop.simps) simp
  next
    case True
    define hv where "hv = NEXT hval (inp ! (ip + 2))"
    define ref where "ref = htab (IDX hv)"
    define ht where "ht = htab(IDX hv := ip)"
    have ht: "\<forall>i. ht i < 2 ^ 32" using less.prems(3,4) True by (simp add: ht_def)
    obtain m where m: "match_at inp ref ip = Some m"
      "m \<Longrightarrow> 0 < ref \<and> ref < ip \<and> ip - ref - 1 < 8192 \<and> eq_upto inp ref ip 3"
      using match_at_correct [OF True less.prems(3), of ref] less.prems(4) by (auto simp: ref_def)
    have p2: "rd inp (ip + 2) = Some (inp ! (ip + 2))" "rd inp ip = Some (inp ! ip)" using True by simp_all
    show ?thesis
    proof (cases m)
      case False
      show ?thesis
      proof (cases "op \<ge> length out")
        case full: True
        have "compress_loop inp ip op lit hval htab out = Some (0, out)"
          using True m(1) False full p2
          by (subst compress_loop.simps) (simp only: if_True if_False Option.bind.bind_lunit Let_def hv_def ref_def)
        then show ?thesis by simp
      next
        case room: False
        obtain out' op' lit' where p: "put_lit out op lit (inp ! ip) = Some (out', op', lit')"
          "length out' = length out" "lzf_state inp (ip + 1) op' lit' out'" "lit' < 32"
          using put_lit_state [OF less.prems(1,2) _ _ refl] True room by auto
        have "compress_loop inp ip op lit hval htab out = compress_loop inp (ip + 1) op' lit' hv ht out'"
          using True m(1) False room p(1) p2
          by (subst compress_loop.simps)
            (simp only: if_True if_False Option.bind.bind_lunit Let_def hv_def ref_def ht_def prod.case)
        then show ?thesis
          using less.hyps [OF _ p(3,4) less.prems(3) ht, of hv] p(2) True by simp
      qed
    next
      case match: True
      show ?thesis
      proof (cases "op - of_bool (lit = 0) + 4 < length out")
        case full: False
        then have g: "op + 3 + 1 \<ge> length out \<and> op - of_bool (lit = 0) + 3 + 1 \<ge> length out" by auto
        have "compress_loop inp ip op lit hval htab out = Some (0, out)"
          using True m(1) match g p2
          by (subst compress_loop.simps) (simp only: if_True if_False Option.bind.bind_lunit Let_def hv_def ref_def simp_thms)
        then show ?thesis by simp
      next
        case room: True
        then have g: "\<not> (op + 3 + 1 \<ge> length out \<and> op - of_bool (lit = 0) + 3 + 1 \<ge> length out)" by simp
        obtain l where l: "match_len inp ref ip (min (length inp - ip - 2) 264) = Some l" "3 \<le> l" "l \<le> 264"
          "ip + l \<le> length inp" "eq_upto inp ref ip l"
          using match_len_correct [of inp ref ip] m(2) [OF match] True by auto
        define out1 where "out1 = out[op - lit - 1 := of_nat lit - 1]"
        define op1 where "op1 = op - of_bool (lit = 0)"
        define rb where "rb = ref_bytes (ip - ref - 1) (l - 2)"
        define out2 where "out2 = blit out1 op1 rb"
        note ms = match_state [OF less.prems(1) room _ _ _ l(2-5), folded out1_def op1_def rb_def out2_def]
        have ms: "op - lit - 1 < length out" "put_ref out1 op1 (ip - ref - 1) (l - 2) = Some (out2, op1 + length rb)"
          "lzf_state inp (ip + l) (op1 + length rb + 1) 0 out2"
          using ms m(2) [OF match] by auto
        have "length rb \<le> 3" by (simp add: rb_def ref_bytes_def)
        then have len: "length out2 = length out" using room by (simp add: out2_def out1_def op1_def)
        have ip': "ip + 1 + (l - 2 + 1) = ip + l" using l(2) by simp
        have wr1: "wr out (op - lit - 1) (of_nat lit - 1) = Some out1" using ms(1) by (simp add: out1_def)
        show ?thesis
        proof (cases "ip + l + 2 \<ge> length inp")
          case last: True
          have "compress_loop inp ip op lit hval htab out = compress_end inp (ip + l) (op1 + length rb + 1) 0 out2"
            using True m(1) match g p2 l(1) ms(2) ip' last wr1
            by (subst compress_loop.simps)
              (simp only: if_True if_False Option.bind.bind_lunit Let_def hv_def ref_def op1_def prod.case MAX_REF_def)
          then show ?thesis using compress_end_correct [OF ms(3)] last len by simp
        next
          case more: False
          define h1 where "h1 = NEXT (FRST (inp ! (ip + l - 2)) (inp ! (ip + l - 1))) (inp ! (ip + l))"
          define h2 where "h2 = NEXT h1 (inp ! (ip + l + 1))"
          define ht2 where "ht2 = ht(IDX h1 := ip + l - 2, IDX h2 := ip + l - 1)"
          have q: "rd inp (ip + l - 2) = Some (inp ! (ip + l - 2))" "rd inp (ip + l - 1) = Some (inp ! (ip + l - 1))"
            "rd inp (ip + l) = Some (inp ! (ip + l))" "rd inp (ip + l + 1) = Some (inp ! (ip + l + 1))"
            using more by simp_all
          have "compress_loop inp ip op lit hval htab out =
              compress_loop inp (ip + l) (op1 + length rb + 1) 0 h2 ht2 out2"
            using True m(1) match g p2 l(1) ms(2) ip' more wr1 q
            by (subst compress_loop.simps)
              (simp only: if_True if_False Option.bind.bind_lunit Let_def hv_def ref_def op1_def prod.case MAX_REF_def
                h1_def h2_def ht2_def ht_def)
          moreover have "\<forall>i. ht2 i < 2 ^ 32" using ht less.prems(3) more by (auto simp: ht2_def)
          ultimately show ?thesis using less.hyps [OF _ ms(3) _ less.prems(3), of ht2 h2] len more l(2) by simp
        qed
      qed
    qed
  qed
qed

section \<open>The decompressor on any input\<close>

lemma copy_run_safe: "ip + n \<le> length inp \<Longrightarrow> op + n \<le> length out \<Longrightarrow>
    \<exists>out'. copy_run inp ip out op n = Some out' \<and> length out' = length out"
proof (induction n arbitrary: ip op out)
  case (Suc n)
  then show ?case using Suc.IH [of "ip + 1" "op + 1" "out[op := inp ! ip]"] by simp
qed simp

lemma copy_fwd_safe: "ref < op \<Longrightarrow> op + n \<le> length out \<Longrightarrow>
    \<exists>out'. copy_fwd out op ref n = Some out' \<and> length out' = length out"
proof (induction n arbitrary: op ref out)
  case (Suc n)
  then show ?case using Suc.IH [of "ref + 1" "op + 1" "out[op := out ! ref]"] by simp
qed simp

lemma copy_ref_safe: "ref < op \<Longrightarrow> op + len + 2 \<le> length out \<Longrightarrow>
    \<exists>out'. copy_ref out op ref len = Some out' \<and> length out' = length out"
  using copy_fwd_safe [of ref op "len + 2" out] by (auto simp: copy_ref_def)

lemma decompress_loop_safe:
  assumes "ip < length inp" "op \<le> length out"
  shows "\<exists>r out'. decompress_loop inp ip op out = Some (r, out') \<and> length out' = length out \<and>
    (\<forall>n. r = Inr n \<longrightarrow> n \<le> length out)"
  using assms
proof (induction "length inp - ip" arbitrary: ip op out rule: less_induct)
  case less
  define ctrl where "ctrl = inp ! ip"
  have c: "rd inp ip = Some ctrl" using less.prems(1) by (simp add: ctrl_def)
  have cont: "\<exists>r out''. (if ip' < length inp then decompress_loop inp ip' op' out' else Some (Inr op', out')) =
      Some (r, out'') \<and> length out'' = length out \<and> (\<forall>n. r = Inr n \<longrightarrow> n \<le> length out)"
    if "ip < ip'" "op' \<le> length out" "length out' = length out" for ip' op' out'
    using less.hyps [of ip' op' out'] that less.prems(1) by auto
  show ?case
  proof (cases "ctrl < 32")
    case True
    define n where "n = unat ctrl + 1"
    show ?thesis
    proof (cases "op + n > length out \<or> ip + 1 + n > length inp")
      case bad: True
      then show ?thesis using c True
        by (subst decompress_loop.simps) (auto simp: Let_def n_def)
    next
      case False
      then obtain out' where "copy_run inp (ip + 1) out op n = Some out'" "length out' = length out"
        using copy_run_safe [of "ip + 1" n inp op out] by auto
      then show ?thesis using c True False cont [of "ip + 1 + n" "op + n" out']
        by (subst decompress_loop.simps)
          (simp only: Let_def if_True if_False Option.bind.bind_lunit flip: n_def, simp)
    qed
  next
    case lit: False
    define ref0 where "ref0 = int op - int (unat (ctrl AND 0x1f) * 256) - 1"
    define len0 where "len0 = unat (drop_bit 5 ctrl)"
    define ext where "ext = (len0 = 7)"
    define ip1 where "ip1 = (if ext then ip + 1 + 1 else ip + 1)"
    define len where "len = (if ext then len0 + unat (inp ! (ip + 1)) else len0)"
    show ?thesis
    proof (cases "ip + 1 \<ge> length inp \<or> ip1 \<ge> length inp")
      case True
      then show ?thesis using c lit
        by (subst decompress_loop.simps) (auto simp: Let_def len0_def ext_def ip1_def)
    next
      case False
      define ref where "ref = ref0 - int (unat (inp ! ip1))"
      have e: "(if len0 = 7 then do { b \<leftarrow> rd inp (ip + 1); Some (len0 + unat b, ip + 1 + 1) } else Some (len0, ip + 1)) =
          Some (len, ip1)"
        using False by (simp add: ext_def ip1_def len_def)
      have r: "rd inp ip1 = Some (inp ! ip1)" using False by simp
      have f: "\<not> ip + 1 \<ge> length inp" "\<not> ip1 \<ge> length inp" using False by simp_all
      have step: "decompress_loop inp ip op out =
          (if op + len + 2 > length out then Some (Inl E2BIG, out)
           else if ref < 0 then Some (Inl EINVAL, out)
           else do { out \<leftarrow> copy_ref out op (nat ref) len;
                     if ip1 + 1 < length inp then decompress_loop inp (ip1 + 1) (op + len + 2) out
                     else Some (Inr (op + len + 2), out) })"
        using c lit e r f
        by (subst decompress_loop.simps)
          (simp only: Let_def if_False Option.bind.bind_lunit len0_def ref0_def ref_def prod.case)
      show ?thesis
      proof (cases "op + len + 2 > length out \<or> ref < 0")
        case True
        then show ?thesis unfolding step by auto
      next
        case ok: False
        have "ref < int op" unfolding ref_def ref0_def by linarith
        then have "nat ref < op" using ok by (simp add: nat_less_iff)
        with ok obtain out' where o: "copy_ref out op (nat ref) len = Some out'" "length out' = length out"
          using copy_ref_safe [of "nat ref" op len out] by auto
        have "ip < ip1 + 1" by (simp add: ip1_def)
        from cont [OF this, of "op + len + 2" out'] show ?thesis
          unfolding step using o ok by simp
      qed
    qed
  qed
qed

section \<open>Properties\<close>

text \<open>C11: whatever the uninitialised hash table holds, \<open>lzf_compress\<close> accesses no byte outside its
  two buffers on an input of at least two bytes (or none), and unless it gives up with 0 the
  bytes it returns fit the output buffer and decompress, into any buffer that is large enough,
  to exactly the input, leaving the rest of that buffer alone.\<close>

theorem lzf_roundtrip:
  assumes "length inp \<noteq> 1" "length inp < 2 ^ 32" "\<forall>i. htab i < 2 ^ 32"
  shows "\<exists>n out'. lzf_compress htab inp out = Some (n, out') \<and> length out' = length out \<and>
    (n = 0 \<or> n \<le> length out \<and>
      (\<forall>dst. length inp \<le> length dst \<longrightarrow> lzf_decompress (take n out') dst =
        Some (Inr (length inp), inp @ drop (length inp) dst)))"
proof (cases "length inp = 0 \<or> length out = 0")
  case False
  then have two: "2 \<le> length inp" using assms(1) by linarith
  have "lzf_state inp 0 1 0 out" using False by (simp add: lzf_state_def encodes_Nil)
  from compress_loop_correct [OF this _ assms(2,3), of "FRST (inp ! 0) (inp ! 1)"]
  obtain n out' where r: "lzf_compress htab inp out = Some (n, out')" "length out' = length out"
    "n = 0 \<or> n \<le> length out \<and> encodes (take n out') inp"
    using False two by (auto simp: lzf_compress_def)
  have "lzf_decompress (take n out') dst = Some (Inr (length inp), inp @ drop (length inp) dst)"
    if "0 < n" "length inp \<le> length dst" for dst
  proof -
    have e: "encodes (take n out') inp" and "n \<le> length out" using r(3) that(1) by auto
    then have "take n out' \<noteq> []" using that(1) r(2) by auto
    then show ?thesis using decompress_encoded [OF e _ that(2), of _ "[]"]
      by (simp add: lzf_decompress_def decompress_next_def blit_def)
  qed
  then show ?thesis using r by auto
qed (auto simp: lzf_compress_def)

theorem lzf_roundtrip_witness:
  "\<exists>n out'. lzf_compress (\<lambda>i. 3) (replicate 40 7) (replicate 30 0) = Some (n, out') \<and> length out' = 30 \<and>
    (n = 0 \<or> n \<le> 30 \<and> (\<forall>dst. 40 \<le> length dst \<longrightarrow> lzf_decompress (take n out') dst =
        Some (Inr 40, replicate 40 7 @ drop 40 dst)))"
  using lzf_roundtrip [of "replicate 40 7" "\<lambda>i. 3" "replicate 30 0"] by simp

text \<open>C12: \<open>lzf_decompress\<close> can be given any bytes, as long as there is one: it ends, reads nothing
  outside the input and what it has produced, writes nothing outside the output buffer, and either reports an error
  or returns a length that fits the buffer.  Without any input it reads a control byte behind its buffer, as its
  loop tests the end only after the first round.\<close>

theorem lzf_decompress_safe:
  "if inp = [] then lzf_decompress inp out = None
   else \<exists>r out'. lzf_decompress inp out = Some (r, out') \<and> length out' = length out \<and>
     (\<forall>n. r = Inr n \<longrightarrow> n \<le> length out)"
  unfolding lzf_decompress_def using decompress_loop_safe [of 0 inp 0 out]
  by (simp add: decompress_loop.simps [of "[]"] rd_def)

theorem lzf_decompress_safe_witness:
  "(\<exists>r out'. lzf_decompress [224, 255, 255] (replicate 8 0) = Some (r, out') \<and> length out' = 8 \<and>
    (\<forall>n. r = Inr n \<longrightarrow> n \<le> 8)) \<and> lzf_decompress [] (replicate 8 0) = None"
  using lzf_decompress_safe [of "[224, 255, 255]" "replicate 8 0"] lzf_decompress_safe [of "[]" "replicate 8 0"] by simp

end
