(* ===== verification/Dict.thy ===== *)
theory Dict imports Prelude "HOL-Library.Monad_Syntax" "HOL-Library.Multiset" begin

text \<open>
  The hash tables of \<open>Server/redis-3.2.1/src/dict.c\<close>: a dictionary is two tables of chained
  entries, and the entries move from the first to the second a bucket at a time while the
  dictionary is in use.  The code is generic in the keys and values through \<open>dictType\<close>: here the
  types \<open>'k\<close> and \<open>'v\<close>, the hash function an argument and the comparison equality.  A chain is the
  list of its entries from the head, a pointer to an entry is the table, the bucket and the place
  in the chain, \<open>NULL\<close> for the array of a table is the empty list, and \<open>None\<close> is an access
  outside an array, a failed assertion or an \<open>int\<close> that overflows.  The index of \<open>_dictKeyIndex\<close> and
  of \<open>dictAddRaw\<close> is an \<open>int\<close>, as in the code; sizes and counts are \<open>unsigned long\<close> there and
  natural numbers here.  The global \<open>dict_can_resize\<close> is an argument.
\<close>

unbundle bit_operations_syntax

section \<open>Hash functions\<close>

text \<open>Each assignment of \<open>dictIntHashFunction\<close> is a definition of \<open>key\<close> from its previous value.\<close>

definition dictIntHashFunction :: "32 word \<Rightarrow> 32 word" where
  "dictIntHashFunction key =
    (let key = key + NOT (push_bit 15 key);
         key = key XOR drop_bit 10 key;
         key = key + push_bit 3 key;
         key = key XOR drop_bit 6 key;
         key = key + NOT (push_bit 11 key);
         key = key XOR drop_bit 16 key
     in key)"

text \<open>MurmurHash2 on the bytes of a key; \<open>m\<close> is \<open>0x5bd1e995\<close>, and a 4-byte cell is read in the
  byte order of the machine, little endian.\<close>

definition murmur_m :: "32 word" where "murmur_m = 0x5bd1e995"

fun murmur_blocks :: "32 word \<Rightarrow> bytes \<Rightarrow> 32 word \<times> bytes" where
  "murmur_blocks h (a # b # c # d # data) =
    (let k = of_nat (le_nat [a, b, c, d]) * murmur_m;
         k = (k XOR drop_bit 24 k) * murmur_m
     in murmur_blocks ((h * murmur_m) XOR k) data)"
| "murmur_blocks h data = (h, data)"

definition dictGenHashFunction :: "32 word \<Rightarrow> bytes \<Rightarrow> 32 word" where
  "dictGenHashFunction seed key =
    (let (h, data) = murmur_blocks (seed XOR of_nat (length key)) key;
         h = (if length data = 3 then h XOR push_bit 16 (ucast (data ! 2)) else h);
         h = (if length data \<ge> 2 then h XOR push_bit 8 (ucast (data ! 1)) else h);
         h = (if length data \<ge> 1 then (h XOR ucast (data ! 0)) * murmur_m else h);
         h = (h XOR drop_bit 13 h) * murmur_m
     in h XOR drop_bit 15 h)"

definition dictGenCaseHashFunction :: "32 word \<Rightarrow> bytes \<Rightarrow> 32 word" where
  "dictGenCaseHashFunction seed buf =
    fold (\<lambda>c hash. (push_bit 5 hash + hash) + ucast (if 65 \<le> c \<and> c \<le> 90 then c + 32 else c)) buf seed"

section \<open>Tables\<close>

record ('k, 'v) dictht =
  ht_table :: "('k \<times> 'v) list list"
  ht_size :: nat
  ht_sizemask :: nat
  ht_used :: nat

record ('k, 'v) dict =
  ht0 :: "('k, 'v) dictht"
  ht1 :: "('k, 'v) dictht"
  rehashidx :: int
  iterators :: nat

type_synonym entry = "nat \<times> nat \<times> nat"

definition DICT_HT_INITIAL_SIZE :: nat where "DICT_HT_INITIAL_SIZE = 4"
definition dict_force_resize_ratio :: nat where "dict_force_resize_ratio = 5"

definition dictReset :: "('k, 'v) dictht" where
  "dictReset = \<lparr>ht_table = [], ht_size = 0, ht_sizemask = 0, ht_used = 0\<rparr>"

definition dictCreate :: "('k, 'v) dict" where
  "dictCreate = \<lparr>ht0 = dictReset, ht1 = dictReset, rehashidx = -1, iterators = 0\<rparr>"

definition dictIsRehashing :: "('k, 'v) dict \<Rightarrow> bool" where
  "dictIsRehashing d \<longleftrightarrow> rehashidx d \<noteq> -1"

definition dictSize :: "('k, 'v) dict \<Rightarrow> nat" where
  "dictSize d = ht_used (ht0 d) + ht_used (ht1 d)"

definition get_ht :: "('k, 'v) dict \<Rightarrow> nat \<Rightarrow> ('k, 'v) dictht" where
  "get_ht d t = (if t = 0 then ht0 d else ht1 d)"

definition set_ht :: "('k, 'v) dict \<Rightarrow> nat \<Rightarrow> ('k, 'v) dictht \<Rightarrow> ('k, 'v) dict" where
  "set_ht d t h = (if t = 0 then d\<lparr>ht0 := h\<rparr> else d\<lparr>ht1 := h\<rparr>)"

definition bucket :: "('k, 'v) dictht \<Rightarrow> nat \<Rightarrow> ('k \<times> 'v) list option" where
  "bucket h i = (if i < length (ht_table h) then Some (ht_table h ! i) else None)"

definition index_in :: "('k \<Rightarrow> 32 word) \<Rightarrow> 'k \<Rightarrow> ('k, 'v) dictht \<Rightarrow> nat" where
  "index_in hash key h = unat (hash key) AND ht_sizemask h"

section \<open>Resizing\<close>

function next_power_from :: "nat \<Rightarrow> nat \<Rightarrow> nat" where
  "next_power_from i sz = (if i \<ge> sz \<or> i = 0 then i else next_power_from (i * 2) sz)"
  by pat_completeness auto
termination by (relation "measure (\<lambda>(i, sz). sz - i)") auto

declare next_power_from.simps [simp del]

definition dictNextPower :: "nat \<Rightarrow> nat" where
  "dictNextPower sz =
    (if sz \<ge> 2 ^ 63 - 1 then 2 ^ 63 - 1 else next_power_from DICT_HT_INITIAL_SIZE sz)"

text \<open>The result \<open>True\<close> is \<open>DICT_OK\<close>.\<close>

definition dictExpand :: "nat \<Rightarrow> ('k, 'v) dict \<Rightarrow> ('k, 'v) dict \<times> bool" where
  "dictExpand sz d =
    (let realsize = dictNextPower sz in
     if dictIsRehashing d \<or> ht_used (ht0 d) > sz then (d, False)
     else if realsize = ht_size (ht0 d) then (d, False)
     else
       (let n = \<lparr>ht_table = replicate realsize [], ht_size = realsize, ht_sizemask = realsize - 1,
                 ht_used = 0\<rparr> in
        if ht_table (ht0 d) = [] then (d\<lparr>ht0 := n\<rparr>, True)
        else (d\<lparr>ht1 := n, rehashidx := 0\<rparr>, True)))"

definition dictResize :: "bool \<Rightarrow> ('k, 'v) dict \<Rightarrow> ('k, 'v) dict \<times> bool" where
  "dictResize can_resize d =
    (if \<not> can_resize \<or> dictIsRehashing d then (d, False)
     else (let minimal = int32 (int (ht_used (ht0 d))) in
       dictExpand (nat (if minimal < int DICT_HT_INITIAL_SIZE then int DICT_HT_INITIAL_SIZE else minimal)) d))"

section \<open>Incremental rehashing\<close>

text \<open>The loop over empty buckets: the index it stops at, and the visits left; \<open>None\<close> inside \<open>Some\<close>
  is the early \<open>return 1\<close>.\<close>

function skip_empty :: "('k \<times> 'v) list list \<Rightarrow> nat \<Rightarrow> nat \<Rightarrow> (nat \<times> nat option) option" where
  "skip_empty tbl idx visits =
    (if idx \<ge> length tbl then None
     else if tbl ! idx = [] then
       (if visits - 1 = 0 then Some (idx + 1, None) else skip_empty tbl (idx + 1) (visits - 1))
     else Some (idx, Some visits))"
  by pat_completeness auto
termination by (relation "measure (\<lambda>(tbl, idx, visits). length tbl - idx)") auto

declare skip_empty.simps [simp del]

text \<open>Moving the entries of a chain, from its head, to the front of their new chains.\<close>

fun move_chain :: "('k \<Rightarrow> 32 word) \<Rightarrow> ('k \<times> 'v) list \<Rightarrow> ('k, 'v) dict \<Rightarrow> ('k, 'v) dict option" where
  "move_chain hash [] d = Some d"
| "move_chain hash (e # es) d =
    (let t = ht1 d; h = index_in hash (fst e) t in
     do { b \<leftarrow> bucket t h;
          move_chain hash es
            (d\<lparr>ht0 := (ht0 d)\<lparr>ht_used := ht_used (ht0 d) - 1\<rparr>,
               ht1 := t\<lparr>ht_table := (ht_table t)[h := e # b], ht_used := ht_used t + 1\<rparr>\<rparr>) })"

text \<open>The loop \<open>while (n-- && d->ht[0].used != 0)\<close>; \<open>True\<close> is the early \<open>return 1\<close>.\<close>

fun rehash_loop :: "('k \<Rightarrow> 32 word) \<Rightarrow> nat \<Rightarrow> nat \<Rightarrow> ('k, 'v) dict \<Rightarrow> (('k, 'v) dict \<times> bool) option" where
  "rehash_loop hash 0 visits d = Some (d, False)"
| "rehash_loop hash (Suc n) visits d =
    (if ht_used (ht0 d) = 0 then Some (d, False)
     else if \<not> ht_size (ht0 d) > nat (rehashidx d) then None
     else do {
       (idx, r) \<leftarrow> skip_empty (ht_table (ht0 d)) (nat (rehashidx d)) visits;
       case r of None \<Rightarrow> Some (d\<lparr>rehashidx := int idx\<rparr>, True)
       | Some visits \<Rightarrow>
           do { de \<leftarrow> bucket (ht0 d) idx;
                d \<leftarrow> move_chain hash de d;
                rehash_loop hash n visits
                  (d\<lparr>ht0 := (ht0 d)\<lparr>ht_table := (ht_table (ht0 d))[idx := []]\<rparr>,
                     rehashidx := int idx + 1\<rparr>) } })"

text \<open>\<open>n * 10\<close> is an \<open>int\<close>: a product it does not hold is the result \<open>None\<close>.\<close>

definition dictRehash :: "('k \<Rightarrow> 32 word) \<Rightarrow> nat \<Rightarrow> ('k, 'v) dict \<Rightarrow> (('k, 'v) dict \<times> bool) option" where
  "dictRehash hash n d =
    (if 2 ^ 31 \<le> n * 10 then None
     else if \<not> dictIsRehashing d then Some (d, False)
     else do {
       (d, early) \<leftarrow> rehash_loop hash n (n * 10) d;
       if early then Some (d, True)
       else if ht_used (ht0 d) = 0 then
         Some (d\<lparr>ht0 := ht1 d, ht1 := dictReset, rehashidx := -1\<rparr>, False)
       else Some (d, True) })"

definition dictRehashStep :: "('k \<Rightarrow> 32 word) \<Rightarrow> ('k, 'v) dict \<Rightarrow> ('k, 'v) dict option" where
  "dictRehashStep hash d = (if iterators d = 0 then map_option fst (dictRehash hash 1 d) else Some d)"

definition step_if_rehashing :: "('k \<Rightarrow> 32 word) \<Rightarrow> ('k, 'v) dict \<Rightarrow> ('k, 'v) dict option" where
  "step_if_rehashing hash d = (if dictIsRehashing d then dictRehashStep hash d else Some d)"

section \<open>Operations\<close>

definition dictExpandIfNeeded :: "bool \<Rightarrow> ('k, 'v) dict \<Rightarrow> ('k, 'v) dict \<times> bool" where
  "dictExpandIfNeeded can_resize d =
    (if dictIsRehashing d then (d, True)
     else if ht_size (ht0 d) = 0 then dictExpand DICT_HT_INITIAL_SIZE d
     else if ht_used (ht0 d) \<ge> ht_size (ht0 d) \<and>
         (can_resize \<or> ht_used (ht0 d) div ht_size (ht0 d) > dict_force_resize_ratio)
     then dictExpand (ht_used (ht0 d) * 2) d
     else (d, True))"

text \<open>The place of a key in a chain.\<close>

fun chain_find :: "'k \<Rightarrow> ('k \<times> 'v) list \<Rightarrow> nat option" where
  "chain_find key [] = None"
| "chain_find key (e # es) = (if key = fst e then Some 0 else map_option Suc (chain_find key es))"

text \<open>The loop over the two tables that \<open>dictFind\<close>, \<open>_dictKeyIndex\<close> and \<open>dictGenericDelete\<close>
  share: the entry found, if any; the second table is searched only while rehashing.\<close>

definition lookup_in :: "('k \<Rightarrow> 32 word) \<Rightarrow> 'k \<Rightarrow> nat \<Rightarrow> ('k, 'v) dict \<Rightarrow> entry option option" where
  "lookup_in hash key t d =
    (let idx = index_in hash key (get_ht d t) in
     do { he \<leftarrow> bucket (get_ht d t) idx;
          Some (map_option (\<lambda>pos. (t, idx, pos)) (chain_find key he)) })"

definition lookup_tables :: "('k \<Rightarrow> 32 word) \<Rightarrow> 'k \<Rightarrow> ('k, 'v) dict \<Rightarrow> entry option option" where
  "lookup_tables hash key d =
    do { r \<leftarrow> lookup_in hash key 0 d;
         case r of Some e \<Rightarrow> Some (Some e)
         | None \<Rightarrow> if \<not> dictIsRehashing d then Some None else lookup_in hash key 1 d }"

text \<open>\<open>_dictKeyIndex\<close> returns an \<open>unsigned int\<close> as an \<open>int\<close>, and \<open>-1\<close> for a key that is there.\<close>

definition dictKeyIndex :: "('k \<Rightarrow> 32 word) \<Rightarrow> bool \<Rightarrow> 'k \<Rightarrow> ('k, 'v) dict
    \<Rightarrow> (('k, 'v) dict \<times> int) option" where
  "dictKeyIndex hash can_resize key d =
    (let (d, ok) = dictExpandIfNeeded can_resize d in
     if \<not> ok then Some (d, -1)
     else do {
       r \<leftarrow> lookup_tables hash key d;
       Some (d, if r \<noteq> None then -1
                else int32 (int (index_in hash key (if dictIsRehashing d then ht1 d else ht0 d)))) })"

text \<open>The value of a fresh entry is what the allocator left there: the argument \<open>junk\<close>.  A negative
  index is outside the array.\<close>

definition dictAddRaw :: "('k \<Rightarrow> 32 word) \<Rightarrow> bool \<Rightarrow> 'v \<Rightarrow> 'k \<Rightarrow> ('k, 'v) dict
    \<Rightarrow> (('k, 'v) dict \<times> entry option) option" where
  "dictAddRaw hash can_resize junk key d =
    do { d \<leftarrow> step_if_rehashing hash d;
         (d, index) \<leftarrow> dictKeyIndex hash can_resize key d;
         if index = -1 then Some (d, None)
         else if index < 0 then None
         else
           (let t = (if dictIsRehashing d then 1 else 0); ht = get_ht d t; i = nat index in
            do { b \<leftarrow> bucket ht i;
                 Some (set_ht d t (ht\<lparr>ht_table := (ht_table ht)[i := (key, junk) # b],
                                      ht_used := ht_used ht + 1\<rparr>), Some (t, i, 0)) }) }"

definition dictGetVal :: "entry \<Rightarrow> ('k, 'v) dict \<Rightarrow> 'v option" where
  "dictGetVal e d =
    (let (t, i, pos) = e in
     do { b \<leftarrow> bucket (get_ht d t) i; if pos < length b then Some (snd (b ! pos)) else None })"

definition dictSetVal :: "entry \<Rightarrow> 'v \<Rightarrow> ('k, 'v) dict \<Rightarrow> ('k, 'v) dict option" where
  "dictSetVal e val d =
    (let (t, i, pos) = e; ht = get_ht d t in
     do { b \<leftarrow> bucket ht i;
          if pos < length b
          then Some (set_ht d t (ht\<lparr>ht_table := (ht_table ht)[i := b[pos := (fst (b ! pos), val)]]\<rparr>))
          else None })"

definition dictAdd :: "('k \<Rightarrow> 32 word) \<Rightarrow> bool \<Rightarrow> 'v \<Rightarrow> 'k \<Rightarrow> 'v \<Rightarrow> ('k, 'v) dict
    \<Rightarrow> (('k, 'v) dict \<times> bool) option" where
  "dictAdd hash can_resize junk key val d =
    do { (d, e) \<leftarrow> dictAddRaw hash can_resize junk key d;
         case e of None \<Rightarrow> Some (d, False)
         | Some e \<Rightarrow> do { d \<leftarrow> dictSetVal e val d; Some (d, True) } }"

definition dictFind :: "('k \<Rightarrow> 32 word) \<Rightarrow> 'k \<Rightarrow> ('k, 'v) dict \<Rightarrow> (('k, 'v) dict \<times> entry option) option" where
  "dictFind hash key d =
    (if dictSize d = 0 then Some (d, None)
     else do { d \<leftarrow> step_if_rehashing hash d; r \<leftarrow> lookup_tables hash key d; Some (d, r) })"

definition dictFetchValue :: "('k \<Rightarrow> 32 word) \<Rightarrow> 'k \<Rightarrow> ('k, 'v) dict
    \<Rightarrow> (('k, 'v) dict \<times> 'v option) option" where
  "dictFetchValue hash key d =
    do { (d, e) \<leftarrow> dictFind hash key d;
         case e of None \<Rightarrow> Some (d, None)
         | Some e \<Rightarrow> do { v \<leftarrow> dictGetVal e d; Some (d, Some v) } }"

text \<open>\<open>dictReplace\<close>: \<open>True\<close> when the key was added.  After \<open>dictAdd\<close> refuses a key, the code uses
  the entry \<open>dictFind\<close> returns without a test: \<open>None\<close> if there is none.\<close>

definition dictReplace :: "('k \<Rightarrow> 32 word) \<Rightarrow> bool \<Rightarrow> 'v \<Rightarrow> 'k \<Rightarrow> 'v \<Rightarrow> ('k, 'v) dict
    \<Rightarrow> (('k, 'v) dict \<times> bool) option" where
  "dictReplace hash can_resize junk key val d =
    do { (d, ok) \<leftarrow> dictAdd hash can_resize junk key val d;
         if ok then Some (d, True)
         else do { (d, e) \<leftarrow> dictFind hash key d;
                   case e of None \<Rightarrow> None
                   | Some e \<Rightarrow> do { d \<leftarrow> dictSetVal e val d; Some (d, False) } } }"

definition dictReplaceRaw :: "('k \<Rightarrow> 32 word) \<Rightarrow> bool \<Rightarrow> 'v \<Rightarrow> 'k \<Rightarrow> ('k, 'v) dict
    \<Rightarrow> (('k, 'v) dict \<times> entry option) option" where
  "dictReplaceRaw hash can_resize junk key d =
    do { (d, e) \<leftarrow> dictFind hash key d;
         case e of Some e \<Rightarrow> Some (d, Some e) | None \<Rightarrow> dictAddRaw hash can_resize junk key d }"

text \<open>\<open>dictGenericDelete\<close>: \<open>True\<close> is \<open>DICT_OK\<close>; whether the key and value are freed (\<open>nofree\<close>)
  makes no difference here.\<close>

definition dictGenericDelete :: "('k \<Rightarrow> 32 word) \<Rightarrow> 'k \<Rightarrow> ('k, 'v) dict
    \<Rightarrow> (('k, 'v) dict \<times> bool) option" where
  "dictGenericDelete hash key d =
    (if ht_size (ht0 d) = 0 then Some (d, False)
     else do {
       d \<leftarrow> step_if_rehashing hash d;
       r \<leftarrow> lookup_tables hash key d;
       case r of None \<Rightarrow> Some (d, False)
       | Some (t, i, pos) \<Rightarrow>
           (let ht = get_ht d t in
            do { b \<leftarrow> bucket ht i;
                 Some (set_ht d t (ht\<lparr>ht_table := (ht_table ht)[i := take pos b @ drop (pos + 1) b],
                                      ht_used := ht_used ht - 1\<rparr>), True) }) })"

text \<open>\<open>_dictClear\<close> frees the entries of a table and resets it; \<open>dictEmpty\<close> does so for both.\<close>

definition dictClear :: "('k, 'v) dictht \<Rightarrow> ('k, 'v) dictht" where
  "dictClear ht = dictReset"

definition dictEmpty :: "('k, 'v) dict \<Rightarrow> ('k, 'v) dict" where
  "dictEmpty d = \<lparr>ht0 = dictClear (ht0 d), ht1 = dictClear (ht1 d), rehashidx = -1, iterators = 0\<rparr>"

section \<open>What a dictionary stands for\<close>

definition entries :: "('k, 'v) dict \<Rightarrow> ('k \<times> 'v) list" where
  "entries d = concat (ht_table (ht0 d)) @ concat (ht_table (ht1 d))"

definition dict_map :: "('k, 'v) dict \<Rightarrow> 'k \<rightharpoonup> 'v" where
  "dict_map d = map_of (entries d)"

text \<open>A table has at most \<open>2 ^ 31\<close> buckets: with more, an index is no longer an \<open>int\<close>.\<close>

definition ht_ok :: "('k \<Rightarrow> 32 word) \<Rightarrow> ('k, 'v) dictht \<Rightarrow> bool" where
  "ht_ok hash h \<longleftrightarrow> ht_used h = length (concat (ht_table h)) \<and> ht_size h = length (ht_table h) \<and> ht_size h \<le> 2 ^ 31 \<and>
     (if ht_table h = [] then ht_sizemask h = 0
      else (\<exists>n. ht_size h = 2 ^ n) \<and> ht_sizemask h = ht_size h - 1 \<and>
        (\<forall>i < ht_size h. \<forall>e \<in> set (ht_table h ! i). index_in hash (fst e) h = i))"

definition dict_ok :: "('k \<Rightarrow> 32 word) \<Rightarrow> ('k, 'v) dict \<Rightarrow> bool" where
  "dict_ok hash d \<longleftrightarrow> ht_ok hash (ht0 d) \<and> ht_ok hash (ht1 d) \<and> distinct (map fst (entries d)) \<and>
     (if dictIsRehashing d then
        0 \<le> rehashidx d \<and> ht_table (ht0 d) \<noteq> [] \<and> ht_table (ht1 d) \<noteq> [] \<and>
        nat (rehashidx d) \<le> ht_size (ht0 d) \<and> (\<forall>i < nat (rehashidx d). ht_table (ht0 d) ! i = [])
      else ht1 d = dictReset)"

section \<open>Association lists up to order\<close>

lemma distinct_keys_mset: "mset xs = mset ys \<Longrightarrow> distinct (map fst xs) \<longleftrightarrow> distinct (map fst ys)"
  by (metis mset_eq_imp_distinct_iff mset_map)

lemma map_of_mset:
  assumes "mset xs = mset ys" "distinct (map fst xs)"
  shows "map_of xs = map_of ys"
  using assms distinct_keys_mset [OF assms(1)] mset_eq_setD [OF assms(1)] map_of_inject_set by blast

lemma add_key:
  assumes "mset xs = add_mset (k, v) (mset ys)"
  shows "distinct (map fst xs) \<longleftrightarrow> distinct (map fst ys) \<and> k \<notin> fst ` set ys"
    and "distinct (map fst xs) \<Longrightarrow> map_of xs = (map_of ys)(k \<mapsto> v)"
proof -
  have m: "mset xs = mset ((k, v) # ys)" using assms by simp
  show "distinct (map fst xs) \<longleftrightarrow> distinct (map fst ys) \<and> k \<notin> fst ` set ys"
    unfolding distinct_keys_mset [OF m] by auto
  show "distinct (map fst xs) \<Longrightarrow> map_of xs = (map_of ys)(k \<mapsto> v)"
    using map_of_mset [OF m] by simp
qed

lemma mset_concat_update:
  "i < length t \<Longrightarrow> mset (concat (t[i := b])) + mset (t ! i) = mset (concat t) + mset b"
  by (induction t arbitrary: i) (auto simp: nth_Cons' split: nat.split)

lemma length_concat_update:
  "i < length t \<Longrightarrow> length (concat (t[i := b])) + length (t ! i) = length (concat t) + length b"
  using arg_cong [OF mset_concat_update, of i t size b] by (simp flip: size_mset)

section \<open>Tables\<close>

lemma index_in_mod:
  assumes "ht_ok hash h" "ht_table h \<noteq> []"
  shows "index_in hash key h = unat (hash key) mod ht_size h"
proof -
  obtain n where n: "ht_size h = 2 ^ n" "ht_sizemask h = 2 ^ n - 1" using assms unfolding ht_ok_def by metis
  have "x AND (2 ^ n - 1) = x mod 2 ^ n" for x :: nat
    by (metis mask_eq_exp_minus_1 take_bit_eq_mask take_bit_eq_mod)
  then show ?thesis unfolding index_in_def n .
qed

lemma index_in_bound: "ht_ok hash h \<Longrightarrow> ht_table h \<noteq> [] \<Longrightarrow> index_in hash key h < length (ht_table h)"
  unfolding index_in_mod by (simp add: ht_ok_def)

lemma entry_bucket:
  assumes "ht_ok hash h" "e \<in> set (concat (ht_table h))"
  shows "e \<in> set (ht_table h ! index_in hash (fst e) h)"
proof -
  obtain b where "b \<in> set (ht_table h)" "e \<in> set b" using assms(2) by auto
  then obtain i where "i < length (ht_table h)" "e \<in> set (ht_table h ! i)"
    by (metis in_set_conv_nth)
  then show ?thesis using assms(1) by (auto simp: ht_ok_def split: if_splits)
qed

lemma index_in_int:
  assumes "ht_ok hash h" "ht_table h \<noteq> []"
  shows "int32 (int (index_in hash key h)) = int (index_in hash key h)"
proof -
  have "index_in hash key h < 2 ^ 31" using index_in_bound [OF assms, of key] assms(1) by (simp add: ht_ok_def)
  then show ?thesis by (intro int32_small) simp_all
qed

lemma ht_ok_Reset [simp]: "ht_ok hash dictReset"
  by (simp add: ht_ok_def dictReset_def)

lemma ht_ok_update:
  assumes "ht_ok hash h" "i < length (ht_table h)" "u + length (ht_table h ! i) = ht_used h + length b"
    "\<And>e. e \<in> set b \<Longrightarrow> index_in hash (fst e) h = i"
  shows "ht_ok hash (h\<lparr>ht_table := (ht_table h)[i := b], ht_used := u\<rparr>)"
proof -
  have "ht_table h \<noteq> []" using assms(2) by auto
  moreover have "u = length (concat ((ht_table h)[i := b]))"
    using length_concat_update [OF assms(2), of b] assms(1,3) by (simp add: ht_ok_def)
  moreover have "index_in hash (fst e) h = j"
    if "j < length (ht_table h)" "e \<in> set ((ht_table h)[i := b] ! j)" for j e
    using that assms \<open>ht_table h \<noteq> []\<close> by (cases "j = i") (auto simp: ht_ok_def)
  moreover have "\<exists>n. length (ht_table h) = 2 ^ n"
    using assms(1) \<open>ht_table h \<noteq> []\<close> unfolding ht_ok_def by metis
  ultimately show ?thesis using assms(1)
    by (simp add: ht_ok_def index_in_def)
qed

lemma index_in_update [simp]:
  "index_in hash key (h\<lparr>ht_table := t, ht_used := u\<rparr>) = index_in hash key h"
  "index_in hash key (h\<lparr>ht_used := u\<rparr>) = index_in hash key h"
  by (simp_all add: index_in_def)

section \<open>Rehashing\<close>

lemma move_chain_correct:
  assumes "ht_ok hash (ht1 d)" "ht_table (ht1 d) \<noteq> []"
  shows "\<exists>t u. move_chain hash es d =
      Some (d\<lparr>ht0 := (ht0 d)\<lparr>ht_used := ht_used (ht0 d) - length es\<rparr>,
              ht1 := (ht1 d)\<lparr>ht_table := t, ht_used := u\<rparr>\<rparr>) \<and>
    ht_ok hash ((ht1 d)\<lparr>ht_table := t, ht_used := u\<rparr>) \<and> t \<noteq> [] \<and>
    mset (concat t) = mset es + mset (concat (ht_table (ht1 d)))"
  using assms
proof (induction es arbitrary: d)
  case Nil
  show ?case
    by (rule exI [of _ "ht_table (ht1 d)"], rule exI [of _ "ht_used (ht1 d)"]) (use Nil in simp)
next
  case (Cons e es)
  define h where "h = index_in hash (fst e) (ht1 d)"
  have h: "h < length (ht_table (ht1 d))" unfolding h_def by (rule index_in_bound [OF Cons.prems])
  define t1 where "t1 = (ht1 d)\<lparr>ht_table := (ht_table (ht1 d))[h := e # ht_table (ht1 d) ! h], ht_used := ht_used (ht1 d) + 1\<rparr>"
  define d1 where "d1 = d\<lparr>ht0 := (ht0 d)\<lparr>ht_used := ht_used (ht0 d) - 1\<rparr>, ht1 := t1\<rparr>"
  have ok1: "ht_ok hash t1" unfolding t1_def
  proof (rule ht_ok_update [OF Cons.prems(1) h])
    fix e' assume "e' \<in> set (e # ht_table (ht1 d) ! h)"
    then show "index_in hash (fst e') (ht1 d) = h"
      using Cons.prems h by (auto simp: h_def ht_ok_def)
  qed simp
  moreover have ne1: "ht_table t1 \<noteq> []" using h by (auto simp: t1_def)
  ultimately obtain t u where tu: "move_chain hash es d1 =
      Some (d1\<lparr>ht0 := (ht0 d1)\<lparr>ht_used := ht_used (ht0 d1) - length es\<rparr>,
              ht1 := (ht1 d1)\<lparr>ht_table := t, ht_used := u\<rparr>\<rparr>)"
    "ht_ok hash ((ht1 d1)\<lparr>ht_table := t, ht_used := u\<rparr>)" "t \<noteq> []"
    "mset (concat t) = mset es + mset (concat (ht_table (ht1 d1)))"
    using Cons.IH [of d1] by (auto simp: d1_def)
  have "mset (concat (ht_table t1)) = add_mset e (mset (concat (ht_table (ht1 d))))"
    using mset_concat_update [OF h, of "e # ht_table (ht1 d) ! h"] by (simp add: t1_def)
  then show ?case
    using tu h by (intro exI [of _ t] exI [of _ u]) (simp add: bucket_def Let_def d1_def t1_def flip: h_def)
qed

lemma skip_empty_correct:
  assumes "idx \<le> j" "j < length tbl" "tbl ! j \<noteq> []"
  shows "\<exists>idx' r. skip_empty tbl idx visits = Some (idx', r) \<and> idx \<le> idx' \<and> idx' \<le> j \<and>
    (\<forall>i. idx \<le> i \<and> i < idx' \<longrightarrow> tbl ! i = []) \<and> (r = None \<longrightarrow> idx < idx') \<and>
    (r \<noteq> None \<longrightarrow> tbl ! idx' \<noteq> [])"
  using assms
proof (induction tbl idx visits rule: skip_empty.induct)
  case (1 tbl idx visits)
  show ?case
  proof (cases "tbl ! idx = []")
    case True
    then have lt: "idx < j" using "1.prems" by (metis le_neq_implies_less)
    have all: "i = idx \<or> idx + 1 \<le> i" if "idx \<le> i" for i using that by linarith
    show ?thesis
    proof (cases "visits - 1 = 0")
      case stop: True
      then show ?thesis using True lt "1.prems" by (subst skip_empty.simps) (auto simp: less_Suc_eq_le)
    next
      case False
      have "\<not> idx \<ge> length tbl" using lt "1.prems"(2) by simp
      from "1.IH" [OF this True False] lt "1.prems" obtain idx' r where
        "skip_empty tbl (idx + 1) (visits - 1) = Some (idx', r)" "idx + 1 \<le> idx'" "idx' \<le> j"
        "\<forall>i. idx + 1 \<le> i \<and> i < idx' \<longrightarrow> tbl ! i = []" "r \<noteq> None \<longrightarrow> tbl ! idx' \<noteq> []"
        by auto
      then show ?thesis using True False \<open>\<not> idx \<ge> length tbl\<close> all
        by (subst skip_empty.simps) (auto intro!: exI [of _ idx'])
    qed
  next
    case False
    then show ?thesis using "1.prems" by (subst skip_empty.simps) auto
  qed
qed


lemma used_pos_bucket:
  assumes "ht_ok hash h" "ht_used h \<noteq> 0" "\<forall>i < n. ht_table h ! i = []"
  shows "\<exists>j. n \<le> j \<and> j < length (ht_table h) \<and> ht_table h ! j \<noteq> []"
proof -
  have "concat (ht_table h) \<noteq> []" using assms(1,2) by (auto simp: ht_ok_def)
  then obtain b where "b \<in> set (ht_table h)" "b \<noteq> []" by (auto simp: concat_eq_Nil_conv)
  then show ?thesis using assms(3) by (metis in_set_conv_nth linorder_not_le)
qed

text \<open>Moving one bucket, the body of the rehashing loop.\<close>

lemma rehash_bucket:
  assumes ok: "dict_ok hash d" "dictIsRehashing d"
    and idx: "idx < length (ht_table (ht0 d))" "\<forall>i < idx. ht_table (ht0 d) ! i = []"
  shows "\<exists>d'. move_chain hash (ht_table (ht0 d) ! idx) d = Some d' \<and>
    (let d'' = d'\<lparr>ht0 := (ht0 d')\<lparr>ht_table := (ht_table (ht0 d'))[idx := []]\<rparr>, rehashidx := int idx + 1\<rparr> in
     dict_ok hash d'' \<and> dictIsRehashing d'' \<and> mset (entries d'') = mset (entries d) \<and>
     iterators d'' = iterators d \<and> ht_size (ht0 d'') = ht_size (ht0 d))"
proof -
  define b where "b = ht_table (ht0 d) ! idx"
  note ok' = ok(1) [unfolded dict_ok_def] ok(2)
  obtain t u where m: "move_chain hash b d = Some (d\<lparr>ht0 := (ht0 d)\<lparr>ht_used := ht_used (ht0 d) - length b\<rparr>,
              ht1 := (ht1 d)\<lparr>ht_table := t, ht_used := u\<rparr>\<rparr>)" (is "_ = Some ?d1")
    "ht_ok hash ((ht1 d)\<lparr>ht_table := t, ht_used := u\<rparr>)" "t \<noteq> []"
    "mset (concat t) = mset b + mset (concat (ht_table (ht1 d)))"
    using move_chain_correct [of hash d b] ok' by auto
  define t0 where "t0 = (ht_table (ht0 d))[idx := []]"
  define d2 where "d2 = ?d1\<lparr>ht0 := (ht0 ?d1)\<lparr>ht_table := t0\<rparr>, rehashidx := int idx + 1\<rparr>"
  have c: "mset (concat t0) + mset b = mset (concat (ht_table (ht0 d)))"
    using mset_concat_update [OF idx(1), of "[]"] by (simp add: t0_def b_def)
  have "length (concat t0) + length b = length (concat (ht_table (ht0 d)))"
    using arg_cong [OF c, of size] by simp
  then have "ht_used (ht0 d) - length b + length b = ht_used (ht0 d) + length ([] :: ('a \<times> 'b) list)"
    using ok' by (simp add: ht_ok_def)
  from ht_ok_update [OF _ idx(1) this [unfolded b_def]] ok'
  have "ht_ok hash ((ht0 d)\<lparr>ht_table := t0, ht_used := ht_used (ht0 d) - length b\<rparr>)"
    by (simp add: t0_def b_def)
  moreover have "(ht0 d)\<lparr>ht_table := t0, ht_used := v\<rparr> = (ht0 d)\<lparr>ht_used := v, ht_table := t0\<rparr>" for v
    by simp
  ultimately have ok0: "ht_ok hash ((ht0 d)\<lparr>ht_used := ht_used (ht0 d) - length b, ht_table := t0\<rparr>)"
    by (simp only:)
  have ms: "mset (entries d2) = mset (entries d)"
    using m(4) c [symmetric] by (simp add: entries_def d2_def)
  then have "distinct (map fst (entries d2))" using ok' distinct_keys_mset by blast
  moreover have "\<forall>i < idx + 1. t0 ! i = []"
    using idx by (auto simp: t0_def nth_list_update less_Suc_eq)
  moreover have "t0 \<noteq> []" using idx(1) by (auto simp: t0_def)
  moreover have "ht_size (ht0 d) = length (ht_table (ht0 d))" using ok' by (simp add: ht_ok_def)
  ultimately have "dict_ok hash d2" using m(2,3) ok0 idx(1)
    by (simp add: dict_ok_def d2_def dictIsRehashing_def nat_add_distrib)
  then show ?thesis using m(1) ms
    by (intro exI [of _ ?d1]) (simp add: Let_def d2_def t0_def dictIsRehashing_def flip: b_def)
qed

lemma rehash_loop_correct:
  assumes "dict_ok hash d" "dictIsRehashing d"
  shows "\<exists>d' early. rehash_loop hash n visits d = Some (d', early) \<and> dict_ok hash d' \<and> dictIsRehashing d' \<and>
    mset (entries d') = mset (entries d) \<and> iterators d' = iterators d \<and> ht_size (ht0 d') = ht_size (ht0 d) \<and>
    rehashidx d \<le> rehashidx d' \<and> (0 < n \<and> ht_used (ht0 d) \<noteq> 0 \<longrightarrow> rehashidx d < rehashidx d')"
  using assms
proof (induction n arbitrary: visits d)
  case (Suc n)
  show ?case
  proof (cases "ht_used (ht0 d) = 0")
    case False
    note ok = Suc.prems(1) [unfolded dict_ok_def]
    obtain j where j: "nat (rehashidx d) \<le> j" "j < length (ht_table (ht0 d))" "ht_table (ht0 d) ! j \<noteq> []"
      using used_pos_bucket [of hash "ht0 d" "nat (rehashidx d)"] ok False Suc.prems(2) by auto
    obtain idx r where sk: "skip_empty (ht_table (ht0 d)) (nat (rehashidx d)) visits = Some (idx, r)"
      "nat (rehashidx d) \<le> idx" "idx \<le> j" "\<forall>i. nat (rehashidx d) \<le> i \<and> i < idx \<longrightarrow> ht_table (ht0 d) ! i = []"
      "r = None \<longrightarrow> nat (rehashidx d) < idx"
      using skip_empty_correct [OF j] by blast
    have empty: "\<forall>i < idx. ht_table (ht0 d) ! i = []"
      using sk(4) ok Suc.prems(2) by (metis linorder_not_le)
    have sz: "ht_size (ht0 d) > nat (rehashidx d)" using j ok by (simp add: ht_ok_def)
    show ?thesis
    proof (cases r)
      case None
      then have "dict_ok hash (d\<lparr>rehashidx := int idx\<rparr>)"
        using Suc.prems empty sk(3) j(2) by (auto simp: dict_ok_def dictIsRehashing_def ht_ok_def entries_def)
      then show ?thesis using None sk sz False ok Suc.prems(2)
        by (auto simp: dictIsRehashing_def entries_def)
    next
      case (Some v)
      have il: "idx < length (ht_table (ht0 d))" using sk(3) j(2) by simp
      obtain d' where d': "move_chain hash (ht_table (ht0 d) ! idx) d = Some d'"
        "let d'' = d'\<lparr>ht0 := (ht0 d')\<lparr>ht_table := (ht_table (ht0 d'))[idx := []]\<rparr>, rehashidx := int idx + 1\<rparr> in
         dict_ok hash d'' \<and> dictIsRehashing d'' \<and> mset (entries d'') = mset (entries d) \<and>
         iterators d'' = iterators d \<and> ht_size (ht0 d'') = ht_size (ht0 d)"
        using rehash_bucket [OF Suc.prems il empty] by blast
      define d2 where "d2 = d'\<lparr>ht0 := (ht0 d')\<lparr>ht_table := (ht_table (ht0 d'))[idx := []]\<rparr>, rehashidx := int idx + 1\<rparr>"
      have d2: "dict_ok hash d2" "dictIsRehashing d2" "mset (entries d2) = mset (entries d)"
        "iterators d2 = iterators d" "ht_size (ht0 d2) = ht_size (ht0 d)" "rehashidx d2 = int idx + 1"
        using d'(2) by (simp_all add: Let_def flip: d2_def) (simp add: d2_def)
      have "rehash_loop hash (Suc n) visits d = rehash_loop hash n v d2"
        using sk(1) sz False Some d'(1) il by (simp add: bucket_def d2_def)
      moreover have "rehashidx d < rehashidx d2" using sk(2) d2(6) by linarith
      moreover obtain d3 early where "rehash_loop hash n v d2 = Some (d3, early)" "dict_ok hash d3"
        "dictIsRehashing d3" "mset (entries d3) = mset (entries d2)" "iterators d3 = iterators d2"
        "ht_size (ht0 d3) = ht_size (ht0 d2)" "rehashidx d2 \<le> rehashidx d3"
        using Suc.IH [OF d2(1,2), of v] by (metis)
      ultimately show ?thesis using d2 by auto
    qed
  qed (use Suc.prems in auto)
qed auto


lemma dict_map_mset: "dict_ok hash d \<Longrightarrow> mset (entries d') = mset (entries d) \<Longrightarrow> dict_map d' = dict_map d"
  unfolding dict_map_def dict_ok_def by (metis map_of_mset)

lemma rehash_done:
  assumes "dict_ok hash d" "dictIsRehashing d" "ht_used (ht0 d) = 0"
  defines "d' \<equiv> d\<lparr>ht0 := ht1 d, ht1 := dictReset, rehashidx := -1\<rparr>"
  shows "dict_ok hash d' \<and> entries d' = entries d \<and> \<not> dictIsRehashing d' \<and> ht_table (ht0 d') \<noteq> []"
proof -
  have "concat (ht_table (ht0 d)) = []" using assms(1,3) by (simp add: dict_ok_def ht_ok_def)
  then have "entries d' = entries d" by (simp add: entries_def d'_def dictReset_def)
  then show ?thesis using assms(1,2) by (simp add: dict_ok_def d'_def dictIsRehashing_def)
qed

lemma dictRehash_ok:
  assumes "dict_ok hash d" "n * 10 < 2 ^ 31"
  shows "\<exists>d' more. dictRehash hash n d = Some (d', more) \<and> dict_ok hash d' \<and>
    mset (entries d') = mset (entries d) \<and> iterators d' = iterators d \<and> (more \<longleftrightarrow> dictIsRehashing d') \<and>
    (more \<and> 0 < n \<longrightarrow> rehashidx d < rehashidx d' \<and> ht_size (ht0 d') = ht_size (ht0 d)) \<and>
    (ht_table (ht0 d) \<noteq> [] \<longrightarrow> ht_table (ht0 d') \<noteq> [])"
proof (cases "dictIsRehashing d")
  case True
  obtain d1 early where l: "rehash_loop hash n (n * 10) d = Some (d1, early)" "dict_ok hash d1" "dictIsRehashing d1"
    "mset (entries d1) = mset (entries d)" "iterators d1 = iterators d" "ht_size (ht0 d1) = ht_size (ht0 d)"
    "0 < n \<and> ht_used (ht0 d) \<noteq> 0 \<longrightarrow> rehashidx d < rehashidx d1"
    using rehash_loop_correct [OF assms(1) True, of n "n * 10"] by blast
  have idle: "d1 = d \<and> \<not> early" if "ht_used (ht0 d) = 0 \<or> n = 0"
    using that l(1) by (cases n) auto
  show ?thesis
  proof (cases "early \<or> ht_used (ht0 d1) \<noteq> 0")
    case True
    then have "dictRehash hash n d = Some (d1, True)"
      using l(1) \<open>dictIsRehashing d\<close> assms(2) by (auto simp: dictRehash_def)
    moreover have "0 < n \<Longrightarrow> ht_used (ht0 d) \<noteq> 0" using True idle by auto
    moreover have "ht_table (ht0 d1) \<noteq> []" using l(2,3) by (simp add: dict_ok_def)
    ultimately show ?thesis using l by auto
  next
    case False
    then have "dictRehash hash n d = Some (d1\<lparr>ht0 := ht1 d1, ht1 := dictReset, rehashidx := -1\<rparr>, False)"
      using l(1) \<open>dictIsRehashing d\<close> assms(2) by (auto simp: dictRehash_def)
    then show ?thesis using rehash_done [OF l(2,3)] False l(4,5) by auto
  qed
qed (use assms in \<open>simp add: dictRehash_def\<close>)

lemma step_if_rehashing_ok:
  assumes "dict_ok hash d"
  shows "\<exists>d'. step_if_rehashing hash d = Some d' \<and> dict_ok hash d' \<and> mset (entries d') = mset (entries d) \<and>
    (ht_table (ht0 d) \<noteq> [] \<longrightarrow> ht_table (ht0 d') \<noteq> [])"
  using dictRehash_ok [OF assms, of 1] assms
  by (auto simp: step_if_rehashing_def dictRehashStep_def)

section \<open>Lookup\<close>

lemma chain_find_Some: "chain_find key b = Some pos \<Longrightarrow> pos < length b \<and> fst (b ! pos) = key"
  by (induction b arbitrary: pos) (auto split: if_splits)

lemma chain_find_None: "chain_find key b = None \<longleftrightarrow> key \<notin> fst ` set b"
  by (induction b) auto

definition entry_at :: "entry \<Rightarrow> ('k, 'v) dict \<Rightarrow> 'k \<Rightarrow> 'v \<Rightarrow> bool" where
  "entry_at e d key v \<longleftrightarrow> (let (t, i, pos) = e in t \<le> 1 \<and> i < length (ht_table (get_ht d t)) \<and>
     pos < length (ht_table (get_ht d t) ! i) \<and> ht_table (get_ht d t) ! i ! pos = (key, v))"

lemma not_rehashing: "dict_ok hash d \<Longrightarrow> \<not> dictIsRehashing d \<Longrightarrow> ht_table (ht1 d) = []"
  by (simp add: dict_ok_def dictReset_def)

lemma get_ht_ok: "dict_ok hash d \<Longrightarrow> ht_ok hash (get_ht d t)"
  by (simp add: dict_ok_def get_ht_def)

lemma lookup_in_ok:
  assumes "dict_ok hash d" "ht_table (get_ht d t) \<noteq> []" "t \<le> 1"
  shows "\<exists>r. lookup_in hash key t d = Some r \<and>
    (case r of None \<Rightarrow> key \<notin> fst ` set (concat (ht_table (get_ht d t)))
     | Some e \<Rightarrow> \<exists>v. entry_at e d key v)"
proof -
  note h = get_ht_ok [OF assms(1), of t]
  define i where "i = index_in hash key (get_ht d t)"
  have i: "i < length (ht_table (get_ht d t))" unfolding i_def by (rule index_in_bound [OF h assms(2)])
  have "key \<notin> fst ` set (concat (ht_table (get_ht d t)))" if "key \<notin> fst ` set (ht_table (get_ht d t) ! i)"
  proof
    assume "key \<in> fst ` set (concat (ht_table (get_ht d t)))"
    then obtain e where e: "fst e = key" "e \<in> set (concat (ht_table (get_ht d t)))" by (rule imageE) simp
    then have "e \<in> set (ht_table (get_ht d t) ! i)" using entry_bucket [OF h e(2)] by (simp only: i_def e(1))
    then show False using that e(1) by (metis imageI)
  qed
  note absent = this
  define b where "b = ht_table (get_ht d t) ! i"
  have l: "lookup_in hash key t d = Some (map_option (\<lambda>pos. (t, i, pos)) (chain_find key b))"
    using i by (simp add: lookup_in_def bucket_def Let_def b_def flip: i_def)
  show ?thesis
  proof (cases "chain_find key b")
    case None
    then show ?thesis using l absent chain_find_None [of key b] by (simp add: b_def)
  next
    case (Some pos)
    then have "pos < length b" "b ! pos = (key, snd (b ! pos))"
      using chain_find_Some [of key b pos] by (auto simp: prod_eq_iff)
    then have "entry_at (t, i, pos) d key (snd (b ! pos))"
      using i assms(3) by (simp add: entry_at_def b_def)
    then show ?thesis using l Some by auto
  qed
qed

lemma entries_get_ht: "set (entries d) = set (concat (ht_table (get_ht d 0))) \<union> set (concat (ht_table (get_ht d 1)))"
  by (simp add: entries_def get_ht_def)

lemma entry_at_entries: "entry_at e d key v \<Longrightarrow> (key, v) \<in> set (entries d)"
  by (cases e) (auto simp: entry_at_def entries_def get_ht_def split: if_splits intro: nth_mem; metis nth_mem)

lemma lookup_tables_ok:
  assumes "dict_ok hash d" "ht_table (ht0 d) \<noteq> []"
  shows "\<exists>r. lookup_tables hash key d = Some r \<and>
    (case r of None \<Rightarrow> dict_map d key = None | Some e \<Rightarrow> \<exists>v. entry_at e d key v \<and> dict_map d key = Some v)"
proof -
  have map: "dict_map d key = None \<longleftrightarrow> key \<notin> fst ` set (entries d)"
    by (simp add: dict_map_def map_of_eq_None_iff)
  have found: "entry_at e d key v \<Longrightarrow> dict_map d key = Some v" for e v
    using entry_at_entries [of e d key v] assms(1) by (simp add: dict_map_def dict_ok_def)
  have "ht_table (get_ht d 0) \<noteq> []" using assms(2) by (simp add: get_ht_def)
  from lookup_in_ok [OF assms(1) this] obtain r0 where r0: "lookup_in hash key 0 d = Some r0"
    "case r0 of None \<Rightarrow> key \<notin> fst ` set (concat (ht_table (get_ht d 0))) | Some e \<Rightarrow> \<exists>v. entry_at e d key v"
    by auto
  show ?thesis
  proof (cases r0)
    case (Some e)
    then obtain v where "entry_at e d key v" using r0 by auto
    then show ?thesis using r0 found Some by (auto simp: lookup_tables_def)
  next
    case None
    show ?thesis
    proof (cases "dictIsRehashing d")
      case True
      then have "ht_table (get_ht d 1) \<noteq> []" using assms(1) by (simp add: get_ht_def dict_ok_def)
      from lookup_in_ok [OF assms(1) this] obtain r1 where r1: "lookup_in hash key 1 d = Some r1"
        "case r1 of None \<Rightarrow> key \<notin> fst ` set (concat (ht_table (get_ht d 1))) | Some e \<Rightarrow> \<exists>v. entry_at e d key v"
        by auto
      then have "lookup_tables hash key d = Some r1" using r0 None True by (simp add: lookup_tables_def)
      moreover have "r1 = None \<Longrightarrow> dict_map d key = None"
        unfolding map entries_get_ht using r0 r1 None by auto
      ultimately show ?thesis using r1 found by (auto split: option.splits)
    next
      case False
      then have "ht_table (get_ht d 1) = []" using assms(1) by (simp add: get_ht_def dict_ok_def dictReset_def)
      then have "dict_map d key = None" unfolding map entries_get_ht using r0 None by auto
      then show ?thesis using r0 None False by (simp add: lookup_tables_def)
    qed
  qed
qed

section \<open>Changing a bucket\<close>

definition put_bucket :: "nat \<Rightarrow> nat \<Rightarrow> ('k \<times> 'v) list \<Rightarrow> nat \<Rightarrow> ('k, 'v) dict \<Rightarrow> ('k, 'v) dict" where
  "put_bucket t i b u d = set_ht d t ((get_ht d t)\<lparr>ht_table := (ht_table (get_ht d t))[i := b], ht_used := u\<rparr>)"

lemma put_bucket_entries:
  assumes "t \<le> 1" "i < length (ht_table (get_ht d t))"
  shows "mset (entries (put_bucket t i b u d)) + mset (ht_table (get_ht d t) ! i) = mset (entries d) + mset b"
proof -
  have "t = 0 \<or> t = 1" using assms(1) by linarith
  then show ?thesis using mset_concat_update [OF assms(2), of b]
    by (auto simp: put_bucket_def entries_def get_ht_def set_ht_def algebra_simps)
qed

lemma put_bucket_ok:
  assumes "dict_ok hash d" "t \<le> 1" "i < length (ht_table (get_ht d t))"
    "u + length (ht_table (get_ht d t) ! i) = ht_used (get_ht d t) + length b"
    "\<And>e. e \<in> set b \<Longrightarrow> index_in hash (fst e) (get_ht d t) = i"
    "distinct (map fst (entries (put_bucket t i b u d)))"
    "t = 0 \<and> dictIsRehashing d \<Longrightarrow> ht_table (ht0 d) ! i = [] \<Longrightarrow> b = []"
  shows "dict_ok hash (put_bucket t i b u d)"
proof -
  have h: "ht_ok hash ((get_ht d t)\<lparr>ht_table := (ht_table (get_ht d t))[i := b], ht_used := u\<rparr>)"
    using get_ht_ok [OF assms(1)] assms(3-5) by (intro ht_ok_update)
  have "t = 0 \<or> t = 1" using assms(2) by linarith
  then show ?thesis
  proof
    assume t: "t = 0"
    have "(ht_table (ht0 d))[i := b] ! j = []" if "dictIsRehashing d" "j < nat (rehashidx d)" for j
    proof -
      have "ht_table (ht0 d) ! j = []" using assms(1) that by (simp add: dict_ok_def)
      then show ?thesis using assms(3,7) t that(1) by (cases "j = i") (auto simp: get_ht_def)
    qed
    then show ?thesis using assms(1,6) h t
      by (auto simp: dict_ok_def put_bucket_def set_ht_def get_ht_def dictIsRehashing_def)
  next
    assume t: "t = 1"
    then have "ht_table (ht1 d) \<noteq> []" using assms(3) by (auto simp: get_ht_def)
    then have "dictIsRehashing d" using not_rehashing [OF assms(1)] by blast
    then show ?thesis using assms(1,6) h t
      by (auto simp: dict_ok_def put_bucket_def set_ht_def get_ht_def dictIsRehashing_def)
  qed
qed


section \<open>The operations\<close>

lemma next_power_from_ok: "\<exists>n. i = 2 ^ n \<Longrightarrow> (\<exists>n. next_power_from i sz = 2 ^ n) \<and> sz \<le> next_power_from i sz \<and> i \<le> next_power_from i sz"
proof (induction i sz rule: next_power_from.induct)
  case (1 i sz)
  show ?case
  proof (cases "i \<ge> sz")
    case False
    have "i \<noteq> 0" using "1.prems" by auto
    moreover have "\<exists>n. i * 2 = 2 ^ n" using "1.prems" by (metis power_Suc2)
    ultimately show ?thesis using "1.IH" False by (subst (1 2 3) next_power_from.simps) simp
  qed (use "1.prems" in \<open>simp add: next_power_from.simps\<close>)
qed

lemma next_power_from_le:
  "\<exists>j. i = 2 ^ j \<Longrightarrow> i \<le> 2 ^ m \<Longrightarrow> sz \<le> 2 ^ m \<Longrightarrow> next_power_from i sz \<le> 2 ^ m"
proof (induction i sz rule: next_power_from.induct)
  case (1 i sz)
  show ?case
  proof (cases "i \<ge> sz \<or> i = 0")
    case True
    then show ?thesis using "1.prems" by (subst next_power_from.simps) simp
  next
    case False
    obtain j where j: "i = 2 ^ j" using "1.prems"(1) by blast
    then have "(2 :: nat) ^ j < 2 ^ m" using False "1.prems"(3) by linarith
    then have "j < m" using power_strict_increasing_iff [of "2 :: nat" j m] by simp
    then have le: "i * 2 \<le> 2 ^ m" using j power_increasing [of "Suc j" m "2 :: nat"] by simp
    have "\<exists>j. i * 2 = 2 ^ j" using j by (metis power_Suc2)
    from "1.IH" [OF False this le "1.prems"(3)] False show ?thesis
      by (subst next_power_from.simps) simp
  qed
qed

lemma dictNextPower_ok:
  assumes "sz \<le> 2 ^ 31"
  shows "\<exists>n. dictNextPower sz = 2 ^ n" "sz \<le> dictNextPower sz" "4 \<le> dictNextPower sz" "dictNextPower sz \<le> 2 ^ 31"
proof -
  have small: "sz < 2 ^ 63 - 1" using assms by simp
  have "\<exists>n. (4 :: nat) = 2 ^ n" by (rule exI [of _ 2]) simp
  from next_power_from_le [OF this, of 31 sz] assms small
  show "dictNextPower sz \<le> 2 ^ 31" by (simp add: dictNextPower_def DICT_HT_INITIAL_SIZE_def)
  from next_power_from_ok [OF \<open>\<exists>n. (4 :: nat) = 2 ^ n\<close>, of sz] small
  show "\<exists>n. dictNextPower sz = 2 ^ n" "sz \<le> dictNextPower sz" "4 \<le> dictNextPower sz"
    by (simp_all add: dictNextPower_def DICT_HT_INITIAL_SIZE_def)
qed

lemma fresh_ht_ok:
  assumes "sz \<le> 2 ^ 31"
  shows "ht_ok hash \<lparr>ht_table = replicate (dictNextPower sz) [], ht_size = dictNextPower sz,
    ht_sizemask = dictNextPower sz - 1, ht_used = 0\<rparr>"
  using dictNextPower_ok [OF assms] by (simp add: ht_ok_def)

lemma dictExpand_ok:
  assumes "dict_ok hash d" "sz \<le> 2 ^ 31"
  shows "dict_ok hash (fst (dictExpand sz d)) \<and> entries (fst (dictExpand sz d)) = entries d \<and>
    (snd (dictExpand sz d) \<longrightarrow> ht_table (ht0 (fst (dictExpand sz d))) \<noteq> [])"
proof (cases "dictIsRehashing d \<or> ht_used (ht0 d) > sz \<or> dictNextPower sz = ht_size (ht0 d)")
  case True
  then show ?thesis using assms(1) by (auto simp: dictExpand_def Let_def)
next
  case False
  have ne: "replicate (dictNextPower sz) x \<noteq> []" for x :: "('a \<times> 'b) list"
    using dictNextPower_ok(3) [OF assms(2)] by auto
  have idle: "ht1 d = dictReset" using assms(1) False by (simp add: dict_ok_def)
  show ?thesis
  proof (cases "ht_table (ht0 d) = []")
    case True
    then show ?thesis using False fresh_ht_ok [OF assms(2), of hash] ne idle assms(1)
      by (simp add: dictExpand_def Let_def dict_ok_def entries_def dictIsRehashing_def dictReset_def)
  next
    case t: False
    then show ?thesis using False fresh_ht_ok [OF assms(2), of hash] ne idle assms(1)
      by (simp add: dictExpand_def Let_def dict_ok_def entries_def dictIsRehashing_def dictReset_def)
  qed
qed

lemma dictSize_entries: "dict_ok hash d \<Longrightarrow> dictSize d = length (entries d)"
  by (simp add: dictSize_def dict_ok_def ht_ok_def entries_def)

lemma dictExpandIfNeeded_ok:
  assumes "dict_ok hash d" "length (entries d) < 2 ^ 30"
  shows "\<exists>d'. dictExpandIfNeeded can_resize d = (d', True) \<and> dict_ok hash d' \<and> entries d' = entries d \<and>
    ht_table (ht0 d') \<noteq> []"
proof -
  have used: "ht_used (ht0 d) < 2 ^ 30"
    using assms dictSize_entries [OF assms(1)] by (simp add: dictSize_def)
  have size: "ht_size (ht0 d) = length (ht_table (ht0 d))" using assms(1) by (simp add: dict_ok_def ht_ok_def)
  consider "dictIsRehashing d" | "\<not> dictIsRehashing d" "ht_size (ht0 d) = 0"
    | "\<not> dictIsRehashing d" "ht_size (ht0 d) \<noteq> 0" by blast
  then show ?thesis
  proof cases
    case 1
    then show ?thesis using assms(1) by (auto simp: dictExpandIfNeeded_def dict_ok_def)
  next
    case 2
    then have "ht_used (ht0 d) = 0" using assms(1) size by (simp add: dict_ok_def ht_ok_def)
    moreover have "dictNextPower 4 \<noteq> 0" using dictNextPower_ok(3) [of 4] by simp
    ultimately have "snd (dictExpand 4 d)" using 2 by (simp add: dictExpand_def Let_def)
    then show ?thesis using 2 dictExpand_ok [OF assms(1), of 4]
      by (simp add: dictExpandIfNeeded_def DICT_HT_INITIAL_SIZE_def prod_eq_iff)
  next
    case 3
    define grow where "grow \<longleftrightarrow> ht_used (ht0 d) \<ge> ht_size (ht0 d) \<and>
         (can_resize \<or> ht_used (ht0 d) div ht_size (ht0 d) > dict_force_resize_ratio)"
    have e: "dictExpandIfNeeded can_resize d = (if grow then dictExpand (ht_used (ht0 d) * 2) d else (d, True))"
      using 3 by (simp add: dictExpandIfNeeded_def grow_def)
    show ?thesis
    proof (cases grow)
      case True
      have b: "ht_used (ht0 d) * 2 \<le> 2 ^ 31" using used by simp
      have "dictNextPower (ht_used (ht0 d) * 2) \<noteq> ht_size (ht0 d)"
        using dictNextPower_ok(2) [OF b] True 3(2) by (auto simp: grow_def)
      then have "snd (dictExpand (ht_used (ht0 d) * 2) d)" using 3 by (simp add: dictExpand_def Let_def)
      then show ?thesis using dictExpand_ok [OF assms(1) b] e True by (simp add: prod_eq_iff)
    qed (use e assms(1) 3 size in auto)
  qed
qed

lemma dictKeyIndex_ok:
  assumes "dict_ok hash d" "length (entries d) < 2 ^ 30"
  shows "\<exists>d' i. dictKeyIndex hash can_resize key d = Some (d', i) \<and> dict_ok hash d' \<and> entries d' = entries d \<and>
    ht_table (ht0 d') \<noteq> [] \<and> (i = -1 \<longleftrightarrow> dict_map d key \<noteq> None) \<and>
    (i \<noteq> -1 \<longrightarrow> i = int (index_in hash key (get_ht d' (if dictIsRehashing d' then 1 else 0))))"
proof -
  obtain d' where d': "dictExpandIfNeeded can_resize d = (d', True)" "dict_ok hash d'" "entries d' = entries d"
    "ht_table (ht0 d') \<noteq> []"
    using dictExpandIfNeeded_ok [OF assms] by blast
  obtain r where "lookup_tables hash key d' = Some r" "case r of None \<Rightarrow> dict_map d' key = None
      | Some e \<Rightarrow> \<exists>v. entry_at e d' key v \<and> dict_map d' key = Some v"
    using lookup_tables_ok [OF d'(2,4)] by blast
  moreover define h where "h = (if dictIsRehashing d' then ht1 d' else ht0 d')"
  moreover have "int32 (int (index_in hash key h)) = int (index_in hash key h)"
    using d'(2,4) by (intro index_in_int) (auto simp: h_def dict_ok_def)
  moreover have "get_ht d' (if dictIsRehashing d' then 1 else 0) = h" by (simp add: h_def get_ht_def)
  ultimately show ?thesis using d'
    by (auto simp: dictKeyIndex_def dict_map_def simp flip: h_def split: option.splits)
qed

lemma dict_map_None: "dict_map d key = None \<longleftrightarrow> key \<notin> fst ` set (entries d)"
  by (simp add: dict_map_def map_of_eq_None_iff)

text \<open>Beyond \<open>2 ^ 31\<close> buckets the index of a new key can be negative: the entry is then written in
  front of the array.\<close>

lemma key_index_negative:
  assumes "dictExpandIfNeeded can_resize d = (d', True)" "lookup_tables hash key d' = Some None"
    "index_in hash key (get_ht d' (if dictIsRehashing d' then 1 else 0)) = idx" "2 ^ 31 \<le> idx" "idx < 2 ^ 32"
  shows "dictKeyIndex hash can_resize key d = Some (d', int idx - 2 ^ 32)"
proof -
  have "int32 (int idx) = int idx - 2 ^ 32" using assms(4,5) by (intro int32_over) simp_all
  then show ?thesis using assms(1-3) by (auto simp: dictKeyIndex_def get_ht_def)
qed

lemma dictAddRaw_ok:
  assumes "dict_ok hash d" "length (entries d) < 2 ^ 30"
  shows "\<exists>d' e. dictAddRaw hash can_resize junk key d = Some (d', e) \<and> dict_ok hash d' \<and>
    (case e of None \<Rightarrow> dict_map d key \<noteq> None \<and> mset (entries d') = mset (entries d)
     | Some p \<Rightarrow> dict_map d key = None \<and> entry_at p d' key junk \<and>
         mset (entries d') = add_mset (key, junk) (mset (entries d)))"
proof -
  obtain d1 where d1: "step_if_rehashing hash d = Some d1" "dict_ok hash d1" "mset (entries d1) = mset (entries d)"
    using step_if_rehashing_ok [OF assms(1)] by blast
  have m1: "dict_map d1 = dict_map d" using dict_map_mset [OF assms(1) d1(3)] .
  have len: "length (entries d1) < 2 ^ 30" using assms(2) arg_cong [OF d1(3), of size] by simp
  obtain d2 i where d2: "dictKeyIndex hash can_resize key d1 = Some (d2, i)" "dict_ok hash d2" "entries d2 = entries d1"
    "ht_table (ht0 d2) \<noteq> []" "i = -1 \<longleftrightarrow> dict_map d1 key \<noteq> None"
    "i \<noteq> -1 \<longrightarrow> i = int (index_in hash key (get_ht d2 (if dictIsRehashing d2 then 1 else 0)))"
    using dictKeyIndex_ok [OF d1(2) len] by metis
  show ?thesis
  proof (cases "i = -1")
    case True
    then show ?thesis using d1 d2 m1 by (auto simp: dictAddRaw_def)
  next
    case False
    define j where "j = nat i"
    define t :: nat where "t = (if dictIsRehashing d2 then 1 else 0)"
    define b where "b = ht_table (get_ht d2 t) ! j"
    define u where "u = ht_used (get_ht d2 t) + 1"
    define d3 where "d3 = put_bucket t j ((key, junk) # b) u d2"
    have t: "t \<le> 1" "ht_table (get_ht d2 t) \<noteq> []"
      using d2(2,4) by (auto simp: t_def get_ht_def dict_ok_def)
    have j: "j = index_in hash key (get_ht d2 t)" using d2(6) False by (simp add: t_def j_def)
    have jl: "j < length (ht_table (get_ht d2 t))"
      unfolding j by (rule index_in_bound [OF get_ht_ok [OF d2(2)] t(2)])
    have ms: "mset (entries d3) = add_mset (key, junk) (mset (entries d2))"
      using put_bucket_entries [OF t(1) jl, of "(key, junk) # b" u] by (simp add: d3_def b_def)
    have new: "key \<notin> fst ` set (entries d2)"
      using False d2(3,5) dict_map_None [of d1 key] by auto
    have ok: "dict_ok hash d3" unfolding d3_def
    proof (rule put_bucket_ok [OF d2(2) t(1) jl])
      show "u + length (ht_table (get_ht d2 t) ! j) = ht_used (get_ht d2 t) + length ((key, junk) # b)"
        by (simp add: u_def b_def)
      show "index_in hash (fst e) (get_ht d2 t) = j" if "e \<in> set ((key, junk) # b)" for e
        using that get_ht_ok [OF d2(2), of t] jl t(2) by (auto simp: b_def ht_ok_def simp flip: j)
      show "distinct (map fst (entries (put_bucket t j ((key, junk) # b) u d2)))"
        using add_key(1) [OF ms] new d2(2) by (simp add: dict_ok_def flip: d3_def)
    qed (auto simp: t_def split: if_splits)
    have "0 \<le> i" using d2(6) False by simp
    then have "dictAddRaw hash can_resize junk key d = Some (d3, Some (t, j, 0))"
      using d1(1) d2(1) False jl
      by (simp add: dictAddRaw_def bucket_def Let_def d3_def put_bucket_def b_def u_def flip: t_def j_def)
    moreover have "entry_at (t, j, 0) d3 key junk"
      using t(1) jl by (auto simp: entry_at_def d3_def put_bucket_def get_ht_def set_ht_def)
    moreover have "dict_map d key = None" using False d2(5) m1 by auto
    ultimately show ?thesis using ok ms d1(3) d2(3) by auto
  qed
qed

lemma dictSetVal_ok:
  assumes "dict_ok hash d" "entry_at e d key old"
  shows "\<exists>d' M. dictSetVal e val d = Some d' \<and> dict_ok hash d' \<and> entry_at e d' key val \<and>
    mset (entries d) = add_mset (key, old) M \<and> mset (entries d') = add_mset (key, val) M"
proof -
  obtain t i pos where e: "e = (t, i, pos)" by (cases e)
  define b where "b = ht_table (get_ht d t) ! i"
  define b' where "b' = b[pos := (key, val)]"
  define d' where "d' = put_bucket t i b' (ht_used (get_ht d t)) d"
  have at: "t \<le> 1" "i < length (ht_table (get_ht d t))" "pos < length b" "b ! pos = (key, old)"
    using assms(2) by (simp_all add: entry_at_def e b_def)
  obtain N where bs: "mset b = add_mset (key, old) N" "mset b' = add_mset (key, val) N"
  proof
    show "mset b = add_mset (key, old) (mset b - {# (key, old) #})"
      "mset b' = add_mset (key, val) (mset b - {# (key, old) #})"
      using at(3,4) nth_mem [OF at(3)] by (simp_all add: b'_def mset_update)
  qed
  have "mset (entries d') + mset b = mset (entries d) + mset b'"
    using put_bucket_entries [OF at(1,2)] by (simp add: d'_def b_def)
  then have x: "add_mset (key, old) (mset (entries d')) = add_mset (key, val) (mset (entries d))"
    by (simp add: bs)
  have at': "entry_at e d' key val"
    using at by (auto simp: entry_at_def e d'_def put_bucket_def get_ht_def set_ht_def b'_def)
  define M where "M = mset (entries d') - {# (key, val) #}"
  have ms': "mset (entries d') = add_mset (key, val) M"
    using entry_at_entries [OF at'] by (simp add: M_def)
  have ms: "mset (entries d) = add_mset (key, old) M"
    using x unfolding ms' by (metis add_mset_add_mset_same_iff add_mset_commute)
  obtain ys where ys: "M = mset ys" using ex_mset by metis
  have "dict_ok hash d'" unfolding d'_def
  proof (rule put_bucket_ok [OF assms(1) at(1,2)])
    show "ht_used (get_ht d t) + length (ht_table (get_ht d t) ! i) = ht_used (get_ht d t) + length b'"
      by (simp add: b'_def b_def)
    show "index_in hash (fst x) (get_ht d t) = i" if "x \<in> set b'" for x
    proof -
      have b: "y \<in> set b \<Longrightarrow> index_in hash (fst y) (get_ht d t) = i" for y
        using get_ht_ok [OF assms(1), of t] at(2) by (auto simp: b_def ht_ok_def split: if_splits)
      show ?thesis using that set_update_subset_insert [of b pos "(key, val)"] b [of x] b [of "b ! pos"] at(4)
          nth_mem [OF at(3)] by (auto simp: b'_def)
    qed
    show "distinct (map fst (entries (put_bucket t i b' (ht_used (get_ht d t)) d)))"
      using add_key(1) ms ms' assms(1) unfolding ys d'_def by (metis dict_ok_def)
    show "b' = []" if "t = 0 \<and> dictIsRehashing d" "ht_table (ht0 d) ! i = []"
      using that by (simp add: b'_def b_def get_ht_def)
  qed
  moreover have "dictSetVal e val d = Some d'"
    using at by (simp add: dictSetVal_def e bucket_def Let_def d'_def put_bucket_def b'_def flip: b_def)
  ultimately show ?thesis using at' ms ms' by blast
qed

lemma dict_ok_distinct: "dict_ok hash d \<Longrightarrow> distinct (map fst (entries d))"
  by (simp add: dict_ok_def)

lemma dict_map_set:
  assumes "dict_ok hash d" "mset (entries d) = add_mset (key, val) M" "dict_ok hash d0"
    "mset (entries d0) = add_mset (key, old) M \<or> mset (entries d0) = M"
  shows "dict_map d = (dict_map d0)(key \<mapsto> val)"
proof -
  obtain ys where ys: "M = mset ys" using ex_mset by metis
  have m: "dict_map d = (map_of ys)(key \<mapsto> val)"
    using add_key(2) [OF assms(2) [unfolded ys]] assms(1) by (simp add: dict_map_def dict_ok_def)
  from assms(4) show ?thesis
  proof
    assume "mset (entries d0) = add_mset (key, old) M"
    then have "dict_map d0 = (map_of ys)(key \<mapsto> old)"
      using dict_ok_distinct [OF assms(3)] unfolding ys dict_map_def by (rule add_key(2))
    then show ?thesis using m by simp
  next
    assume "mset (entries d0) = M"
    then have "dict_map d0 = map_of ys"
      using dict_ok_distinct [OF assms(3)] unfolding ys dict_map_def by (rule map_of_mset)
    then show ?thesis using m by simp
  qed
qed

lemma dictAdd_ok:
  assumes "dict_ok hash d" "length (entries d) < 2 ^ 30"
  shows "\<exists>d'. dictAdd hash can_resize junk key val d = Some (d', dict_map d key = None) \<and> dict_ok hash d' \<and>
    dict_map d' = (if dict_map d key = None then (dict_map d)(key \<mapsto> val) else dict_map d) \<and>
    length (entries d') = length (entries d) + of_bool (dict_map d key = None)"
proof -
  obtain d1 e where d1: "dictAddRaw hash can_resize junk key d = Some (d1, e)" "dict_ok hash d1"
    "case e of None \<Rightarrow> dict_map d key \<noteq> None \<and> mset (entries d1) = mset (entries d)
     | Some p \<Rightarrow> dict_map d key = None \<and> entry_at p d1 key junk \<and>
         mset (entries d1) = add_mset (key, junk) (mset (entries d))"
    using dictAddRaw_ok [OF assms] by blast
  show ?thesis
  proof (cases e)
    case None
    then show ?thesis using d1 dict_map_mset [OF assms(1), of d1] mset_eq_length [of "entries d1"]
      by (auto simp: dictAdd_def)
  next
    case (Some p)
    then have p: "dict_map d key = None" "entry_at p d1 key junk"
      "mset (entries d1) = add_mset (key, junk) (mset (entries d))" using d1(3) by auto
    obtain d2 M where d2: "dictSetVal p val d1 = Some d2" "dict_ok hash d2"
      "mset (entries d1) = add_mset (key, junk) M" "mset (entries d2) = add_mset (key, val) M"
      using dictSetVal_ok [OF d1(2) p(2)] by blast
    have M: "M = mset (entries d)" using d2(3) p(3) by simp
    have "dict_map d2 = (dict_map d)(key \<mapsto> val)"
      using dict_map_set [OF d2(2) d2(4) assms(1)] M by simp
    moreover have "length (entries d2) = Suc (length (entries d))"
      using arg_cong [OF d2(4), of size] M by simp
    ultimately show ?thesis using d1(1) d2(1,2) Some p(1) by (auto simp: dictAdd_def)
  qed
qed

lemma dictFind_ok:
  assumes "dict_ok hash d"
  shows "\<exists>d' r. dictFind hash key d = Some (d', r) \<and> dict_ok hash d' \<and> mset (entries d') = mset (entries d) \<and>
    (case r of None \<Rightarrow> dict_map d key = None | Some e \<Rightarrow> \<exists>v. entry_at e d' key v \<and> dict_map d key = Some v)"
proof (cases "dictSize d = 0")
  case True
  then have "entries d = []" using dictSize_entries [OF assms] by simp
  then show ?thesis using True assms by (auto simp: dictFind_def dict_map_def)
next
  case False
  obtain d1 where d1: "step_if_rehashing hash d = Some d1" "dict_ok hash d1" "mset (entries d1) = mset (entries d)"
    using step_if_rehashing_ok [OF assms] by blast
  have "entries d \<noteq> []" using False dictSize_entries [OF assms] by auto
  then have "entries d1 \<noteq> []" using d1(3) by auto
  then have "ht_table (ht0 d1) \<noteq> []" using d1(2) not_rehashing [OF d1(2)]
    by (cases "dictIsRehashing d1") (auto simp: dict_ok_def entries_def)
  from lookup_tables_ok [OF d1(2) this, of key] obtain r where r: "lookup_tables hash key d1 = Some r"
    "case r of None \<Rightarrow> dict_map d1 key = None | Some e \<Rightarrow> \<exists>v. entry_at e d1 key v \<and> dict_map d1 key = Some v"
    by blast
  then have "dictFind hash key d = Some (d1, r)" using d1(1) False by (simp add: dictFind_def)
  then show ?thesis using d1 r(2) dict_map_mset [OF assms d1(3)] by (cases r) auto
qed

lemma entry_at_GetVal: "entry_at e d key v \<Longrightarrow> dictGetVal e d = Some v"
  by (cases e) (auto simp: entry_at_def dictGetVal_def bucket_def)

lemma dictFetchValue_ok:
  assumes "dict_ok hash d"
  shows "\<exists>d'. dictFetchValue hash key d = Some (d', dict_map d key) \<and> dict_ok hash d' \<and>
    dict_map d' = dict_map d \<and> length (entries d') = length (entries d)"
proof -
  obtain d' r where r: "dictFind hash key d = Some (d', r)" "dict_ok hash d'" "mset (entries d') = mset (entries d)"
    "case r of None \<Rightarrow> dict_map d key = None | Some e \<Rightarrow> \<exists>v. entry_at e d' key v \<and> dict_map d key = Some v"
    using dictFind_ok [OF assms] by blast
  have "dict_map d' = dict_map d" "length (entries d') = length (entries d)"
    using dict_map_mset [OF assms r(3)] mset_eq_length [OF r(3)] by simp_all
  then show ?thesis using r entry_at_GetVal by (cases r) (force simp: dictFetchValue_def)+
qed


lemma dictReplace_ok:
  assumes "dict_ok hash d" "length (entries d) < 2 ^ 30"
  shows "\<exists>d'. dictReplace hash can_resize junk key val d = Some (d', dict_map d key = None) \<and> dict_ok hash d' \<and>
    dict_map d' = (dict_map d)(key \<mapsto> val) \<and>
    length (entries d') = length (entries d) + of_bool (dict_map d key = None)"
proof -
  obtain d1 where d1: "dictAdd hash can_resize junk key val d = Some (d1, dict_map d key = None)" "dict_ok hash d1"
    "dict_map d1 = (if dict_map d key = None then (dict_map d)(key \<mapsto> val) else dict_map d)"
    "length (entries d1) = length (entries d) + of_bool (dict_map d key = None)"
    using dictAdd_ok [OF assms] by blast
  show ?thesis
  proof (cases "dict_map d key = None")
    case True
    then show ?thesis using d1 by (auto simp: dictReplace_def)
  next
    case False
    have m: "dict_map d1 = dict_map d" unfolding d1(3) using False by (rule if_not_P)
    obtain d2 r where d2: "dictFind hash key d1 = Some (d2, r)" "dict_ok hash d2" "mset (entries d2) = mset (entries d1)"
      "case r of None \<Rightarrow> dict_map d1 key = None | Some e \<Rightarrow> \<exists>v. entry_at e d2 key v \<and> dict_map d1 key = Some v"
      using dictFind_ok [OF d1(2)] by blast
    obtain e v where e: "r = Some e" "entry_at e d2 key v" using d2(4) False m by (auto split: option.splits)
    obtain d3 M where d3: "dictSetVal e val d2 = Some d3" "dict_ok hash d3"
      "mset (entries d2) = add_mset (key, v) M" "mset (entries d3) = add_mset (key, val) M"
      using dictSetVal_ok [OF d2(2) e(2)] by blast
    have "dict_map d3 = (dict_map d2)(key \<mapsto> val)"
      using dict_map_set [OF d3(2,4) d2(2)] d3(3) by blast
    moreover have "dict_map d2 = dict_map d" using dict_map_mset [OF d1(2) d2(3)] m by simp
    moreover have "length (entries d3) = length (entries d)"
      using arg_cong [OF d3(3), of size] arg_cong [OF d3(4), of size] arg_cong [OF d2(3), of size] d1(4) False by simp
    ultimately show ?thesis using d1(1) d2(1) d3(1,2) e(1) False by (simp add: dictReplace_def)
  qed
qed

lemma dictGenericDelete_ok:
  assumes "dict_ok hash d"
  shows "\<exists>d'. dictGenericDelete hash key d = Some (d', dict_map d key \<noteq> None) \<and> dict_ok hash d' \<and>
    dict_map d' = (dict_map d)(key := None) \<and>
    length (entries d') + of_bool (dict_map d key \<noteq> None) = length (entries d)"
proof (cases "ht_size (ht0 d) = 0")
  case True
  then have "ht_table (ht0 d) = []" using assms by (simp add: dict_ok_def ht_ok_def)
  moreover from this have "\<not> dictIsRehashing d" using assms by (auto simp: dict_ok_def)
  then have "ht_table (ht1 d) = []" by (rule not_rehashing [OF assms])
  ultimately have "dict_map d = Map.empty" by (simp add: dict_map_def entries_def)
  then show ?thesis using True assms by (simp add: dictGenericDelete_def)
next
  case False
  obtain d1 where d1: "step_if_rehashing hash d = Some d1" "dict_ok hash d1" "mset (entries d1) = mset (entries d)"
    "ht_table (ht0 d1) \<noteq> []"
  proof -
    have "ht_table (ht0 d) \<noteq> []" using False assms by (auto simp: dict_ok_def ht_ok_def)
    then show thesis using step_if_rehashing_ok [OF assms] that by blast
  qed
  have m1: "dict_map d1 = dict_map d" "length (entries d1) = length (entries d)"
    using dict_map_mset [OF assms d1(3)] mset_eq_length [OF d1(3)] by simp_all
  obtain r where r: "lookup_tables hash key d1 = Some r"
    "case r of None \<Rightarrow> dict_map d1 key = None | Some e \<Rightarrow> \<exists>v. entry_at e d1 key v \<and> dict_map d1 key = Some v"
    using lookup_tables_ok [OF d1(2,4), of key] by blast
  show ?thesis
  proof (cases r)
    case None
    then show ?thesis using False d1 r m1 by (simp add: dictGenericDelete_def fun_upd_idem)
  next
    case (Some e)
    obtain t i pos where e: "e = (t, i, pos)" by (cases e)
    obtain v where v: "entry_at e d1 key v" "dict_map d1 key = Some v" using r(2) Some by auto
    define b where "b = ht_table (get_ht d1 t) ! i"
    define b' where "b' = take pos b @ drop (pos + 1) b"
    define d2 where "d2 = put_bucket t i b' (ht_used (get_ht d1 t) - 1) d1"
    have at: "t \<le> 1" "i < length (ht_table (get_ht d1 t))" "pos < length b" "b ! pos = (key, v)"
      using v(1) by (simp_all add: entry_at_def e b_def)
    have b: "mset b = add_mset (key, v) (mset b')"
      using arg_cong [OF id_take_nth_drop [OF at(3)], of mset] at(4) by (simp add: b'_def)
    have "mset (entries d2) + mset b = mset (entries d1) + mset b'"
      using put_bucket_entries [OF at(1,2)] by (simp add: d2_def b_def)
    then have ms: "mset (entries d1) = add_mset (key, v) (mset (entries d2))" by (simp add: b)
    note dist = dict_ok_distinct [OF d1(2)]
    have "dict_ok hash d2" unfolding d2_def
    proof (rule put_bucket_ok [OF d1(2) at(1,2)])
      have "length b' + 1 = length b" using arg_cong [OF b, of size] by simp
      moreover have "length b \<le> ht_used (get_ht d1 t)"
        using get_ht_ok [OF d1(2), of t] length_concat_update [OF at(2), of "[]"] by (simp add: ht_ok_def b_def)
      ultimately show "ht_used (get_ht d1 t) - 1 + length (ht_table (get_ht d1 t) ! i) =
          ht_used (get_ht d1 t) + length b'"
        by (simp add: b_def)
      show "index_in hash (fst x) (get_ht d1 t) = i" if "x \<in> set b'" for x
      proof -
        have "x \<in> set b" using that by (auto simp: b'_def dest: in_set_takeD in_set_dropD)
        then show ?thesis using get_ht_ok [OF d1(2), of t] at(2) by (auto simp: b_def ht_ok_def split: if_splits)
      qed
      show "distinct (map fst (entries (put_bucket t i b' (ht_used (get_ht d1 t) - 1) d1)))"
        unfolding d2_def [symmetric] using add_key(1) [OF ms] dist by blast
      show "b' = []" if "t = 0 \<and> dictIsRehashing d1" "ht_table (ht0 d1) ! i = []"
        using that at(3) by (simp add: b_def get_ht_def)
    qed
    moreover have "dictGenericDelete hash key d = Some (d2, True)"
      using False d1(1) r(1) Some e at
      by (simp add: dictGenericDelete_def bucket_def Let_def d2_def put_bucket_def b'_def flip: b_def)
    moreover have "dict_map d1 = (dict_map d2)(key \<mapsto> v)" "dict_map d2 key = None"
      using add_key [OF ms] dist dict_map_None [of d2 key] by (simp_all add: dict_map_def)
    then have "dict_map d2 = (dict_map d1)(key := None)" by auto
    moreover have "length (entries d1) = Suc (length (entries d2))" using arg_cong [OF ms, of size] by simp
    ultimately show ?thesis using m1 v(2) by auto
  qed
qed


section \<open>A map under a sequence of operations\<close>

text \<open>Each operation that may resize carries the value \<open>dict_can_resize\<close> has then; \<open>Work n\<close> is a
  call of \<open>dictRehash\<close>, as the server's cron makes, and \<open>Shrink\<close> one of \<open>dictResize\<close>.\<close>

datatype ('k, 'v) kv_op = Add bool 'k 'v | Replace bool 'k 'v | Delete 'k | Fetch 'k | Work nat | Shrink bool

datatype 'v kv_reply = Done bool | Value "'v option" | Quiet

fun spec_op :: "('k, 'v) kv_op \<Rightarrow> ('k \<rightharpoonup> 'v) \<Rightarrow> 'v kv_reply \<times> ('k \<rightharpoonup> 'v)" where
  "spec_op (Add c k v) m = (if m k = None then (Done True, m(k \<mapsto> v)) else (Done False, m))"
| "spec_op (Replace c k v) m = (Done (m k = None), m(k \<mapsto> v))"
| "spec_op (Delete k) m = (Done (m k \<noteq> None), m(k := None))"
| "spec_op (Fetch k) m = (Value (m k), m)"
| "spec_op (Work n) m = (Quiet, m)"
| "spec_op (Shrink c) m = (Quiet, m)"

fun spec_run :: "('k, 'v) kv_op list \<Rightarrow> ('k \<rightharpoonup> 'v) \<Rightarrow> 'v kv_reply list \<times> ('k \<rightharpoonup> 'v)" where
  "spec_run [] m = ([], m)"
| "spec_run (x # xs) m = (let (r, m) = spec_op x m; (rs, m) = spec_run xs m in (r # rs, m))"

fun run_ops :: "('op \<Rightarrow> 's \<Rightarrow> ('r \<times> 's) option) \<Rightarrow> 'op list \<Rightarrow> 's \<Rightarrow> ('r list \<times> 's) option" where
  "run_ops exec [] s = Some ([], s)"
| "run_ops exec (x # xs) s = do { (r, s) \<leftarrow> exec x s; (rs, s) \<leftarrow> run_ops exec xs s; Some (r # rs, s) }"

locale kv_map =
  fixes good :: "('k, 'v) kv_op \<Rightarrow> bool" and inv :: "'s \<Rightarrow> bool" and abs :: "'s \<Rightarrow> 'k \<rightharpoonup> 'v" and count :: "'s \<Rightarrow> nat" and cap :: nat
    and exec :: "('k, 'v) kv_op \<Rightarrow> 's \<Rightarrow> ('v kv_reply \<times> 's) option"
  assumes exec_law: "good x \<Longrightarrow> inv s \<Longrightarrow> count s < cap \<Longrightarrow>
    \<exists>s'. exec x s = Some (fst (spec_op x (abs s)), s') \<and> inv s' \<and> abs s' = snd (spec_op x (abs s)) \<and>
      count s' \<le> count s + 1"
begin

lemma run_ops_spec:
  assumes "\<forall>x \<in> set xs. good x" "inv s" "count s + length xs \<le> cap"
  shows "\<exists>s'. run_ops exec xs s = Some (fst (spec_run xs (abs s)), s') \<and> inv s' \<and>
    abs s' = snd (spec_run xs (abs s))"
  using assms
proof (induction xs arbitrary: s)
  case (Cons x xs)
  obtain s1 where s1: "exec x s = Some (fst (spec_op x (abs s)), s1)" "inv s1"
    "abs s1 = snd (spec_op x (abs s))" "count s1 \<le> count s + 1"
    using exec_law [of x s] Cons.prems by auto
  then obtain s2 where "run_ops exec xs s1 = Some (fst (spec_run xs (abs s1)), s2)" "inv s2"
    "abs s2 = snd (spec_run xs (abs s1))"
    using Cons.IH [OF _ s1(2)] Cons.prems by auto
  then show ?case using s1 by (auto simp: case_prod_beta Let_def)
qed simp

end

fun dict_exec :: "('k \<Rightarrow> 32 word) \<Rightarrow> 'v \<Rightarrow> ('k, 'v) kv_op \<Rightarrow> ('k, 'v) dict \<Rightarrow> ('v kv_reply \<times> ('k, 'v) dict) option" where
  "dict_exec hash junk (Add c k v) d = map_option (\<lambda>(d, b). (Done b, d)) (dictAdd hash c junk k v d)"
| "dict_exec hash junk (Replace c k v) d = map_option (\<lambda>(d, b). (Done b, d)) (dictReplace hash c junk k v d)"
| "dict_exec hash junk (Delete k) d = map_option (\<lambda>(d, b). (Done b, d)) (dictGenericDelete hash k d)"
| "dict_exec hash junk (Fetch k) d = map_option (\<lambda>(d, v). (Value v, d)) (dictFetchValue hash k d)"
| "dict_exec hash junk (Work n) d = map_option (\<lambda>(d, b). (Quiet, d)) (dictRehash hash n d)"
| "dict_exec hash junk (Shrink c) d = Some (Quiet, fst (dictResize c d))"

lemma dictResize_ok:
  assumes "dict_ok hash d"
  shows "dict_ok hash (fst (dictResize c d)) \<and> entries (fst (dictResize c d)) = entries d"
proof -
  define m where "m = int32 (int (ht_used (ht0 d)))"
  define sz where "sz = nat (if m < int DICT_HT_INITIAL_SIZE then int DICT_HT_INITIAL_SIZE else m)"
  have "m \<le> 2 ^ 31" using int32_range(2) [of "int (ht_used (ht0 d))"] by (simp add: m_def)
  then have "sz \<le> 2 ^ 31" by (simp add: sz_def DICT_HT_INITIAL_SIZE_def nat_le_iff)
  from dictExpand_ok [OF assms(1) this] assms(1) show ?thesis
    by (simp add: dictResize_def Let_def flip: m_def sz_def)
qed

fun work_fits :: "('k, 'v) kv_op \<Rightarrow> bool" where
  "work_fits (Work n) \<longleftrightarrow> n * 10 < 2 ^ 31"
| "work_fits _ \<longleftrightarrow> True"

interpretation dkv: kv_map work_fits "dict_ok hash" dict_map "\<lambda>d. length (entries d)" "2 ^ 30" "dict_exec hash junk"
  for hash :: "'k \<Rightarrow> 32 word" and junk :: 'v
proof unfold_locales
  fix d :: "('k, 'v) dict" and x :: "('k, 'v) kv_op"
  assume fits: "work_fits x" and d: "dict_ok hash d" "length (entries d) < 2 ^ 30"
  show "\<exists>d'. dict_exec hash junk x d = Some (fst (spec_op x (dict_map d)), d') \<and> dict_ok hash d' \<and>
    dict_map d' = snd (spec_op x (dict_map d)) \<and> length (entries d') \<le> length (entries d) + 1"
  proof (cases x)
    case (Add c k v)
    then show ?thesis using dictAdd_ok [OF d, of c junk k v] by auto
  next
    case (Replace c k v)
    then show ?thesis using dictReplace_ok [OF d, of c junk k v] by auto
  next
    case (Delete k)
    then show ?thesis using dictGenericDelete_ok [OF d(1), of k] by auto
  next
    case (Fetch k)
    then show ?thesis using dictFetchValue_ok [OF d(1), of k] by auto
  next
    case (Work n)
    obtain d' more where "dictRehash hash n d = Some (d', more)" "dict_ok hash d'" "mset (entries d') = mset (entries d)"
      using dictRehash_ok [OF d(1), of n] fits Work by auto
    then show ?thesis using Work dict_map_mset [OF d(1), of d'] mset_eq_length [of "entries d'" "entries d"] by simp
  next
    case (Shrink c)
    then show ?thesis using dictResize_ok [OF d(1), of c] by (simp add: dict_map_def)
  qed
qed

lemma dict_ok_Create: "dict_ok hash dictCreate" and dict_map_Create: "dict_map dictCreate = Map.empty"
  and entries_Create: "entries dictCreate = []"
  by (simp_all add: dict_ok_def dictCreate_def dict_map_def entries_def dictIsRehashing_def dictReset_def ht_ok_def)

section \<open>Properties\<close>

text \<open>C13: a dictionary is a finite map, whatever the hash function does and however its growth,
  its shrinking and the moves of its entries between the two tables fall between the calls: any
  sequence of at most \<open>2 ^ 30\<close> additions, replacements, deletions, lookups, rehashing steps and
  shrinkings on a new dictionary answers as a map does, touches nothing outside its arrays, fails
  no assertion, overflows no \<open>int\<close> and ends in a well-formed dictionary with the content of that
  map.  The bound is that of the code: an index is an \<open>int\<close>, and with \<open>2 ^ 31\<close> buckets and more it
  is negative for half of the keys (\<open>key_index_negative\<close>).  The number of steps \<open>dictRehash\<close> is
  asked for must be an \<open>int\<close> when multiplied by ten.\<close>

theorem dict_refines_map:
  fixes hash :: "'k \<Rightarrow> 32 word" and junk :: 'v
  assumes "length xs \<le> 2 ^ 30" "\<forall>n. Work n \<in> set xs \<longrightarrow> n * 10 < 2 ^ 31"
  shows "\<exists>d. run_ops (dict_exec hash junk) xs dictCreate = Some (fst (spec_run xs Map.empty), d) \<and>
    dict_ok hash d \<and> dict_map d = snd (spec_run xs Map.empty)"
proof -
  have "\<forall>x \<in> set xs. work_fits x"
  proof
    fix x assume x: "x \<in> set xs"
    show "work_fits x"
    proof (cases x)
      case (Work n)
      then show ?thesis using assms(2) x by simp
    qed simp_all
  qed
  from dkv.run_ops_spec [OF this dict_ok_Create, of hash junk] assms(1)
  show ?thesis by (simp add: dict_map_Create entries_Create)
qed

theorem dict_refines_map_witness:
  "\<exists>d. run_ops (dict_exec (\<lambda>k. 7) (0 :: int)) [Add True (1 :: int) 10, Add True 2 20, Replace True 1 11, Work 1,
      Delete 2, Fetch 1, Fetch 2] dictCreate =
    Some ([Done True, Done True, Done False, Quiet, Done True, Value (Some 11), Value None], d) \<and>
    dict_map d = [1 \<mapsto> 11]"
  using dict_refines_map [of "[Add True (1 :: int) 10, Add True 2 20, Replace True 1 11, Work 1,
      Delete 2, Fetch 1, Fetch 2]" "\<lambda>k. 7" "0 :: int"]
  by (auto simp: Let_def)

section \<open>Rehashing for a while\<close>

lemma dictRehash_progress:
  assumes "dict_ok hash d" "dictIsRehashing d" "0 < n" "n * 10 < 2 ^ 31"
  shows "\<exists>d' more. dictRehash hash n d = Some (d', more) \<and> dict_ok hash d' \<and> dict_map d' = dict_map d \<and>
    (more \<longleftrightarrow> dictIsRehashing d') \<and>
    (more \<longrightarrow> ht_size (ht0 d') = ht_size (ht0 d) \<and>
       rehashidx d < rehashidx d' \<and> rehashidx d' \<le> int (ht_size (ht0 d)))"
proof -
  obtain d' more where d': "dictRehash hash n d = Some (d', more)" "dict_ok hash d'"
    "mset (entries d') = mset (entries d)" "more \<longleftrightarrow> dictIsRehashing d'"
    "more \<and> 0 < n \<longrightarrow> rehashidx d < rehashidx d' \<and> ht_size (ht0 d') = ht_size (ht0 d)"
    using dictRehash_ok [OF assms(1,4)] by blast
  have "more \<Longrightarrow> rehashidx d' \<le> int (ht_size (ht0 d'))"
    using d'(2,4) by (simp add: dict_ok_def nat_le_iff)
  then show ?thesis using d' dict_map_mset [OF assms(1) d'(3)] assms(3) by auto
qed

text \<open>The loop of \<open>dictRehashMilliseconds\<close>; \<open>clock i\<close> is the \<open>i\<close>-th value of
  \<open>timeInMilliseconds\<close>, and \<open>rehashes\<close> an \<open>int\<close>.\<close>

partial_function (option) rehash_ms :: "('k \<Rightarrow> 32 word) \<Rightarrow> (nat \<Rightarrow> int) \<Rightarrow> int \<Rightarrow> nat \<Rightarrow> int
    \<Rightarrow> ('k, 'v) dict \<Rightarrow> (('k, 'v) dict \<times> int) option" where
  "rehash_ms hash clock ms i rehashes d =
    do { r \<leftarrow> dictRehash hash 100 d;
         if \<not> snd r then Some (fst r, rehashes)
         else if clock i - clock 0 > ms then Some (fst r, int32 (rehashes + 100))
         else rehash_ms hash clock ms (i + 1) (int32 (rehashes + 100)) (fst r) }"

definition dictRehashMilliseconds :: "('k \<Rightarrow> 32 word) \<Rightarrow> (nat \<Rightarrow> int) \<Rightarrow> int
    \<Rightarrow> ('k, 'v) dict \<Rightarrow> (('k, 'v) dict \<times> int) option" where
  "dictRehashMilliseconds hash clock ms d = rehash_ms hash clock ms 1 0 d"

lemma dictRehash_idle: "n * 10 < 2 ^ 31 \<Longrightarrow> \<not> dictIsRehashing d \<Longrightarrow> dictRehash hash n d = Some (d, False)"
  by (simp add: dictRehash_def)

text \<open>The dictionary after \<open>k\<close> calls of \<open>dictRehash\<close> with 100 steps each.\<close>

fun rehash_calls :: "('k \<Rightarrow> 32 word) \<Rightarrow> nat \<Rightarrow> ('k, 'v) dict \<Rightarrow> ('k, 'v) dict option" where
  "rehash_calls hash 0 d = Some d"
| "rehash_calls hash (Suc k) d = do { (d, more) \<leftarrow> dictRehash hash 100 d; rehash_calls hash k d }"

text \<open>What a run of the loop has done after its \<open>k\<close>-th call left work: every one of them did, the
  clock had not run out before the last, and it had run out then exactly if the loop gave up.\<close>

definition worked :: "('k \<Rightarrow> 32 word) \<Rightarrow> (nat \<Rightarrow> bool) \<Rightarrow> nat \<Rightarrow> ('k, 'v) dict \<Rightarrow> ('k, 'v) dict \<Rightarrow> bool" where
  "worked hash late k d d' \<longleftrightarrow>
    rehash_calls hash (if dictIsRehashing d' then k else k + 1) d = Some d' \<and>
    (\<forall>j. 0 < j \<and> j \<le> k \<longrightarrow> (\<exists>e. rehash_calls hash j d = Some e \<and> dictIsRehashing e)) \<and>
    (\<forall>j. 0 < j \<and> j < k \<longrightarrow> \<not> late j) \<and> (dictIsRehashing d' \<longrightarrow> 0 < k) \<and>
    (0 < k \<longrightarrow> (dictIsRehashing d' \<longleftrightarrow> late k))"

lemma worked_Suc:
  assumes "dictRehash hash 100 d = Some (d1, True)" "dictIsRehashing d1" "\<not> late 1"
    "worked hash (\<lambda>j. late (Suc j)) k d1 d'"
  shows "worked hash late (Suc k) d d'"
proof -
  have calls: "rehash_calls hash (Suc i) d = rehash_calls hash i d1" for i using assms(1) by simp
  have w: "\<forall>j. 0 < j \<and> j \<le> k \<longrightarrow> (\<exists>e. rehash_calls hash j d1 = Some e \<and> dictIsRehashing e)"
    "\<forall>j. 0 < j \<and> j < k \<longrightarrow> \<not> late (Suc j)" "dictIsRehashing d' \<longrightarrow> 0 < k"
    "0 < k \<longrightarrow> (dictIsRehashing d' \<longleftrightarrow> late (Suc k))"
    using assms(4) unfolding worked_def by blast+
  have "\<exists>e. rehash_calls hash j d = Some e \<and> dictIsRehashing e" if j: "0 < j" "j \<le> Suc k" for j
  proof -
    obtain i where i: "j = Suc i" using j(1) by (cases j) auto
    show ?thesis
    proof (cases "i = 0")
      case True
      then show ?thesis using i calls [of i] assms(2) by simp
    next
      case False
      then show ?thesis using i calls [of i] w(1) j(2) by auto
    qed
  qed
  moreover have "\<not> late j" if j: "0 < j" "j < Suc k" for j
  proof -
    obtain i where i: "j = Suc i" using j(1) by (cases j) auto
    then show ?thesis using w(2) assms(3) j(2) by (cases "i = 0") auto
  qed
  moreover have "dictIsRehashing d' \<longleftrightarrow> late (Suc k)"
    using w(3,4) assms(3) by (cases "k = 0") auto
  moreover have "rehash_calls hash (if dictIsRehashing d' then Suc k else Suc k + 1) d = Some d'"
    using assms(1,4) by (simp add: worked_def split: if_splits)
  ultimately show ?thesis unfolding worked_def by blast
qed

lemma rehash_ms_ok:
  "dict_ok hash d \<Longrightarrow> dictIsRehashing d \<Longrightarrow> 0 \<le> rehashes \<Longrightarrow>
    rehashes + 100 * int (ht_size (ht0 d) - nat (rehashidx d)) < 2 ^ 31 \<Longrightarrow>
    \<exists>d' k. rehash_ms hash clock ms i rehashes d = Some (d', rehashes + 100 * int k) \<and>
      dict_ok hash d' \<and> dict_map d' = dict_map d \<and> k \<le> ht_size (ht0 d) - nat (rehashidx d) \<and>
      worked hash (\<lambda>j. clock (i + j - 1) - clock 0 > ms) k d d'"
proof (induction "ht_size (ht0 d) - nat (rehashidx d)" arbitrary: d i rehashes rule: less_induct)
  case less
  have "(100 :: nat) * 10 < 2 ^ 31" by simp
  from dictRehash_progress [OF less.prems(1,2) _ this]
  obtain d' more where d': "dictRehash hash 100 d = Some (d', more)" "dict_ok hash d'" "dict_map d' = dict_map d"
    "more \<longleftrightarrow> dictIsRehashing d'"
    "more \<longrightarrow> ht_size (ht0 d') = ht_size (ht0 d) \<and> rehashidx d < rehashidx d' \<and> rehashidx d' \<le> int (ht_size (ht0 d))"
    by auto
  define left where "left = ht_size (ht0 d) - nat (rehashidx d)"
  have idx: "0 \<le> rehashidx d" "nat (rehashidx d) \<le> ht_size (ht0 d)"
    using less.prems by (auto simp: dict_ok_def)
  have lt: "ht_size (ht0 d') - nat (rehashidx d') < left" if more
    using that d'(5) idx unfolding left_def by linarith
  have add: "int32 (rehashes + 100) = rehashes + 100" if more
    using lt [OF that] less.prems(3,4) by (intro int32_small) (simp_all flip: left_def)
  consider "\<not> more" | "more" "clock i - clock 0 > ms" | "more" "\<not> clock i - clock 0 > ms" by blast
  then show ?case
  proof cases
    case 1
    then have "rehash_ms hash clock ms i rehashes d = Some (d', rehashes + 100 * int 0)"
      using d'(1) by (subst rehash_ms.simps) simp
    moreover have "worked hash (\<lambda>j. clock (i + j - 1) - clock 0 > ms) 0 d d'"
      using 1 d'(1,4) by (simp add: worked_def)
    ultimately show ?thesis using d'(2,3) by blast
  next
    case 2
    then have "rehash_ms hash clock ms i rehashes d = Some (d', rehashes + 100 * int 1)"
      using d'(1) add by (subst rehash_ms.simps) simp
    moreover have "worked hash (\<lambda>j. clock (i + j - 1) - clock 0 > ms) 1 d d'"
      using 2 d'(1,4) by (auto simp: worked_def le_Suc_eq)
    moreover have "1 \<le> left" using lt 2 by simp
    ultimately show ?thesis using d'(2,3) unfolding left_def by blast
  next
    case 3
    have re: "dictIsRehashing d'" using d'(4) 3 by simp
    have "rehashes + 100 + 100 * int (ht_size (ht0 d') - nat (rehashidx d')) < 2 ^ 31"
      using lt 3 less.prems(4) unfolding left_def [symmetric] by linarith
    then obtain d'' k where ih: "rehash_ms hash clock ms (i + 1) (rehashes + 100) d' = Some (d'', rehashes + 100 + 100 * int k)"
      "dict_ok hash d''" "dict_map d'' = dict_map d'" "k \<le> ht_size (ht0 d') - nat (rehashidx d')"
      "worked hash (\<lambda>j. clock (i + 1 + j - 1) - clock 0 > ms) k d' d''"
      using less.hyps [OF _ d'(2) re, of "rehashes + 100" "i + 1"] lt 3 less.prems(3) unfolding left_def by auto
    have "rehash_ms hash clock ms i rehashes d = Some (d'', rehashes + 100 * int (Suc k))"
      using d'(1) 3 add ih(1) by (subst rehash_ms.simps) simp
    moreover have "worked hash (\<lambda>j. clock (i + j - 1) - clock 0 > ms) (Suc k) d d''"
      using d'(1) re 3 ih(5) by (intro worked_Suc [of hash d d']) simp_all
    moreover have "Suc k \<le> left" using ih(4) lt 3 by simp
    ultimately show ?thesis using ih(2,3) d'(3) unfolding left_def by metis
  qed
qed

definition sample_dict :: "(32 word, nat) dict" where
  "sample_dict = \<lparr>ht0 = \<lparr>ht_table = [[(2, 7)], [(1, 8)]], ht_size = 2, ht_sizemask = 1, ht_used = 2\<rparr>,
     ht1 = \<lparr>ht_table = [[], [], [], []], ht_size = 4, ht_sizemask = 3, ht_used = 0\<rparr>,
     rehashidx = 0, iterators = 0\<rparr>"

lemma sample_dict_ok: "dict_ok (\<lambda>k. k) sample_dict"
proof -
  have [simp]: "\<exists>n. 2 ^ n = (2::nat)" "\<exists>n. 2 ^ n = (4::nat)"
    by (rule exI [of _ 1], simp) (rule exI [of _ 2], simp)
  have [simp]: "(\<forall>i < (2::nat). P i) \<longleftrightarrow> P 0 \<and> P 1"
    "(\<forall>i < (4::nat). P i) \<longleftrightarrow> P 0 \<and> P 1 \<and> P 2 \<and> P 3" for P
    by (auto simp: less_Suc_eq numeral_2_eq_2 numeral_3_eq_3 eval_nat_numeral)
  show ?thesis
    by (simp add: dict_ok_def ht_ok_def sample_dict_def dictIsRehashing_def entries_def index_in_def)
qed

text \<open>C14: \<open>dictRehashMilliseconds\<close> returns, on a well-formed dictionary of fewer than 21 million
  buckets.  Its result is one hundred for each call of \<open>dictRehash\<close> that left work to do, at most one
  such call for each bucket of the first table; the dictionary is the one those calls and, if it was
  not stopped by the clock, one more that finished the rehash make of it, well-formed and with the
  same content.  The loop stops at the first call after which the clock has passed the time it was
  given, and leaves the rehash unfinished exactly then.\<close>

theorem dictRehashMilliseconds_correct:
  assumes "dict_ok hash d" "100 * ht_size (ht0 d) < 2 ^ 31"
  shows "\<exists>d' k. dictRehashMilliseconds hash clock ms d = Some (d', 100 * int k) \<and> dict_ok hash d' \<and>
    dict_map d' = dict_map d \<and> k \<le> ht_size (ht0 d) \<and>
    rehash_calls hash (if dictIsRehashing d' then k else k + 1) d = Some d' \<and>
    (\<forall>j. 0 < j \<and> j \<le> k \<longrightarrow> (\<exists>e. rehash_calls hash j d = Some e \<and> dictIsRehashing e)) \<and>
    (\<forall>j. 0 < j \<and> j < k \<longrightarrow> clock j - clock 0 \<le> ms) \<and> (dictIsRehashing d' \<longrightarrow> 0 < k) \<and>
    (0 < k \<longrightarrow> (dictIsRehashing d' \<longleftrightarrow> clock k - clock 0 > ms))"
proof (cases "dictIsRehashing d")
  case True
  have "0 + 100 * int (ht_size (ht0 d) - nat (rehashidx d)) < 2 ^ 31" using assms(2) by simp
  from rehash_ms_ok [OF assms(1) True _ this, of clock ms 1]
  show ?thesis by (fastforce simp: dictRehashMilliseconds_def worked_def not_less)
next
  case False
  then have idle: "dictRehash hash 100 d = Some (d, False)" by (intro dictRehash_idle) simp_all
  then have "dictRehashMilliseconds hash clock ms d = Some (d, 100 * int 0)"
    by (simp add: dictRehashMilliseconds_def rehash_ms.simps [of hash clock ms "Suc 0"])
  then show ?thesis using assms False idle by (intro exI [of _ d] exI [of _ 0]) auto
qed

theorem dictRehashMilliseconds_correct_witness:
  "\<exists>d' k. dictRehashMilliseconds (\<lambda>k. k) int 5 sample_dict = Some (d', 100 * int k) \<and>
    dict_map d' = dict_map sample_dict \<and> k \<le> 2 \<and>
    (\<forall>j. 0 < j \<and> j < k \<longrightarrow> j \<le> 5) \<and> (dictIsRehashing d' \<longrightarrow> 5 < k)"
proof -
  have "100 * ht_size (ht0 sample_dict) < 2 ^ 31" "ht_size (ht0 sample_dict) = 2" by (simp_all add: sample_dict_def)
  then show ?thesis using dictRehashMilliseconds_correct [OF sample_dict_ok, of int 5] by fastforce
qed

end
