(* ===== verification/NetStream.thy ===== *)
theory NetStream imports Prelude "HOL-Library.Monad_Syntax" begin

text \<open>
  The message serialiser \<open>CNetStream\<close> of \<open>Server/meta_header/netstream.h\<close>, with which every
  session builds and reads its messages.  A stream is a cursor \<open>m_pData\<close> with a length
  \<open>m_dwLen\<close>; the record also holds the memory object the cursor points into, and the cursor is
  an offset into it.  Integers travel in network order: the reader copies the bytes into a
  variable (little endian on the hosts the library is built for) and swaps them with \<open>ntohs\<close> and
  \<open>ntohl\<close>.  A signed and an unsigned overload have the same body, so both are one definition on
  words.  The outer \<open>None\<close> is a failed \<open>assert\<close> or an access outside the memory object; a
  \<open>false\<close> of the code is \<open>None\<close> inside \<open>Some\<close>, the variable then keeps its value.  The
  fixed-point floats (\<open>ReadFloat\<close>, \<open>WriteFloat\<close>) are left out.
\<close>

unbundle bit_operations_syntax

section \<open>Streams\<close>

datatype ENetStreamType = ENetStreamType_None | ENetStreamType_Read | ENetStreamType_Write

record netstream =
  m_eType :: ENetStreamType
  m_mem :: bytes
  m_pData :: nat
  m_dwLen :: nat

definition CNetStream :: "ENetStreamType \<Rightarrow> bytes \<Rightarrow> nat \<Rightarrow> nat \<Rightarrow> netstream" where
  "CNetStream eType mem pData dwLen = \<lparr>m_eType = eType, m_mem = mem, m_pData = pData, m_dwLen = dwLen\<rparr>"

definition CNetStream_read :: "bytes \<Rightarrow> nat \<Rightarrow> nat \<Rightarrow> netstream" where
  "CNetStream_read mem pData dwLen =
    \<lparr>m_eType = ENetStreamType_Read, m_mem = mem, m_pData = pData, m_dwLen = dwLen\<rparr>"

definition GetDataLength :: "netstream \<Rightarrow> nat" where
  "GetDataLength s = m_dwLen s"

text \<open>Host values in memory, and the conversions of the C library on a little-endian host.\<close>

definition load :: "bytes \<Rightarrow> 'a :: len word" where
  "load bs = of_nat (le_nat bs)"

definition store :: "nat \<Rightarrow> 'a :: len word \<Rightarrow> bytes" where
  "store n w = le_bytes n (unat w)"

definition ntohs :: "16 word \<Rightarrow> 16 word" where
  "ntohs w = load (rev (store 2 w))"

definition ntohl :: "32 word \<Rightarrow> 32 word" where
  "ntohl w = load (rev (store 4 w))"

definition ntoh64 :: "64 word \<Rightarrow> 64 word" where
  "ntoh64 w = ucast (ntohl (ucast (drop_bit 32 w))) OR push_bit 32 (ucast (ntohl (ucast w)))"

section \<open>Reading\<close>

definition ReadData :: "nat \<Rightarrow> netstream \<Rightarrow> (nat option \<times> netstream) option" where
  "ReadData dwLen s =
    (if m_eType s \<noteq> ENetStreamType_Read then None
     else if dwLen > m_dwLen s then Some (None, s)
     else Some (Some (m_pData s), s\<lparr>m_pData := m_pData s + dwLen, m_dwLen := m_dwLen s - dwLen\<rparr>))"

definition GetData :: "nat \<Rightarrow> netstream \<Rightarrow> nat option option" where
  "GetData dwLen s =
    (if m_eType s \<noteq> ENetStreamType_Read then None
     else if dwLen \<le> m_dwLen s then Some (Some (m_pData s)) else Some None)"

text \<open>\<open>ReadData(sizeof(x))\<close>, the test of its result and the \<open>memcpy\<close> into \<open>x\<close>, with which the
  typed readers begin.\<close>

definition read_var :: "nat \<Rightarrow> netstream \<Rightarrow> (bytes option \<times> netstream) option" where
  "read_var n s =
    do { (pData, s) \<leftarrow> ReadData n s;
         case pData of None \<Rightarrow> Some (None, s)
         | Some p \<Rightarrow> do { bs \<leftarrow> copy_from (m_mem s) p n; Some (Some bs, s) } }"

definition ReadByte :: "netstream \<Rightarrow> (8 word option \<times> netstream) option" where
  "ReadByte s = do { (r, s) \<leftarrow> read_var 1 s; Some (map_option load r, s) }"

definition ReadShort :: "netstream \<Rightarrow> (16 word option \<times> netstream) option" where
  "ReadShort s = do { (r, s) \<leftarrow> read_var 2 s; Some (map_option (\<lambda>b. ntohs (load b)) r, s) }"

definition ReadInt :: "netstream \<Rightarrow> (32 word option \<times> netstream) option" where
  "ReadInt s = do { (r, s) \<leftarrow> read_var 4 s; Some (map_option (\<lambda>b. ntohl (load b)) r, s) }"

definition ReadInt64 :: "netstream \<Rightarrow> (64 word option \<times> netstream) option" where
  "ReadInt64 s = do { (r, s) \<leftarrow> read_var 8 s; Some (map_option (\<lambda>b. ntoh64 (load b)) r, s) }"

text \<open>The length of the C string at the start of a buffer: \<open>None\<close> when no \<open>NUL\<close> ends it inside.\<close>

definition c_strlen :: "bytes \<Rightarrow> nat option" where
  "c_strlen buf = (if 0 \<in> set buf then Some (length (takeWhile (\<lambda>c. c \<noteq> 0) buf)) else None)"

text \<open>\<open>ReadString(char*, unsigned int)\<close>: \<open>pStr\<close> is the caller's array, returned as it is left.\<close>

definition ReadString_buf :: "bytes \<Rightarrow> nat \<Rightarrow> netstream \<Rightarrow> (bool \<times> bytes \<times> netstream) option" where
  "ReadString_buf pStr dwLen s =
    do { (r, s) \<leftarrow> ReadInt s;
         case r of None \<Rightarrow> Some (False, pStr, s)
         | Some w \<Rightarrow>
             (let dwStrLen = unat w in
              if dwStrLen > dwLen then Some (False, pStr, s)
              else do { (pData, s) \<leftarrow> ReadData dwStrLen s;
                        case pData of None \<Rightarrow> Some (False, pStr, s)
                        | Some p \<Rightarrow>
                            do { bs \<leftarrow> copy_from (m_mem s) p dwStrLen;
                                 pStr \<leftarrow> copy_to pStr 0 bs;
                                 n \<leftarrow> c_strlen pStr;
                                 Some (dwStrLen = n, pStr, s) } }) }"

text \<open>\<open>ReadString(std::string&)\<close>.\<close>

definition ReadString :: "netstream \<Rightarrow> (bytes option \<times> netstream) option" where
  "ReadString s =
    do { (r, s) \<leftarrow> ReadInt s;
         case r of None \<Rightarrow> Some (None, s)
         | Some w \<Rightarrow>
             do { (pData, s) \<leftarrow> ReadData (unat w) s;
                  case pData of None \<Rightarrow> Some (None, s)
                  | Some p \<Rightarrow> do { refStr \<leftarrow> copy_from (m_mem s) p (unat w);
                                   if unat w \<noteq> length refStr then Some (None, s)
                                   else Some (Some refStr, s) } } }"

section \<open>Writing\<close>

text \<open>The first \<open>dwLen\<close> bytes of the caller's data are \<open>take dwLen src\<close>.\<close>

definition WriteData :: "bytes \<Rightarrow> nat \<Rightarrow> netstream \<Rightarrow> (bool \<times> netstream) option" where
  "WriteData src dwLen s =
    (if m_eType s \<noteq> ENetStreamType_Write then None
     else if dwLen > m_dwLen s then Some (False, s)
     else if dwLen > length src then None
     else do { mem \<leftarrow> copy_to (m_mem s) (m_pData s) (take dwLen src);
               Some (True, s\<lparr>m_mem := mem, m_pData := m_pData s + dwLen, m_dwLen := m_dwLen s - dwLen\<rparr>) })"

definition WriteByte :: "8 word \<Rightarrow> netstream \<Rightarrow> (bool \<times> netstream) option" where
  "WriteByte cData s = WriteData (store 1 cData) 1 s"

definition WriteShort :: "16 word \<Rightarrow> netstream \<Rightarrow> (bool \<times> netstream) option" where
  "WriteShort wData s = WriteData (store 2 (ntohs wData)) 2 s"

definition WriteInt :: "32 word \<Rightarrow> netstream \<Rightarrow> (bool \<times> netstream) option" where
  "WriteInt dwData s = WriteData (store 4 (ntohl dwData)) 4 s"

definition WriteInt64 :: "64 word \<Rightarrow> netstream \<Rightarrow> (bool \<times> netstream) option" where
  "WriteInt64 llData s = WriteData (store 8 (ntoh64 llData)) 8 s"

text \<open>\<open>refStr.size()\<close> is converted to \<open>unsigned int\<close> in both calls.\<close>

definition WriteString :: "bytes \<Rightarrow> netstream \<Rightarrow> (bool \<times> netstream) option" where
  "WriteString refStr s =
    do { (ok, s) \<leftarrow> WriteInt (of_nat (length refStr)) s;
         if \<not> ok then Some (False, s)
         else do { (ok, s) \<leftarrow> WriteData refStr (length refStr mod 2 ^ 32) s;
                   Some (ok, s) } }"

section \<open>Host and network order\<close>

lemma length_store [simp]: "length (store n w) = n"
  by (simp add: store_def)

lemma unat_load: "256 ^ length bs \<le> (2 :: nat) ^ LENGTH('a) \<Longrightarrow> unat (load bs :: 'a :: len word) = le_nat bs"
  using le_nat_bound [of bs] by (simp add: load_def unat_of_nat)

lemma unat_loads:
  "length bs = 1 \<Longrightarrow> unat (load bs :: 8 word) = le_nat bs"
  "length bs = 2 \<Longrightarrow> unat (load bs :: 16 word) = le_nat bs"
  "length bs = 4 \<Longrightarrow> unat (load bs :: 32 word) = le_nat bs"
  "length bs = 8 \<Longrightarrow> unat (load bs :: 64 word) = le_nat bs"
  by (rule unat_load, simp)+

lemma store_load:
  "length bs = 1 \<Longrightarrow> store 1 (load bs :: 8 word) = bs"
  "length bs = 2 \<Longrightarrow> store 2 (load bs :: 16 word) = bs"
  "length bs = 4 \<Longrightarrow> store 4 (load bs :: 32 word) = bs"
  "length bs = 8 \<Longrightarrow> store 8 (load bs :: 64 word) = bs"
  using le_bytes_le_nat [of bs] by (simp_all add: store_def unat_loads)

lemma le_nat_store: "le_nat (store n w) = unat w mod 256 ^ n"
  by (simp add: store_def le_nat_le_bytes)

lemma load_store:
  "load (store 1 w) = (w :: 8 word)" "load (store 2 (w2 :: 16 word)) = w2"
  "load (store 4 (w4 :: 32 word)) = w4" "load (store 8 (w8 :: 64 word)) = w8"
  using unsigned_less [of w, where 'a = nat] unsigned_less [of w2, where 'a = nat]
    unsigned_less [of w4, where 'a = nat] unsigned_less [of w8, where 'a = nat]
  by (simp_all add: load_def le_nat_store)

lemma ntohs_load: "length bs = 2 \<Longrightarrow> ntohs (load bs) = of_nat (be_nat bs)"
  and ntohl_load: "length bs = 4 \<Longrightarrow> ntohl (load bs) = of_nat (be_nat bs)"
  by (simp_all add: ntohs_def ntohl_def store_load be_nat_def) (simp_all add: load_def)

lemma le_nat_append: "le_nat (a @ b) = le_nat a + 256 ^ length a * le_nat b"
  by (induction a) (simp_all add: algebra_simps)

lemma load_halves:
  assumes "length lo = 4" "length hi = 4"
  shows "ucast (load (lo @ hi) :: 64 word) = (load lo :: 32 word)"
    "ucast (drop_bit 32 (load (lo @ hi) :: 64 word)) = (load hi :: 32 word)"
proof -
  have b: "le_nat lo < 2 ^ 32" "le_nat hi < 2 ^ 32"
    using le_nat_bound [of lo] le_nat_bound [of hi] assms by simp_all
  have u: "unat (load (lo @ hi) :: 64 word) = le_nat lo + 2 ^ 32 * le_nat hi"
    using assms by (simp add: unat_loads le_nat_append)
  show "ucast (load (lo @ hi) :: 64 word) = (load lo :: 32 word)"
    using b assms by (intro unsigned_word_eqI [where 'a = nat]) (simp add: unsigned_ucast_eq u unat_loads take_bit_eq_mod)
  have d: "unat (drop_bit 32 (load (lo @ hi) :: 64 word)) = le_nat hi"
    unfolding unat_drop_bit_eq u using b by (simp add: drop_bit_eq_div)
  show "ucast (drop_bit 32 (load (lo @ hi) :: 64 word)) = (load hi :: 32 word)"
    using b assms by (intro unsigned_word_eqI [where 'a = nat]) (simp add: unsigned_ucast_eq d unat_loads take_bit_eq_mod)
qed

lemma or_halves:
  "ucast (a :: 32 word) OR push_bit 32 (ucast (b :: 32 word)) = (of_nat (unat a + 2 ^ 32 * unat b) :: 64 word)"
proof -
  have "ucast a AND push_bit 32 (ucast b) = (0 :: 64 word)"
    by (intro bit_word_eqI) (auto simp: bit_simps dest: bit_imp_le_length)
  then have "ucast a OR push_bit 32 (ucast b) = (ucast a + push_bit 32 (ucast b) :: 64 word)"
    by (rule disjunctive_add_eq_or [symmetric])
  also have "\<dots> = of_nat (unat a + 2 ^ 32 * unat b)"
    by (simp add: push_bit_eq_mult)
  finally show ?thesis .
qed

lemma ntoh64_load:
  assumes "length bs = 8"
  shows "ntoh64 (load bs) = of_nat (be_nat bs)"
proof -
  obtain lo hi where bs: "bs = lo @ hi" "length lo = 4" "length hi = 4"
    using assms by (intro that [of "take 4 bs" "drop 4 bs"]) auto
  have "be_nat lo < 2 ^ 32" "be_nat hi < 2 ^ 32"
    using le_nat_bound [of "rev lo"] le_nat_bound [of "rev hi"] bs by (simp_all add: be_nat_def)
  then have u: "unat (of_nat (be_nat lo) :: 32 word) = be_nat lo" "unat (of_nat (be_nat hi) :: 32 word) = be_nat hi"
    by (simp_all add: unat_of_nat)
  have "be_nat bs = be_nat hi + 2 ^ 32 * be_nat lo"
    by (simp add: be_nat_def bs le_nat_append)
  then show ?thesis
    by (simp add: ntoh64_def bs load_halves ntohl_load or_halves u)
qed

lemma unat_be:
  "length bs = 2 \<Longrightarrow> unat (of_nat (be_nat bs) :: 16 word) = be_nat bs"
  "length bs = 4 \<Longrightarrow> unat (of_nat (be_nat bs) :: 32 word) = be_nat bs"
  "length bs = 8 \<Longrightarrow> unat (of_nat (be_nat bs) :: 64 word) = be_nat bs"
  using le_nat_bound [of "rev bs"] by (simp_all add: be_nat_def unat_of_nat)

text \<open>What the writers put into memory: the big-endian bytes.\<close>

lemma store_net:
  "store 2 (ntohs w2) = be_bytes 2 (unat w2)"
  "store 4 (ntohl w4) = be_bytes 4 (unat w4)"
  "store 8 (ntoh64 w8) = be_bytes 8 (unat w8)"
proof -
  have rev_le: "le_bytes n (be_nat (le_bytes n x)) = be_bytes n x" for n x
    using le_bytes_le_nat [of "be_bytes n x"] by (simp add: be_nat_def be_bytes_def)
  have "store 2 (ntohs (load (store 2 w2))) = be_bytes 2 (unat w2)"
    by (subst ntohs_load) (simp_all add: store_def [of _ "of_nat _"] unat_be rev_le, simp add: store_def rev_le)
  then show "store 2 (ntohs w2) = be_bytes 2 (unat w2)" by (simp only: load_store)
  have "store 4 (ntohl (load (store 4 w4))) = be_bytes 4 (unat w4)"
    by (subst ntohl_load) (simp_all add: store_def [of _ "of_nat _"] unat_be rev_le, simp add: store_def rev_le)
  then show "store 4 (ntohl w4) = be_bytes 4 (unat w4)" by (simp only: load_store)
  have "store 8 (ntoh64 (load (store 8 w8))) = be_bytes 8 (unat w8)"
    by (subst ntoh64_load) (simp_all add: store_def [of _ "of_nat _"] unat_be rev_le, simp add: store_def rev_le)
  then show "store 8 (ntoh64 w8) = be_bytes 8 (unat w8)" by (simp only: load_store)
qed

section \<open>Streams as byte sequences\<close>

definition stream_ok :: "netstream \<Rightarrow> bool" where
  "stream_ok s \<longleftrightarrow> m_pData s + m_dwLen s \<le> length (m_mem s)"

definition rest :: "netstream \<Rightarrow> bytes" where
  "rest s = take (m_dwLen s) (drop (m_pData s) (m_mem s))"

definition skip :: "nat \<Rightarrow> netstream \<Rightarrow> netstream" where
  "skip n s = s\<lparr>m_pData := m_pData s + n, m_dwLen := m_dwLen s - n\<rparr>"

definition put_bytes :: "bytes \<Rightarrow> netstream \<Rightarrow> netstream" where
  "put_bytes bs s = (skip (length bs) s)\<lparr>m_mem := blit (m_mem s) (m_pData s) bs\<rparr>"

lemma length_rest: "stream_ok s \<Longrightarrow> length (rest s) = m_dwLen s"
  by (simp add: stream_ok_def rest_def)

lemma skip_simps [simp]:
  "m_eType (skip n s) = m_eType s" "m_mem (skip n s) = m_mem s" "m_pData (skip n s) = m_pData s + n"
  "m_dwLen (skip n s) = m_dwLen s - n" "skip m (skip n s) = skip (n + m) s" "skip 0 s = s"
  by (simp_all add: skip_def add.assoc)

lemma skip_ok: "stream_ok s \<Longrightarrow> n \<le> m_dwLen s \<Longrightarrow> stream_ok (skip n s)"
  by (simp add: stream_ok_def)

lemma rest_skip: "stream_ok s \<Longrightarrow> n \<le> m_dwLen s \<Longrightarrow> rest (skip n s) = drop n (rest s)"
  by (simp add: rest_def drop_take add.commute)

lemma take_rest: "stream_ok s \<Longrightarrow> n \<le> m_dwLen s \<Longrightarrow> take n (drop (m_pData s) (m_mem s)) = take n (rest s)"
  by (simp add: rest_def min_def)

lemma ReadData_eq:
  "m_eType s = ENetStreamType_Read \<Longrightarrow>
    ReadData n s = Some (if n \<le> m_dwLen s then (Some (m_pData s), skip n s) else (None, s))"
  by (simp add: ReadData_def skip_def)

lemma copy_from_eq: "stream_ok s \<Longrightarrow> n \<le> m_dwLen s \<Longrightarrow> copy_from (m_mem s) (m_pData s) n = Some (take n (rest s))"
  by (simp add: copy_from_def stream_ok_def take_rest)

lemma read_var_eq:
  "m_eType s = ENetStreamType_Read \<Longrightarrow> stream_ok s \<Longrightarrow>
    read_var n s = Some (if n \<le> m_dwLen s then (Some (take n (rest s)), skip n s) else (None, s))"
  by (simp add: read_var_def ReadData_eq copy_from_eq)

lemma length_take_rest: "stream_ok s \<Longrightarrow> n \<le> m_dwLen s \<Longrightarrow> length (take n (rest s)) = n"
  by (simp add: length_rest)

text \<open>The typed readers, as functions of the bytes that are left.\<close>

lemmas read_eqs = ReadByte_def ReadShort_def ReadInt_def ReadInt64_def read_var_eq

lemma reader_eqs:
  assumes "m_eType s = ENetStreamType_Read" "stream_ok s"
  shows "ReadByte s = Some (if 1 \<le> m_dwLen s then (Some (of_nat (be_nat (take 1 (rest s)))), skip 1 s) else (None, s))"
    "ReadShort s = Some (if 2 \<le> m_dwLen s then (Some (of_nat (be_nat (take 2 (rest s)))), skip 2 s) else (None, s))"
    "ReadInt s = Some (if 4 \<le> m_dwLen s then (Some (of_nat (be_nat (take 4 (rest s)))), skip 4 s) else (None, s))"
    "ReadInt64 s = Some (if 8 \<le> m_dwLen s then (Some (of_nat (be_nat (take 8 (rest s)))), skip 8 s) else (None, s))"
proof -
  have l1: "load bs = of_nat (be_nat bs)" if "length bs = 1" for bs
    using that by (cases bs) (auto simp: load_def be_nat_def)
  show "ReadByte s = Some (if 1 \<le> m_dwLen s then (Some (of_nat (be_nat (take 1 (rest s)))), skip 1 s) else (None, s))"
    using assms l1 [of "take 1 (rest s)"] length_take_rest [of s 1] by (auto simp: read_eqs)
  show "ReadShort s = Some (if 2 \<le> m_dwLen s then (Some (of_nat (be_nat (take 2 (rest s)))), skip 2 s) else (None, s))"
    "ReadInt s = Some (if 4 \<le> m_dwLen s then (Some (of_nat (be_nat (take 4 (rest s)))), skip 4 s) else (None, s))"
    "ReadInt64 s = Some (if 8 \<le> m_dwLen s then (Some (of_nat (be_nat (take 8 (rest s)))), skip 8 s) else (None, s))"
    using assms ntohs_load [of "take 2 (rest s)"] ntohl_load [of "take 4 (rest s)"]
      ntoh64_load [of "take 8 (rest s)"] length_take_rest [of s]
    by (auto simp: read_eqs)
qed

lemma ReadString_eq:
  assumes "m_eType s = ENetStreamType_Read" "stream_ok s"
  shows "ReadString s = Some
    (if m_dwLen s < 4 then (None, s)
     else (let n = be_nat (take 4 (rest s)) in
           if n > m_dwLen s - 4 then (None, skip 4 s)
           else (Some (take n (drop 4 (rest s))), skip (4 + n) s)))"
proof (cases "m_dwLen s < 4")
  case True
  then show ?thesis using assms by (simp add: ReadString_def reader_eqs)
next
  case False
  have u: "unat (of_nat (be_nat (take 4 (rest s))) :: 32 word) = be_nat (take 4 (rest s))"
    using False assms by (intro unat_be) (simp add: length_rest)
  have ok: "stream_ok (skip 4 s)" using False assms by (intro skip_ok) auto
  have c: "copy_from (m_mem s) (m_pData s + 4) n = Some (take n (drop 4 (rest s)))" if "n \<le> m_dwLen s - 4" for n
    using copy_from_eq [OF ok, of n] that False assms by (simp add: rest_skip)
  show ?thesis
    using False assms by (simp add: ReadString_def reader_eqs u ReadData_eq c length_rest Let_def)
qed

lemma WriteData_eq:
  "m_eType s = ENetStreamType_Write \<Longrightarrow> stream_ok s \<Longrightarrow> n \<le> length src \<Longrightarrow>
    WriteData src n s = Some (if n \<le> m_dwLen s then (True, put_bytes (take n src) s) else (False, s))"
  by (auto simp: WriteData_def copy_to_def put_bytes_def skip_def stream_ok_def min_def)

lemma writer_eqs:
  assumes "m_eType s = ENetStreamType_Write" "stream_ok s"
  shows "WriteByte b s = Some (if 1 \<le> m_dwLen s then (True, put_bytes (be_bytes 1 (unat b)) s) else (False, s))"
    "WriteShort w2 s = Some (if 2 \<le> m_dwLen s then (True, put_bytes (be_bytes 2 (unat w2)) s) else (False, s))"
    "WriteInt w4 s = Some (if 4 \<le> m_dwLen s then (True, put_bytes (be_bytes 4 (unat w4)) s) else (False, s))"
    "WriteInt64 w8 s = Some (if 8 \<le> m_dwLen s then (True, put_bytes (be_bytes 8 (unat w8)) s) else (False, s))"
  using assms by (simp_all add: WriteByte_def WriteShort_def WriteInt_def WriteInt64_def WriteData_eq store_net)
    (simp add: store_def be_bytes_def)

lemma put_bytes_simps:
  assumes "stream_ok s" "length bs \<le> m_dwLen s"
  shows "m_eType (put_bytes bs s) = m_eType s" "m_dwLen (put_bytes bs s) = m_dwLen s - length bs"
    "m_pData (put_bytes bs s) = m_pData s + length bs" "length (m_mem (put_bytes bs s)) = length (m_mem s)"
    "stream_ok (put_bytes bs s)"
  using assms by (simp_all add: put_bytes_def stream_ok_def)

lemma put_bytes_put_bytes:
  assumes "stream_ok s" "length as + length bs \<le> m_dwLen s"
  shows "put_bytes bs (put_bytes as s) = put_bytes (as @ bs) s"
proof -
  have b: "m_pData s + length as + length bs \<le> length (m_mem s)"
    using assms by (simp add: stream_ok_def)
  have "blit (blit (m_mem s) (m_pData s) as) (m_pData s + length as) bs = blit (m_mem s) (m_pData s) (as @ bs)"
    using b by (cases as) (auto simp: blit_def min_def ac_simps)
  then show ?thesis by (simp add: put_bytes_def skip_def add.assoc)
qed

lemma WriteString_eq:
  assumes "m_eType s = ENetStreamType_Write" "stream_ok s" "length str < 2 ^ 32"
  shows "WriteString str s = Some
    (if m_dwLen s < 4 then (False, s)
     else if m_dwLen s < 4 + length str then (False, put_bytes (be_bytes 4 (length str)) s)
     else (True, put_bytes (be_bytes 4 (length str) @ str) s))"
proof -
  have u: "unat (of_nat (length str) :: 32 word) = length str" using assms by (simp add: unat_of_nat)
  show ?thesis
  proof (cases "m_dwLen s < 4")
    case True
    then show ?thesis using assms by (simp add: WriteString_def writer_eqs)
  next
    case False
    let ?s = "put_bytes (be_bytes 4 (length str)) s"
    have s: "m_eType ?s = ENetStreamType_Write" "stream_ok ?s" "m_dwLen ?s = m_dwLen s - 4"
      using put_bytes_simps [OF assms(2), of "be_bytes 4 (length str)"] False assms(1) by simp_all
    have "put_bytes str ?s = put_bytes (be_bytes 4 (length str) @ str) s" if "4 + length str \<le> m_dwLen s"
      using that assms by (intro put_bytes_put_bytes) auto
    then show ?thesis using False assms s
      by (auto simp: WriteString_def writer_eqs u WriteData_eq)
  qed
qed


section \<open>Messages\<close>

text \<open>A field of a message with its value, the kind of field a reader expects, and the bytes a
  field takes on the wire.\<close>

datatype msg_field = FByte "8 word" | FShort "16 word" | FInt "32 word" | FInt64 "64 word" | FString bytes

datatype kind = KByte | KShort | KInt | KInt64 | KString

fun kind_of :: "msg_field \<Rightarrow> kind" where
  "kind_of (FByte _) = KByte"
| "kind_of (FShort _) = KShort"
| "kind_of (FInt _) = KInt"
| "kind_of (FInt64 _) = KInt64"
| "kind_of (FString _) = KString"

fun wire :: "msg_field \<Rightarrow> bytes" where
  "wire (FByte b) = be_bytes 1 (unat b)"
| "wire (FShort w) = be_bytes 2 (unat w)"
| "wire (FInt w) = be_bytes 4 (unat w)"
| "wire (FInt64 w) = be_bytes 8 (unat w)"
| "wire (FString s) = be_bytes 4 (length s) @ s"

fun field_wf :: "msg_field \<Rightarrow> bool" where
  "field_wf (FString s) \<longleftrightarrow> length s < 2 ^ 32"
| "field_wf _ \<longleftrightarrow> True"

fun write_field :: "msg_field \<Rightarrow> netstream \<Rightarrow> (bool \<times> netstream) option" where
  "write_field (FByte b) s = WriteByte b s"
| "write_field (FShort w) s = WriteShort w s"
| "write_field (FInt w) s = WriteInt w s"
| "write_field (FInt64 w) s = WriteInt64 w s"
| "write_field (FString str) s = WriteString str s"

fun read_field :: "kind \<Rightarrow> netstream \<Rightarrow> (msg_field option \<times> netstream) option" where
  "read_field KByte s = do { (r, s) \<leftarrow> ReadByte s; Some (map_option FByte r, s) }"
| "read_field KShort s = do { (r, s) \<leftarrow> ReadShort s; Some (map_option FShort r, s) }"
| "read_field KInt s = do { (r, s) \<leftarrow> ReadInt s; Some (map_option FInt r, s) }"
| "read_field KInt64 s = do { (r, s) \<leftarrow> ReadInt64 s; Some (map_option FInt64 r, s) }"
| "read_field KString s = do { (r, s) \<leftarrow> ReadString s; Some (map_option FString r, s) }"

text \<open>A session writes its fields one after the other and does not look at the results; a handler
  reads the fields it expects.\<close>

fun write_all :: "('f \<Rightarrow> 's \<Rightarrow> (bool \<times> 's) option) \<Rightarrow> 'f list \<Rightarrow> 's \<Rightarrow> (bool list \<times> 's) option" where
  "write_all wrt [] s = Some ([], s)"
| "write_all wrt (f # fs) s =
    do { (ok, s) \<leftarrow> wrt f s; (oks, s) \<leftarrow> write_all wrt fs s; Some (ok # oks, s) }"

fun read_all :: "('k \<Rightarrow> 's \<Rightarrow> ('f option \<times> 's) option) \<Rightarrow> 'k list \<Rightarrow> 's \<Rightarrow> ('f option list \<times> 's) option" where
  "read_all rdr [] s = Some ([], s)"
| "read_all rdr (k # ks) s =
    do { (r, s) \<leftarrow> rdr k s; (rs, s) \<leftarrow> read_all rdr ks s; Some (r # rs, s) }"

text \<open>The interface between a serialiser and the messages built on it: a writer that has room
  appends the bytes of its field, and a reader on these bytes returns the field.\<close>

locale serialiser =
  fixes inv :: "'s \<Rightarrow> bool" and room :: "'s \<Rightarrow> nat" and put :: "bytes \<Rightarrow> 's \<Rightarrow> 's"
    and wrt :: "'f \<Rightarrow> 's \<Rightarrow> (bool \<times> 's) option"
    and rinv :: "'s \<Rightarrow> bool" and left :: "'s \<Rightarrow> bytes" and adv :: "nat \<Rightarrow> 's \<Rightarrow> 's"
    and rdr :: "'k \<Rightarrow> 's \<Rightarrow> ('f option \<times> 's) option"
    and enc :: "'f \<Rightarrow> bytes" and knd :: "'f \<Rightarrow> 'k" and wf :: "'f \<Rightarrow> bool"
  assumes wr_room: "inv s \<Longrightarrow> wf f \<Longrightarrow> length (enc f) \<le> room s \<Longrightarrow> wrt f s = Some (True, put (enc f) s)"
    and put_inv: "inv s \<Longrightarrow> length bs \<le> room s \<Longrightarrow> inv (put bs s) \<and> room (put bs s) = room s - length bs"
    and put_put: "inv s \<Longrightarrow> length as + length bs \<le> room s \<Longrightarrow> put bs (put as s) = put (as @ bs) s"
    and put_Nil: "put [] s = s"
    and rd_enc: "rinv s \<Longrightarrow> wf f \<Longrightarrow> left s = enc f @ bs \<Longrightarrow> rdr (knd f) s = Some (Some f, adv (length (enc f)) s)"
    and adv_inv: "rinv s \<Longrightarrow> n \<le> length (left s) \<Longrightarrow> rinv (adv n s) \<and> left (adv n s) = drop n (left s)"
    and adv_adv: "adv n (adv m s) = adv (m + n) s"
    and adv_0: "adv 0 s = s"
begin

lemma write_message:
  "inv s \<Longrightarrow> list_all wf fs \<Longrightarrow> length (concat (map enc fs)) \<le> room s \<Longrightarrow>
    write_all wrt fs s = Some (replicate (length fs) True, put (concat (map enc fs)) s)"
proof (induction fs arbitrary: s)
  case (Cons f fs)
  have h: "wf f" "length (enc f) \<le> room s" "length (enc f) + length (concat (map enc fs)) \<le> room s"
    using Cons.prems by auto
  have s': "inv (put (enc f) s)" "room (put (enc f) s) = room s - length (enc f)"
    using put_inv [OF Cons.prems(1) h(2)] by auto
  have "write_all wrt fs (put (enc f) s) =
      Some (replicate (length fs) True, put (concat (map enc fs)) (put (enc f) s))"
    using Cons.IH [OF s'(1)] Cons.prems s'(2) by auto
  then show ?case
    using wr_room [OF Cons.prems(1) h(1,2)] put_put [OF Cons.prems(1) h(3)] by simp
qed (simp add: put_Nil)

lemma read_message:
  "rinv s \<Longrightarrow> list_all wf fs \<Longrightarrow> left s = concat (map enc fs) @ bs \<Longrightarrow>
    read_all rdr (map knd fs) s = Some (map Some fs, adv (length (concat (map enc fs))) s)"
proof (induction fs arbitrary: s)
  case (Cons f fs)
  have l: "left s = enc f @ (concat (map enc fs) @ bs)" using Cons.prems by simp
  have s': "rinv (adv (length (enc f)) s)" "left (adv (length (enc f)) s) = concat (map enc fs) @ bs"
    using adv_inv [OF Cons.prems(1), of "length (enc f)"] l by auto
  show ?case
    using rd_enc [OF Cons.prems(1) _ l] Cons.IH [OF s'(1) _ s'(2)] Cons.prems(2) by (simp add: adv_adv)
qed (simp add: adv_0)

end

lemma be_nat_wire: "be_nat (be_bytes 1 (unat (b :: 8 word))) = unat b"
  "be_nat (be_bytes 2 (unat (w2 :: 16 word))) = unat w2"
  "be_nat (be_bytes 4 (unat (w4 :: 32 word))) = unat w4"
  "be_nat (be_bytes 8 (unat (w8 :: 64 word))) = unat w8"
  using unsigned_less [of b, where 'a = nat] unsigned_less [of w2, where 'a = nat]
    unsigned_less [of w4, where 'a = nat] unsigned_less [of w8, where 'a = nat]
  by (simp_all add: be_nat_be_bytes)

lemma be_nat_len: "n < 4294967296 \<Longrightarrow> be_nat (be_bytes 4 n) = n"
  by (simp add: be_nat_be_bytes)

interpretation net: serialiser "\<lambda>s. m_eType s = ENetStreamType_Write \<and> stream_ok s" m_dwLen put_bytes
  write_field "\<lambda>s. m_eType s = ENetStreamType_Read \<and> stream_ok s" rest skip read_field wire kind_of field_wf
proof unfold_locales
  fix s :: netstream and f :: msg_field
  assume "m_eType s = ENetStreamType_Write \<and> stream_ok s" "field_wf f" "length (wire f) \<le> m_dwLen s"
  then show "write_field f s = Some (True, put_bytes (wire f) s)"
    by (cases f) (auto simp: writer_eqs WriteString_eq)
next
  fix s :: netstream and bs :: bytes
  assume "m_eType s = ENetStreamType_Write \<and> stream_ok s" "length bs \<le> m_dwLen s"
  then show "(m_eType (put_bytes bs s) = ENetStreamType_Write \<and> stream_ok (put_bytes bs s)) \<and>
      m_dwLen (put_bytes bs s) = m_dwLen s - length bs"
    using put_bytes_simps [of s bs] by simp
next
  fix s :: netstream and as bs :: bytes
  assume "m_eType s = ENetStreamType_Write \<and> stream_ok s" "length as + length bs \<le> m_dwLen s"
  then show "put_bytes bs (put_bytes as s) = put_bytes (as @ bs) s"
    using put_bytes_put_bytes [of s as bs] by simp
next
  fix s :: netstream and f :: msg_field and bs :: bytes
  assume h: "m_eType s = ENetStreamType_Read \<and> stream_ok s" "field_wf f" "rest s = wire f @ bs"
  have l: "length (wire f) \<le> m_dwLen s" using h length_rest [of s] by simp
  show "read_field (kind_of f) s = Some (Some f, skip (length (wire f)) s)"
    using h l by (cases f) (auto simp: reader_eqs ReadString_eq be_nat_wire be_nat_wire(1) [simplified] be_nat_len Let_def)
next
  fix s :: netstream and n
  assume "m_eType s = ENetStreamType_Read \<and> stream_ok s" "n \<le> length (rest s)"
  then show "(m_eType (skip n s) = ENetStreamType_Read \<and> stream_ok (skip n s)) \<and> rest (skip n s) = drop n (rest s)"
    using skip_ok [of s n] rest_skip [of s n] length_rest [of s] by simp
qed (simp_all add: put_bytes_def skip_def)


section \<open>Properties\<close>

text \<open>C18: what a session writes with a \<open>CNetStream\<close> is what the other side reads: a message whose
  fields fit into the stream is written without a refusal, changes only the bytes of the message,
  and a reader on these bytes gets every field back, of every kind and size, and consumes the
  message exactly.\<close>

theorem netstream_roundtrip:
  fixes fs :: "msg_field list" and s :: netstream
  defines "msg \<equiv> concat (map wire fs)"
  assumes "m_eType s = ENetStreamType_Write" "stream_ok s" "list_all field_wf fs" "length msg \<le> m_dwLen s"
  shows "\<exists>s'. write_all write_field fs s = Some (replicate (length fs) True, s') \<and>
    GetDataLength s' = GetDataLength s - length msg \<and>
    m_mem s' = blit (m_mem s) (m_pData s) msg \<and>
    (\<exists>r. read_all read_field (map kind_of fs) (CNetStream_read (m_mem s') (m_pData s) (length msg)) =
      Some (map Some fs, r) \<and> GetDataLength r = 0)"
proof -
  have w: "write_all write_field fs s = Some (replicate (length fs) True, put_bytes msg s)"
    using net.write_message [of s fs] assms by simp
  let ?r = "CNetStream_read (m_mem (put_bytes msg s)) (m_pData s) (length msg)"
  have r: "m_eType ?r = ENetStreamType_Read \<and> stream_ok ?r" "rest ?r = msg"
    using assms(3,5) by (auto simp: CNetStream_read_def stream_ok_def rest_def put_bytes_def slice_blit)
  have "read_all read_field (map kind_of fs) ?r = Some (map Some fs, skip (length msg) ?r)"
    using net.read_message [OF r(1) assms(4), of "[]"] r(2) by (simp add: msg_def)
  then show ?thesis
    using w by (auto simp: GetDataLength_def put_bytes_def CNetStream_read_def)
qed

theorem netstream_roundtrip_witness:
  "\<exists>s'. write_all write_field [FInt 45001, FString [104, 105], FByte 7]
      (CNetStream ENetStreamType_Write (replicate 16 0) 2 14) = Some ([True, True, True], s') \<and>
    GetDataLength s' = 3"
  using netstream_roundtrip [of "CNetStream ENetStreamType_Write (replicate 16 0) 2 14"
      "[FInt 45001, FString [104, 105], FByte 7]"]
  by (auto simp: CNetStream_def stream_ok_def GetDataLength_def)

lemma skip_ex: "w \<le> m_dwLen s \<Longrightarrow> \<exists>n. skip w s = skip n s \<and> n \<le> m_dwLen s" "\<exists>n. s = skip n s \<and> n \<le> m_dwLen s"
  by blast (rule exI [of _ 0], simp)

lemma read_field_safe:
  assumes "m_eType s = ENetStreamType_Read" "stream_ok s"
  shows "\<exists>r n. read_field k s = Some (r, skip n s) \<and> n \<le> m_dwLen s"
proof (cases k)
  case KString
  let ?n = "be_nat (take 4 (rest s))"
  consider "m_dwLen s < 4" | "4 \<le> m_dwLen s" "?n > m_dwLen s - 4" | "4 + ?n \<le> m_dwLen s" by linarith
  then show ?thesis
  proof cases
    case 1
    then show ?thesis using assms KString by (auto simp: ReadString_eq intro!: exI [of _ 0])
  next
    case 2
    then show ?thesis using assms KString by (auto simp: ReadString_eq Let_def intro!: exI [of _ 4])
  next
    case 3
    then show ?thesis using assms KString by (auto simp: ReadString_eq Let_def intro!: exI [of _ "4 + ?n"])
  qed
qed (use assms in \<open>simp_all add: reader_eqs skip_ex del: One_nat_def\<close>)

lemma read_all_safe:
  "m_eType s = ENetStreamType_Read \<Longrightarrow> stream_ok s \<Longrightarrow>
    \<exists>rs n. read_all read_field ks s = Some (rs, skip n s) \<and> n \<le> m_dwLen s \<and> length rs = length ks"
proof (induction ks arbitrary: s)
  case (Cons k ks)
  obtain r n where 1: "read_field k s = Some (r, skip n s)" "n \<le> m_dwLen s"
    using read_field_safe [OF Cons.prems] by blast
  obtain rs m where 2: "read_all read_field ks (skip n s) = Some (rs, skip m (skip n s))"
    "m \<le> m_dwLen s - n" "length rs = length ks"
    using Cons.IH [of "skip n s"] Cons.prems 1(2) skip_ok by auto
  have "read_all read_field (k # ks) s = Some (r # rs, skip (n + m) s)" using 1 2 by simp
  then show ?case using 1 2 by (metis le_diff_conv2 add.commute length_Cons)
qed (auto intro!: exI [of _ 0])

lemma write_field_safe:
  assumes "m_eType s = ENetStreamType_Write" "stream_ok s" "field_wf f"
  shows "\<exists>ok bs. write_field f s = Some (ok, put_bytes bs s) \<and> length bs \<le> m_dwLen s"
proof -
  have nil: "put_bytes [] s = s" by (simp add: put_bytes_def)
  have *: "\<exists>ok bs. Some (if w \<le> m_dwLen s then (True, put_bytes (be_bytes w x) s) else (False, s)) =
      Some (ok, put_bytes bs s) \<and> length bs \<le> m_dwLen s" for w x
    using nil by (cases "w \<le> m_dwLen s") (auto intro: exI [of _ "[]"] exI [of _ "be_bytes w x"])
  show ?thesis
  proof (cases f)
    case (FString str)
    have b: "be_bytes 4 (length str) @ str = wire f" by (simp add: FString)
    consider "m_dwLen s < 4" | "4 \<le> m_dwLen s" "m_dwLen s < 4 + length str" | "4 + length str \<le> m_dwLen s"
      by linarith
    then show ?thesis
    proof cases
      case 1
      then show ?thesis using assms FString nil by (auto simp: WriteString_eq intro!: exI [of _ "[]"])
    next
      case 2
      then show ?thesis using assms FString
        by (auto simp: WriteString_eq intro!: exI [of _ "be_bytes 4 (length str)"])
    next
      case 3
      then show ?thesis using assms FString
        by (auto simp: WriteString_eq intro!: exI [of _ "be_bytes 4 (length str) @ str"])
    qed
  qed (use assms * in \<open>simp_all add: writer_eqs del: One_nat_def\<close>)
qed

lemma write_all_safe:
  "m_eType s = ENetStreamType_Write \<Longrightarrow> stream_ok s \<Longrightarrow> list_all field_wf fs \<Longrightarrow>
    \<exists>oks bs. write_all write_field fs s = Some (oks, put_bytes bs s) \<and> length bs \<le> m_dwLen s"
proof (induction fs arbitrary: s)
  case (Cons f fs)
  obtain ok as where 1: "write_field f s = Some (ok, put_bytes as s)" "length as \<le> m_dwLen s"
    using write_field_safe [of s f] Cons.prems by auto
  note s' = put_bytes_simps [OF Cons.prems(2) 1(2)]
  obtain oks bs where 2: "write_all write_field fs (put_bytes as s) = Some (oks, put_bytes bs (put_bytes as s))"
    "length bs \<le> m_dwLen s - length as"
    using Cons.IH [of "put_bytes as s"] Cons.prems s' by auto
  have 3: "length as + length bs \<le> m_dwLen s" using 1 2 by linarith
  have "write_all write_field (f # fs) s = Some (ok # oks, put_bytes (as @ bs) s)"
    using 1 2 put_bytes_put_bytes [OF Cons.prems(2) 3] by simp
  then show ?case using 3 by (metis length_append)
qed (auto simp: put_bytes_def intro!: exI [of _ "[]"])

text \<open>C19: a stream stays inside its buffer whatever the other side sent: any sequence of readers on
  any bytes returns without touching memory outside the \<open>m_dwLen\<close> bytes the stream was given and
  consumes at most these, and any sequence of writers, with or without room, changes only bytes of
  that window.\<close>

theorem netstream_bounds:
  assumes "stream_ok s"
  shows "(m_eType s = ENetStreamType_Read \<longrightarrow>
      (\<exists>rs s'. read_all read_field ks s = Some (rs, s') \<and> length rs = length ks \<and> m_mem s' = m_mem s \<and>
        m_pData s \<le> m_pData s' \<and> m_pData s' + GetDataLength s' = m_pData s + GetDataLength s)) \<and>
    (m_eType s = ENetStreamType_Write \<and> list_all field_wf fs \<longrightarrow>
      (\<exists>oks s'. write_all write_field fs s = Some (oks, s') \<and>
        take (m_pData s) (m_mem s') = take (m_pData s) (m_mem s) \<and>
        drop (m_pData s + m_dwLen s) (m_mem s') = drop (m_pData s + m_dwLen s) (m_mem s) \<and>
        m_pData s' + GetDataLength s' = m_pData s + GetDataLength s))"
proof (intro conjI impI)
  assume "m_eType s = ENetStreamType_Read"
  then obtain rs n where "read_all read_field ks s = Some (rs, skip n s)" "n \<le> m_dwLen s" "length rs = length ks"
    using read_all_safe [of s ks] assms by blast
  then show "\<exists>rs s'. read_all read_field ks s = Some (rs, s') \<and> length rs = length ks \<and> m_mem s' = m_mem s \<and>
      m_pData s \<le> m_pData s' \<and> m_pData s' + GetDataLength s' = m_pData s + GetDataLength s"
    by (intro exI [of _ rs] exI [of _ "skip n s"]) (simp add: GetDataLength_def)
next
  assume "m_eType s = ENetStreamType_Write \<and> list_all field_wf fs"
  then obtain oks bs where r: "write_all write_field fs s = Some (oks, put_bytes bs s)" "length bs \<le> m_dwLen s"
    using write_all_safe [of s fs] assms by blast
  have "m_pData s + length bs \<le> length (m_mem s)" using r(2) assms by (simp add: stream_ok_def)
  then have "take (m_pData s) (m_mem (put_bytes bs s)) = take (m_pData s) (m_mem s)"
    "drop (m_pData s + m_dwLen s) (m_mem (put_bytes bs s)) = drop (m_pData s + m_dwLen s) (m_mem s)"
    using r(2) by (simp_all add: put_bytes_def blit_def add.commute)
  then show "\<exists>oks s'. write_all write_field fs s = Some (oks, s') \<and>
      take (m_pData s) (m_mem s') = take (m_pData s) (m_mem s) \<and>
      drop (m_pData s + m_dwLen s) (m_mem s') = drop (m_pData s + m_dwLen s) (m_mem s) \<and>
      m_pData s' + GetDataLength s' = m_pData s + GetDataLength s"
    using r put_bytes_simps [OF assms r(2)]
    by (intro exI [of _ oks] exI [of _ "put_bytes bs s"]) (simp add: GetDataLength_def)
qed

theorem netstream_bounds_witness:
  "\<exists>rs s'. read_all read_field [KString, KInt] (CNetStream_read [0, 0, 0, 200, 1, 2] 0 6) = Some (rs, s') \<and> length rs = 2"
  using netstream_bounds [of "CNetStream_read [0, 0, 0, 200, 1, 2] 0 6" "[KString, KInt]" "[]"]
  by (auto simp: CNetStream_read_def stream_ok_def)

text \<open>C20: the overload of \<open>ReadString\<close> that fills a \<open>char\<close> array does not terminate the string: it
  copies it to the front of the array and measures the array with the length of a C string.  So it
  returns true only when a \<open>NUL\<close> happens to stand behind the copy already, and when the string
  fills the array, or no \<open>NUL\<close> is left in it, the measurement reads past the end of the array.\<close>

theorem ReadString_buf_unterminated:
  assumes "m_eType s = ENetStreamType_Read" "stream_ok s" "rest s = be_bytes 4 (length str) @ str @ tail"
    "length str < 2 ^ 32" "length str \<le> dwLen" "dwLen \<le> length pStr" "0 \<notin> set str"
  shows "ReadString_buf pStr dwLen s =
    (if 0 \<in> set (drop (length str) pStr)
     then Some (pStr ! length str = 0, str @ drop (length str) pStr, skip (4 + length str) s) else None)"
proof -
  have l: "4 + length str \<le> m_dwLen s" using assms(3) length_rest [OF assms(2)] by simp
  have ok: "stream_ok (skip 4 s)" using assms(2) l by (intro skip_ok) auto
  have r: "take (length str) (rest (skip 4 s)) = str" using rest_skip [OF assms(2), of 4] l assms(3) by simp
  have i: "ReadInt s = Some (Some (of_nat (length str)), skip 4 s)"
    using assms(1-4) l by (simp add: reader_eqs be_nat_len)
  have u: "unat (of_nat (length str) :: 32 word) = length str" using assms(4) by (simp add: unat_of_nat)
  have c: "copy_from (m_mem s) (m_pData s + 4) (length str) = Some str"
    using copy_from_eq [OF ok, of "length str"] l r by simp
  have t: "copy_to pStr 0 str = Some (str @ drop (length str) pStr)"
    using assms(5,6) by (simp add: copy_to_def blit_def)
  have tw: "takeWhile (\<lambda>c. c \<noteq> 0) (str @ t) = str @ takeWhile (\<lambda>c. c \<noteq> 0) t" for t
    using assms(7) by (intro takeWhile_append2) auto
  have z: "(length (takeWhile (\<lambda>c. c \<noteq> 0) (str @ tl')) = length str) = (\<exists>y ys. tl' = 0 # ys)"
    if "0 \<in> set tl'" for tl' :: bytes
    using that by (cases tl') (auto simp: tw)
  have h: "(\<exists>ys. drop (length str) pStr = 0 # ys) \<longleftrightarrow> pStr ! length str = 0" if "0 \<in> set (drop (length str) pStr)"
    using that by (cases "drop (length str) pStr") (auto simp: nth_via_drop)
  show ?thesis
    using assms(1,5-7) l i u c t z [of "drop (length str) pStr"] h
    by (auto simp: ReadString_buf_def ReadData_eq c_strlen_def Let_def tw)
qed

lemma be_bytes_small: "be_bytes 4 (Suc (Suc 0)) = [0, 0, 0, 2]"
  by code_simp

theorem ReadString_buf_unterminated_witness:
  "ReadString_buf [1, 1, 0] 2 (CNetStream_read [0, 0, 0, 2, 104, 105] 0 6) =
     Some (True, [104, 105, 0], skip 6 (CNetStream_read [0, 0, 0, 2, 104, 105] 0 6)) \<and>
   ReadString_buf [1, 1] 2 (CNetStream_read [0, 0, 0, 2, 104, 105] 0 6) = None"
  using ReadString_buf_unterminated [of "CNetStream_read [0, 0, 0, 2, 104, 105] 0 6" "[104, 105]" "[]" 2 "[1, 1, 0]"]
    ReadString_buf_unterminated [of "CNetStream_read [0, 0, 0, 2, 104, 105] 0 6" "[104, 105]" "[]" 2 "[1, 1]"]
  by (simp add: CNetStream_read_def stream_ok_def rest_def be_bytes_small)

end
