(* ===== verification/Base64.thy ===== *)
theory Base64 imports Prelude begin

text \<open>
  Base64 of \<open>Server/meta_header/base64.h\<close>, with which the web socket handshake sends its digest.
  Both routines gather the input in an array and emit when it is full; the array is the list of
  the bytes gathered so far, its length the code's index \<open>i\<close>.  \<open>unsigned char\<close> assignments
  truncate, so the arithmetic is that of bytes.  Characters are their codes.
\<close>

unbundle bit_operations_syntax

definition base64_chars :: bytes where
  "base64_chars = map of_nat [65..<91] @ map of_nat [97..<123] @ map of_nat [48..<58] @ [43, 47]"

definition isalnum :: "byte \<Rightarrow> bool" where
  "isalnum c \<longleftrightarrow> 48 \<le> c \<and> c \<le> 57 \<or> 65 \<le> c \<and> c \<le> 90 \<or> 97 \<le> c \<and> c \<le> 122"

definition is_base64 :: "byte \<Rightarrow> bool" where
  "is_base64 c \<longleftrightarrow> isalnum c \<or> c = 43 \<or> c = 47"

section \<open>Encoding\<close>

text \<open>The four indices made of three bytes.\<close>

definition split3 :: "bytes \<Rightarrow> bytes" where
  "split3 a =
    [drop_bit 2 (a ! 0 AND 0xfc),
     push_bit 4 (a ! 0 AND 0x03) + drop_bit 4 (a ! 1 AND 0xf0),
     push_bit 2 (a ! 1 AND 0x0f) + drop_bit 6 (a ! 2 AND 0xc0),
     a ! 2 AND 0x3f]"

definition b64_char :: "byte \<Rightarrow> byte" where
  "b64_char i = base64_chars ! unat i"

fun encode_loop :: "bytes \<Rightarrow> bytes \<Rightarrow> bytes \<Rightarrow> bytes \<times> bytes" where
  "encode_loop [] char_array_3 ret = (char_array_3, ret)"
| "encode_loop (b # input) char_array_3 ret =
    (let char_array_3 = char_array_3 @ [b] in
     if length char_array_3 = 3 then encode_loop input [] (ret @ map b64_char (split3 char_array_3))
     else encode_loop input char_array_3 ret)"

definition base64_encode :: "bytes \<Rightarrow> bytes" where
  "base64_encode bytes_to_encode =
    (let (char_array_3, ret) = encode_loop bytes_to_encode [] []; i = length char_array_3 in
     if i \<noteq> 0 then
       (let char_array_3 = char_array_3 @ replicate (3 - i) 0;
            char_array_4 = split3 char_array_3
        in ret @ map b64_char (take (i + 1) char_array_4) @ replicate (3 - i) 61)
     else ret)"

section \<open>Decoding\<close>

text \<open>\<open>base64_chars.find\<close>, converted to \<open>unsigned char\<close>: \<open>npos\<close> becomes 255.\<close>

definition b64_find :: "byte \<Rightarrow> byte" where
  "b64_find c =
    (let n = length (takeWhile (\<lambda>x. x \<noteq> c) base64_chars) in if n < length base64_chars then of_nat n else 255)"

definition join4 :: "bytes \<Rightarrow> bytes" where
  "join4 a =
    [push_bit 2 (a ! 0) + drop_bit 4 (a ! 1 AND 0x30),
     push_bit 4 (a ! 1 AND 0xf) + drop_bit 2 (a ! 2 AND 0x3c),
     push_bit 6 (a ! 2 AND 0x3) + a ! 3]"

fun decode_loop :: "bytes \<Rightarrow> bytes \<Rightarrow> bytes \<Rightarrow> bytes \<times> bytes" where
  "decode_loop [] char_array_4 ret = (char_array_4, ret)"
| "decode_loop (c # input) char_array_4 ret =
    (if c \<noteq> 61 \<and> is_base64 c then
       (let char_array_4 = char_array_4 @ [c] in
        if length char_array_4 = 4 then decode_loop input [] (ret @ join4 (map b64_find char_array_4))
        else decode_loop input char_array_4 ret)
     else (char_array_4, ret))"

definition base64_decode :: "bytes \<Rightarrow> bytes" where
  "base64_decode encoded_string =
    (let (char_array_4, ret) = decode_loop encoded_string [] []; i = length char_array_4 in
     if i \<noteq> 0 then
       (let char_array_4 = map b64_find (char_array_4 @ replicate (4 - i) 0)
        in ret @ take (i - 1) (join4 char_array_4))
     else ret)"

section \<open>Sextets\<close>

lemma nat_and_mask: "(n :: nat) AND 0x03 = n mod 4" "n AND 0x0f = n mod 16" "n AND 0x3f = n mod 64"
  using take_bit_eq_mask [of 2 n] take_bit_eq_mask [of 4 n] take_bit_eq_mask [of 6 n]
  by (simp_all add: take_bit_eq_mod mask_eq_exp_minus_1)

lemma nat_drop_and: "drop_bit k ((n :: nat) AND m) = (n div 2 ^ k) AND (m div 2 ^ k)"
  by (simp add: drop_bit_eq_div [symmetric])

lemma div_mod_64: "(n :: nat) div 16 mod 4 = n mod 64 div 16" "n div 4 mod 16 = n mod 64 div 4"
  "n * 4 mod 256 = n mod 64 * 4"
proof -
  have "n mod 64 = 16 * (n div 16 mod 4) + n mod 16" using mod_mult2_eq [of n 16 4] by simp
  then show "n div 16 mod 4 = n mod 64 div 16" by simp
  have "n mod 64 = 4 * (n div 4 mod 16) + n mod 4" using mod_mult2_eq [of n 4 16] by simp
  then show "n div 4 mod 16 = n mod 64 div 4" by simp
  show "n * 4 mod 256 = n mod 64 * 4" using mod_mult_mult2 [of n 4 64] by simp
qed

lemma byte_parts: "unat (drop_bit 2 (a AND 0xfc)) = unat a div 4 \<and>
    unat (push_bit 4 (a AND 0x03)) = unat a mod 4 * 16 \<and> unat (drop_bit 4 (a AND 0xf0)) = unat a div 16 \<and>
    unat (push_bit 2 (a AND 0x0f)) = unat a mod 16 * 4 \<and> unat (drop_bit 6 (a AND 0xc0)) = unat a div 64 \<and>
    unat (a AND 0x3f) = unat a mod 64 \<and> unat (push_bit 2 a) = unat a mod 64 * 4 \<and>
    unat (drop_bit 4 (a AND 0x30)) = unat a mod 64 div 16 \<and> unat (push_bit 4 (a AND 0xf)) = unat a mod 16 * 16 \<and>
    unat (drop_bit 2 (a AND 0x3c)) = unat a mod 64 div 4 \<and> unat (push_bit 6 (a AND 0x3)) = unat a mod 4 * 64"
  for a :: byte
  using unat_byte_bound [of a]
  by (simp add: unat_drop_bit_eq unsigned_push_bit_eq unsigned_and_eq nat_drop_and nat_and_mask
    div_mod_64 take_bit_eq_mod push_bit_eq_mult [where 'a = nat] drop_bit_eq_div [where 'a = nat]
    del: push_bit_and)

lemma inj_unat: "inj (unat :: byte \<Rightarrow> nat)"
  by (rule injI) (rule unsigned_word_eqI [where 'a = nat])

lemma unat_sum: "unat (x :: byte) + unat y < 256 \<Longrightarrow> unat (x + y) = unat x + unat y"
  by (simp add: unat_word_ariths)

lemma split3_unat: "map unat (split3 [a, b, c]) =
    [unat a div 4, unat a mod 4 * 16 + unat b div 16, unat b mod 16 * 4 + unat c div 64, unat c mod 64]"
proof -
  have "unat b div 16 < 16" "unat c div 64 < 4" using unat_byte_bound [of b] unat_byte_bound [of c] by auto
  moreover have "unat a mod 4 * 16 \<le> 48" "unat b mod 16 * 4 \<le> 60" by linarith+
  ultimately show ?thesis
    using byte_parts [of a] byte_parts [of b] byte_parts [of c] by (simp add: split3_def unat_sum)
qed

lemma split3_bounds: "x \<in> set (split3 [a, b, c]) \<Longrightarrow> unat x < 64"
proof -
  assume "x \<in> set (split3 [a, b, c])"
  then have "unat x \<in> set (map unat (split3 [a, b, c]))" by simp
  then show ?thesis
    using unat_byte_bound [of a] unat_byte_bound [of b] unat_byte_bound [of c]
    unfolding split3_unat by auto
qed

lemma length_split3 [simp]: "length (split3 a) = 4"
  by (simp add: split3_def)

text \<open>The first bytes come back from the first sextets, whatever the last sextets are.\<close>

lemma join4_unat:
  assumes "unat w < 64" "unat x < 64" "unat y < 64" "unat z < 64"
  shows "map unat (join4 [w, x, y, z]) =
    [unat w * 4 + unat x div 16, unat x mod 16 * 16 + unat y div 4, unat y mod 4 * 64 + unat z]"
proof -
  have "unat x div 16 < 4" "unat y div 4 < 16" "unat x mod 16 * 16 \<le> 240" "unat y mod 4 * 64 \<le> 192"
    using assms by linarith+
  then show ?thesis
    using byte_parts [of w] byte_parts [of x] byte_parts [of y] assms by (simp add: join4_def unat_sum)
qed

lemma join4_split3: "join4 (split3 [a, b, c]) = [a, b, c]"
proof -
  obtain w x y z where s: "split3 [a, b, c] = [w, x, y, z]" by (simp add: split3_def)
  have u: "unat w = unat a div 4" "unat x = unat a mod 4 * 16 + unat b div 16"
    "unat y = unat b mod 16 * 4 + unat c div 64" "unat z = unat c mod 64"
    using split3_unat [of a b c] s by simp_all
  have lt: "unat w < 64" "unat x < 64" "unat y < 64" "unat z < 64"
    using split3_bounds [of _ a b c] s by simp_all
  have "unat b div 16 < 16" "unat c div 64 < 4" using unat_byte_bound [of b] unat_byte_bound [of c] by auto
  then have "map unat (join4 [w, x, y, z]) = map unat [a, b, c]"
    unfolding join4_unat [OF lt] u by simp
  then show ?thesis by (simp only: s inj_map_eq_map [OF inj_unat])
qed

lemma join4_prefix:
  "take 1 (join4 [w, x, y, z]) = take 1 (join4 [w, x, y', z'])"
  "take 2 (join4 [w, x, y, z]) = take 2 (join4 [w, x, y, z'])"
  by (simp_all add: join4_def)

text \<open>The alphabet.\<close>

lemma alphabet: "length base64_chars = 64" "distinct base64_chars"
  "list_all (\<lambda>c. is_base64 c \<and> c \<noteq> 61) base64_chars"
  by code_simp+

lemma b64_char_find:
  assumes "unat x < 64"
  shows "b64_find (b64_char x) = x \<and> is_base64 (b64_char x) \<and> b64_char x \<noteq> 61"
proof -
  have "takeWhile (\<lambda>c. c \<noteq> base64_chars ! unat x) base64_chars = take (unat x) base64_chars"
    using assms alphabet by (intro takeWhile_eq_take_P_nth) (auto simp: nth_eq_iff_index_eq)
  then show ?thesis
    using assms alphabet by (auto simp: b64_find_def b64_char_def list_all_length)
qed

lemma map_find_char: "\<forall>x \<in> set xs. unat x < 64 \<Longrightarrow> map b64_find (map b64_char xs) = xs"
  by (induction xs) (auto simp: b64_char_find)

section \<open>The reference encoding\<close>

fun b64 :: "bytes \<Rightarrow> bytes" where
  "b64 (a # b # c # xs) = map b64_char (split3 [a, b, c]) @ b64 xs"
| "b64 [a, b] = map b64_char (take 3 (split3 [a, b, 0])) @ [61]"
| "b64 [a] = map b64_char (take 2 (split3 [a, 0, 0])) @ [61, 61]"
| "b64 [] = []"

definition encode_end :: "bytes \<times> bytes \<Rightarrow> bytes" where
  "encode_end p =
    (let (char_array_3, ret) = p; i = length char_array_3 in
     if i \<noteq> 0 then
       (let char_array_3 = char_array_3 @ replicate (3 - i) 0;
            char_array_4 = split3 char_array_3
        in ret @ map b64_char (take (i + 1) char_array_4) @ replicate (3 - i) 61)
     else ret)"

definition decode_end :: "bytes \<times> bytes \<Rightarrow> bytes" where
  "decode_end p =
    (let (char_array_4, ret) = p; i = length char_array_4 in
     if i \<noteq> 0 then
       (let char_array_4 = map b64_find (char_array_4 @ replicate (4 - i) 0)
        in ret @ take (i - 1) (join4 char_array_4))
     else ret)"

lemma encode_loop_b64: "encode_end (encode_loop xs [] ret) = ret @ b64 xs"
proof (induction xs arbitrary: ret rule: b64.induct)
  case (2 a b)
  then show ?case by (simp add: encode_end_def numeral_2_eq_2 numeral_3_eq_3 Let_def)
next
  case (3 a)
  then show ?case by (simp add: encode_end_def numeral_2_eq_2 numeral_3_eq_3 Let_def)
qed (simp_all add: encode_end_def Let_def numeral_3_eq_3)

lemma base64_encode_b64: "base64_encode xs = b64 xs"
  using encode_loop_b64 [of xs "[]"] by (simp add: base64_encode_def encode_end_def)

text \<open>A character of the alphabet goes into the array, and the fourth one empties it.\<close>

lemma decode_char:
  assumes "unat x < 64"
  shows "decode_loop (b64_char x # input) arr ret =
    (if length arr = 3 then decode_loop input [] (ret @ join4 (map b64_find (arr @ [b64_char x])))
     else decode_loop input (arr @ [b64_char x]) ret)"
  using b64_char_find [OF assms] by (simp add: Let_def)

declare decode_loop.simps(2) [simp del]

lemma decode_pad: "decode_loop (61 # input) arr ret = (arr, ret)"
  by (simp add: decode_loop.simps)

lemma decode_four:
  assumes "\<forall>x \<in> set [w, x, y, z]. unat x < 64"
  shows "decode_loop (map b64_char [w, x, y, z] @ input) [] ret = decode_loop input [] (ret @ join4 [w, x, y, z])"
  using assms by (simp add: decode_char b64_char_find)

lemma decode_b64: "decode_end (decode_loop (b64 xs) [] ret) = ret @ xs"
proof (induction xs arbitrary: ret rule: b64.induct)
  case (1 a b c xs)
  obtain w x y z where s: "split3 [a, b, c] = [w, x, y, z]" by (simp add: split3_def)
  have "\<forall>x \<in> set [w, x, y, z]. unat x < 64" using split3_bounds [of _ a b c] s by metis
  from decode_four [OF this, of "b64 xs" ret] show ?case
    using 1 join4_split3 [of a b c] s by simp
next
  case (2 a b)
  obtain w x y z where s: "split3 [a, b, 0] = [w, x, y, z]" by (simp add: split3_def)
  have lt: "\<forall>x \<in> set [w, x, y, z]. unat x < 64" using split3_bounds [of _ a b 0] s by metis
  then have l: "decode_loop (b64 [a, b]) [] ret = ([b64_char w, b64_char x, b64_char y], ret)"
    by (simp add: s decode_char decode_pad)
  have "take 2 (join4 [w, x, y, b64_find 0]) = take 2 (join4 [w, x, y, z])" by (rule join4_prefix)
  then show ?case
    unfolding l using lt join4_split3 [of a b 0] s
    by (simp add: decode_end_def Let_def b64_char_find numeral_2_eq_2)
next
  case (3 a)
  obtain w x y z where s: "split3 [a, 0, 0] = [w, x, y, z]" by (simp add: split3_def)
  have lt: "\<forall>x \<in> set [w, x, y, z]. unat x < 64" using split3_bounds [of _ a 0 0] s by metis
  then have l: "decode_loop (b64 [a]) [] ret = ([b64_char w, b64_char x], ret)"
    by (simp add: s decode_char decode_pad)
  have "take 1 (join4 [w, x, b64_find 0, b64_find 0]) = take 1 (join4 [w, x, y, z])" by (rule join4_prefix)
  then show ?case
    unfolding l using lt join4_split3 [of a 0 0] s
    by (simp add: decode_end_def Let_def b64_char_find numeral_2_eq_2)
qed (simp add: decode_end_def)

lemma length_b64: "length (b64 xs) = 4 * ((length xs + 2) div 3)"
proof (induction xs rule: b64.induct)
  case (1 a b c xs)
  have "(length (a # b # c # xs) + 2) div 3 = (length xs + 2) div 3 + 1" by simp
  then show ?case using 1 by simp
qed simp_all

lemma b64_chars: "set (b64 xs) \<subseteq> insert 61 (set base64_chars)"
proof -
  have c: "b64_char x \<in> set base64_chars" if "unat x < 64" for x
    using that alphabet(1) by (simp add: b64_char_def)
  have t: "x \<in> set (take n (split3 [a, b, c])) \<Longrightarrow> unat x < 64" for x n a b c
    using split3_bounds in_set_takeD by metis
  show ?thesis
    by (induction xs rule: b64.induct) (auto intro!: c dest: t split3_bounds)
qed

section \<open>The encoding of RFC 4648\<close>

text \<open>The bits of the input, the most significant first, are cut into groups of six, the last one filled with
  zeros; a group is the index of a character, and the text is filled to a multiple of four.  Nothing here refers
  to the code.\<close>

definition bits_of_byte :: "byte \<Rightarrow> bool list" where
  "bits_of_byte b = map (\<lambda>i. odd (unat b div 2 ^ i)) [7, 6, 5, 4, 3, 2, 1, 0]"

definition bits_value :: "bool list \<Rightarrow> nat" where
  "bits_value bs = foldl (\<lambda>n b. 2 * n + of_bool b) 0 bs"

fun six_groups :: "bool list \<Rightarrow> nat list" where
  "six_groups (a # b # c # d # e # f # bs) = bits_value [a, b, c, d, e, f] # six_groups bs"
| "six_groups [] = []"
| "six_groups bs = [bits_value (take 6 (bs @ [False, False, False, False, False]))]"

definition rfc4648_alphabet :: string where
  "rfc4648_alphabet = ''ABCDEFGHIJKLMNOPQRSTUVWXYZabcdefghijklmnopqrstuvwxyz0123456789+/''"

definition rfc4648 :: "bytes \<Rightarrow> bytes" where
  "rfc4648 xs =
    (let cs = map (\<lambda>n. of_char (rfc4648_alphabet ! n)) (six_groups (concat (map bits_of_byte xs)))
     in cs @ replicate ((4 - length cs mod 4) mod 4) (of_char (CHR ''='')))"

lemma bits_value_snoc: "bits_value (bs @ [b]) = 2 * bits_value bs + of_bool b"
  by (simp add: bits_value_def)

lemma bits_value_bits: "bits_value (map (\<lambda>i. odd (n div 2 ^ i)) (rev [m..<m + k])) = n div 2 ^ m mod 2 ^ k" for n :: nat
proof (induction k arbitrary: m)
  case (Suc k)
  have "[m..<m + Suc k] = m # [Suc m..<Suc m + k]" by (simp add: upt_conv_Cons)
  then have "bits_value (map (\<lambda>i. odd (n div 2 ^ i)) (rev [m..<m + Suc k])) = 2 * (n div 2 ^ Suc m mod 2 ^ k) + of_bool (odd (n div 2 ^ m))"
    using Suc [of "Suc m"] by (simp add: bits_value_snoc del: upt_Suc power_Suc)
  also have "n div 2 ^ Suc m = n div 2 ^ m div 2" by (metis div_mult2_eq mult.commute power_Suc)
  also have "2 * (n div 2 ^ m div 2 mod 2 ^ k) + of_bool (odd (n div 2 ^ m)) = n div 2 ^ m mod (2 * 2 ^ k)"
    unfolding mod_mult2_eq by (simp add: odd_iff_mod_2_eq_one)
  finally show ?case by simp
qed (simp add: bits_value_def)

lemma bits_value_parts:
  fixes b :: byte
  defines "v \<equiv> \<lambda>is. bits_value (map (\<lambda>i. odd (unat b div 2 ^ i)) is)"
  shows "v [7, 6, 5, 4, 3, 2] = unat b div 4" "v [1, 0] = unat b mod 4" "v [7, 6, 5, 4] = unat b div 16"
    "v [3, 2, 1, 0] = unat b mod 16" "v [7, 6] = unat b div 64" "v [5, 4, 3, 2, 1, 0] = unat b mod 64"
proof -
  have l: "[7, 6, 5, 4, 3, 2] = rev [2..<2 + 6]" "[1, 0] = rev [0..<0 + 2]" "[7, 6, 5, 4] = rev [4..<4 + 4]"
    "[3, 2, 1, 0] = rev [0..<0 + 4]" "[7, 6] = rev [6..<6 + 2]" "[5, 4, 3, 2, 1, 0] = rev [0..<0 + 6]"
    by (simp_all add: upt_rec)
  have d: "unat b div 4 < 64" "unat b div 16 < 16" "unat b div 64 < 4" using unat_byte_bound [of b] by linarith+
  show "v [7, 6, 5, 4, 3, 2] = unat b div 4" unfolding v_def l(1) bits_value_bits using d by simp
  show "v [1, 0] = unat b mod 4" unfolding v_def l(2) bits_value_bits using d by simp
  show "v [7, 6, 5, 4] = unat b div 16" unfolding v_def l(3) bits_value_bits using d by simp
  show "v [3, 2, 1, 0] = unat b mod 16" unfolding v_def l(4) bits_value_bits using d by simp
  show "v [7, 6] = unat b div 64" unfolding v_def l(5) bits_value_bits using d by simp
  show "v [5, 4, 3, 2, 1, 0] = unat b mod 64" unfolding v_def l(6) bits_value_bits using d by simp
qed

lemma bits_value_append: "bits_value (xs @ ys) = bits_value xs * 2 ^ length ys + bits_value ys"
proof (induction ys rule: rev_induct)
  case (snoc y ys)
  note s = bits_value_snoc
  have "bits_value (xs @ ys @ [y]) = 2 * bits_value (xs @ ys) + of_bool y" using s [of "xs @ ys"] by simp
  also have "\<dots> = bits_value xs * 2 ^ length (ys @ [y]) + bits_value (ys @ [y])" unfolding snoc s by simp
  finally show ?case .
qed (simp add: bits_value_def)


lemma six_groups_three:
  "six_groups (bits_of_byte a @ bits_of_byte b @ bits_of_byte c @ bs) = map unat (split3 [a, b, c]) @ six_groups bs"
proof -
  let ?b = "\<lambda>(x :: byte) is. map (\<lambda>i. odd (unat x div 2 ^ i)) is"
  have "six_groups (bits_of_byte a @ bits_of_byte b @ bits_of_byte c @ bs) =
      [bits_value (?b a [7, 6, 5, 4, 3, 2]), bits_value (?b a [1, 0] @ ?b b [7, 6, 5, 4]),
       bits_value (?b b [3, 2, 1, 0] @ ?b c [7, 6]), bits_value (?b c [5, 4, 3, 2, 1, 0])] @ six_groups bs"
    by (simp add: bits_of_byte_def)
  then show ?thesis unfolding bits_value_append bits_value_parts split3_unat by simp
qed

text \<open>The last group is filled with the bits of a zero byte.\<close>

lemma six_groups_two: "six_groups (bits_of_byte a @ bits_of_byte b) = map unat (take 3 (split3 [a, b, 0]))"
proof -
  let ?b = "\<lambda>(x :: byte) is. map (\<lambda>i. odd (unat x div 2 ^ i)) is"
  have "six_groups (bits_of_byte a @ bits_of_byte b) =
      [bits_value (?b a [7, 6, 5, 4, 3, 2]), bits_value (?b a [1, 0] @ ?b b [7, 6, 5, 4]), bits_value (?b b [3, 2, 1, 0] @ [False, False])]"
    by (simp add: bits_of_byte_def)
  moreover have "bits_value [False, False] = 0" by (simp add: bits_value_def)
  ultimately show ?thesis unfolding take_map [symmetric] bits_value_append bits_value_parts split3_unat by simp
qed

lemma six_groups_one: "six_groups (bits_of_byte a) = map unat (take 2 (split3 [a, 0, 0]))"
proof -
  let ?b = "\<lambda>(x :: byte) is. map (\<lambda>i. odd (unat x div 2 ^ i)) is"
  have "six_groups (bits_of_byte a) = [bits_value (?b a [7, 6, 5, 4, 3, 2]), bits_value (?b a [1, 0] @ [False, False, False, False])]"
    by (simp add: bits_of_byte_def)
  moreover have "bits_value [False, False, False, False] = 0" by (simp add: bits_value_def)
  ultimately show ?thesis unfolding take_map [symmetric] bits_value_append bits_value_parts split3_unat by simp
qed

lemma alphabet_rfc4648: "map of_char rfc4648_alphabet = base64_chars"
  by code_simp

lemma rfc4648_char: "unat x < 64 \<Longrightarrow> of_char (rfc4648_alphabet ! unat x) = b64_char x"
proof -
  assume "unat x < 64"
  moreover have "length rfc4648_alphabet = 64" using alphabet_rfc4648 alphabet(1) by (metis length_map)
  ultimately show ?thesis unfolding b64_char_def alphabet_rfc4648 [symmetric] by simp
qed

lemma b64_rfc4648: "b64 xs = rfc4648 xs"
proof -
  let ?g = "\<lambda>xs. six_groups (concat (map bits_of_byte xs))"
  let ?c = "map (\<lambda>n. of_char (rfc4648_alphabet ! n))"
  have chars: "?c (map unat (take n (split3 [a, b, c]))) = map b64_char (take n (split3 [a, b, c]))" for n a b c
  proof -
    have "of_char (rfc4648_alphabet ! unat x) = b64_char x" if "x \<in> set (take n (split3 [a, b, c]))" for x
      by (rule rfc4648_char [OF split3_bounds [OF in_set_takeD [OF that]]])
    then show ?thesis by simp
  qed
  have pad: "(of_char (CHR ''='') :: byte) = 61" by code_simp
  show ?thesis
  proof (induction xs rule: b64.induct)
    case (1 a b c xs)
    have "?c (?g (a # b # c # xs)) = map b64_char (split3 [a, b, c]) @ ?c (?g xs)"
      using chars [of 4 a b c] by (simp add: six_groups_three)
    then show ?case using 1 by (simp add: rfc4648_def Let_def)
  next
    case (2 a b)
    show ?case using chars [of 3 a b 0] by (simp add: rfc4648_def Let_def six_groups_two pad)
  next
    case (3 a)
    show ?case using chars [of 2 a 0 0] by (simp add: rfc4648_def Let_def six_groups_one pad numeral_2_eq_2)
  qed (simp add: rfc4648_def)
qed

lemma base64_encode_rfc4648: "base64_encode xs = rfc4648 xs"
  by (simp add: base64_encode_b64 b64_rfc4648)

section \<open>Properties\<close>

text \<open>C21: decoding what was encoded gives the bytes back, for inputs of every length, and the
  encoding has four characters for every three bytes begun, all of the alphabet or the padding
  character.\<close>

theorem base64_roundtrip:
  "base64_decode (base64_encode xs) = xs \<and> length (base64_encode xs) = 4 * ((length xs + 2) div 3) \<and>
    set (base64_encode xs) \<subseteq> insert 61 (set base64_chars)"
  using decode_b64 [of xs "[]"] length_b64 [of xs] b64_chars [of xs]
  by (simp add: base64_decode_def decode_end_def base64_encode_b64)

end
