(* ===== verification/EventQueue.thy ===== *)
theory EventQueue imports Prelude "HOL-Library.Monad_Syntax" begin

text \<open>
  The event queue \<open>TEventQueue\<close> of \<open>Server/Net/eventqueue.h\<close>: an array used in a circle, filled
  by the I/O threads under a lock (\<open>PushBack\<close>) and emptied by one thread without it
  (\<open>PopFront\<close>), which returns a pointer into the array, here the index of the cell.  Cursors and
  sizes are C \<open>int\<close>s; \<open>None\<close> is an access outside the array.  The lock orders the writers.  The
  reader writes only the out-cursor, with two writes when it wraps (\<open>pop_advance\<close>, \<open>pop_wrap\<close>); a push
  between the two does what it does after them (\<open>PushBack_between\<close>), and a pop between the two writes of
  the in-cursor what it does after them (\<open>PopFront_between\<close>), so the operations are steps.
\<close>

record 'a event_queue =
  m_poArrayT :: "'a list option"
  m_nSize :: int
  m_nInCur :: int
  m_nOutCur :: int

definition TEventQueue :: "'a event_queue" where
  "TEventQueue = \<lparr>m_poArrayT = None, m_nSize = 0, m_nInCur = 0, m_nOutCur = 0\<rparr>"

text \<open>The argument \<open>blk\<close> is what \<open>realloc\<close> returns.\<close>

definition eq_Init :: "'a list option \<Rightarrow> int \<Rightarrow> 'a event_queue \<Rightarrow> bool \<times> 'a event_queue" where
  "eq_Init blk nMax q =
    (let q1 = (if nMax \<noteq> m_nSize q then q\<lparr>m_poArrayT := blk\<rparr> else q) in
     if nMax \<noteq> m_nSize q \<and> blk = None then (False, q1)
     else (True, q1\<lparr>m_nOutCur := 0, m_nInCur := 0, m_nSize := nMax\<rparr>))"

definition GetSize :: "'a event_queue \<Rightarrow> int" where
  "GetSize q = m_nSize q"

text \<open>The number of events, the computation both operations begin with.\<close>

definition eq_count :: "'a event_queue \<Rightarrow> int" where
  "eq_count q =
    (let nSize = m_nInCur q + m_nSize q - m_nOutCur q in if nSize \<ge> m_nSize q then nSize - m_nSize q else nSize)"

definition next_cell :: "'a event_queue \<Rightarrow> int \<Rightarrow> int" where
  "next_cell q i = (if i + 1 \<ge> m_nSize q then 0 else i + 1)"

definition eq_read :: "'a event_queue \<Rightarrow> int \<Rightarrow> 'a option" where
  "eq_read q p =
    (case m_poArrayT q of None \<Rightarrow> None
     | Some xs \<Rightarrow> if 0 \<le> p \<and> p < int (length xs) then Some (xs ! nat p) else None)"

definition PushBack :: "'a \<Rightarrow> 'a event_queue \<Rightarrow> (bool \<times> 'a event_queue) option" where
  "PushBack ot q =
    (if m_nSize q - 1 \<le> eq_count q then Some (False, q)
     else (case m_poArrayT q of None \<Rightarrow> None
           | Some xs \<Rightarrow>
               if 0 \<le> m_nInCur q \<and> m_nInCur q < int (length xs)
               then Some (True, q\<lparr>m_poArrayT := Some (xs[nat (m_nInCur q) := ot]),
                                 m_nInCur := next_cell q (m_nInCur q)\<rparr>)
               else None))"

text \<open>The two writes of \<open>if (++m_nOutCursor >= m_nSize) m_nOutCursor = 0\<close>.\<close>

definition pop_advance :: "'a event_queue \<Rightarrow> 'a event_queue" where
  "pop_advance q = q\<lparr>m_nOutCur := m_nOutCur q + 1\<rparr>"

definition pop_wrap :: "'a event_queue \<Rightarrow> 'a event_queue" where
  "pop_wrap q = (if m_nOutCur q \<ge> m_nSize q then q\<lparr>m_nOutCur := 0\<rparr> else q)"

definition PopFront :: "'a event_queue \<Rightarrow> int option \<times> 'a event_queue" where
  "PopFront q =
    (if eq_count q = 0 then (None, q) else (Some (m_nOutCur q), pop_wrap (pop_advance q)))"

lemma pop_wrap_advance: "pop_wrap (pop_advance q) = q\<lparr>m_nOutCur := next_cell q (m_nOutCur q)\<rparr>"
  by (simp add: pop_wrap_def pop_advance_def next_cell_def)

section \<open>Invariant and abstraction\<close>

definition eq_ok :: "'a event_queue \<Rightarrow> bool" where
  "eq_ok q \<longleftrightarrow> (case m_poArrayT q of None \<Rightarrow> False | Some xs \<Rightarrow> int (length xs) = m_nSize q) \<and>
     0 < m_nSize q \<and> 0 \<le> m_nInCur q \<and> m_nInCur q < m_nSize q \<and> 0 \<le> m_nOutCur q \<and> m_nOutCur q < m_nSize q"

definition eq_list :: "'a event_queue \<Rightarrow> 'a list" where
  "eq_list q = (case m_poArrayT q of None \<Rightarrow> [] | Some xs \<Rightarrow> ring xs (nat (m_nOutCur q)) (nat (eq_count q)))"

section \<open>The operations on a valid queue\<close>

definition mk_eq :: "'a list \<Rightarrow> nat \<Rightarrow> nat \<Rightarrow> 'a event_queue" where
  "mk_eq xs i out = \<lparr>m_poArrayT = Some xs, m_nSize = int (length xs), m_nInCur = int i, m_nOutCur = int out\<rparr>"

lemma mk_eq_simps [simp]:
  "m_poArrayT (mk_eq xs i out) = Some xs" "m_nSize (mk_eq xs i out) = int (length xs)"
  "m_nInCur (mk_eq xs i out) = int i" "m_nOutCur (mk_eq xs i out) = int out"
  "(mk_eq xs i out)\<lparr>m_nOutCur := int out'\<rparr> = mk_eq xs i out'"
  "(mk_eq xs i out)\<lparr>m_poArrayT := Some (xs[k := x]), m_nInCur := int i'\<rparr> = mk_eq (xs[k := x]) i' out"
  by (simp_all add: mk_eq_def)

definition used :: "'a list \<Rightarrow> nat \<Rightarrow> nat \<Rightarrow> nat" where
  "used xs i out = (if out \<le> i then i - out else i + length xs - out)"

lemma eq_ok_mk: "eq_ok (mk_eq xs i out) \<longleftrightarrow> i < length xs \<and> out < length xs"
  by (auto simp: eq_ok_def)

lemma eq_ok_mkE:
  assumes "eq_ok q"
  obtains xs i out where "q = mk_eq xs i out" "i < length xs" "out < length xs"
proof -
  obtain xs where "m_poArrayT q = Some xs" using assms by (auto simp: eq_ok_def split: option.splits)
  then have "q = mk_eq xs (nat (m_nInCur q)) (nat (m_nOutCur q))"
    using assms by (intro event_queue.equality) (auto simp: eq_ok_def mk_eq_def)
  then show thesis using that assms eq_ok_mk by metis
qed

lemma mod_cell: "i < n \<Longrightarrow> k mod n < (n :: nat)"
  by (rule mod_less_divisor) linarith

lemma eq_count_mk: "i < length xs \<Longrightarrow> out < length xs \<Longrightarrow> eq_count (mk_eq xs i out) = int (used xs i out)"
  by (auto simp: eq_count_def used_def Let_def)

lemma eq_list_mk: "i < length xs \<Longrightarrow> out < length xs \<Longrightarrow> eq_list (mk_eq xs i out) = ring xs out (used xs i out)"
  by (simp add: eq_list_def eq_count_mk)

lemma next_cell_mk: "j < length xs \<Longrightarrow> next_cell (mk_eq xs i out) (int j) = int ((j + 1) mod length xs)"
  by (auto simp: next_cell_def mod_Suc)

lemma used_bound: "i < length xs \<Longrightarrow> out < length xs \<Longrightarrow> used xs i out < length xs"
  by (auto simp: used_def)

lemma in_cell: "i < length xs \<Longrightarrow> out < length xs \<Longrightarrow> i = (out + used xs i out) mod length xs"
  by (auto simp: used_def mod_if)

lemma used_push: "i < length xs \<Longrightarrow> out < length xs \<Longrightarrow> used xs i out + 1 < length xs \<Longrightarrow>
    used xs ((i + 1) mod length xs) out = used xs i out + 1"
  by (auto simp: used_def mod_Suc split: if_splits)

lemma used_pop: "i < length xs \<Longrightarrow> out < length xs \<Longrightarrow> 0 < used xs i out \<Longrightarrow>
    used xs i ((out + 1) mod length xs) = used xs i out - 1"
  by (auto simp: used_def mod_Suc split: if_splits)

lemma used_length: "length ys = length xs \<Longrightarrow> used ys i out = used xs i out"
  by (simp add: used_def)

lemma length_eq_list: "eq_ok q \<Longrightarrow> int (length (eq_list q)) = eq_count q"
  by (elim eq_ok_mkE) (simp add: eq_list_mk eq_count_mk)

lemma PushBack_refuses:
  "eq_ok q \<Longrightarrow> m_nSize q \<le> int (length (eq_list q)) + 1 \<Longrightarrow> PushBack x q = Some (False, q)"
  using length_eq_list [of q] by (simp add: PushBack_def)

lemma PushBack_accepts:
  assumes "eq_ok q" "int (length (eq_list q)) + 1 < m_nSize q"
  shows "\<exists>q'. PushBack x q = Some (True, q') \<and> eq_ok q' \<and> eq_list q' = eq_list q @ [x] \<and>
    m_nSize q' = m_nSize q \<and> m_nOutCur q' = m_nOutCur q \<and>
    (\<forall>p. p \<noteq> m_nInCur q \<longrightarrow> eq_read q' p = eq_read q p)"
proof -
  obtain xs i out where q: "q = mk_eq xs i out" and b: "i < length xs" "out < length xs"
    using eq_ok_mkE [OF assms(1)] .
  have u: "used xs i out + 1 < length xs" using assms(2) b by (simp add: q eq_list_mk)
  let ?q = "mk_eq (xs[i := x]) ((i + 1) mod length xs) out"
  have "PushBack x q = Some (True, ?q)"
    using u b by (simp add: PushBack_def q eq_count_mk next_cell_mk)
  moreover have "eq_ok ?q" using b mod_cell [OF b(1), of "i + 1"] by (simp add: eq_ok_mk)
  moreover have "eq_list ?q = eq_list q @ [x]"
  proof -
    have "xs[i := x] = blit xs i [x]" using b by (simp add: blit_def upd_conv_take_nth_drop)
    moreover have "ring (blit xs i [x]) out (used xs i out + length [x]) = ring xs out (used xs i out) @ [x]"
      using b u in_cell [OF b] by (intro ring_blit_append) auto
    moreover have "eq_list ?q = ring (xs[i := x]) out (used (xs[i := x]) ((i + 1) mod length xs) out)"
      using b mod_cell [OF b(1)] by (intro eq_list_mk) simp_all
    ultimately show ?thesis
      using b used_push [OF b u] used_length [of "xs[i := x]" xs] by (simp add: q eq_list_mk)
  qed
  moreover have "\<forall>p. p \<noteq> m_nInCur q \<longrightarrow> eq_read ?q p = eq_read q p"
    by (auto simp: q eq_read_def)
  ultimately show ?thesis by (auto simp: q)
qed

lemma PopFront_empty: "eq_ok q \<Longrightarrow> eq_list q = [] \<Longrightarrow> PopFront q = (None, q)"
  using length_eq_list [of q] by (simp add: PopFront_def)

lemma PopFront_some:
  assumes "eq_ok q" "eq_list q = x # xs"
  shows "\<exists>q'. PopFront q = (Some (m_nOutCur q), q') \<and> eq_read q' (m_nOutCur q) = Some x \<and> eq_ok q' \<and>
    eq_list q' = xs \<and> m_nSize q' = m_nSize q \<and>
    m_nOutCur q' = (m_nOutCur q + 1) mod m_nSize q"
proof -
  obtain ys i out where q: "q = mk_eq ys i out" and b: "i < length ys" "out < length ys"
    using eq_ok_mkE [OF assms(1)] .
  have r: "ring ys out (used ys i out) = x # xs" using assms(2) b by (simp add: q eq_list_mk)
  then have u: "0 < used ys i out" by (cases "used ys i out") auto
  have "ring ys out (1 + (used ys i out - 1)) = ring ys out 1 @ ring ys (out + 1) (used ys i out - 1)"
    by (rule ring_split)
  then have c: "ys ! out = x" "ring ys ((out + 1) mod length ys) (used ys i out - 1) = xs"
    using r u b by (simp_all add: ring_mod ring_def [of _ _ "Suc 0"])
  let ?q = "mk_eq ys i ((out + 1) mod length ys)"
  have "PopFront q = (Some (m_nOutCur q), ?q)"
    using u b by (simp add: PopFront_def pop_wrap_advance q eq_count_mk next_cell_mk)
  moreover have "eq_ok ?q" using b mod_cell [OF b(1), of "out + 1"] by (simp add: eq_ok_mk)
  moreover have "eq_list ?q = xs"
  proof -
    have "(out + 1) mod length ys < length ys" using b by (intro mod_less_divisor) auto
    then show ?thesis using b(1) c(2) used_pop [OF b u] by (simp add: eq_list_mk)
  qed
  moreover have "eq_read ?q (m_nOutCur q) = Some x" using b c by (simp add: q eq_read_def)
  moreover have "int ((out + 1) mod length ys) = (int out + 1) mod int (length ys)"
    by (simp add: zmod_int add.commute)
  ultimately show ?thesis by (auto simp: q)
qed

text \<open>A push that falls between the two writes of a pop, and a pop that falls between the two writes of a
  push, see a cursor one behind the last cell: both count the events as they do after the second write.\<close>

lemma PushBack_between:
  assumes "eq_ok q"
  shows "map_option (map_prod id pop_wrap) (PushBack x (pop_advance q)) = PushBack x (pop_wrap (pop_advance q))"
proof (cases "m_nOutCur q + 1 \<ge> m_nSize q")
  case True
  then have w: "pop_wrap (pop_advance q) = q\<lparr>m_nOutCur := 0\<rparr>"
    by (simp add: pop_wrap_advance next_cell_def)
  have "eq_count (pop_advance q) = eq_count (q\<lparr>m_nOutCur := 0\<rparr>)"
    using True assms by (simp add: eq_count_def pop_advance_def eq_ok_def Let_def)
  then show ?thesis
    unfolding w PushBack_def using True
    by (simp add: pop_advance_def pop_wrap_def next_cell_def split: option.split)
next
  case False
  then have w: "pop_wrap (pop_advance q) = pop_advance q" by (simp add: pop_wrap_def pop_advance_def)
  show ?thesis
    unfolding w PushBack_def using False w
    by (simp add: pop_advance_def pop_wrap_def split: option.split)
qed

lemma PopFront_between:
  assumes "eq_ok q" "int (length (eq_list q)) + 1 < m_nSize q" "m_nInCur q + 1 \<ge> m_nSize q"
  shows "map_prod id (\<lambda>q'. q'\<lparr>m_nInCur := 0\<rparr>) (PopFront (q\<lparr>m_nInCur := m_nInCur q + 1\<rparr>)) =
    PopFront (q\<lparr>m_nInCur := 0\<rparr>)"
proof -
  have i: "m_nInCur q + 1 = m_nSize q" using assms by (simp add: eq_ok_def)
  have "m_nOutCur q \<noteq> 0"
    using assms(2) length_eq_list [OF assms(1)] i by (auto simp: eq_count_def Let_def split: if_splits)
  then have "eq_count (q\<lparr>m_nInCur := m_nInCur q + 1\<rparr>) = eq_count (q\<lparr>m_nInCur := 0\<rparr>)"
    using i assms(1) by (auto simp: eq_count_def eq_ok_def Let_def)
  then show ?thesis by (auto simp: PopFront_def pop_wrap_def pop_advance_def)
qed

section \<open>Bounded queues\<close>

datatype 'a queue_op = Enq 'a | Deq

datatype 'a queue_result = Accepted bool | Got "'a option"

fun run_ops :: "('a \<Rightarrow> 's \<Rightarrow> (bool \<times> 's) option) \<Rightarrow> ('s \<Rightarrow> ('a option \<times> 's) option) \<Rightarrow> 'a queue_op list \<Rightarrow> 's
    \<Rightarrow> ('a queue_result list \<times> 's) option" where
  "run_ops push pop [] s = Some ([], s)"
| "run_ops push pop (Enq x # ops) s =
    do { (ok, s) \<leftarrow> push x s; (rs, s) \<leftarrow> run_ops push pop ops s; Some (Accepted ok # rs, s) }"
| "run_ops push pop (Deq # ops) s =
    do { (r, s) \<leftarrow> pop s; (rs, s) \<leftarrow> run_ops push pop ops s; Some (Got r # rs, s) }"

text \<open>The specification: a list that holds at most \<open>cap\<close> elements.\<close>

fun spec_ops :: "nat \<Rightarrow> 'a queue_op list \<Rightarrow> 'a list \<Rightarrow> 'a queue_result list \<times> 'a list" where
  "spec_ops cap [] xs = ([], xs)"
| "spec_ops cap (Enq x # ops) xs =
    (let ok = length xs < cap; (rs, ys) = spec_ops cap ops (if ok then xs @ [x] else xs) in (Accepted ok # rs, ys))"
| "spec_ops cap (Deq # ops) xs =
    (let (rs, ys) = spec_ops cap ops (tl xs) in (Got (if xs = [] then None else Some (hd xs)) # rs, ys))"

locale bounded_queue =
  fixes inv :: "'s \<Rightarrow> bool" and items :: "'s \<Rightarrow> 'a list" and cap :: "'s \<Rightarrow> nat"
    and push :: "'a \<Rightarrow> 's \<Rightarrow> (bool \<times> 's) option" and pop :: "'s \<Rightarrow> ('a option \<times> 's) option"
  assumes push_law: "inv s \<Longrightarrow> \<exists>s'. push x s = Some (length (items s) < cap s, s') \<and> inv s' \<and> cap s' = cap s \<and>
      items s' = (if length (items s) < cap s then items s @ [x] else items s)"
    and pop_law: "inv s \<Longrightarrow> \<exists>s'. pop s = Some (if items s = [] then None else Some (hd (items s)), s') \<and>
      inv s' \<and> cap s' = cap s \<and> items s' = tl (items s)"
begin

lemma run_refines:
  "inv s \<Longrightarrow> \<exists>s'. run_ops push pop ops s = Some (fst (spec_ops (cap s) ops (items s)), s') \<and> inv s' \<and>
    items s' = snd (spec_ops (cap s) ops (items s))"
proof (induction ops arbitrary: s)
  case (Cons e ops)
  show ?case
  proof (cases e)
    case (Enq x)
    obtain s' where "push x s = Some (length (items s) < cap s, s')" "inv s'" "cap s' = cap s"
      "items s' = (if length (items s) < cap s then items s @ [x] else items s)"
      using push_law [OF Cons.prems] by blast
    then show ?thesis using Cons.IH [of s'] Enq by (auto simp: Let_def split_beta)
  next
    case Deq
    obtain s' where "pop s = Some (if items s = [] then None else Some (hd (items s)), s')" "inv s'"
      "cap s' = cap s" "items s' = tl (items s)"
      using pop_law [OF Cons.prems] by blast
    then show ?thesis using Cons.IH [of s'] Deq by (auto simp: Let_def split_beta)
  qed
qed simp

end

text \<open>Popping and reading the event through the returned pointer, as the main loop does.\<close>

definition pop_read :: "'a event_queue \<Rightarrow> ('a option \<times> 'a event_queue) option" where
  "pop_read q =
    (case PopFront q of (None, q') \<Rightarrow> Some (None, q')
     | (Some p, q') \<Rightarrow> map_option (\<lambda>x. (Some x, q')) (eq_read q' p))"

lemma eq_cap: "eq_ok q \<Longrightarrow> int (length (eq_list q)) + 1 < m_nSize q \<longleftrightarrow> length (eq_list q) < nat (m_nSize q - 1)"
  by linarith

interpretation evq: bounded_queue eq_ok eq_list "\<lambda>q. nat (m_nSize q - 1)" PushBack pop_read
proof unfold_locales
  fix q :: "'a event_queue" and x
  assume q: "eq_ok q"
  show "\<exists>s'. PushBack x q = Some (length (eq_list q) < nat (m_nSize q - 1), s') \<and> eq_ok s' \<and>
      nat (m_nSize s' - 1) = nat (m_nSize q - 1) \<and>
      eq_list s' = (if length (eq_list q) < nat (m_nSize q - 1) then eq_list q @ [x] else eq_list q)"
  proof (cases "length (eq_list q) < nat (m_nSize q - 1)")
    case True
    then show ?thesis using PushBack_accepts [OF q, of x] eq_cap [OF q] by auto
  next
    case False
    then show ?thesis using PushBack_refuses [OF q, of x] eq_cap [OF q] q by auto
  qed
next
  fix q :: "'a event_queue"
  assume q: "eq_ok q"
  show "\<exists>s'. pop_read q = Some (if eq_list q = [] then None else Some (hd (eq_list q)), s') \<and> eq_ok s' \<and>
      nat (m_nSize s' - 1) = nat (m_nSize q - 1) \<and> eq_list s' = tl (eq_list q)"
  proof (cases "eq_list q")
    case Nil
    then show ?thesis using PopFront_empty [OF q] q by (simp add: pop_read_def)
  next
    case (Cons x xs)
    then show ?thesis using PopFront_some [OF q Cons] by (auto simp: pop_read_def)
  qed
qed

fun push_all :: "'a list \<Rightarrow> 'a event_queue \<Rightarrow> 'a event_queue option" where
  "push_all [] q = Some q"
| "push_all (x # xs) q = do { (ok, q) \<leftarrow> PushBack x q; push_all xs q }"

text \<open>The cell behind the out-cursor is never the cell an accepted event is written to.\<close>

lemma free_cell:
  assumes "eq_ok q" "int (length (eq_list q)) + 1 < m_nSize q" "0 \<le> p" "p < m_nSize q" "(p + 1) mod m_nSize q = m_nOutCur q"
  shows "p \<noteq> m_nInCur q"
proof -
  obtain xs i out where q: "q = mk_eq xs i out" and b: "i < length xs" "out < length xs"
    using eq_ok_mkE [OF assms(1)] .
  have u: "used xs i out + 1 < length xs" using assms(2) b by (simp add: q eq_list_mk)
  have "(int i + 1) mod int (length xs) \<noteq> int out"
  proof
    assume "(int i + 1) mod int (length xs) = int out"
    then have "int ((i + 1) mod length xs) = int out" by (simp add: zmod_int add.commute)
    then have "(i + 1) mod length xs = out" by simp
    then show False using u b by (auto simp: used_def mod_Suc split: if_splits)
  qed
  then show ?thesis using assms(5) by (auto simp: q)
qed

lemma push_all_keeps:
  "eq_ok q \<Longrightarrow> 0 \<le> p \<Longrightarrow> p < m_nSize q \<Longrightarrow> (p + 1) mod m_nSize q = m_nOutCur q \<Longrightarrow>
    \<exists>q'. push_all xs q = Some q' \<and> eq_ok q' \<and> eq_read q' p = eq_read q p"
proof (induction xs arbitrary: q)
  case (Cons x xs)
  show ?case
  proof (cases "int (length (eq_list q)) + 1 < m_nSize q")
    case True
    obtain q' where q': "PushBack x q = Some (True, q')" "eq_ok q'" "m_nSize q' = m_nSize q"
      "m_nOutCur q' = m_nOutCur q" "\<forall>r. r \<noteq> m_nInCur q \<longrightarrow> eq_read q' r = eq_read q r"
      using PushBack_accepts [OF Cons.prems(1) True, of x] by blast
    then show ?thesis
      using Cons.IH [of q'] Cons.prems free_cell [OF Cons.prems(1) True Cons.prems(2-4)] by auto
  next
    case False
    then show ?thesis using Cons PushBack_refuses [OF Cons.prems(1), of x] by auto
  qed
qed simp

section \<open>Properties\<close>

text \<open>C22: the event queue is a first-in first-out queue of bounded capacity: on a valid queue any
  sequence of \<open>PushBack\<close> and \<open>PopFront\<close> calls answers as a list that accepts an event while it
  has fewer than \<open>m_nSize - 1\<close> of them, no cell outside the array is touched, and the pointers
  that are handed out point to the events in the order they were accepted.\<close>

theorem event_queue_fifo:
  assumes "eq_ok q"
  shows "\<exists>q'. run_ops PushBack pop_read ops q =
      Some (fst (spec_ops (nat (GetSize q - 1)) ops (eq_list q)), q') \<and> eq_ok q' \<and>
    eq_list q' = snd (spec_ops (nat (GetSize q - 1)) ops (eq_list q))"
  using evq.run_refines [OF assms, of ops] by (simp add: GetSize_def)

theorem event_queue_fifo_witness:
  "\<exists>q'. run_ops PushBack pop_read [Enq 1, Enq 2, Enq 3, Deq, Deq, Deq]
      (snd (eq_Init (Some [0, 0, 0 :: nat]) 3 TEventQueue)) =
    Some ([Accepted True, Accepted True, Accepted False, Got (Some 1), Got (Some 2), Got None], q') \<and> eq_ok q'"
  using event_queue_fifo [of "snd (eq_Init (Some [0, 0, 0 :: nat]) 3 TEventQueue)" "[Enq 1, Enq 2, Enq 3, Deq, Deq, Deq]"]
  by (auto simp: eq_Init_def TEventQueue_def eq_ok_def eq_list_def eq_count_def GetSize_def Let_def)

text \<open>The one cell the queue keeps free is enough for reading without the lock: the event
  that \<open>PopFront\<close> returned a pointer to stays in its cell however many events the other threads
  push before the next \<open>PopFront\<close>, although the cell no longer belongs to the queue.\<close>

theorem popped_event_stays:
  assumes "eq_ok q" "PopFront q = (Some p, q1)"
  shows "\<exists>q2. push_all xs q1 = Some q2 \<and> eq_read q2 p = Some (hd (eq_list q))"
proof -
  have "eq_list q \<noteq> []" using PopFront_empty [OF assms(1)] assms(2) by auto
  then obtain y ys where l: "eq_list q = y # ys" by (cases "eq_list q") auto
  have r: "p = m_nOutCur q" "eq_read q1 p = Some y" "eq_ok q1" "m_nSize q1 = m_nSize q"
    "m_nOutCur q1 = (p + 1) mod m_nSize q"
    using PopFront_some [OF assms(1) l] assms(2) by auto
  have "0 \<le> p" "p < m_nSize q" using assms(1) r(1) by (auto simp: eq_ok_def)
  then show ?thesis using push_all_keeps [OF r(3), of p xs] r l by auto
qed

theorem popped_event_stays_witness:
  "\<exists>q2. push_all [7, 8, 9] (mk_eq [1, 2, 3 :: nat] 2 1) = Some q2 \<and> eq_read q2 0 = Some 1"
proof -
  have "eq_ok (mk_eq [1, 2, 3 :: nat] 2 0)" by (simp add: eq_ok_mk)
  moreover have "PopFront (mk_eq [1, 2, 3 :: nat] 2 0) = (Some 0, mk_eq [1, 2, 3] 2 1)"
    by (simp add: PopFront_def eq_count_mk used_def pop_advance_def pop_wrap_def)
  ultimately show ?thesis
    using popped_event_stays [of "mk_eq [1, 2, 3 :: nat] 2 0" 0 "mk_eq [1, 2, 3] 2 1" "[7, 8, 9]"]
    by (simp add: eq_list_mk used_def ring_def upt_rec)
qed

end
