(* ===== verification/Pool.thy ===== *)
theory Pool imports Prelude "HOL-Library.Monad_Syntax" begin

text \<open>
  The object pool \<open>TDynamicPoolEx\<close> of \<open>Server/meta_header/dynamicpoolex.h\<close>, from which the
  sockets, connections and buffers of the network library come.  An object is its number in the
  order of allocation; \<open>m_byRef\<close> maps it to the reference byte of its shell, \<open>m_ListFree\<close> is the
  deque of free objects, \<open>m_ListAll\<close> the sizes of the blocks allocated.  Counts are C
  \<open>unsigned int\<close>s, so they are words.  \<open>new\<close> does not return \<open>NULL\<close>, it throws; running out of
  memory is not modelled.  The outer \<open>None\<close> is undefined behaviour: \<open>front\<close> or \<open>pop_front\<close> of
  an empty deque, or an object that is not of the pool.

  \<open>FetchObj\<close> gives up its lock between finding the free list empty and taking an object: it is
  three steps, each of them atomic, and \<open>FetchObj\<close> is their composition for a thread that runs
  alone.
\<close>

type_synonym obj = nat

record pool =
  m_ListFree :: "obj list"
  m_ListAll :: "32 word list"
  m_byRef :: "obj \<Rightarrow> 8 word"
  m_dwInitCount :: "32 word"
  m_dwGrowCount :: "32 word"
  m_dwMaxCount :: "32 word"
  m_dwNowAllCount :: "32 word"
  n_objs :: nat \<comment> \<open>the objects allocated so far\<close>

definition TDynamicPoolEx :: pool where
  "TDynamicPoolEx = \<lparr>m_ListFree = [], m_ListAll = [], m_byRef = (\<lambda>_. 0), m_dwInitCount = 0,
     m_dwGrowCount = 0, m_dwMaxCount = 0, m_dwNowAllCount = 0, n_objs = 0\<rparr>"

definition AllocT :: "32 word \<Rightarrow> pool \<Rightarrow> bool \<times> pool" where
  "AllocT dwCount p =
    (if 0 = dwCount then (False, p)
     else if m_dwMaxCount p \<noteq> 0 \<and> m_dwNowAllCount p \<ge> m_dwMaxCount p then (False, p)
     else if m_ListFree p \<noteq> [] then (True, p)
     else
       (let dwNewCount = (if m_dwMaxCount p \<noteq> 0 \<and> dwCount + m_dwNowAllCount p \<ge> m_dwMaxCount p
                          then m_dwMaxCount p - m_dwNowAllCount p else dwCount);
            objs = [n_objs p ..< n_objs p + unat dwNewCount]
        in (True, p\<lparr>m_dwNowAllCount := m_dwNowAllCount p + dwNewCount,
                    m_byRef := (\<lambda>x. if x \<in> set objs then 0 else m_byRef p x),
                    m_ListFree := m_ListFree p @ objs, m_ListAll := m_ListAll p @ [dwNewCount],
                    n_objs := n_objs p + unat dwNewCount\<rparr>)))"

definition pool_Init :: "32 word \<Rightarrow> 32 word \<Rightarrow> 32 word \<Rightarrow> pool \<Rightarrow> bool \<times> pool" where
  "pool_Init dwInitCount dwGrowCount dwMaxCount p =
    (if dwMaxCount \<noteq> 0 \<and> dwMaxCount < dwInitCount then (False, p)
     else AllocT dwInitCount
       (p\<lparr>m_dwMaxCount := dwMaxCount, m_dwInitCount := dwInitCount, m_dwGrowCount := dwGrowCount\<rparr>))"

text \<open>Under the lock: whether the free list is empty.\<close>

definition fetch_empty :: "pool \<Rightarrow> bool" where
  "fetch_empty p \<longleftrightarrow> m_ListFree p = []"

text \<open>Under the lock: taking the first object.  \<open>None\<close> inside \<open>Some\<close> is the result \<open>NULL\<close>.\<close>

definition fetch_take :: "pool \<Rightarrow> (obj option \<times> pool) option" where
  "fetch_take p =
    (case m_ListFree p of [] \<Rightarrow> None
     | x # xs \<Rightarrow>
         if m_byRef p x \<noteq> 0 then Some (None, p)
         else Some (Some x, p\<lparr>m_byRef := (m_byRef p)(x := m_byRef p x + 1), m_ListFree := xs\<rparr>))"

definition FetchObj :: "pool \<Rightarrow> (obj option \<times> pool) option" where
  "FetchObj p =
    (if fetch_empty p then
       (let (ok, p) = AllocT (m_dwGrowCount p) p in if \<not> ok then Some (None, p) else fetch_take p)
     else fetch_take p)"

text \<open>\<open>0 != m_byRef - 1\<close> is computed in \<open>int\<close>: it refuses every object whose byte is not 1.\<close>

definition ReleaseObj :: "obj option \<Rightarrow> pool \<Rightarrow> pool option" where
  "ReleaseObj pObj p =
    (case pObj of None \<Rightarrow> Some p
     | Some x \<Rightarrow>
         if x \<ge> n_objs p then None
         else if uint (m_byRef p x) - 1 \<noteq> 0 then Some p
         else Some (p\<lparr>m_byRef := (m_byRef p)(x := m_byRef p x - 1), m_ListFree := m_ListFree p @ [x]\<rparr>))"

definition GetFreeCount :: "pool \<Rightarrow> nat" where
  "GetFreeCount p = length (m_ListFree p)"

section \<open>Invariant\<close>

definition held :: "pool \<Rightarrow> obj set" where
  "held p = {x. x < n_objs p \<and> x \<notin> set (m_ListFree p)}"

definition pool_ok :: "pool \<Rightarrow> bool" where
  "pool_ok p \<longleftrightarrow> distinct (m_ListFree p) \<and> (\<forall>x \<in> set (m_ListFree p). x < n_objs p) \<and>
     (\<forall>x < n_objs p. m_byRef p x = (if x \<in> set (m_ListFree p) then 0 else 1)) \<and>
     m_dwNowAllCount p = of_nat (n_objs p) \<and> sum_list (map unat (m_ListAll p)) = n_objs p \<and>
     (m_dwMaxCount p \<noteq> 0 \<longrightarrow> n_objs p \<le> unat (m_dwMaxCount p) \<and>
        unat (m_dwGrowCount p) + unat (m_dwMaxCount p) < 2 ^ 32)"

lemma unat_add32: "unat a + unat b < 2 ^ 32 \<Longrightarrow> unat (a + b :: 32 word) = unat a + unat b"
  by (simp add: unat_word_ariths)

lemma now_count:
  assumes "pool_ok p" "m_dwMaxCount p \<noteq> 0" shows "unat (m_dwNowAllCount p) = n_objs p"
proof -
  have "n_objs p < 2 ^ 32"
    using assms unsigned_less [of "m_dwMaxCount p", where 'a = nat] by (auto simp: pool_ok_def)
  then show ?thesis using assms by (simp add: pool_ok_def unat_of_nat)
qed

text \<open>What \<open>AllocT\<close> adds: a fresh block, cut off at the limit when there is one.\<close>

definition pool_step :: "32 word \<Rightarrow> pool \<Rightarrow> nat" where
  "pool_step n p =
    (if m_dwMaxCount p = 0 then unat n else min (unat n) (unat (m_dwMaxCount p) - n_objs p))"

definition pool_grow :: "nat \<Rightarrow> pool \<Rightarrow> pool" where
  "pool_grow k p = p\<lparr>m_dwNowAllCount := m_dwNowAllCount p + of_nat k,
     m_byRef := (\<lambda>x. if x \<in> set [n_objs p ..< n_objs p + k] then 0 else m_byRef p x),
     m_ListFree := m_ListFree p @ [n_objs p ..< n_objs p + k], m_ListAll := m_ListAll p @ [of_nat k],
     n_objs := n_objs p + k\<rparr>"

definition room :: "pool \<Rightarrow> bool" where
  "room p \<longleftrightarrow> m_dwMaxCount p \<noteq> 0 \<longrightarrow> n_objs p < unat (m_dwMaxCount p)"

lemma AllocT_grow:
  assumes "pool_ok p" "m_ListFree p = []" "n \<noteq> 0" "room p"
    "m_dwMaxCount p \<noteq> 0 \<longrightarrow> unat n + n_objs p < 2 ^ 32"
  shows "AllocT n p = (True, pool_grow (pool_step n p) p)"
proof (cases "m_dwMaxCount p = 0")
  case True
  then show ?thesis using assms(2,3) by (simp add: AllocT_def pool_grow_def pool_step_def Let_def)
next
  case False
  let ?max = "m_dwMaxCount p" and ?now = "m_dwNowAllCount p"
  have now: "unat ?now = n_objs p" by (rule now_count [OF assms(1) False])
  have less: "n_objs p < unat ?max" using assms(4) False by (simp add: room_def)
  have lt: "\<not> ?now \<ge> ?max" using less now by (simp add: word_le_nat_alt)
  have sum: "unat (n + ?now) = unat n + n_objs p" using assms(5) False now by (subst unat_add32) auto
  have diff: "unat (?max - ?now) = unat ?max - n_objs p"
    using less now by (subst unat_sub) (auto simp: word_le_nat_alt)
  let ?k = "if ?max \<noteq> 0 \<and> n + ?now \<ge> ?max then ?max - ?now else n"
  have k: "unat ?k = pool_step n p"
    using less diff sum False by (auto simp: word_le_nat_alt min_def pool_step_def)
  have w: "of_nat (unat ?k) = ?k" by simp
  have "AllocT n p = (True, pool_grow (unat ?k) p)"
    unfolding AllocT_def pool_grow_def w using assms(2,3) lt by (simp add: Let_def)
  then show ?thesis by (simp only: k)
qed

lemma pool_step_less: "pool_step n p < 2 ^ 32"
  using unsigned_less [of n, where 'a = nat] by (auto simp: pool_step_def)

lemma pool_step_pos: "n \<noteq> 0 \<Longrightarrow> room p \<Longrightarrow> 0 < pool_step n p"
  by (simp add: pool_step_def room_def unat_gt_0)

lemma pool_ok_grow:
  assumes "pool_ok p" "m_ListFree p = []"
  shows "pool_ok (pool_grow (pool_step n p) p)" "held (pool_grow (pool_step n p) p) = held p"
proof -
  have "unat (of_nat (pool_step n p) :: 32 word) = pool_step n p"
    using pool_step_less [of n p] by (simp add: unat_of_nat)
  moreover have "m_dwMaxCount p \<noteq> 0 \<longrightarrow> n_objs p + pool_step n p \<le> unat (m_dwMaxCount p)"
    using assms by (auto simp: pool_ok_def pool_step_def)
  ultimately show "pool_ok (pool_grow (pool_step n p) p)"
    using assms by (auto simp: pool_ok_def pool_grow_def)
  show "held (pool_grow (pool_step n p) p) = held p" using assms by (auto simp: held_def pool_grow_def)
qed

lemma fetch_take_ok:
  assumes "pool_ok p" "m_ListFree p = x # xs"
  shows "\<exists>p'. fetch_take p = Some (Some x, p') \<and> pool_ok p' \<and> x \<notin> held p \<and> held p' = insert x (held p) \<and>
    m_ListFree p' = xs \<and> m_dwGrowCount p' = m_dwGrowCount p \<and> m_dwMaxCount p' = m_dwMaxCount p \<and> n_objs p' = n_objs p"
  using assms by (auto simp: fetch_take_def pool_ok_def held_def)

lemma card_held: "pool_ok p \<Longrightarrow> m_ListFree p = [] \<Longrightarrow> card (held p) = n_objs p"
  by (simp add: held_def)

lemma finite_held [simp]: "finite (held p)"
  by (simp add: held_def)

lemma card_held_le: "card (held p) \<le> n_objs p"
  using card_mono [of "{..< n_objs p}" "held p"] by (auto simp: held_def)

lemma FetchObj_grows:
  assumes "pool_ok p" "m_ListFree p = []" "m_dwGrowCount p \<noteq> 0" "room p"
  shows "\<exists>x p'. FetchObj p = Some (Some x, p') \<and> pool_ok p' \<and> m_dwMaxCount p' = m_dwMaxCount p \<and>
    m_dwGrowCount p' = m_dwGrowCount p \<and> x \<notin> held p \<and> held p' = insert x (held p)"
proof -
  let ?k = "pool_step (m_dwGrowCount p) p"
  have g: "AllocT (m_dwGrowCount p) p = (True, pool_grow ?k p)"
    using assms by (intro AllocT_grow) (auto simp: pool_ok_def)
  have f: "m_ListFree (pool_grow ?k p) = n_objs p # [Suc (n_objs p) ..< n_objs p + ?k]"
    using pool_step_pos [OF assms(3,4)] assms(2) by (simp add: pool_grow_def upt_conv_Cons)
  have m: "m_dwMaxCount (pool_grow ?k p) = m_dwMaxCount p" "m_dwGrowCount (pool_grow ?k p) = m_dwGrowCount p"
    by (simp_all add: pool_grow_def)
  show ?thesis
    using fetch_take_ok [OF pool_ok_grow(1) [OF assms(1,2)] f] pool_ok_grow(2) [OF assms(1,2)] m g assms(2)
    by (auto simp: FetchObj_def fetch_empty_def)
qed

lemma FetchObj_ok:
  assumes "pool_ok p"
  shows "\<exists>r p'. FetchObj p = Some (r, p') \<and> pool_ok p' \<and> m_dwMaxCount p' = m_dwMaxCount p \<and>
    m_dwGrowCount p' = m_dwGrowCount p \<and> (m_dwGrowCount p = 0 \<longrightarrow> n_objs p' = n_objs p) \<and>
    (case r of Some x \<Rightarrow> x \<notin> held p \<and> held p' = insert x (held p)
     | None \<Rightarrow> p' = p \<and> m_ListFree p = [] \<and> (m_dwGrowCount p = 0 \<or> \<not> room p))"
proof (cases "m_ListFree p")
  case (Cons x xs)
  then show ?thesis using fetch_take_ok [OF assms Cons] by (auto simp: FetchObj_def fetch_empty_def)
next
  case Nil
  consider "m_dwGrowCount p = 0" | "\<not> room p" "m_dwGrowCount p \<noteq> 0" | "m_dwGrowCount p \<noteq> 0" "room p" by blast
  then show ?thesis
  proof cases
    case 1
    then show ?thesis using Nil assms by (simp add: FetchObj_def fetch_empty_def AllocT_def)
  next
    case 2
    then have "m_dwNowAllCount p \<ge> m_dwMaxCount p" "m_dwMaxCount p \<noteq> 0"
      using now_count [OF assms] assms by (auto simp: word_le_nat_alt room_def)
    then show ?thesis using Nil assms 2 by (simp add: FetchObj_def fetch_empty_def AllocT_def)
  next
    case 3
    then show ?thesis using FetchObj_grows [OF assms Nil 3] by fastforce
  qed
qed

lemma ReleaseObj_ok:
  assumes "pool_ok p" "x < n_objs p"
  shows "\<exists>p'. ReleaseObj (Some x) p = Some p' \<and> pool_ok p' \<and> held p' = held p - {x} \<and>
    m_dwMaxCount p' = m_dwMaxCount p \<and> m_dwGrowCount p' = m_dwGrowCount p \<and> n_objs p' = n_objs p \<and>
    (x \<notin> held p \<longrightarrow> p' = p)"
  using assms by (auto simp: ReleaseObj_def pool_ok_def held_def)


section \<open>Clients of a pool\<close>

text \<open>A client fetches objects, and releases what it was given, by the place of the fetch: more than
  once, or a \<open>NULL\<close>, if it is careless.\<close>

datatype pool_op = Fetch | Release nat

fun run_pool :: "('s \<Rightarrow> (obj option \<times> 's) option) \<Rightarrow> (obj option \<Rightarrow> 's \<Rightarrow> 's option) \<Rightarrow> pool_op list \<Rightarrow>
    obj option list \<Rightarrow> 's \<Rightarrow> (obj option list \<times> 's) option" where
  "run_pool fetch rel [] got s = Some (got, s)"
| "run_pool fetch rel (Fetch # ops) got s = do { (r, s) \<leftarrow> fetch s; run_pool fetch rel ops (got @ [r]) s }"
| "run_pool fetch rel (Release i # ops) got s =
    do { s \<leftarrow> rel (if i < length got then got ! i else None) s; run_pool fetch rel ops got s }"

text \<open>What the answers \<open>rs\<close> to the fetches must look like when the objects \<open>H\<close> are out and \<open>full\<close>
  says how many make the pool refuse: nobody gets an object that somebody holds, and a fetch is
  refused exactly when the pool is full.\<close>

fun exclusive :: "(nat \<Rightarrow> bool) \<Rightarrow> pool_op list \<Rightarrow> obj option list \<Rightarrow> obj set \<Rightarrow> obj option list \<Rightarrow> bool" where
  "exclusive full [] got H rs \<longleftrightarrow> rs = []"
| "exclusive full (Fetch # ops) got H rs \<longleftrightarrow>
    (case rs of [] \<Rightarrow> False
     | r # rs \<Rightarrow> (case r of Some x \<Rightarrow> \<not> full (card H) \<and> x \<notin> H \<and> exclusive full ops (got @ [r]) (insert x H) rs
                 | None \<Rightarrow> full (card H) \<and> exclusive full ops (got @ [r]) H rs))"
| "exclusive full (Release i # ops) got H rs \<longleftrightarrow>
    exclusive full ops got (if i < length got then H - set_option (got ! i) else H) rs"

locale object_pool =
  fixes inv :: "'l \<Rightarrow> 's \<Rightarrow> bool" and full :: "'l \<Rightarrow> nat \<Rightarrow> bool" and out :: "'s \<Rightarrow> obj set" and known :: "'s \<Rightarrow> obj \<Rightarrow> bool"
    and fetch :: "'s \<Rightarrow> (obj option \<times> 's) option" and rel :: "obj option \<Rightarrow> 's \<Rightarrow> 's option"
  assumes fetch_law: "inv l s \<Longrightarrow> \<exists>r s'. fetch s = Some (r, s') \<and> inv l s' \<and> (\<forall>x. known s x \<longrightarrow> known s' x) \<and>
      (case r of Some x \<Rightarrow> \<not> full l (card (out s)) \<and> x \<notin> out s \<and> out s' = insert x (out s) \<and> known s' x
       | None \<Rightarrow> out s' = out s \<and> full l (card (out s)))"
    and rel_law: "inv l s \<Longrightarrow> pred_option (known s) r \<Longrightarrow>
      \<exists>s'. rel r s = Some s' \<and> inv l s' \<and> (\<forall>x. known s x \<longrightarrow> known s' x) \<and> out s' = out s - set_option r"
begin

lemma run_exclusive:
  "inv l s \<Longrightarrow> \<forall>r \<in> set got. pred_option (known s) r \<Longrightarrow>
    \<exists>rs s'. run_pool fetch rel ops got s = Some (got @ rs, s') \<and> inv l s' \<and> exclusive (full l) ops got (out s) rs"
proof (induction ops arbitrary: got s)
  case (Cons e ops)
  have known_mono: "\<forall>r \<in> set got. pred_option (known s') r" if "\<forall>x. known s x \<longrightarrow> known s' x" for s'
    using Cons.prems(2) that by (auto simp: pred_option_def)
  show ?case
  proof (cases e)
    case Fetch
    obtain r s' where f: "fetch s = Some (r, s')" "inv l s'" "\<forall>x. known s x \<longrightarrow> known s' x"
      "case r of Some x \<Rightarrow> \<not> full l (card (out s)) \<and> x \<notin> out s \<and> out s' = insert x (out s) \<and> known s' x
       | None \<Rightarrow> out s' = out s \<and> full l (card (out s))"
      using fetch_law [OF Cons.prems(1)] by blast
    have "\<forall>r' \<in> set (got @ [r]). pred_option (known s') r'"
      using known_mono [OF f(3)] f(4) by (auto split: option.splits)
    then obtain rs s'' where "run_pool fetch rel ops (got @ [r]) s' = Some ((got @ [r]) @ rs, s'')" "inv l s''"
      "exclusive (full l) ops (got @ [r]) (out s') rs"
      using Cons.IH [OF f(2)] by blast
    then show ?thesis using f Fetch by (intro exI [of _ "r # rs"] exI [of _ s'']) (auto split: option.splits)
  next
    case (Release i)
    let ?r = "if i < length got then got ! i else None"
    have "pred_option (known s) ?r" using Cons.prems(2) nth_mem [of i got] by (auto simp del: nth_mem)
    then obtain s' where f: "rel ?r s = Some s'" "inv l s'" "\<forall>x. known s x \<longrightarrow> known s' x"
      "out s' = out s - set_option ?r"
      using rel_law [OF Cons.prems(1)] by blast
    obtain rs s'' where "run_pool fetch rel ops got s' = Some (got @ rs, s'')" "inv l s''"
      "exclusive (full l) ops got (out s') rs"
      using Cons.IH [OF f(2) known_mono [OF f(3)]] by blast
    then show ?thesis using f Release by (intro exI [of _ rs] exI [of _ s'']) auto
  qed
qed simp

end

text \<open>A pool that may not grow is full when its first block is out, one with a limit when the limit
  is out; a pool that may grow and has no limit is never full.\<close>

definition pool_full :: "32 word \<times> 32 word \<times> 32 word \<Rightarrow> nat \<Rightarrow> bool" where
  "pool_full = (\<lambda>(init, grow, limit) n. grow = 0 \<and> n = unat init \<or> limit \<noteq> 0 \<and> n = unat limit)"

definition pool_limits :: "32 word \<times> 32 word \<times> 32 word \<Rightarrow> pool \<Rightarrow> bool" where
  "pool_limits = (\<lambda>(init, grow, limit) p. pool_ok p \<and> grow = m_dwGrowCount p \<and> limit = m_dwMaxCount p \<and>
     (grow = 0 \<longrightarrow> n_objs p = unat init))"

lemma FetchObj_limits:
  assumes "pool_limits l p"
  shows "\<exists>r p'. FetchObj p = Some (r, p') \<and> pool_limits l p' \<and> (\<forall>x. x < n_objs p \<longrightarrow> x < n_objs p') \<and>
    (case r of None \<Rightarrow> held p' = held p \<and> pool_full l (card (held p))
     | Some x \<Rightarrow> \<not> pool_full l (card (held p)) \<and> x \<notin> held p \<and> held p' = insert x (held p) \<and> x < n_objs p')"
proof -
  obtain init grow limit where l: "l = (init, grow, limit)" by (cases l)
  have h: "pool_ok p" "grow = m_dwGrowCount p" "limit = m_dwMaxCount p" "grow = 0 \<longrightarrow> n_objs p = unat init"
    using assms l by (auto simp: pool_limits_def)
  obtain r p' where f: "FetchObj p = Some (r, p')" "pool_ok p'" "m_dwMaxCount p' = m_dwMaxCount p"
    "m_dwGrowCount p' = m_dwGrowCount p" "m_dwGrowCount p = 0 \<longrightarrow> n_objs p' = n_objs p"
    "case r of Some x \<Rightarrow> x \<notin> held p \<and> held p' = insert x (held p)
     | None \<Rightarrow> p' = p \<and> m_ListFree p = [] \<and> (m_dwGrowCount p = 0 \<or> \<not> room p)"
    using FetchObj_ok [OF h(1)] by blast
  have mono: "n_objs p \<le> n_objs p'"
    using f(1) by (auto simp: FetchObj_def fetch_take_def AllocT_def Let_def split: if_splits list.splits)
  have lim: "pool_limits l p'" using h f(2-5) l by (simp add: pool_limits_def)
  show ?thesis
  proof (cases r)
    case None
    then have "card (held p) = n_objs p" using card_held [OF h(1)] f(6) by simp
    then have "pool_full l (card (held p))"
      using f(6) h None l by (auto simp: pool_full_def room_def pool_ok_def)
    then show ?thesis using f(1,6) lim mono None by auto
  next
    case (Some x)
    then have x: "x \<notin> held p" "held p' = insert x (held p)" using f(6) by auto
    then have "card (held p) < n_objs p'" using card_held_le [of p'] by simp
    then have "\<not> pool_full l (card (held p))"
      using h f(2-5) l by (auto simp: pool_full_def pool_ok_def)
    moreover have "x < n_objs p'" using x(2) by (auto simp: held_def)
    ultimately show ?thesis using f(1) x lim mono Some by auto
  qed
qed

interpretation dpool: object_pool pool_limits pool_full held "\<lambda>p x. x < n_objs p" FetchObj ReleaseObj
proof unfold_locales
  fix l p
  assume "pool_limits l p"
  then show "\<exists>r s'. FetchObj p = Some (r, s') \<and> pool_limits l s' \<and> (\<forall>x. x < n_objs p \<longrightarrow> x < n_objs s') \<and>
      (case r of None \<Rightarrow> held s' = held p \<and> pool_full l (card (held p))
       | Some x \<Rightarrow> \<not> pool_full l (card (held p)) \<and> x \<notin> held p \<and> held s' = insert x (held p) \<and> x < n_objs s')"
    by (rule FetchObj_limits)
next
  fix l p r
  assume h: "pool_limits l p" "pred_option (\<lambda>x. x < n_objs p) r"
  show "\<exists>s'. ReleaseObj r p = Some s' \<and> pool_limits l s' \<and>
      (\<forall>x. x < n_objs p \<longrightarrow> x < n_objs s') \<and> held s' = held p - set_option r"
  proof (cases r)
    case None
    then show ?thesis using h by (simp add: ReleaseObj_def)
  next
    case (Some x)
    then show ?thesis using ReleaseObj_ok [of p x] h by (fastforce simp: pool_limits_def)
  qed
qed

lemma pool_Init_ok:
  assumes "dwInitCount \<noteq> 0" "dwMaxCount \<noteq> 0 \<longrightarrow> dwInitCount \<le> dwMaxCount"
    "dwMaxCount \<noteq> 0 \<longrightarrow> unat dwGrowCount + unat dwMaxCount < 2 ^ 32"
  shows "\<exists>p. pool_Init dwInitCount dwGrowCount dwMaxCount TDynamicPoolEx = (True, p) \<and> pool_ok p \<and> held p = {} \<and>
    n_objs p = unat dwInitCount \<and> m_dwGrowCount p = dwGrowCount \<and> m_dwMaxCount p = dwMaxCount"
proof -
  let ?p = "TDynamicPoolEx\<lparr>m_dwMaxCount := dwMaxCount, m_dwInitCount := dwInitCount, m_dwGrowCount := dwGrowCount\<rparr>"
  have ok: "pool_ok ?p" "m_ListFree ?p = []" "n_objs ?p = 0" "held ?p = {}"
    using assms by (simp_all add: pool_ok_def TDynamicPoolEx_def held_def)
  have le: "dwMaxCount \<noteq> 0 \<longrightarrow> unat dwInitCount \<le> unat dwMaxCount" using assms(2) by (simp add: word_le_nat_alt)
  have small: "unat dwInitCount < 2 ^ 32" using unsigned_less [of dwInitCount, where 'a = nat] by simp
  have step: "pool_step dwInitCount ?p = unat dwInitCount" using le ok(3) by (simp add: pool_step_def min_def)
  have "AllocT dwInitCount ?p = (True, pool_grow (unat dwInitCount) ?p)"
    using AllocT_grow [OF ok(1,2) assms(1)] small step ok(3) by (simp add: unat_gt_0 room_def)
  then have "pool_Init dwInitCount dwGrowCount dwMaxCount TDynamicPoolEx = (True, pool_grow (unat dwInitCount) ?p)"
    using assms(2) by (auto simp: pool_Init_def)
  moreover have "pool_ok (pool_grow (unat dwInitCount) ?p)" "held (pool_grow (unat dwInitCount) ?p) = {}"
    using pool_ok_grow [OF ok(1,2), of dwInitCount] step ok(4) by auto
  moreover have "n_objs (pool_grow (unat dwInitCount) ?p) = unat dwInitCount \<and>
      m_dwGrowCount (pool_grow (unat dwInitCount) ?p) = dwGrowCount \<and>
      m_dwMaxCount (pool_grow (unat dwInitCount) ?p) = dwMaxCount"
    using ok(3) by (simp add: pool_grow_def)
  ultimately show ?thesis by blast
qed

section \<open>Properties\<close>

text \<open>C23: a pool, with a limit or (as most pools of the library) without, whose calls do not overlap,
  never hands out an object that is still held, whatever the order of fetches and releases and
  however often an object or \<open>NULL\<close> is released again.  A fetch is refused exactly when the pool is
  full: it may not grow and all its first block is out, or it has a limit and that many objects are
  out; a pool that may grow without limit never refuses, also when its 32-bit count of objects
  wraps around.  At the end the objects, free and held, are those allocated, each with the right
  reference byte and within the limit.  What happens when the calls of two threads overlap is the
  next property.\<close>

theorem pool_exclusive:
  assumes "dwInitCount \<noteq> 0" "dwMaxCount \<noteq> 0 \<longrightarrow> dwInitCount \<le> dwMaxCount"
    "dwMaxCount \<noteq> 0 \<longrightarrow> unat dwGrowCount + unat dwMaxCount < 2 ^ 32"
  shows "\<exists>p rs p'. pool_Init dwInitCount dwGrowCount dwMaxCount TDynamicPoolEx = (True, p) \<and>
    run_pool FetchObj ReleaseObj ops [] p = Some (rs, p') \<and> pool_ok p' \<and>
    (dwMaxCount \<noteq> 0 \<longrightarrow> n_objs p' \<le> unat dwMaxCount) \<and>
    exclusive (pool_full (dwInitCount, dwGrowCount, dwMaxCount)) ops [] {} rs"
proof -
  obtain p where p: "pool_Init dwInitCount dwGrowCount dwMaxCount TDynamicPoolEx = (True, p)" "held p = {}"
    "pool_limits (dwInitCount, dwGrowCount, dwMaxCount) p"
    using pool_Init_ok [OF assms] by (auto simp: pool_limits_def)
  obtain rs p' where r: "run_pool FetchObj ReleaseObj ops [] p = Some (rs, p')"
    "pool_limits (dwInitCount, dwGrowCount, dwMaxCount) p'"
    "exclusive (pool_full (dwInitCount, dwGrowCount, dwMaxCount)) ops [] {} rs"
    using dpool.run_exclusive [OF p(3), of "[]" ops] p(2) by auto
  then have "pool_ok p'" "dwMaxCount \<noteq> 0 \<longrightarrow> n_objs p' \<le> unat dwMaxCount"
    by (auto simp: pool_limits_def pool_ok_def)
  then show ?thesis using p(1) r(1,3) by blast
qed

theorem pool_exclusive_witness:
  "(\<exists>p rs p'. pool_Init 1 2 3 TDynamicPoolEx = (True, p) \<and>
    run_pool FetchObj ReleaseObj [Fetch, Fetch, Release 0, Release 0, Fetch, Fetch, Fetch] [] p = Some (rs, p') \<and>
    n_objs p' \<le> 3) \<and>
   (\<exists>p rs p'. pool_Init 1 2 0 TDynamicPoolEx = (True, p) \<and>
    run_pool FetchObj ReleaseObj [Fetch, Fetch, Release 0, Fetch] [] p = Some (rs, p') \<and> None \<notin> set rs)"
proof
  show "\<exists>p rs p'. pool_Init 1 2 3 TDynamicPoolEx = (True, p) \<and>
    run_pool FetchObj ReleaseObj [Fetch, Fetch, Release 0, Release 0, Fetch, Fetch, Fetch] [] p = Some (rs, p') \<and>
    n_objs p' \<le> 3"
    using pool_exclusive [of 1 3 2 "[Fetch, Fetch, Release 0, Release 0, Fetch, Fetch, Fetch]"] by auto
  show "\<exists>p rs p'. pool_Init 1 2 0 TDynamicPoolEx = (True, p) \<and>
    run_pool FetchObj ReleaseObj [Fetch, Fetch, Release 0, Fetch] [] p = Some (rs, p') \<and> None \<notin> set rs"
    using pool_exclusive [of 1 0 2 "[Fetch, Fetch, Release 0, Fetch]"]
    by (fastforce simp: pool_full_def split: list.splits option.splits)
qed

text \<open>Objects fetched one after the other.\<close>

fun fetch_many :: "nat \<Rightarrow> pool \<Rightarrow> pool option" where
  "fetch_many 0 p = Some p"
| "fetch_many (Suc n) p = do { (r, p) \<leftarrow> FetchObj p; fetch_many n p }"

lemma fetch_many_drains:
  "pool_ok p \<Longrightarrow> n \<le> length (m_ListFree p) \<Longrightarrow> \<exists>p'. fetch_many n p = Some p' \<and> m_ListFree p' = drop n (m_ListFree p)"
proof (induction n arbitrary: p)
  case (Suc n)
  then obtain x xs where l: "m_ListFree p = x # xs" by (cases "m_ListFree p") auto
  obtain p' where "fetch_take p = Some (Some x, p')" "pool_ok p'" "m_ListFree p' = xs"
    using fetch_take_ok [OF Suc.prems(1) l] by blast
  then show ?case using Suc.IH [of p'] Suc.prems l by (auto simp: FetchObj_def fetch_empty_def)
qed simp

text \<open>C24: \<open>FetchObj\<close> is not safe against another thread, although it locks: it finds the free list
  empty, lets go of the lock to allocate, and takes the first object without a second look.  When
  another thread fetches as many objects as were just allocated in between, \<open>front\<close> and
  \<open>pop_front\<close> are called on an empty deque.\<close>

theorem fetch_race:
  assumes "pool_ok p" "fetch_empty p" "m_dwGrowCount p \<noteq> 0"
    "m_dwMaxCount p = 0 \<or> n_objs p < unat (m_dwMaxCount p)"
  shows "\<exists>p1 p2. AllocT (m_dwGrowCount p) p = (True, p1) \<and> fetch_many (GetFreeCount p1) p1 = Some p2 \<and>
    fetch_take p1 \<noteq> None \<and> fetch_take p2 = None"
proof -
  have e: "m_ListFree p = []" using assms(2) by (simp add: fetch_empty_def)
  have room: "room p" using assms(4) by (auto simp: room_def)
  let ?k = "pool_step (m_dwGrowCount p) p"
  have g: "AllocT (m_dwGrowCount p) p = (True, pool_grow ?k p)"
    using assms by (intro AllocT_grow [OF assms(1) e assms(3) room]) (auto simp: pool_ok_def)
  have ok: "pool_ok (pool_grow ?k p)" using pool_ok_grow [OF assms(1) e] by simp
  obtain p2 where p2: "fetch_many (GetFreeCount (pool_grow ?k p)) (pool_grow ?k p) = Some p2" "m_ListFree p2 = []"
    using fetch_many_drains [OF ok, of "length (m_ListFree (pool_grow ?k p))"] by (auto simp: GetFreeCount_def)
  have "fetch_take (pool_grow ?k p) \<noteq> None"
    using e pool_step_pos [OF assms(3) room] by (simp add: fetch_take_def pool_grow_def upt_conv_Cons)
  moreover have "fetch_take p2 = None" using p2(2) by (simp add: fetch_take_def)
  ultimately show ?thesis using g p2(1) by blast
qed

theorem fetch_race_witness:
  "\<exists>p1 p2. let p = TDynamicPoolEx\<lparr>m_dwGrowCount := 1, m_dwMaxCount := 5\<rparr> in
    AllocT 1 p = (True, p1) \<and> fetch_many (GetFreeCount p1) p1 = Some p2 \<and> fetch_take p2 = None"
  using fetch_race [of "TDynamicPoolEx\<lparr>m_dwGrowCount := 1, m_dwMaxCount := 5\<rparr>"]
  by (auto simp: pool_ok_def TDynamicPoolEx_def fetch_empty_def)

end
