(* ===== verification/Timer.thy ===== *)
theory Timer imports Complex_Main Prelude "HOL-Library.Monad_Syntax" begin

text \<open>
  Deferred events: the limiter queue \<open>TLimiterQueue\<close> of \<open>Server/meta_header/limiter_queue.h\<close> and
  the timer \<open>FxTimerHandler\<close> of \<open>Server/common/fxtimer.cpp\<close> built on it.  The queue is a multimap
  from keys to pointers to events; an event keeps in \<open>m_ppCallBack\<close> the address of the pointer that
  refers to it, so that its destructor can clear the pointer.  A node of the multimap is a slot with
  an identity, which is that address; an event is named by an element of a type \<open>'e\<close>, and \<open>alive\<close>
  holds the events not yet destroyed.  The callbacks (\<open>Tick\<close>) are the argument \<open>tick\<close>, which acts
  on the queue and on the rest of the program, the state \<open>'w\<close>; its result is not used.
  \<open>None\<close> is undefined behaviour: a destroyed event or an erased slot is accessed, a division by
  zero, or a conversion to \<open>int\<close> out of range.  Times are real numbers, the rounding of \<open>double\<close> is
  not modelled.
\<close>

section \<open>The limiter queue\<close>

record ('c, 'e) slot =
  key :: 'c
  addr :: nat
  event :: "'e option"

record ('c, 'e) limiter_queue =
  m_mmapEvents :: "('c, 'e) slot list"
  m_ppCallBack :: "'e \<Rightarrow> nat option"
  alive :: "'e set"
  next_addr :: nat

definition SetPP :: "nat option \<Rightarrow> 'e \<Rightarrow> ('c, 'e) limiter_queue \<Rightarrow> ('c, 'e) limiter_queue option" where
  "SetPP pp e q = (if e \<in> alive q then Some (q\<lparr>m_ppCallBack := (m_ppCallBack q)(e := pp)\<rparr>) else None)"

text \<open>\<open>multimap::insert\<close> puts an element behind those with the same key.\<close>

definition mm_insert :: "('c :: linorder, 'e) slot \<Rightarrow> ('c, 'e) slot list \<Rightarrow> ('c, 'e) slot list" where
  "mm_insert s xs = takeWhile (\<lambda>t. key t \<le> key s) xs @ s # dropWhile (\<lambda>t. key t \<le> key s) xs"

definition PushEvent :: "'c :: linorder \<Rightarrow> 'e \<Rightarrow> ('c, 'e) limiter_queue \<Rightarrow> (nat \<times> ('c, 'e) limiter_queue) option" where
  "PushEvent c pCallBack q =
    (let a = next_addr q; s = \<lparr>key = c, addr = a, event = Some pCallBack\<rparr> in
     do { q \<leftarrow> SetPP (Some a) pCallBack (q\<lparr>m_mmapEvents := mm_insert s (m_mmapEvents q), next_addr := a + 1\<rparr>);
          Some (a, q) })"

text \<open>The destructor of \<open>CEventBase\<close>: it clears the pointer at its address.\<close>

definition clear_slot :: "nat \<Rightarrow> ('c, 'e) slot \<Rightarrow> ('c, 'e) slot" where
  "clear_slot a s = (if addr s = a then s\<lparr>event := None\<rparr> else s)"

definition Destroy :: "'e \<Rightarrow> ('c, 'e) limiter_queue \<Rightarrow> ('c, 'e) limiter_queue option" where
  "Destroy e q =
    (if e \<notin> alive q then None
     else (case m_ppCallBack q e of
             None \<Rightarrow> Some (q\<lparr>alive := alive q - {e}\<rparr>)
           | Some a \<Rightarrow>
               if a \<in> addr ` set (m_mmapEvents q)
               then Some (q\<lparr>m_mmapEvents := map (clear_slot a) (m_mmapEvents q), alive := alive q - {e}\<rparr>)
               else None))"

type_synonym ('c, 'e, 'w) ticker =
  "'e \<Rightarrow> real \<Rightarrow> ('c, 'e) limiter_queue \<times> 'w \<Rightarrow> (('c, 'e) limiter_queue \<times> 'w) option"

fun Proc :: "('c \<Rightarrow> bool) \<Rightarrow> ('c, 'e, 'w) ticker \<Rightarrow> nat \<Rightarrow> real \<Rightarrow> ('c, 'e) limiter_queue \<times> 'w
    \<Rightarrow> (('c, 'e) limiter_queue \<times> 'w) option" where
  "Proc CheckEvent tick 0 qwTick (q, w) = Some (q, w)"
| "Proc CheckEvent tick (Suc n) qwTick (q, w) =
    (case m_mmapEvents q of [] \<Rightarrow> Some (q, w)
     | s # xs \<Rightarrow>
         if \<not> CheckEvent (key s) then Some (q, w)
         else (case event s of
                 None \<Rightarrow> Proc CheckEvent tick n qwTick (q, w)
               | Some pCB \<Rightarrow>
                   do { q \<leftarrow> SetPP None pCB (q\<lparr>m_mmapEvents := xs\<rparr>);
                        (q, w) \<leftarrow> tick pCB qwTick (q, w);
                        Proc CheckEvent tick n qwTick (q, w) }))"

section \<open>The timer\<close>

record 'e timer =
  m_qwSecond :: real
  m_qwDeltaTime :: real
  m_dwDayTimeStart :: "32 word"
  queue :: "(real, 'e) limiter_queue"

definition GetSecond :: "'e timer \<Rightarrow> 32 word" where
  "GetSecond t = of_int \<lfloor>m_qwSecond t\<rfloor>"

definition GetMilliSecond :: "'e timer \<Rightarrow> real" where
  "GetMilliSecond t = m_qwSecond t"

definition GetDayTimeStart :: "'e timer \<Rightarrow> 32 word" where
  "GetDayTimeStart t = m_dwDayTimeStart t"

definition GetDeltaTime :: "'e timer \<Rightarrow> real" where
  "GetDeltaTime t = m_qwDeltaTime t"

definition timer_push :: "real \<Rightarrow> 'e \<Rightarrow> 'e timer \<Rightarrow> 'e timer option" where
  "timer_push c pEvent t = do { (a, q) \<leftarrow> PushEvent c pEvent (queue t); Some (t\<lparr>queue := q\<rparr>) }"

definition AddTimer :: "real \<Rightarrow> 'e \<Rightarrow> 'e timer \<Rightarrow> 'e timer option" where
  "AddTimer dSecond pEvent t = timer_push (GetMilliSecond t + dSecond) pEvent t"

definition AddSecondTimer :: "32 word \<Rightarrow> 'e \<Rightarrow> 'e timer \<Rightarrow> 'e timer option" where
  "AddSecondTimer dwSecond pEvent t =
    (if dwSecond = 0 then None
     else timer_push (real (unat (GetSecond t - GetSecond t mod dwSecond + dwSecond))) pEvent t)"

definition AddMinuteTimer :: "32 word \<Rightarrow> 'e \<Rightarrow> 'e timer \<Rightarrow> 'e timer option" where
  "AddMinuteTimer dwMinute pEvent t =
    (if dwMinute * 60 = 0 then None
     else timer_push (real (unat (GetSecond t - GetSecond t mod (dwMinute * 60) + dwMinute * 60))) pEvent t)"

definition AddHourTimer :: "32 word \<Rightarrow> 'e \<Rightarrow> 'e timer \<Rightarrow> 'e timer option" where
  "AddHourTimer dwHour pEvent t =
    (let dwH1 = (GetSecond t - m_dwDayTimeStart t) div 3600 in
     if dwHour = 0 then None
     else timer_push (real (unat (m_dwDayTimeStart t + (dwH1 - dwH1 mod dwHour + dwHour) * 3600))) pEvent t)"

definition AddDayHourTimer :: "32 word \<Rightarrow> 'e \<Rightarrow> 'e timer \<Rightarrow> 'e timer option" where
  "AddDayHourTimer dwHour pEvent t =
    (let dwTime = m_dwDayTimeStart t + dwHour * 3600;
         dwTime = (if dwTime \<le> GetSecond t then dwTime + 86400 else dwTime)
     in timer_push (real (unat dwTime)) pEvent t)"

definition CheckEvent :: "'e timer \<Rightarrow> real \<Rightarrow> bool" where
  "CheckEvent t c \<longleftrightarrow> c \<le> m_qwSecond t"

text \<open>Conversion of a \<open>double\<close> to \<open>int\<close>: the fraction is cut off.\<close>

definition to_int :: "real \<Rightarrow> int option" where
  "to_int x = (let n = (if 0 \<le> x then \<lfloor>x\<rfloor> else \<lceil>x\<rceil>) in if -(2 ^ 31) \<le> n \<and> n < 2 ^ 31 then Some n else None)"

text \<open>\<open>__Refresh\<close>, with the time of day as the argument \<open>now\<close>; the text of the time is left out.\<close>

definition Refresh :: "(real, 'e, 'w) ticker \<Rightarrow> real \<Rightarrow> 'e timer \<times> 'w \<Rightarrow> ('e timer \<times> 'w) option" where
  "Refresh tick now s =
    (let (t, w) = s; t = t\<lparr>m_qwDeltaTime := now - m_qwSecond t\<rparr> in
     if m_qwDeltaTime t = 0 then None
     else do {
       n \<leftarrow> to_int (1 / m_qwDeltaTime t);
       (q, w) \<leftarrow> Proc (CheckEvent t) tick (nat n) now (queue t, w);
       let t1 = t\<lparr>queue := q\<rparr>;
       if (of_int \<lfloor>now\<rfloor> :: 32 word) = of_int \<lfloor>m_qwSecond t1\<rfloor> then Some (t1\<lparr>m_qwSecond := now\<rparr>, w)
       else Some (t1\<lparr>m_qwSecond := now,
                   m_dwDayTimeStart := (if \<lfloor>now\<rfloor> - int (unat (m_dwDayTimeStart t1)) \<ge> 86400
                                        then m_dwDayTimeStart t1 + 86400 else m_dwDayTimeStart t1)\<rparr>, w) })"

section \<open>Invariant\<close>

text \<open>An event that waits has exactly one slot, and its back pointer names it.\<close>

definition lq_ok :: "('c :: linorder, 'e) limiter_queue \<Rightarrow> bool" where
  "lq_ok q \<longleftrightarrow> sorted (map key (m_mmapEvents q)) \<and> distinct (map addr (m_mmapEvents q)) \<and>
     (\<forall>s \<in> set (m_mmapEvents q). addr s < next_addr q) \<and>
     (\<forall>s \<in> set (m_mmapEvents q). \<forall>e. event s = Some e \<longrightarrow> e \<in> alive q \<and> m_ppCallBack q e = Some (addr s)) \<and>
     (\<forall>e \<in> alive q. \<forall>a. m_ppCallBack q e = Some a \<longrightarrow>
        (\<exists>s \<in> set (m_mmapEvents q). addr s = a \<and> event s = Some e))"

lemma lq_slotD: "lq_ok q \<Longrightarrow> s \<in> set (m_mmapEvents q) \<Longrightarrow> event s = Some e \<Longrightarrow>
    e \<in> alive q \<and> m_ppCallBack q e = Some (addr s)"
  by (simp add: lq_ok_def)

lemma lq_ppD: "lq_ok q \<Longrightarrow> e \<in> alive q \<Longrightarrow> m_ppCallBack q e = Some a \<Longrightarrow>
    \<exists>s \<in> set (m_mmapEvents q). addr s = a \<and> event s = Some e"
  unfolding lq_ok_def by blast

definition lq_empty :: "('c, 'e) limiter_queue" where
  "lq_empty = \<lparr>m_mmapEvents = [], m_ppCallBack = (\<lambda>_. None), alive = {}, next_addr = 0\<rparr>"

lemma lq_ok_empty: "lq_ok lq_empty"
  by (simp add: lq_ok_def lq_empty_def)

lemma set_mm_insert [simp]: "set (mm_insert s xs) = insert s (set xs)"
proof -
  have "set xs = set (takeWhile (\<lambda>t. key t \<le> key s) xs) \<union> set (dropWhile (\<lambda>t. key t \<le> key s) xs)"
    by (metis set_append takeWhile_dropWhile_id)
  then show ?thesis by (auto simp: mm_insert_def)
qed

lemma sorted_mm_insert:
  assumes "sorted (map key xs)" shows "sorted (map key (mm_insert s xs))"
  using assms
proof (induction xs)
  case (Cons x xs)
  then show ?case
    by (cases "key x \<le> key s") (auto simp: mm_insert_def set_mm_insert dest!: set_takeWhileD set_dropWhileD intro: less_imp_le order_trans)
qed (simp add: mm_insert_def)

lemma distinct_mm_insert:
  "distinct (map addr xs) \<Longrightarrow> addr s \<notin> addr ` set xs \<Longrightarrow> distinct (map addr (mm_insert s xs))"
proof (induction xs)
  case (Cons x xs)
  then show ?case
    using set_mm_insert [of s xs] by (cases "key x \<le> key s") (auto simp: mm_insert_def)
qed (simp add: mm_insert_def)

text \<open>What the rest of the program may do with a queue: create an event, push one that does not
  wait already, destroy one.  \<open>K\<close> says which keys are pushed.\<close>

inductive client :: "('c :: linorder \<Rightarrow> bool) \<Rightarrow> ('c, 'e) limiter_queue \<Rightarrow> ('c, 'e) limiter_queue \<Rightarrow> bool"
  for K where
  create: "e \<notin> alive q \<Longrightarrow> client K q (q\<lparr>alive := insert e (alive q), m_ppCallBack := (m_ppCallBack q)(e := None)\<rparr>)"
| push: "e \<in> alive q \<Longrightarrow> m_ppCallBack q e = None \<Longrightarrow> K c \<Longrightarrow> PushEvent c e q = Some (a, q') \<Longrightarrow> client K q q'"
| destroy: "Destroy e q = Some q' \<Longrightarrow> client K q q'"

inductive_cases clientE: "client K q q'"

lemma lq_ok_create:
  "lq_ok q \<Longrightarrow> e \<notin> alive q \<Longrightarrow> lq_ok (q\<lparr>alive := insert e (alive q), m_ppCallBack := (m_ppCallBack q)(e := None)\<rparr>)"
  by (auto simp: lq_ok_def)

lemma lq_ok_push:
  assumes "lq_ok q" "m_ppCallBack q e = None" "PushEvent c e q = Some (a, q')"
  shows "lq_ok q'"
proof -
  let ?s = "\<lparr>key = c, addr = next_addr q, event = Some e\<rparr>"
  have q': "q' = q\<lparr>m_mmapEvents := mm_insert ?s (m_mmapEvents q), next_addr := next_addr q + 1,
      m_ppCallBack := (m_ppCallBack q)(e := Some (next_addr q))\<rparr>" "e \<in> alive q"
    using assms(3) by (auto simp: PushEvent_def SetPP_def Let_def split: if_splits)
  have f: "next_addr q \<notin> addr ` set (m_mmapEvents q)" using assms(1) by (auto simp: lq_ok_def)
  show ?thesis
    unfolding lq_ok_def q'(1)
    using assms(1,2) q'(2) f sorted_mm_insert [of "m_mmapEvents q" ?s] distinct_mm_insert [of "m_mmapEvents q" ?s]
    by (auto simp: lq_ok_def less_Suc_eq)
qed

lemma key_clear [simp]: "key (clear_slot a s) = key s" "addr (clear_slot a s) = addr s"
  by (simp_all add: clear_slot_def)

lemma lq_ok_destroy:
  assumes "lq_ok q" "Destroy e q = Some q'"
  shows "lq_ok q'"
proof (cases "m_ppCallBack q e")
  case None
  then show ?thesis using assms by (auto simp: lq_ok_def Destroy_def split: if_splits)
next
  case (Some a)
  have q': "q' = q\<lparr>m_mmapEvents := map (clear_slot a) (m_mmapEvents q), alive := alive q - {e}\<rparr>" "e \<in> alive q"
    using assms(2) Some by (auto simp: Destroy_def split: if_splits)
  have "map key (map (clear_slot a) (m_mmapEvents q)) = map key (m_mmapEvents q)"
    "map addr (map (clear_slot a) (m_mmapEvents q)) = map addr (m_mmapEvents q)" by simp_all
  moreover have "e' \<in> alive q' \<and> m_ppCallBack q' e' = Some (addr s)"
    if "s \<in> set (map (clear_slot a) (m_mmapEvents q))" "event s = Some e'" for s e'
    using that assms(1) Some q' by (auto simp: lq_ok_def clear_slot_def split: if_splits)
  moreover have "\<exists>s \<in> set (map (clear_slot a) (m_mmapEvents q)). addr s = b \<and> event s = Some e'"
    if "e' \<in> alive q'" "m_ppCallBack q' e' = Some b" for b e'
  proof -
    have "e' \<in> alive q" "m_ppCallBack q e' = Some b" using that q' by auto
    then obtain s where s: "s \<in> set (m_mmapEvents q)" "addr s = b" "event s = Some e'"
      using lq_ppD [OF assms(1)] by blast
    obtain s0 where s0: "s0 \<in> set (m_mmapEvents q)" "addr s0 = a" "event s0 = Some e"
      using lq_ppD [OF assms(1) q'(2) Some] by blast
    have "b \<noteq> a"
    proof
      assume "b = a"
      then have "s = s0" using s s0 assms(1) by (auto simp: lq_ok_def distinct_map inj_on_def)
      then show False using s s0 that q' by auto
    qed
    then have "clear_slot a s = s" using s by (simp add: clear_slot_def)
    then show ?thesis using s by force
  qed
  ultimately show ?thesis using assms(1) q' by (auto simp: lq_ok_def simp del: map_map)
qed

lemma lq_ok_client: "client K q q' \<Longrightarrow> lq_ok q \<Longrightarrow> lq_ok q'"
  by (erule clientE) (auto intro: lq_ok_create lq_ok_push lq_ok_destroy)

lemma lq_ok_clients: "(client K)\<^sup>*\<^sup>* q q' \<Longrightarrow> lq_ok q \<Longrightarrow> lq_ok q'"
  by (induction rule: rtranclp_induct) (auto intro: lq_ok_client)

lemma Destroy_defined: "lq_ok q \<Longrightarrow> e \<in> alive q \<Longrightarrow> \<exists>q'. Destroy e q = Some q'"
  by (force simp: Destroy_def lq_ok_def split: option.splits)


section \<open>Running the queue\<close>

text \<open>A callback is disciplined when it does nothing to the queue but what a client may do.\<close>

definition disciplined :: "('c :: linorder, 'e, 'w) ticker \<Rightarrow> bool" where
  "disciplined tick \<longleftrightarrow> (\<forall>e t q w. e \<in> alive q \<longrightarrow> (\<exists>q' w'. tick e t (q, w) = Some (q', w') \<and> (client (\<lambda>_. True))\<^sup>*\<^sup>* q q'))"

lemma lq_ok_erase:
  assumes "lq_ok q" "m_mmapEvents q = s # xs" "event s = Some e"
  shows "\<exists>q'. SetPP None e (q\<lparr>m_mmapEvents := xs\<rparr>) = Some q' \<and> lq_ok q' \<and> e \<in> alive q' \<and> m_mmapEvents q' = xs"
proof -
  have e: "e \<in> alive q" "m_ppCallBack q e = Some (addr s)" using assms by (auto simp: lq_ok_def)
  have "m_ppCallBack q e' = Some (addr r) \<and> e' \<noteq> e" if "r \<in> set xs" "event r = Some e'" for r e'
  proof -
    have r: "r \<in> set (m_mmapEvents q)" using that assms(2) by simp
    have "addr s \<notin> addr ` set xs" using assms(1,2) by (simp add: lq_ok_def)
    then have "addr r \<noteq> addr s" using that(1) by (metis imageI)
    then show ?thesis using lq_slotD [OF assms(1) r that(2)] e(2) by auto
  qed
  moreover have "\<exists>r \<in> set xs. addr r = a \<and> event r = Some e'"
    if e': "e' \<in> alive q" "m_ppCallBack q e' = Some a" "e' \<noteq> e" for e' a
  proof -
    obtain r where "r \<in> set (m_mmapEvents q)" "addr r = a" "event r = Some e'"
      using lq_ppD [OF assms(1) e'(1,2)] by blast
    then show ?thesis using assms(2,3) e'(3) by auto
  qed
  ultimately show ?thesis
    using assms(1,2) e by (auto simp: SetPP_def lq_ok_def)
qed

lemma Proc_defined:
  "lq_ok q \<Longrightarrow> disciplined tick \<Longrightarrow> \<exists>q' w'. Proc chk tick n t (q, w) = Some (q', w') \<and> lq_ok q'"
proof (induction n arbitrary: q w)
  case (Suc n)
  show ?case
  proof (cases "m_mmapEvents q")
    case Nil
    then show ?thesis using Suc.prems by simp
  next
    case (Cons s xs)
    show ?thesis
    proof (cases "event s")
      case None
      then show ?thesis using Cons Suc by (cases "chk (key s)") auto
    next
      case (Some e)
      obtain q1 where q1: "SetPP None e (q\<lparr>m_mmapEvents := xs\<rparr>) = Some q1" "lq_ok q1" "e \<in> alive q1"
        using lq_ok_erase [OF Suc.prems(1) Cons Some] by blast
      obtain q2 w2 where q2: "tick e t (q1, w) = Some (q2, w2)" "(client (\<lambda>_. True))\<^sup>*\<^sup>* q1 q2"
        using Suc.prems(2) q1(3) unfolding disciplined_def by blast
      have "lq_ok q2" using lq_ok_clients [OF q2(2) q1(2)] .
      then show ?thesis
        using Suc.IH [of q2 w2] Suc.prems Cons Some q1(1) q2(1) by (cases "chk (key s)") auto
    qed
  qed
qed simp

text \<open>The reachable queues: what clients and disciplined callbacks make of a new queue.\<close>

inductive reachable :: "('c :: linorder, 'e) limiter_queue \<Rightarrow> bool" where
  start: "reachable lq_empty"
| client: "reachable q \<Longrightarrow> client (\<lambda>_. True) q q' \<Longrightarrow> reachable q'"
| run: "reachable q \<Longrightarrow> disciplined tick \<Longrightarrow> Proc chk tick n t (q, ()) = Some (q', ()) \<Longrightarrow> reachable q'"

lemma reachable_ok: "reachable q \<Longrightarrow> lq_ok q"
proof (induction rule: reachable.induct)
  case (run q tick chk n t q')
  then show ?case using Proc_defined [of q tick chk n t "()"] by auto
qed (auto intro: lq_ok_empty lq_ok_client)

text \<open>A callback that only writes down that it ran.\<close>

definition logging :: "('c, 'e, 'e list) ticker" where
  "logging e t s = Some (fst s, snd s @ [e])"

lemma Proc_logging:
  "lq_ok q \<Longrightarrow> map event (m_mmapEvents q) = map Some es \<Longrightarrow> k = min n (length (takeWhile (\<lambda>s. chk (key s)) (m_mmapEvents q))) \<Longrightarrow>
    \<exists>q'. Proc chk logging n t (q, w) = Some (q', w @ take k es) \<and> m_mmapEvents q' = drop k (m_mmapEvents q)"
proof (induction n arbitrary: q w es k)
  case (Suc n)
  show ?case
  proof (cases "m_mmapEvents q")
    case Nil
    then show ?thesis using Suc.prems by simp
  next
    case (Cons s xs)
    obtain e es' where es: "es = e # es'" "event s = Some e" "map event xs = map Some es'"
      using Suc.prems(2) Cons by (cases es) auto
    obtain q1 where q1: "SetPP None e (q\<lparr>m_mmapEvents := xs\<rparr>) = Some q1" "lq_ok q1" "m_mmapEvents q1 = xs"
      using lq_ok_erase [OF Suc.prems(1) Cons es(2)] by blast
    show ?thesis
    proof (cases "chk (key s)")
      case True
      then show ?thesis
        using Suc.IH [OF q1(2), of es' _ "w @ [e]"] Suc.prems(3) Cons es q1 by (auto simp: logging_def)
    next
      case False
      then show ?thesis using Suc.prems(3) Cons by simp
    qed
  qed
qed simp

text \<open>A cleared slot in front.\<close>

definition blocked :: "'c :: linorder \<Rightarrow> ('c, 'e) limiter_queue \<Rightarrow> bool" where
  "blocked c q \<longleftrightarrow> (\<exists>s xs. m_mmapEvents q = s # xs \<and> event s = None \<and> key s = c)"

lemma Proc_blocked: "blocked c q \<Longrightarrow> Proc chk tick n t (q, w) = Some (q, w)"
  by (induction n) (auto simp: blocked_def)

lemma blocked_client: "client (\<lambda>k. c \<le> k) q q' \<Longrightarrow> blocked c q \<Longrightarrow> blocked c q'"
  by (erule clientE)
    (auto simp: blocked_def PushEvent_def SetPP_def Destroy_def mm_insert_def Let_def clear_slot_def
      split: if_splits option.splits)

lemma blocked_clients: "(client (\<lambda>k. c \<le> k))\<^sup>*\<^sup>* q q' \<Longrightarrow> blocked c q \<Longrightarrow> blocked c q'"
  by (induction rule: rtranclp_induct) (auto intro: blocked_client)

lemma Destroy_head:
  assumes "lq_ok q" "m_mmapEvents q = s # xs" "event s = Some e"
  shows "\<exists>q'. Destroy e q = Some q' \<and> blocked (key s) q'"
  using assms by (auto simp: lq_ok_def Destroy_def blocked_def clear_slot_def)


section \<open>The keys of the timers\<close>

lemma next_multiple:
  fixes now k :: nat
  assumes "0 < k"
  shows "k dvd now - now mod k + k" "now < now - now mod k + k" "now - now mod k + k \<le> now + k"
proof -
  have e: "now - now mod k = k * (now div k)" by (rule minus_mod_eq_mult_div)
  show "k dvd now - now mod k + k" by (simp add: e)
  show "now < now - now mod k + k" using assms mod_less_divisor [of k now] mod_less_eq_dividend [of now k] by linarith
qed simp

lemma AddSecondTimer_key:
  assumes "dwSecond \<noteq> 0" "unat (GetSecond t) + unat dwSecond < 2 ^ 32"
  shows "\<exists>n. AddSecondTimer dwSecond e t = timer_push (real n) e t \<and> unat dwSecond dvd n \<and>
    unat (GetSecond t) < n \<and> n \<le> unat (GetSecond t) + unat dwSecond"
proof -
  let ?now = "unat (GetSecond t)" and ?k = "unat dwSecond"
  have k: "0 < ?k" using assms(1) by (simp add: unat_gt_0)
  have le: "GetSecond t mod dwSecond \<le> GetSecond t" by (simp add: word_le_nat_alt unat_mod_distrib)
  have "unat (GetSecond t - GetSecond t mod dwSecond) = ?now - ?now mod ?k"
    using le by (simp add: unat_sub unat_mod_distrib)
  then have "unat (GetSecond t - GetSecond t mod dwSecond + dwSecond) = ?now - ?now mod ?k + ?k"
    using assms(2) by (simp add: unat_word_ariths)
  then have "AddSecondTimer dwSecond e t = timer_push (real (?now - ?now mod ?k + ?k)) e t"
    using assms(1) by (simp only: AddSecondTimer_def if_False)
  then show ?thesis using next_multiple [OF k, of ?now] by blast
qed

section \<open>Properties\<close>

text \<open>C25: the queue never follows a dangling pointer as long as an event is only pushed while it
  does not wait already: in every queue that clients and disciplined callbacks can reach, the
  destructor of an event finds its slot, \<open>Proc\<close> calls only events that exist, and both leave a
  queue in which slots and back pointers agree and the keys are in order.\<close>

theorem limiter_queue_safe:
  assumes "reachable q"
  shows "lq_ok q \<and> (\<forall>e \<in> alive q. \<exists>q'. Destroy e q = Some q' \<and> lq_ok q') \<and>
    (disciplined tick \<longrightarrow> (\<exists>q' w'. Proc chk tick n t (q, w) = Some (q', w') \<and> lq_ok q'))"
  using reachable_ok [OF assms] Destroy_defined [of q] lq_ok_destroy [of q] Proc_defined [of q tick chk n t w] by blast

definition one_event :: "(int, nat) limiter_queue" where
  "one_event = lq_empty\<lparr>alive := {7}, m_ppCallBack := (\<lambda>_. None)\<rparr>"

lemma one_event_reachable: "reachable one_event"
proof -
  have "client (\<lambda>_. True) lq_empty (lq_empty\<lparr>alive := insert 7 (alive lq_empty),
      m_ppCallBack := (m_ppCallBack lq_empty)(7 := None)\<rparr> :: (int, nat) limiter_queue)"
    using client.create [of "7 :: nat" "lq_empty :: (int, nat) limiter_queue"] by (simp add: lq_empty_def)
  moreover have "(lq_empty\<lparr>alive := insert 7 (alive lq_empty), m_ppCallBack := (m_ppCallBack lq_empty)(7 := None)\<rparr>
      :: (int, nat) limiter_queue) = one_event"
    by (simp add: one_event_def lq_empty_def)
  ultimately show ?thesis using reachable.client [OF reachable.start] by metis
qed

theorem limiter_queue_safe_witness:
  "\<exists>q'. Destroy 7 one_event = Some q' \<and> lq_ok q'"
  using limiter_queue_safe [OF one_event_reachable, of "\<lambda>e t s. Some s" "\<lambda>_. True" 1 0 "()"]
  by (auto simp: one_event_def)

text \<open>Without that rule the queue is not safe: an event pushed twice forgets its first slot, and its
  destructor leaves the other slot pointing to it.\<close>

lemma double_push_dangles:
  "\<exists>q1 q2 q3. PushEvent 1 7 one_event = Some (0, q1) \<and> PushEvent 2 7 q1 = Some (1, q2) \<and>
    Destroy 7 q2 = Some q3 \<and> Proc (\<lambda>_. True) logging 2 0 (q3, []) = None"
  by (simp add: one_event_def lq_empty_def PushEvent_def SetPP_def Destroy_def mm_insert_def clear_slot_def
      numeral_2_eq_2)

text \<open>C26: an event that is destroyed while it is first in the queue stops the queue for good: its
  cleared slot is neither run nor removed, so \<open>Proc\<close> changes nothing and calls nothing, however
  often it is called and whatever else is created, destroyed or pushed behind the slot.\<close>

theorem destroyed_head_blocks:
  assumes "reachable q" "m_mmapEvents q = s # xs" "event s = Some e"
  shows "\<exists>q1. Destroy e q = Some q1 \<and>
    (\<forall>q2 chk tick n t w. (client (\<lambda>k. key s \<le> k))\<^sup>*\<^sup>* q1 q2 \<longrightarrow> Proc chk tick n t (q2, w) = Some (q2, w))"
proof -
  obtain q1 where q1: "Destroy e q = Some q1" "blocked (key s) q1"
    using Destroy_head [OF reachable_ok [OF assms(1)] assms(2,3)] by blast
  show ?thesis
    by (intro exI [of _ q1] conjI q1(1) allI impI Proc_blocked) (rule blocked_clients [OF _ q1(2)])
qed

definition waiting_event :: "(int, nat) limiter_queue" where
  "waiting_event = one_event\<lparr>m_mmapEvents := [\<lparr>key = 5, addr = 0, event = Some 7\<rparr>],
     m_ppCallBack := (\<lambda>_. None)(7 := Some 0), next_addr := 1\<rparr>"

lemma waiting_event_reachable: "reachable waiting_event"
proof -
  have "PushEvent 5 7 one_event = Some (0, waiting_event)"
    by (simp add: PushEvent_def SetPP_def one_event_def lq_empty_def waiting_event_def mm_insert_def Let_def)
  then have "client (\<lambda>_. True) one_event waiting_event"
    by (intro client.push [of 7 _ _ 5 0]) (simp_all add: one_event_def)
  then show ?thesis by (rule reachable.client [OF one_event_reachable])
qed

theorem destroyed_head_blocks_witness:
  "\<exists>q1. Destroy 7 waiting_event = Some q1 \<and> Proc (\<lambda>_. True) logging 100 0 (q1, []) = Some (q1, [])"
proof -
  have "m_mmapEvents waiting_event = [\<lparr>key = 5, addr = 0, event = Some 7\<rparr>]" by (simp add: waiting_event_def)
  then show ?thesis using destroyed_head_blocks [OF waiting_event_reachable, of _ "[]" 7] by force
qed

text \<open>C27: one frame of the timer runs the events that were due at the time of the previous frame, in
  the order of their times and then of their registration, but at most as many as frames fit into a
  second: a frame that took longer than a second runs none, however many are due.\<close>

theorem Refresh_runs_due:
  assumes "lq_ok (queue t)" "map event (m_mmapEvents (queue t)) = map Some es" "m_qwSecond t < now" "1 / (now - m_qwSecond t) < 2 ^ 31"
  defines "k \<equiv> min (nat \<lfloor>1 / (now - m_qwSecond t)\<rfloor>) (length (takeWhile (\<lambda>s. key s \<le> m_qwSecond t) (m_mmapEvents (queue t))))"
  shows "\<exists>t'. Refresh logging now (t, w) = Some (t', w @ take k es) \<and>
    m_mmapEvents (queue t') = drop k (m_mmapEvents (queue t)) \<and> GetMilliSecond t' = now \<and>
    GetDeltaTime t' = now - GetMilliSecond t \<and> (now - GetMilliSecond t > 1 \<longrightarrow> k = 0)"
proof -
  let ?t = "t\<lparr>m_qwDeltaTime := now - m_qwSecond t\<rparr>" and ?d = "now - m_qwSecond t"
  have d: "0 < ?d" "0 \<le> 1 / ?d" using assms(3) by auto
  have n: "to_int (1 / ?d) = Some \<lfloor>1 / ?d\<rfloor>"
    using d assms(4) by (auto simp: to_int_def Let_def floor_less_iff le_floor_iff intro: order_trans [of _ 0])
  have chk: "CheckEvent ?t = (\<lambda>c. c \<le> m_qwSecond t)" by (simp add: CheckEvent_def fun_eq_iff)
  obtain q where q: "Proc (CheckEvent ?t) logging (nat \<lfloor>1 / ?d\<rfloor>) now (queue t, w) = Some (q, w @ take k es)"
    "m_mmapEvents q = drop k (m_mmapEvents (queue t))"
    using Proc_logging [OF assms(1,2), of k "nat \<lfloor>1 / ?d\<rfloor>" "CheckEvent ?t" now w] by (auto simp: chk k_def)
  have "?d > 1 \<longrightarrow> k = 0"
    by (auto simp: k_def min_def floor_less_iff)
  then show ?thesis
    using n q d by (auto simp: Refresh_def Let_def GetMilliSecond_def GetDeltaTime_def)
qed

definition sample_timer :: "nat timer" where
  "sample_timer = \<lparr>m_qwSecond = 10, m_qwDeltaTime = 0, m_dwDayTimeStart = 0,
     queue = \<lparr>m_mmapEvents = [\<lparr>key = 9, addr = 0, event = Some 7\<rparr>, \<lparr>key = 11, addr = 1, event = Some 8\<rparr>],
       m_ppCallBack = (\<lambda>_. None)(7 := Some 0, 8 := Some 1), alive = {7, 8}, next_addr = 2\<rparr>\<rparr>"

theorem Refresh_runs_due_witness:
  "(\<exists>t'. Refresh logging (21 / 2) (sample_timer, []) = Some (t', [7])) \<and>
   (\<exists>t'. Refresh logging 12 (sample_timer, []) = Some (t', []))"
proof -
  have ok: "lq_ok (queue sample_timer)" "map event (m_mmapEvents (queue sample_timer)) = map Some [7, 8]"
    by (simp_all add: sample_timer_def lq_ok_def)
  show ?thesis
    using Refresh_runs_due [OF ok, of "21 / 2" "[]"] Refresh_runs_due [OF ok, of 12 "[]"]
    by (auto simp: sample_timer_def GetMilliSecond_def)
qed

end
