(* ===== verification/Http.thy ===== *)
theory Http imports Prelude "HOL-Library.Monad_Syntax" begin

text \<open>
  The HTTP request parser \<open>HttpHelp\<close> of \<open>Server/meta_header/ifnet.h\<close>.  It works in place on the
  receive buffer of the session: a pointer into the buffer is a position, the strings of the
  request are positions at which the parser has put a terminating \<open>NUL\<close> behind them.  \<open>None\<close> is an
  access outside the buffer.  The character classes are those of the C locale, in which no byte
  above 127 belongs to one; lengths are not negative.
\<close>

section \<open>Characters and strings of the C library\<close>

definition str :: "string \<Rightarrow> bytes" where
  "str s = map of_char s"

definition isspace :: "byte \<Rightarrow> bool" where
  "isspace c \<longleftrightarrow> 9 \<le> c \<and> c \<le> 13 \<or> c = 32"

definition isgraph :: "byte \<Rightarrow> bool" where
  "isgraph c \<longleftrightarrow> 33 \<le> c \<and> c \<le> 126"

definition isprint :: "byte \<Rightarrow> bool" where
  "isprint c \<longleftrightarrow> 32 \<le> c \<and> c \<le> 126"

definition iscntrl :: "byte \<Rightarrow> bool" where
  "iscntrl c \<longleftrightarrow> c < 32 \<or> c = 127"

text \<open>A pointer is moved while the character under it satisfies \<open>P\<close>.\<close>

function skip_while :: "(byte \<Rightarrow> bool) \<Rightarrow> bytes \<Rightarrow> nat \<Rightarrow> nat option" where
  "skip_while P mem p =
    (if p < length mem then if P (mem ! p) then skip_while P mem (p + 1) else Some p else None)"
  by pat_completeness auto
termination by (relation "measure (\<lambda>(P, mem, p). length mem - p)") auto

text \<open>Comparison with a literal, character by character up to the first difference.\<close>

fun str_at :: "bytes \<Rightarrow> nat \<Rightarrow> bytes \<Rightarrow> bool option" where
  "str_at mem p [] = Some True"
| "str_at mem p (x # xs) = do { c \<leftarrow> rd mem p; if c = x then str_at mem (p + 1) xs else Some False }"

text \<open>The C string at a position.\<close>

definition c_string :: "bytes \<Rightarrow> nat \<Rightarrow> bytes option" where
  "c_string mem p = map_option (\<lambda>e. take (e - p) (drop p mem)) (skip_while (\<lambda>c. c \<noteq> 0) mem p)"

text \<open>\<open>strtoll\<close> with base 10.\<close>

definition isdigit :: "byte \<Rightarrow> bool" where
  "isdigit c \<longleftrightarrow> 48 \<le> c \<and> c \<le> 57"

definition digits_val :: "bytes \<Rightarrow> int" where
  "digits_val ds = foldl (\<lambda>v d. 10 * v + uint (d - 48)) 0 ds"

definition strtoll :: "bytes \<Rightarrow> int" where
  "strtoll s =
    (let s1 = dropWhile isspace s;
         neg = (s1 \<noteq> [] \<and> hd s1 = 45);
         s2 = (if s1 \<noteq> [] \<and> (hd s1 = 45 \<or> hd s1 = 43) then tl s1 else s1);
         v = digits_val (takeWhile isdigit s2)
     in max (- (2 ^ 63)) (min (2 ^ 63 - 1) (if neg then - v else v)))"

section \<open>The parser\<close>

record HttpHeader =
  hdr_name :: "nat option"
  hdr_value :: "nat option"

record HttpRequestInfo =
  request_method :: "nat option"
  request_uri :: "nat option"
  http_version :: "nat option"
  query_string :: "nat option"
  content_length :: int
  num_headers :: int
  http_headers :: "HttpHeader list"
  body :: "nat option"

record HttpMethodInfo =
  method_name :: bytes
  request_has_body :: bool
  response_has_body :: bool
  is_safe :: bool
  is_idempotent :: bool
  is_cacheable :: bool

definition mk_method :: "string \<Rightarrow> nat \<Rightarrow> nat \<Rightarrow> nat \<Rightarrow> nat \<Rightarrow> nat \<Rightarrow> HttpMethodInfo" where
  "mk_method s a b c d e = \<lparr>method_name = str s, request_has_body = (a \<noteq> 0), response_has_body = (b \<noteq> 0),
     is_safe = (c \<noteq> 0), is_idempotent = (d \<noteq> 0), is_cacheable = (e \<noteq> 0)\<rparr>"

definition g_sHttpMethods :: "HttpMethodInfo list" where
  "g_sHttpMethods =
    [mk_method ''GET'' 0 1 1 1 1, mk_method ''POST'' 1 1 0 0 0, mk_method ''PUT'' 1 0 0 1 0,
     mk_method ''DELETE'' 0 0 0 1 0, mk_method ''HEAD'' 0 0 1 1 1, mk_method ''OPTIONS'' 0 0 1 1 0,
     mk_method ''CONNECT'' 1 1 0 0 0, mk_method ''PATCH'' 1 0 0 0 0, mk_method ''PROPFIND'' 0 1 1 1 0,
     mk_method ''MKCOL'' 0 0 0 1 0, mk_method ''REPORT'' 1 1 1 1 1]"

definition HTTP_MAX_HEADERS :: nat where
  "HTTP_MAX_HEADERS = 64"

text \<open>The loop of \<open>get_header\<close>: \<open>i\<close> counts up to \<open>num_hdr\<close>.  A header without a name would be
  compared through a null pointer.\<close>

fun get_header :: "bytes \<Rightarrow> HttpHeader list \<Rightarrow> nat \<Rightarrow> bytes \<Rightarrow> nat option option" where
  "get_header mem hdr 0 name = Some None"
| "get_header mem [] (Suc num_hdr) name = None"
| "get_header mem (h # hdr) (Suc num_hdr) name =
    do { p \<leftarrow> hdr_name h; s \<leftarrow> c_string mem p;
         if s = name then Some (hdr_value h) else get_header mem hdr num_hdr name }"

text \<open>\<open>get_http_header_len\<close> on the \<open>n\<close> bytes from position \<open>b\<close> on, at the index \<open>i\<close> of its loop.\<close>

function header_len_from :: "bytes \<Rightarrow> nat \<Rightarrow> nat \<Rightarrow> nat \<Rightarrow> int option" where
  "header_len_from mem b n i =
    (if i < n then do {
       c \<leftarrow> rd mem (b + i);
       if c < 128 \<and> c \<noteq> 13 \<and> c \<noteq> 10 \<and> \<not> isprint c then Some (-1)
       else do {
         lf \<leftarrow> (if i + 1 < n then str_at mem (b + i) [10, 10] else Some False);
         if lf then Some (int i + 2)
         else do {
           crlf \<leftarrow> (if i + 3 < n then str_at mem (b + i) [13, 10, 13, 10] else Some False);
           if crlf then Some (int i + 4) else header_len_from mem b n (i + 1) } } }
     else Some 0)"
  by pat_completeness auto
termination by (relation "measure (\<lambda>(mem, b, n, i). n - i)") auto

definition get_http_header_len :: "bytes \<Rightarrow> nat \<Rightarrow> nat \<Rightarrow> int option" where
  "get_http_header_len mem buf buflen = header_len_from mem buf buflen 0"

text \<open>The loop that terminates a word: it clears the character at \<open>p\<close> and every white space behind it.\<close>

function clear_spaces :: "bytes \<Rightarrow> nat \<Rightarrow> (bytes \<times> nat) option" where
  "clear_spaces mem p =
    (if p + 1 < length mem then
       let mem = mem[p := 0]; c = mem ! (p + 1)
       in if c \<noteq> 0 \<and> isspace c then clear_spaces mem (p + 1) else Some (mem, p + 1)
     else None)"
  by pat_completeness auto
termination by (relation "measure (\<lambda>(mem, p). length mem - p)") auto

definition skip_to_end_of_word_and_terminate :: "bool \<Rightarrow> bytes \<Rightarrow> nat \<Rightarrow> (int \<times> bytes \<times> nat) option" where
  "skip_to_end_of_word_and_terminate eol mem ppw =
    do { p \<leftarrow> skip_while isgraph mem ppw;
         c \<leftarrow> rd mem p;
         if (if eol then c \<noteq> 13 \<and> c \<noteq> 10 else c \<noteq> 32) then Some (-1, mem, p)
         else do {
           (mem, p) \<leftarrow> clear_spaces mem p;
           c \<leftarrow> rd mem p;
           if \<not> eol \<and> \<not> isgraph c then Some (-1, mem, p) else Some (1, mem, p) } }"

definition get_http_method_info :: "bytes \<Rightarrow> HttpMethodInfo option" where
  "get_http_method_info m = find (\<lambda>i. method_name i = m) g_sHttpMethods"

definition is_valid_http_method :: "bytes \<Rightarrow> bool" where
  "is_valid_http_method m \<longleftrightarrow> get_http_method_info m \<noteq> None"

text \<open>The loop of \<open>parse_http_headers\<close>: \<open>i\<close> headers are parsed and \<open>k\<close> more fit into the array.
  The result is \<open>num_headers\<close>, the buffer and the pointer \<open>*buf\<close>.\<close>

fun headers_from :: "nat \<Rightarrow> nat \<Rightarrow> bytes \<Rightarrow> nat \<Rightarrow> HttpHeader list
    \<Rightarrow> (int \<times> bytes \<times> nat \<times> HttpHeader list) option" where
  "headers_from 0 i mem buf hdr = Some (int i, mem, buf, hdr)"
| "headers_from (Suc k) i mem buf hdr =
    do { dp \<leftarrow> skip_while (\<lambda>c. c \<noteq> 58 \<and> 33 \<le> c \<and> c \<le> 126) mem buf;
         if dp = buf then Some (int i, mem, buf, hdr)
         else if mem ! dp \<noteq> 58 then Some (-1, mem, buf, hdr)
         else do {
           mem \<leftarrow> wr mem dp 0;
           let hdr = hdr[i := (hdr ! i)\<lparr>hdr_name := Some buf\<rparr>];
           dp \<leftarrow> skip_while (\<lambda>c. c = 32) mem (dp + 1);
           let hdr = hdr[i := (hdr ! i)\<lparr>hdr_value := Some dp\<rparr>];
           buf \<leftarrow> skip_while (\<lambda>c. c \<noteq> 13 \<and> c \<noteq> 10 \<and> c \<noteq> 0) mem dp;
           crlf \<leftarrow> str_at mem buf [13, 10];
           if \<not> crlf then Some (int i + 1, mem, dp, hdr)
           else do {
             mem \<leftarrow> wr mem buf 0;
             mem \<leftarrow> wr mem (buf + 1) 0;
             c \<leftarrow> rd mem (buf + 2);
             if c = 13 then Some (int i + 1, mem, buf + 2, hdr)
             else headers_from k (i + 1) mem (buf + 2) hdr } } }"

definition parse_http_headers :: "bytes \<Rightarrow> nat \<Rightarrow> HttpHeader list \<Rightarrow> (int \<times> bytes \<times> nat \<times> HttpHeader list) option" where
  "parse_http_headers mem buf hdr = headers_from HTTP_MAX_HEADERS 0 mem buf hdr"

text \<open>Leading white space: the result is the new pointer and the new length.\<close>

fun skip_leading :: "bytes \<Rightarrow> nat \<Rightarrow> nat \<Rightarrow> (nat \<times> nat) option" where
  "skip_leading mem buf 0 = Some (buf, 0)"
| "skip_leading mem buf (Suc len) =
    do { c \<leftarrow> rd mem buf; if isspace c then skip_leading mem (buf + 1) len else Some (buf, Suc len) }"

text \<open>The request line: method, URI with its query string, version.  The flag is false when the
  parser gives up.\<close>

definition parse_request_line :: "bytes \<Rightarrow> nat \<Rightarrow> HttpRequestInfo
    \<Rightarrow> (bool \<times> bytes \<times> nat \<times> HttpRequestInfo) option" where
  "parse_request_line mem buf ri =
    do { let ri = ri\<lparr>request_method := Some buf\<rparr>;
         let m = buf;
         (r, mem, buf) \<leftarrow> skip_to_end_of_word_and_terminate False mem buf;
         if r \<le> 0 then Some (False, mem, buf, ri)
         else do {
           s \<leftarrow> c_string mem m;
           if \<not> is_valid_http_method s then Some (False, mem, buf, ri)
           else do {
             let ri = ri\<lparr>request_uri := Some buf\<rparr>;
             let uri = buf;
             (r, mem, buf) \<leftarrow> skip_to_end_of_word_and_terminate False mem buf;
             if r \<le> 0 then Some (False, mem, buf, ri)
             else do {
               q \<leftarrow> skip_while (\<lambda>c. c \<noteq> 63 \<and> c \<noteq> 0) mem uri;
               (mem, ri) \<leftarrow> (if mem ! q = 63 then do { mem \<leftarrow> wr mem q 0; Some (mem, ri\<lparr>query_string := Some (q + 1)\<rparr>) }
                             else Some (mem, ri\<lparr>query_string := None\<rparr>));
               let ri = ri\<lparr>http_version := Some buf\<rparr>;
               let v = buf;
               (r, mem, buf) \<leftarrow> skip_to_end_of_word_and_terminate True mem buf;
               if r \<le> 0 then Some (False, mem, buf, ri)
               else do {
                 ok \<leftarrow> str_at mem v (str ''HTTP/'');
                 if \<not> ok then Some (False, mem, buf, ri)
                 else Some (True, mem, buf, ri\<lparr>http_version := Some (v + 5)\<rparr>) } } } } }"

definition parse_http_request :: "bytes \<Rightarrow> nat \<Rightarrow> HttpRequestInfo \<Rightarrow> (int \<times> bytes \<times> HttpRequestInfo) option" where
  "parse_http_request mem len ri =
    do { let ri = ri\<lparr>request_method := None, request_uri := None, http_version := None, num_headers := 0\<rparr>;
         (buf, len) \<leftarrow> skip_leading mem 0 len;
         let init_skip = buf;
         if len = 0 then Some (0, mem, ri)
         else do {
           c \<leftarrow> rd mem buf;
           if iscntrl c then Some (-1, mem, ri)
           else do {
             request_length \<leftarrow> get_http_header_len mem buf len;
             if request_length \<le> 0 then Some (request_length, mem, ri)
             else do {
               mem \<leftarrow> wr mem (buf + nat request_length - 1) 0;
               c \<leftarrow> rd mem buf;
               if c = 0 \<or> c = 13 \<or> c = 10 then Some (-1, mem, ri)
               else do {
                 (ok, mem, buf, ri) \<leftarrow> parse_request_line mem buf ri;
                 if \<not> ok then Some (-1, mem, ri)
                 else do {
                   (n, mem, buf, hs) \<leftarrow> parse_http_headers mem buf (http_headers ri);
                   let ri = ri\<lparr>num_headers := n, http_headers := hs\<rparr>;
                   if n < 0 then Some (-1, mem, ri)
                   else do {
                     cl \<leftarrow> get_header mem hs (nat n) (str ''Content-Length'');
                     case cl of None \<Rightarrow> Some (request_length + int init_skip, mem, ri)
                     | Some p \<Rightarrow> do {
                         s \<leftarrow> c_string mem p;
                         let ri = ri\<lparr>content_length := strtoll s\<rparr>;
                         (r, mem, buf) \<leftarrow> skip_to_end_of_word_and_terminate True mem buf;
                         if r \<le> 0 then Some (-1, mem, ri)
                         else Some (request_length + int init_skip, mem, ri\<lparr>body := Some (buf + 1)\<rparr>) } } } } } } } }"

declare skip_while.simps [simp del]
declare header_len_from.simps [simp del]
declare clear_spaces.simps [simp del]

section \<open>Every access is inside the header\<close>

text \<open>The parser puts a \<open>NUL\<close> at the end of the header, at \<open>L - 1\<close>; nothing moves a pointer beyond
  it, and nothing behind it is written.\<close>

definition nul_at :: "nat \<Rightarrow> bytes \<Rightarrow> bool" where
  "nul_at L mem \<longleftrightarrow> 0 < L \<and> L \<le> length mem \<and> mem ! (L - 1) = 0"

definition inside :: "nat \<Rightarrow> bytes \<Rightarrow> bytes \<Rightarrow> bool" where
  "inside L mem mem' \<longleftrightarrow> nul_at L mem' \<and> length mem' = length mem \<and> drop L mem' = drop L mem"

lemma insideD: "inside L mem mem' \<Longrightarrow> nul_at L mem'"
  by (simp add: inside_def)

lemma inside_trans: "inside L mem mem' \<Longrightarrow> inside L mem' mem'' \<Longrightarrow> inside L mem mem''"
  by (simp add: inside_def)

lemma inside_clear: "nul_at L mem \<Longrightarrow> p < L \<Longrightarrow> inside L mem (mem[p := 0])"
  by (cases "p = L - 1") (auto simp: inside_def nul_at_def nth_list_update drop_update_cancel)

lemma skip_while_nul:
  assumes "nul_at L mem" "p < L" "\<not> P 0"
  shows "\<exists>q. skip_while P mem p = Some q \<and> p \<le> q \<and> q < L \<and> q < length mem \<and> \<not> P (mem ! q)"
  using assms
proof (induction P mem p rule: skip_while.induct)
  case (1 P mem p)
  show ?case
  proof (cases "P (mem ! p)")
    case True
    then have "p + 1 < L" using 1(2-4) by (cases "p = L - 1") (auto simp: nul_at_def)
    then obtain q where q: "skip_while P mem (p + 1) = Some q" "p + 1 \<le> q" "q < L" "q < length mem" "\<not> P (mem ! q)"
      using 1 True by (auto simp: nul_at_def)
    then have "skip_while P mem p = Some q" using True by (subst skip_while.simps) simp
    then show ?thesis using q by (intro exI [of _ q]) simp
  next
    case False
    then show ?thesis using 1(2,3) by (subst skip_while.simps) (simp add: nul_at_def)
  qed
qed

lemma rd_nul: "nul_at L mem \<Longrightarrow> p < L \<Longrightarrow> rd mem p = Some (mem ! p)"
  by (simp add: nul_at_def)

lemma wr_nul: "nul_at L mem \<Longrightarrow> p < L \<Longrightarrow> wr mem p b = Some (mem[p := b])"
  by (simp add: nul_at_def)

lemma nul_next: "nul_at L mem \<Longrightarrow> p < L \<Longrightarrow> mem ! p \<noteq> 0 \<Longrightarrow> p + 1 < L"
  by (cases "p = L - 1") (auto simp: nul_at_def)

lemma str_at_nul:
  "nul_at L mem \<Longrightarrow> p < L \<Longrightarrow> 0 \<notin> set xs \<Longrightarrow>
    \<exists>b. str_at mem p xs = Some b \<and> (b \<longrightarrow> p + length xs < L)"
proof (induction xs arbitrary: p)
  case (Cons x xs)
  show ?case
  proof (cases "mem ! p = x")
    case True
    then show ?thesis using Cons.IH [of "p + 1"] Cons.prems nul_next [of L mem p] by (auto simp: rd_nul)
  next
    case False
    then show ?thesis using Cons by (auto simp: rd_nul)
  qed
qed auto

lemma c_string_nul: "nul_at L mem \<Longrightarrow> p < L \<Longrightarrow> \<exists>s. c_string mem p = Some s"
  using skip_while_nul [of L mem p "\<lambda>c. c \<noteq> 0"] by (auto simp: c_string_def)

lemma clear_spaces_nul:
  "nul_at L mem \<Longrightarrow> p < L \<Longrightarrow> mem ! p \<noteq> 0 \<Longrightarrow>
    \<exists>mem' q. clear_spaces mem p = Some (mem', q) \<and> p < q \<and> q < L \<and> inside L mem mem'"
proof (induction mem p rule: clear_spaces.induct)
  case (1 mem p)
  have p: "p + 1 < L" "p + 1 < length mem" using nul_next [OF 1(2-4)] 1(2) by (auto simp: nul_at_def)
  have i: "inside L mem (mem[p := 0])" using inside_clear 1(2,3) .
  let ?c = "mem[p := 0] ! (p + 1)"
  show ?case
  proof (cases "?c \<noteq> 0 \<and> isspace ?c")
    case True
    obtain mem' q where q: "clear_spaces (mem[p := 0]) (p + 1) = Some (mem', q)" "p + 1 < q" "q < L"
      "inside L (mem[p := 0]) mem'"
      using 1(1) [OF p(2) refl refl True insideD [OF i] p(1)] True by auto
    then show ?thesis using True p inside_trans [OF i]
      by (subst clear_spaces.simps) (simp add: Let_def)
  next
    case False
    then show ?thesis using p i by (subst clear_spaces.simps) (auto simp: Let_def)
  qed
qed

lemma skip_word_nul:
  assumes "nul_at L mem" "p < L"
  shows "\<exists>r mem' q. skip_to_end_of_word_and_terminate eol mem p = Some (r, mem', q) \<and> q < L \<and> inside L mem mem'"
proof -
  obtain q where q: "skip_while isgraph mem p = Some q" "q < L" "q < length mem"
    using skip_while_nul [OF assms, of isgraph] by (auto simp: isgraph_def)
  show ?thesis
  proof (cases "if eol then mem ! q \<noteq> 13 \<and> mem ! q \<noteq> 10 else mem ! q \<noteq> 32")
    case True
    then show ?thesis using q assms(1)
      by (auto simp: skip_to_end_of_word_and_terminate_def inside_def)
  next
    case False
    then have "mem ! q \<noteq> 0" by (auto split: if_splits)
    then obtain mem' r where "clear_spaces mem q = Some (mem', r)" "r < L" "inside L mem mem'"
      using clear_spaces_nul [OF assms(1) q(2)] by auto
    then show ?thesis using False q rd_nul [OF insideD, of L mem mem' r]
      by (auto simp: skip_to_end_of_word_and_terminate_def)
  qed
qed

text \<open>The headers parsed so far have names and values that start before \<open>L\<close>.\<close>

definition hdr_ok :: "nat \<Rightarrow> HttpHeader \<Rightarrow> bool" where
  "hdr_ok L h \<longleftrightarrow> (\<exists>n v. hdr_name h = Some n \<and> n < L \<and> hdr_value h = Some v \<and> v < L)"

lemma headers_from_nul:
  "nul_at L mem \<Longrightarrow> buf < L \<Longrightarrow> i + k \<le> length hdr \<Longrightarrow> \<forall>h \<in> set (take i hdr). hdr_ok L h \<Longrightarrow>
    \<exists>n mem' q hs. headers_from k i mem buf hdr = Some (n, mem', q, hs) \<and> q < L \<and> inside L mem mem' \<and>
      length hs = length hdr \<and> n \<le> int (i + k) \<and> (\<forall>h \<in> set (take (nat n) hs). hdr_ok L h)"
proof (induction k arbitrary: i mem buf hdr)
  case 0
  then show ?case by (simp add: inside_def)
next
  case (Suc k)
  note n = Suc.prems(1)
  obtain dp where dp: "skip_while (\<lambda>c. c \<noteq> 58 \<and> 33 \<le> c \<and> c \<le> 126) mem buf = Some dp" "buf \<le> dp" "dp < L" "dp < length mem"
    using skip_while_nul [OF n Suc.prems(2), of "\<lambda>c. c \<noteq> 58 \<and> 33 \<le> c \<and> c \<le> 126"] by auto
  consider "dp = buf" | "dp \<noteq> buf" "mem ! dp \<noteq> 58" | "dp \<noteq> buf" "mem ! dp = 58" by blast
  then show ?case
  proof cases
    case 1
    then show ?thesis using Suc.prems dp by (simp add: inside_def)
  next
    case 2
    then show ?thesis using Suc.prems dp by (simp add: inside_def)
  next
    case 3
    define m1 where "m1 = mem[dp := 0]"
    have i1: "inside L mem m1" "nul_at L m1" using inside_clear [OF n dp(3)] by (auto simp: m1_def dest: insideD)
    have d1: "dp + 1 < L" using nul_next [OF n dp(3)] 3 by simp
    obtain v where v: "skip_while (\<lambda>c. c = 32) m1 (dp + 1) = Some v" "v < L"
      using skip_while_nul [OF i1(2) d1, of "\<lambda>c. c = 32"] by auto
    obtain e where e: "skip_while (\<lambda>c. c \<noteq> 13 \<and> c \<noteq> 10 \<and> c \<noteq> 0) m1 v = Some e" "e < L"
      using skip_while_nul [OF i1(2) v(2), of "\<lambda>c. c \<noteq> 13 \<and> c \<noteq> 10 \<and> c \<noteq> 0"] by auto
    obtain crlf where c: "str_at m1 e [13, 10] = Some crlf" "crlf \<longrightarrow> e + 2 < L"
      using str_at_nul [OF i1(2) e(2), of "[13, 10]"] by auto
    define hd1 where "hd1 = hdr[i := (hdr ! i)\<lparr>hdr_name := Some buf\<rparr>]"
    define hd2 where "hd2 = hd1[i := (hd1 ! i)\<lparr>hdr_value := Some v\<rparr>]"
    have len: "length hd2 = length hdr" by (simp add: hd2_def hd1_def)
    have i: "i < length hdr" using Suc.prems(3) by simp
    have ok2: "\<forall>h \<in> set (take (Suc i) hd2). hdr_ok L h"
      using Suc.prems(2,4) v(2) i by (auto simp: hd2_def hd1_def take_Suc_conv_app_nth hdr_ok_def)
    have step: "headers_from (Suc k) i mem buf hdr =
      (if \<not> crlf then Some (int i + 1, m1, v, hd2)
       else do { m2 \<leftarrow> wr m1 e 0; m3 \<leftarrow> wr m2 (e + 1) 0; c \<leftarrow> rd m3 (e + 2);
                 if c = 13 then Some (int i + 1, m3, e + 2, hd2) else headers_from k (i + 1) m3 (e + 2) hd2 })"
      using dp 3 v e c unfolding hd2_def hd1_def m1_def by (simp add: Let_def del: str_at.simps)
    show ?thesis
    proof (cases crlf)
      case False
      then show ?thesis using step ok2 len v i1 by (simp add: nat_add_distrib)
    next
      case True
      define m3 where "m3 = m1[e := 0, e + 1 := 0]"
      have i2: "inside L m1 (m1[e := 0])" "nul_at L (m1[e := 0])"
        using inside_clear [OF i1(2) e(2)] by (auto dest: insideD)
      have i3: "inside L mem m3" "nul_at L m3"
        using inside_clear [OF i2(2), of "e + 1"] c True i1(1) i2(1)
        by (auto simp: m3_def intro: inside_trans dest: insideD)
      have step3: "headers_from (Suc k) i mem buf hdr =
        (if m3 ! (e + 2) = 13 then Some (int i + 1, m3, e + 2, hd2) else headers_from k (i + 1) m3 (e + 2) hd2)"
        using step True c wr_nul [OF i1(2) e(2)] wr_nul [OF i2(2), of "e + 1"] rd_nul [OF i3(2), of "e + 2"]
        by (simp add: m3_def)
      show ?thesis
      proof (cases "m3 ! (e + 2) = 13")
        case True
        then show ?thesis using step3 i3 c \<open>crlf\<close> len ok2 by (simp add: nat_add_distrib)
      next
        case False
        obtain n' m' q hs where r: "headers_from k (i + 1) m3 (e + 2) hd2 = Some (n', m', q, hs)" "q < L" "inside L m3 m'"
          "length hs = length hd2" "n' \<le> int (i + 1 + k)" "\<forall>h \<in> set (take (nat n') hs). hdr_ok L h"
          using Suc.IH [OF i3(2), of "e + 2" "i + 1" hd2] c \<open>crlf\<close> ok2 len Suc.prems(3) by auto
        then show ?thesis using step3 False len inside_trans [OF i3(1) r(3)] by simp
      qed
    qed
  qed
qed

lemma get_header_nul:
  "nul_at L mem \<Longrightarrow> k \<le> length hdr \<Longrightarrow> \<forall>h \<in> set (take k hdr). hdr_ok L h \<Longrightarrow>
    \<exists>r. get_header mem hdr k name = Some r \<and> (\<forall>p. r = Some p \<longrightarrow> p < L)"
proof (induction mem hdr k name rule: get_header.induct)
  case (3 mem h hdr k name)
  obtain p v where p: "hdr_name h = Some p" "p < L" "hdr_value h = Some v" "v < L"
    using 3(4) by (auto simp: hdr_ok_def)
  obtain s where s: "c_string mem p = Some s" using c_string_nul [OF 3(2) p(2)] by blast
  show ?case using 3 p s by (cases "s = name") auto
qed auto

lemma str_at_in: "p + length xs \<le> length mem \<Longrightarrow> \<exists>b. str_at mem p xs = Some b"
  by (induction xs arbitrary: p) auto

lemma header_len_in:
  "b + n \<le> length mem \<Longrightarrow> \<exists>r. header_len_from mem b n i = Some r \<and> r \<le> int n"
proof (induction mem b n i rule: header_len_from.induct)
  case (1 mem b n i)
  show ?case
  proof (cases "i < n")
    case False
    then show ?thesis by (subst header_len_from.simps) simp
  next
    case True
    then have c: "rd mem (b + i) = Some (mem ! (b + i))" using 1(2) by simp
    obtain lf where lf: "(if i + 1 < n then str_at mem (b + i) [10, 10] else Some False) = Some lf" "lf \<longrightarrow> i + 1 < n"
      using str_at_in [of "b + i" "[10, 10]" mem] 1(2) by (cases "i + 1 < n") auto
    obtain crlf where crlf: "(if i + 3 < n then str_at mem (b + i) [13, 10, 13, 10] else Some False) = Some crlf" "crlf \<longrightarrow> i + 3 < n"
      using str_at_in [of "b + i" "[13, 10, 13, 10]" mem] 1(2) by (cases "i + 3 < n") auto
    let ?c = "mem ! (b + i)"
    show ?thesis
    proof (cases "?c < 128 \<and> ?c \<noteq> 13 \<and> ?c \<noteq> 10 \<and> \<not> isprint ?c \<or> lf \<or> crlf")
      case T: True
      then show ?thesis using True c lf crlf by (subst header_len_from.simps) (simp; fastforce)
    next
      case F: False
      have "\<exists>r. header_len_from mem b n (i + 1) = Some r \<and> r \<le> int n"
        by (rule 1(1) [of ?c lf crlf]) (use True F 1(2) c lf crlf in \<open>auto simp del: str_at.simps\<close>)
      then show ?thesis using F True c lf crlf by (subst header_len_from.simps) simp
    qed
  qed
qed

lemma skip_leading_in:
  "b + len \<le> length mem \<Longrightarrow> \<exists>b' len'. skip_leading mem b len = Some (b', len') \<and> b' + len' = b + len \<and> b \<le> b'"
proof (induction mem b len rule: skip_leading.induct)
  case (2 mem b len)
  then show ?case by (cases "isspace (mem ! b)") fastforce+
qed simp

lemma parse_request_line_nul:
  assumes "nul_at L mem" "buf < L"
  shows "\<exists>ok mem' q ri'. parse_request_line mem buf ri = Some (ok, mem', q, ri') \<and> q < L \<and> inside L mem mem' \<and>
    http_headers ri' = http_headers ri \<and> num_headers ri' = num_headers ri \<and>
    (ok \<longrightarrow> (\<exists>m u v. request_method ri' = Some m \<and> m < L \<and> request_uri ri' = Some u \<and> u < L \<and>
       http_version ri' = Some v \<and> v < L \<and> (\<forall>s. query_string ri' = Some s \<longrightarrow> s < L)))"
proof -
  obtain r1 m1 b1 where 1: "skip_to_end_of_word_and_terminate False mem buf = Some (r1, m1, b1)" "b1 < L" "inside L mem m1"
    using skip_word_nul [OF assms] by blast
  obtain s where s: "c_string m1 buf = Some s" using c_string_nul [OF insideD [OF 1(3)] assms(2)] by blast
  obtain r2 m2 b2 where 2: "skip_to_end_of_word_and_terminate False m1 b1 = Some (r2, m2, b2)" "b2 < L" "inside L m1 m2"
    using skip_word_nul [OF insideD [OF 1(3)] 1(2)] by blast
  obtain q where q: "skip_while (\<lambda>c. c \<noteq> 63 \<and> c \<noteq> 0) m2 b1 = Some q" "q < L"
    using skip_while_nul [OF insideD [OF 2(3)] 1(2), of "\<lambda>c. c \<noteq> 63 \<and> c \<noteq> 0"] by auto
  define m3 where "m3 = (if m2 ! q = 63 then m2[q := 0] else m2)"
  have 3: "inside L mem m3" "m2 ! q = 63 \<Longrightarrow> q + 1 < L"
    using inside_clear [OF insideD [OF 2(3)] q(2)] nul_next [OF insideD [OF 2(3)] q(2)] inside_trans [OF 1(3) 2(3)]
    by (auto simp: m3_def intro: inside_trans)
  obtain r4 m4 b4 where 4: "skip_to_end_of_word_and_terminate True m3 b2 = Some (r4, m4, b4)" "b4 < L" "inside L m3 m4"
    using skip_word_nul [OF insideD [OF 3(1)] 2(2)] by blast
  obtain ok where ok: "str_at m4 b2 (str ''HTTP/'') = Some ok" "ok \<longrightarrow> b2 + 5 < L"
    using str_at_nul [OF insideD [OF 4(3)] 2(2), of "str ''HTTP/''"] by (auto simp: str_def)
  have m3: "(if m2 ! q = 63 then do { mem \<leftarrow> wr m2 q 0; Some (mem, ri'\<lparr>query_string := Some (q + 1)\<rparr>) }
      else Some (m2, ri'\<lparr>query_string := None\<rparr>)) = Some (m3, ri'\<lparr>query_string := (if m2 ! q = 63 then Some (q + 1) else None)\<rparr>)"
    for ri' :: HttpRequestInfo
    using wr_nul [OF insideD [OF 2(3)] q(2)] by (simp add: m3_def)
  show ?thesis
    using 1 s 2 q 3 4 ok assms(2) inside_trans [OF 3(1) 4(3)] inside_trans [OF 1(3) 2(3)]
    by (auto simp: parse_request_line_def Let_def m3)
qed


text \<open>A run of the parser, from the results of its parts.\<close>

lemma parse_http_request_steps:
  assumes "skip_leading mem 0 len = Some (b, n)" "n \<noteq> 0" "rd mem b = Some c" "\<not> iscntrl c"
    "get_http_header_len mem b n = Some h" "0 < h" "wr mem (b + nat h - 1) 0 = Some m0" "rd m0 b = Some c0"
    "parse_request_line m0 b ri0 = Some (ok, m1, q, ri1)"
    "parse_http_headers m1 q (http_headers ri1) = Some (k, m2, p, hs)"
    "get_header m2 hs (nat k) (str ''Content-Length'') = Some cl"
    "ri0 = ri\<lparr>request_method := None, request_uri := None, http_version := None, num_headers := 0\<rparr>"
    "ri2 = ri1\<lparr>num_headers := k, http_headers := hs\<rparr>"
  shows "parse_http_request mem len ri =
    (if c0 = 0 \<or> c0 = 13 \<or> c0 = 10 then Some (-1, m0, ri0)
     else if \<not> ok then Some (-1, m1, ri1)
     else if k < 0 then Some (-1, m2, ri2)
     else case cl of None \<Rightarrow> Some (h + int b, m2, ri2)
       | Some p' \<Rightarrow> do { s \<leftarrow> c_string m2 p';
           (r, m3, t) \<leftarrow> skip_to_end_of_word_and_terminate True m2 p;
           if r \<le> 0 then Some (-1, m3, ri2\<lparr>content_length := strtoll s\<rparr>)
           else Some (h + int b, m3, ri2\<lparr>content_length := strtoll s, body := Some (t + 1)\<rparr>) })"
  unfolding parse_http_request_def Let_def assms(13)
  using assms(1-12) by (simp split: option.split)

text \<open>C28: the parser is memory safe on every input: whatever the \<open>len\<close> received bytes are, it accesses
  nothing outside them, it leaves the bytes behind the header as they are, and the length it
  returns lies within the input.  When it accepts, every pointer of the request (the method, the
  URI, the query string, the version and the names and values of the headers it counted) points
  into the header, whose last byte it has set to \<open>NUL\<close>, so that each of them is a terminated
  string.\<close>

theorem parse_http_request_safe:
  assumes "len \<le> length mem" "length (http_headers ri) = HTTP_MAX_HEADERS"
  shows "\<exists>r mem' ri'. parse_http_request mem len ri = Some (r, mem', ri') \<and> length mem' = length mem \<and>
    r \<le> int len \<and> drop len mem' = drop len mem \<and>
    (0 < r \<longrightarrow> drop (nat r) mem' = drop (nat r) mem \<and> mem' ! (nat r - 1) = 0 \<and>
      (\<exists>m u v. request_method ri' = Some m \<and> m < nat r \<and> request_uri ri' = Some u \<and> u < nat r \<and>
         http_version ri' = Some v \<and> v < nat r \<and> (\<forall>s. query_string ri' = Some s \<longrightarrow> s < nat r)) \<and>
      0 \<le> num_headers ri' \<and> num_headers ri' \<le> int HTTP_MAX_HEADERS \<and>
      (\<forall>h \<in> set (take (nat (num_headers ri')) (http_headers ri')). hdr_ok (nat r) h))"
proof -
  obtain b n where b: "skip_leading mem 0 len = Some (b, n)" "b + n = len"
    using skip_leading_in [of 0 len mem] assms(1) by auto
  obtain h where h: "get_http_header_len mem b n = Some h" "h \<le> int n"
    using header_len_in [of b n mem 0] b assms(1) by (auto simp: get_http_header_len_def)
  show ?thesis
  proof (cases "n = 0 \<or> iscntrl (mem ! b) \<or> h \<le> 0")
    case True
    then show ?thesis using b h assms(1) by (auto simp: parse_http_request_def Let_def)
  next
    case False
    define L where "L = b + nat h"
    define m0 where "m0 = mem[L - 1 := 0]"
    have L: "0 < L" "b < L" "L \<le> len" "int L = h + int b" "L - 1 < length mem"
      using False b h assms(1) by (auto simp: L_def)
    have n0: "nul_at L m0" using L assms(1) by (auto simp: nul_at_def m0_def)
    have d0: "drop L m0 = drop L mem" "length m0 = length mem" using L by (auto simp: m0_def drop_update_cancel)
    define ri0 where "ri0 = ri\<lparr>request_method := None, request_uri := None, http_version := None, num_headers := 0\<rparr>"
    obtain ok m1 q ri1 where 1: "parse_request_line m0 b ri0 = Some (ok, m1, q, ri1)" "q < L" "inside L m0 m1"
      "http_headers ri1 = http_headers ri" "ok \<longrightarrow> (\<exists>m u v. request_method ri1 = Some m \<and> m < L \<and> request_uri ri1 = Some u \<and> u < L \<and>
         http_version ri1 = Some v \<and> v < L \<and> (\<forall>s. query_string ri1 = Some s \<longrightarrow> s < L))"
      using parse_request_line_nul [OF n0 L(2), of ri0] by (auto simp: ri0_def)
    obtain k m2 p hs where 2: "parse_http_headers m1 q (http_headers ri) = Some (k, m2, p, hs)" "p < L" "inside L m1 m2"
      "length hs = HTTP_MAX_HEADERS" "k \<le> int HTTP_MAX_HEADERS" "\<forall>h \<in> set (take (nat k) hs). hdr_ok L h"
      using headers_from_nul [OF insideD [OF 1(3)] 1(2), of 0 HTTP_MAX_HEADERS "http_headers ri"] assms(2)
      by (auto simp: parse_http_headers_def)
    obtain cl where 3: "get_header m2 hs (nat k) (str ''Content-Length'') = Some cl" "\<forall>p. cl = Some p \<longrightarrow> p < L"
      using get_header_nul [OF insideD [OF 2(3)], of "nat k" hs] 2(4-6) by fastforce
    obtain r m3 t where 4: "skip_to_end_of_word_and_terminate True m2 p = Some (r, m3, t)" "inside L m2 m3"
      using skip_word_nul [OF insideD [OF 2(3)] 2(2)] by blast
    define ri2 where "ri2 = ri1\<lparr>num_headers := k, http_headers := hs\<rparr>"
    have i2: "inside L m0 m2" "inside L m0 m3"
      using inside_trans [OF 1(3) 2(3)] inside_trans [OF _ 4(2)] by blast+
    have good: "length m' = length mem \<and> drop len m' = drop len mem" if "inside L m0 m'" for m'
    proof
      show "length m' = length mem" using that d0 by (simp add: inside_def)
      have "drop L m' = drop L mem" using that d0 by (simp add: inside_def)
      then have "drop (len - L) (drop L m') = drop (len - L) (drop L mem)" by simp
      then show "drop len m' = drop len mem" using L(3) by simp
    qed
    have nr: "nat (h + int b) = L" using L by linarith
    have fin: "\<exists>r mem' ri'. Some (h + int b, m', ri2\<lparr>content_length := c, body := x\<rparr>) = Some (r, mem', ri') \<and> length mem' = length mem \<and>
      r \<le> int len \<and> drop len mem' = drop len mem \<and>
      (0 < r \<longrightarrow> drop (nat r) mem' = drop (nat r) mem \<and> mem' ! (nat r - 1) = 0 \<and>
        (\<exists>m u v. request_method ri' = Some m \<and> m < nat r \<and> request_uri ri' = Some u \<and> u < nat r \<and>
           http_version ri' = Some v \<and> v < nat r \<and> (\<forall>s. query_string ri' = Some s \<longrightarrow> s < nat r)) \<and>
        0 \<le> num_headers ri' \<and> num_headers ri' \<le> int HTTP_MAX_HEADERS \<and>
        (\<forall>h \<in> set (take (nat (num_headers ri')) (http_headers ri')). hdr_ok (nat r) h))"
      if "inside L m0 m'" ok "\<not> k < 0" for m' c x
      using good [OF that(1)] that 1(5) 2(5,6) L(3,4) nr insideD [OF that(1)] d0
      by (auto simp: ri2_def inside_def nul_at_def)
    have f: "n \<noteq> 0" "rd mem b = Some (mem ! b)" "wr mem (b + nat h - 1) 0 = Some m0" "rd m0 b = Some (m0 ! b)"
      "\<not> iscntrl (mem ! b)" "0 < h" "parse_http_headers m1 q (http_headers ri1) = Some (k, m2, p, hs)"
      using False b L d0 1(4) 2(1) by (auto simp: m0_def L_def)
    note eq = parse_http_request_steps [OF b(1) f(1,2,5) h(1) f(6,3,4) 1(1) f(7) 3(1) ri0_def ri2_def]
    show ?thesis
    proof (cases "m0 ! b = 0 \<or> m0 ! b = 13 \<or> m0 ! b = 10 \<or> \<not> ok \<or> k < 0")
      case True
      then show ?thesis using eq good [OF 1(3)] good [OF i2(1)] good [of m0] n0 by (auto simp: inside_def)
    next
      case F: False
      show ?thesis
      proof (cases cl)
        case None
        then show ?thesis using eq F fin [OF i2(1), where c = "content_length ri2" and x = "body ri2"] by simp
      next
        case (Some p')
        then obtain s where "c_string m2 p' = Some s" using 3(2) c_string_nul [OF insideD [OF i2(1)]] by blast
        then show ?thesis using Some eq F 4(1) good [OF i2(2)] fin [OF i2(2), where c = "strtoll s" and x = "Some (t + 1)"]
          by (cases "r \<le> 0") (simp_all add: Let_def)
      qed
    qed
  qed
qed

definition no_request :: HttpRequestInfo where
  "no_request = \<lparr>request_method = None, request_uri = None, http_version = None, query_string = None,
     content_length = 0, num_headers = 0,
     http_headers = replicate HTTP_MAX_HEADERS \<lparr>hdr_name = None, hdr_value = None\<rparr>, body = None\<rparr>"

theorem parse_http_request_safe_witness:
  "\<exists>r mem' ri'. parse_http_request (replicate 20 0xFF) 20 no_request = Some (r, mem', ri') \<and> r \<le> 20 \<and> length mem' = 20"
  using parse_http_request_safe [of 20 "replicate 20 0xFF" no_request] by (auto simp: no_request_def)

end
