(* ===== verification/HttpRequest.thy ===== *)
theory HttpRequest imports Http begin

text \<open>
  What the HTTP parser does with well-formed requests, shown on requests as texts with a grammar
  (\<open>http_msg\<close>, \<open>request_text\<close>, \<open>request_wf\<close>), and the table of status texts of
  \<open>Server/meta_header/ifnet.h\<close>.
\<close>

section \<open>Requests\<close>

text \<open>The memory is seen as what lies before a pointer and what it points to.\<close>

lemma skip_while_seg:
  "\<forall>x \<in> set xs. P x \<Longrightarrow> \<not> P y \<Longrightarrow> skip_while P (pre @ xs @ y # ys) (length pre) = Some (length pre + length xs)"
proof (induction xs arbitrary: pre)
  case Nil
  then show ?case by (subst skip_while.simps) simp
next
  case (Cons x xs)
  then have "skip_while P ((pre @ [x]) @ xs @ y # ys) (length (pre @ [x])) = Some (length (pre @ [x]) + length xs)"
    by (intro Cons.IH) auto
  then show ?case using Cons.prems by (subst skip_while.simps) simp
qed

lemma str_at_seg: "str_at (pre @ xs @ ys) (length pre) xs = Some True"
proof (induction xs arbitrary: pre)
  case (Cons x xs)
  show ?case using Cons.IH [of "pre @ [x]"] by simp
qed simp

lemma c_string_seg: "0 \<notin> set w \<Longrightarrow> c_string (pre @ w @ 0 # ys) (length pre) = Some w"
proof -
  assume "0 \<notin> set w"
  then have "\<forall>x \<in> set w. x \<noteq> 0" by blast
  then show ?thesis using skip_while_seg [of w "\<lambda>c. c \<noteq> 0" 0 pre ys] by (simp add: c_string_def)
qed

lemma isgraph_isspace: "isgraph c \<Longrightarrow> \<not> isspace c"
  by (auto simp: isgraph_def isspace_def word_le_nat_alt)

lemma clear_spaces_seg:
  "\<forall>x \<in> set ws. x \<noteq> 0 \<and> isspace x \<Longrightarrow> y = 0 \<or> \<not> isspace y \<Longrightarrow>
    clear_spaces (pre @ c # ws @ y # ys) (length pre) =
      Some (pre @ 0 # replicate (length ws) 0 @ y # ys, length pre + 1 + length ws)"
proof (induction ws arbitrary: pre c)
  case Nil
  then show ?case by (subst clear_spaces.simps) (auto simp: nth_append)
next
  case (Cons x ws)
  have "clear_spaces ((pre @ [0]) @ x # ws @ y # ys) (length (pre @ [0])) =
      Some ((pre @ [0]) @ 0 # replicate (length ws) 0 @ y # ys, length (pre @ [0]) + 1 + length ws)"
    using Cons.prems by (intro Cons.IH) auto
  then show ?case using Cons.prems by (subst clear_spaces.simps) (simp add: nth_append Let_def)
qed

lemma skip_word_seg:
  assumes "\<forall>x \<in> set w. isgraph x" "\<forall>x \<in> set ws. x \<noteq> 0 \<and> isspace x"
    and "if eol then (c = 13 \<or> c = 10) \<and> (y = 0 \<or> \<not> isspace y) else c = 32 \<and> isgraph y"
  shows "skip_to_end_of_word_and_terminate eol (pre @ w @ c # ws @ y # ys) (length pre) =
    Some (1, pre @ w @ 0 # replicate (length ws) 0 @ y # ys, length pre + length w + 1 + length ws)"
proof -
  have c: "\<not> isgraph c" using assms(3) by (auto simp: isgraph_def split: if_splits)
  have y: "y = 0 \<or> \<not> isspace y" using assms(3) isgraph_isspace by (auto split: if_splits)
  have 1: "skip_while isgraph (pre @ w @ c # ws @ y # ys) (length pre) = Some (length pre + length w)"
    using skip_while_seg [OF assms(1) c] .
  have 2: "clear_spaces (pre @ w @ c # ws @ y # ys) (length pre + length w) =
      Some (pre @ w @ 0 # replicate (length ws) 0 @ y # ys, length pre + length w + 1 + length ws)"
    using clear_spaces_seg [OF assms(2) y, of "pre @ w" c ys] by simp
  have 3: "(pre @ w @ 0 # replicate (length ws) 0 @ y # ys) ! (length pre + length w + 1 + length ws) = y"
    by (simp add: nth_append)
  show ?thesis
    using assms(3) by (simp add: skip_to_end_of_word_and_terminate_def 1 2 3 nth_append split: if_splits)
qed

text \<open>The text of a request: the request line and the header lines, all ended by CR LF, then an empty
  line.\<close>

definition text_char :: "byte \<Rightarrow> bool" where
  "text_char c \<longleftrightarrow> isprint c \<or> 128 \<le> c"

fun header_wf :: "bytes \<times> bytes \<Rightarrow> bool" where
  "header_wf (n, v) \<longleftrightarrow> n \<noteq> [] \<and> (\<forall>c \<in> set n. isgraph c \<and> c \<noteq> 58) \<and> (\<forall>c \<in> set v. text_char c) \<and> (v \<noteq> [] \<longrightarrow> hd v \<noteq> 32)"

fun header_line :: "bytes \<times> bytes \<Rightarrow> bytes" where
  "header_line (n, v) = n @ [58, 32] @ v @ [13, 10]"

fun header_done :: "bytes \<times> bytes \<Rightarrow> bytes" where
  "header_done (n, v) = n @ [0, 32] @ v @ [0, 0]"

definition header_lines :: "(bytes \<times> bytes) list \<Rightarrow> bytes" where
  "header_lines hs = concat (map header_line hs)"

definition headers_done :: "(bytes \<times> bytes) list \<Rightarrow> bytes" where
  "headers_done hs = concat (map header_done hs)"

lemma length_header_done [simp]: "length (header_done h) = length (header_line h)"
  by (cases h) simp

lemma length_headers_done [simp]: "length (headers_done hs) = length (header_lines hs)"
  by (induction hs) (auto simp: headers_done_def header_lines_def)

lemma headers_Cons:
  "header_lines (h # hs) = header_line h @ header_lines hs" "headers_done (h # hs) = header_done h @ headers_done hs"
  by (simp_all add: headers_done_def header_lines_def)

text \<open>A header of the array reads as a name and a value, whatever follows the memory \<open>m\<close>.\<close>

definition reads :: "bytes \<Rightarrow> nat option \<Rightarrow> bytes \<Rightarrow> bool" where
  "reads mem p s \<longleftrightarrow> (\<exists>i. p = Some i \<and> c_string mem i = Some s)"

definition header_reads :: "bytes \<Rightarrow> HttpHeader \<Rightarrow> bytes \<times> bytes \<Rightarrow> bool" where
  "header_reads m h nv \<longleftrightarrow> (\<forall>ys. reads (m @ ys) (hdr_name h) (fst nv) \<and> reads (m @ ys) (hdr_value h) (snd nv))"

lemma no_nul: "header_wf (n, v) \<Longrightarrow> 0 \<notin> set n \<and> 0 \<notin> set v"
  by (auto simp: isgraph_def text_char_def isprint_def)

lemma header_step:
  assumes "header_wf (n, v)" "i < length hdr"
  shows "headers_from (Suc k) i (pre @ header_line (n, v) @ c # ys) (length pre) hdr =
    (let hdr' = hdr[i := (hdr ! i)\<lparr>hdr_name := Some (length pre), hdr_value := Some (length pre + length n + 2)\<rparr>];
         mem' = (pre @ header_done (n, v)) @ c # ys; p = length (pre @ header_done (n, v))
     in if c = 13 then Some (int i + 1, mem', p, hdr') else headers_from k (i + 1) mem' p hdr')"
proof -
  let ?m = "pre @ n @ 58 # 32 # v @ 13 # 10 # c # ys"
  let ?m1 = "pre @ n @ 0 # 32 # v @ 13 # 10 # c # ys"
  have n: "n \<noteq> []" "\<forall>x \<in> set n. x \<noteq> 58 \<and> 33 \<le> x \<and> x \<le> 126" using assms(1) by (auto simp: isgraph_def)
  have 1: "skip_while (\<lambda>c. c \<noteq> 58 \<and> 33 \<le> c \<and> c \<le> 126) ?m (length pre) = Some (length pre + length n)"
    using skip_while_seg [OF n(2), of 58 pre] by simp
  have m1: "?m[length pre + length n := 0] = ?m1" by (simp add: list_update_append)
  obtain z zs where z: "v @ 13 # 10 # c # ys = z # zs" "z \<noteq> 32" using assms(1) by (cases v) auto
  have 2: "skip_while (\<lambda>c. c = 32) ?m1 (length pre + length n + 1) = Some (length pre + length n + 2)"
    using skip_while_seg [of "[32]" "\<lambda>c. c = 32" z "pre @ n @ [0]" zs] z by simp
  have v: "\<forall>x \<in> set v. x \<noteq> 13 \<and> x \<noteq> 10 \<and> x \<noteq> 0" using assms(1) by (auto simp: text_char_def isprint_def)
  have 3: "skip_while (\<lambda>c. c \<noteq> 13 \<and> c \<noteq> 10 \<and> c \<noteq> 0) ?m1 (length pre + length n + 2) = Some (length pre + length n + 2 + length v)"
    using skip_while_seg [OF v, of 13 "pre @ n @ [0, 32]"] by simp
  have 4: "str_at ?m1 (length pre + length n + 2 + length v) [13, 10] = Some True"
    using str_at_seg [of "pre @ n @ [0, 32] @ v" "[13, 10]" "c # ys"] by (simp add: add.assoc del: str_at.simps)
  show ?thesis
    using n(1) assms(2) 1 2 3 4 m1
    by (simp add: Let_def nth_append list_update_append add.assoc del: str_at.simps)
qed

lemma header_readsI:
  assumes "header_wf (n, v)" "hdr_name h = Some (length pre)" "hdr_value h = Some (length pre + length n + 2)"
  shows "header_reads (pre @ header_done (n, v) @ m) h (n, v)"
proof -
  have "0 \<notin> set n" "0 \<notin> set v" using no_nul [OF assms(1)] by auto
  then have "c_string (pre @ n @ 0 # 32 # v @ 0 # 0 # m @ ys) (length pre) = Some n"
    "c_string ((pre @ n @ [0, 32]) @ v @ 0 # 0 # m @ ys) (length (pre @ n @ [0, 32])) = Some v" for ys
    using c_string_seg by blast+
  then show ?thesis using assms(2,3) by (simp add: header_reads_def reads_def)
qed

lemma header_reads_mono: "header_reads m h nv \<Longrightarrow> header_reads (m @ m') h nv"
  by (simp add: header_reads_def)

lemma header_starts:
  "header_wf h \<Longrightarrow> \<exists>c ys. header_line h = c # ys \<and> c \<noteq> 13 \<and> isgraph c"
  by (cases h; cases "fst h") (auto simp: isgraph_def)

lemma headers_from_lines:
  "hs \<noteq> [] \<Longrightarrow> length hs \<le> k \<Longrightarrow> i + k \<le> length hdr \<Longrightarrow> \<forall>h \<in> set hs. header_wf h \<Longrightarrow>
    \<exists>hdr'. headers_from k i (pre @ header_lines hs @ 13 # ys) (length pre) hdr =
        Some (int (i + length hs), pre @ headers_done hs @ 13 # ys, length pre + length (header_lines hs), hdr') \<and>
      length hdr' = length hdr \<and> take i hdr' = take i hdr \<and>
      list_all2 (header_reads (pre @ headers_done hs)) (take (length hs) (drop i hdr')) hs"
proof (induction hs arbitrary: k i pre hdr)
  case (Cons h hs)
  obtain n v where h: "h = (n, v)" by (cases h)
  obtain k' where k: "k = Suc k'" using Cons.prems(2) by (cases k) auto
  have wf: "header_wf (n, v)" and i: "i < length hdr" using Cons.prems(3,4) h k by auto
  let ?pre = "pre @ header_done (n, v)"
  define h1 where "h1 = (hdr ! i)\<lparr>hdr_name := Some (length pre), hdr_value := Some (length pre + length n + 2)\<rparr>"
  have r1: "header_reads (pre @ header_done (n, v) @ m) h1 (n, v)" for m
    by (rule header_readsI [OF wf]) (simp_all add: h1_def)
  show ?case
  proof (cases "hs = []")
    case True
    have "headers_from k i (pre @ header_line (n, v) @ 13 # ys) (length pre) hdr =
        Some (int i + 1, ?pre @ 13 # ys, length ?pre, hdr[i := h1])"
      unfolding k using header_step [OF wf i, of k' pre 13 ys] by (simp add: h1_def Let_def del: header_line.simps header_done.simps)
    moreover have "take (Suc 0) (drop i (hdr[i := h1])) = [h1]"
      using i by (simp add: take_Suc_conv_app_nth hd_drop_conv_nth take_Suc)
    ultimately show ?thesis using True h r1 [of "[]"]
      by (simp add: headers_Cons headers_done_def header_lines_def del: header_line.simps header_done.simps)
  next
    case False
    obtain h2 hs2 c zs where c: "hs = h2 # hs2" "header_line h2 = c # zs" "c \<noteq> 13"
      using False Cons.prems(4) header_starts by (metis list.set_intros list.exhaust)
    have "headers_from k i (pre @ header_line (n, v) @ header_lines hs @ 13 # ys) (length pre) hdr =
        headers_from k' (i + 1) (?pre @ header_lines hs @ 13 # ys) (length ?pre) (hdr[i := h1])"
      unfolding k using header_step [OF wf i, of k' pre c "zs @ header_lines hs2 @ 13 # ys"] c
      by (simp add: h1_def Let_def headers_Cons del: header_line.simps header_done.simps)
    moreover obtain hdr' where r: "headers_from k' (i + 1) (?pre @ header_lines hs @ 13 # ys) (length ?pre) (hdr[i := h1]) =
        Some (int (i + 1 + length hs), ?pre @ headers_done hs @ 13 # ys, length ?pre + length (header_lines hs), hdr')"
      "length hdr' = length hdr" "take (i + 1) hdr' = take (i + 1) (hdr[i := h1])"
      "list_all2 (header_reads (?pre @ headers_done hs)) (take (length hs) (drop (i + 1) hdr')) hs"
      using Cons.IH [OF False, of k' "i + 1" "hdr[i := h1]" ?pre] Cons.prems(2-4) k by auto
    moreover have "hdr' ! i = h1" "take i hdr' = take i hdr"
      using r(2,3) i by (auto dest: arg_cong [of _ _ "\<lambda>xs. xs ! i"] arg_cong [of _ _ "take i"] simp: min_def)
    moreover have "take (Suc (length hs)) (drop i hdr') = hdr' ! i # take (length hs) (drop (i + 1) hdr')"
      using r(2) i by (simp add: take_Suc hd_drop_conv_nth drop_Suc tl_drop)
    ultimately show ?thesis using h r1 [of "headers_done hs"]
      by (simp add: headers_Cons del: header_line.simps header_done.simps)
  qed
qed simp

lemma get_header_reads:
  "list_all2 (header_reads m) hdr hs \<Longrightarrow>
    \<exists>p. get_header (m @ ys) hdr (length hs) name = Some p \<and>
      (case map_of hs name of None \<Rightarrow> p = None | Some v \<Rightarrow> reads (m @ ys) p v)"
proof (induction hdr hs rule: list_all2_induct)
  case (Cons h hdr nv hs)
  obtain i where i: "hdr_name h = Some i" "c_string (m @ ys) i = Some (fst nv)" "reads (m @ ys) (hdr_value h) (snd nv)"
    using Cons(1) by (auto simp: header_reads_def reads_def)
  show ?case
  proof (cases "fst nv = name")
    case True
    then show ?thesis using i by (cases nv) simp
  next
    case False
    then show ?thesis using Cons(3) i by (cases nv) simp
  qed
qed simp

text \<open>The length of the header.\<close>

lemma header_len_plain:
  "\<forall>x \<in> set xs. text_char x \<Longrightarrow> b + i = length pre \<Longrightarrow> i + length xs \<le> n \<Longrightarrow> b + n \<le> length (pre @ xs @ ys) \<Longrightarrow>
    header_len_from (pre @ xs @ ys) b n i = header_len_from (pre @ xs @ ys) b n (i + length xs)"
proof (induction xs arbitrary: i pre)
  case (Cons x xs)
  let ?m = "pre @ (x # xs) @ ys"
  have x: "text_char x" "x \<noteq> 13" "x \<noteq> 10" using Cons.prems(1) by (auto simp: text_char_def isprint_def)
  have i: "i < n" "?m ! (b + i) = x" "b + i < length ?m" using Cons.prems(2-4) by (auto simp: nth_append)
  have "header_len_from ?m b n i = header_len_from ?m b n (i + 1)"
    using x i by (subst header_len_from.simps) (auto simp: text_char_def)
  also have "\<dots> = header_len_from ((pre @ [x]) @ xs @ ys) b n (i + 1)" by simp
  also have "\<dots> = header_len_from ((pre @ [x]) @ xs @ ys) b n (i + 1 + length xs)"
    using Cons.prems by (intro Cons.IH) auto
  finally show ?case by simp
qed simp

lemma header_len_line_end:
  assumes "b + i = length pre" "i + 3 \<le> n" "b + n \<le> length (pre @ 13 # 10 # c # ys)" "c \<noteq> 13" "c \<noteq> 10"
  shows "header_len_from (pre @ 13 # 10 # c # ys) b n i = header_len_from (pre @ 13 # 10 # c # ys) b n (i + 2)"
proof -
  let ?m = "pre @ 13 # 10 # c # ys"
  have m: "?m ! (b + i) = 13" "?m ! (b + i + 1) = 10" "?m ! (b + i + 2) = c" "b + i + 2 < length ?m"
    using assms(1) by (auto simp: nth_append)
  have "header_len_from ?m b n i = header_len_from ?m b n (i + 1)"
    using m assms(2,4) by (subst header_len_from.simps) simp
  also have "\<dots> = header_len_from ?m b n (i + 2)"
    using m assms(2,5) by (subst header_len_from.simps) simp
  finally show ?thesis .
qed

lemma header_len_end:
  assumes "b + i = length pre" "i + 4 \<le> n" "b + n \<le> length (pre @ [13, 10, 13, 10] @ ys)"
  shows "header_len_from (pre @ [13, 10, 13, 10] @ ys) b n i = Some (int i + 4)"
proof -
  let ?m = "pre @ [13, 10, 13, 10] @ ys"
  have "str_at ?m (b + i) [13, 10, 13, 10] = Some True" unfolding assms(1) by (rule str_at_seg)
  moreover have "?m ! (b + i) = 13" "b + i + 1 < length ?m" using assms(1) by (auto simp: nth_append)
  ultimately show ?thesis
    using assms(2) by (subst header_len_from.simps) (simp del: str_at.simps(2) add: str_at.simps(2) [of _ _ 10])
qed

definition lines_text :: "bytes list \<Rightarrow> bytes" where
  "lines_text ls = concat (map (\<lambda>l. l @ [13, 10]) ls)"

lemma header_len_lines:
  "ls \<noteq> [] \<Longrightarrow> \<forall>l \<in> set ls. l \<noteq> [] \<and> (\<forall>c \<in> set l. text_char c) \<Longrightarrow> b + i = length pre \<Longrightarrow>
    i + length (lines_text ls) + 2 \<le> n \<Longrightarrow> b + n \<le> length (pre @ lines_text ls @ [13, 10] @ ys) \<Longrightarrow>
    header_len_from (pre @ lines_text ls @ [13, 10] @ ys) b n i = Some (int (i + length (lines_text ls) + 2))"
proof (induction ls arbitrary: i pre)
  case (Cons l ls)
  let ?m = "pre @ lines_text (l # ls) @ [13, 10] @ ys"
  have l: "l \<noteq> []" "\<forall>c \<in> set l. text_char c" using Cons.prems(2) by auto
  have 1: "header_len_from ?m b n i = header_len_from ?m b n (i + length l)"
    using header_len_plain [OF l(2) Cons.prems(3), of n "[13, 10] @ lines_text ls @ [13, 10] @ ys"] Cons.prems(4,5)
    by (simp add: lines_text_def)
  show ?case
  proof (cases ls)
    case Nil
    then show ?thesis using 1 header_len_end [of b "i + length l" "pre @ l" n ys] Cons.prems(3-5)
      by (simp add: lines_text_def)
  next
    case (Cons l2 ls2)
    obtain c zs where c: "l2 = c # zs" using Cons.prems(2) Cons by (cases l2) auto
    have "text_char c" using Cons.prems(2) Cons c by auto
    then have c2: "c \<noteq> 13" "c \<noteq> 10" by (auto simp: text_char_def isprint_def)
    have "header_len_from ?m b n (i + length l) = header_len_from ?m b n (i + length l + 2)"
      using header_len_line_end [OF _ _ _ c2, of b "i + length l" "pre @ l" n "zs @ [13, 10] @ lines_text ls2 @ [13, 10] @ ys"]
        Cons.prems(3-5) Cons c by (simp add: lines_text_def)
    also have "\<dots> = Some (int (i + length l + 2 + length (lines_text ls) + 2))"
      using Cons.IH [of "i + length l + 2" "pre @ l @ [13, 10]"] Cons.prems Cons by (simp add: lines_text_def)
    finally show ?thesis using 1 by (simp add: lines_text_def)
  qed
qed simp

record http_msg =
  req_space :: bytes
  req_method :: bytes
  req_path :: bytes
  req_query :: "bytes option"
  req_version :: bytes
  req_headers :: "(bytes \<times> bytes) list"

definition uri_text :: "byte \<Rightarrow> http_msg \<Rightarrow> bytes" where
  "uri_text c r = req_path r @ (case req_query r of None \<Rightarrow> [] | Some q \<Rightarrow> c # q)"

definition request_line :: "byte \<Rightarrow> byte \<Rightarrow> http_msg \<Rightarrow> bytes" where
  "request_line sp c r = req_method r @ sp # uri_text c r @ sp # str ''HTTP/'' @ req_version r"

definition request_text :: "http_msg \<Rightarrow> bytes" where
  "request_text r = req_space r @ request_line 32 63 r @ [13, 10] @ header_lines (req_headers r) @ [13, 10]"

definition request_wf :: "http_msg \<Rightarrow> bool" where
  "request_wf r \<longleftrightarrow> (\<forall>c \<in> set (req_space r). isspace c) \<and> req_method r \<in> method_name ` set g_sHttpMethods \<and>
     uri_text 63 r \<noteq> [] \<and> (\<forall>c \<in> set (req_path r). isgraph c \<and> c \<noteq> 63) \<and>
     (\<forall>q. req_query r = Some q \<longrightarrow> (\<forall>c \<in> set q. isgraph c)) \<and> (\<forall>c \<in> set (req_version r). isgraph c) \<and>
     (\<forall>h \<in> set (req_headers r). header_wf h) \<and> length (req_headers r) \<le> HTTP_MAX_HEADERS"

lemma isgraph_not_0 [simp]: "\<not> isgraph 0" "isgraph 63"
  by (simp_all add: isgraph_def)

lemma graph_text: "isgraph c \<Longrightarrow> text_char c"
  by (auto simp: isgraph_def text_char_def isprint_def word_le_nat_alt)

lemma valid_method: "is_valid_http_method m \<longleftrightarrow> m \<in> method_name ` set g_sHttpMethods"
  by (auto simp: is_valid_http_method_def get_http_method_info_def find_None_iff)

lemma method_graph: "\<forall>m \<in> set g_sHttpMethods. list_all isgraph (method_name m) \<and> method_name m \<noteq> []"
  by (simp add: g_sHttpMethods_def mk_method_def str_def isgraph_def)

lemma http_graph: "\<forall>c \<in> set (str ''HTTP/''). isgraph c" "length (str ''HTTP/'') = 5" "\<exists>xs. str ''HTTP/'' = 72 # xs"
  by (simp_all add: str_def isgraph_def)

lemma uri_graph: "request_wf r \<Longrightarrow> \<forall>c \<in> set (uri_text 63 r). isgraph c"
  by (auto simp: request_wf_def uri_text_def split: option.splits)

lemma parse_request_line_seg:
  fixes pre :: bytes
  assumes wf: "request_wf r" and ws: "\<forall>x \<in> set ws. x \<noteq> 0 \<and> isspace x" "y = 0 \<or> \<not> isspace y"
  defines "m \<equiv> length pre" and "u \<equiv> length pre + length (req_method r) + 1"
  defines "v \<equiv> u + length (uri_text 63 r) + 1"
  shows "parse_request_line (pre @ request_line 32 63 r @ 13 # ws @ y # ys) (length pre) ri =
    Some (True, pre @ request_line 0 0 r @ 0 # replicate (length ws) 0 @ y # ys,
      length pre + length (request_line 32 63 r) + 1 + length ws,
      ri\<lparr>request_method := Some m, request_uri := Some u,
         query_string := map_option (\<lambda>_. u + length (req_path r) + 1) (req_query r), http_version := Some (v + 5)\<rparr>)"
proof -
  define U where "U = uri_text 63 r"
  define V where "V = str ''HTTP/'' @ req_version r"
  define M where "M = req_method r"
  have g: "\<forall>c \<in> set M. isgraph c" "is_valid_http_method M" "\<forall>c \<in> set U. isgraph c" "\<forall>c \<in> set V. isgraph c"
    using wf method_graph uri_graph [OF wf] http_graph(1) by (auto simp: U_def V_def M_def request_wf_def valid_method list_all_iff)
  obtain c1 U1 where U: "U = c1 # U1" "isgraph c1" using wf g(3) by (cases U) (auto simp: U_def request_wf_def)
  obtain V1 where V: "V = 72 # V1" using http_graph(3) by (auto simp: V_def)
  have 0: "pre @ request_line 32 63 r @ 13 # ws @ y # ys = pre @ M @ 32 # U @ 32 # V @ 13 # ws @ y # ys"
    by (simp add: request_line_def U_def V_def M_def)
  have 1: "skip_to_end_of_word_and_terminate False (pre @ M @ 32 # U @ 32 # V @ 13 # ws @ y # ys) (length pre) =
      Some (1, pre @ M @ 0 # U @ 32 # V @ 13 # ws @ y # ys, u)"
    using skip_word_seg [OF g(1), of "[]" False 32 c1 pre] U by (simp add: u_def M_def)
  have 2: "c_string (pre @ M @ 0 # U @ 32 # V @ 13 # ws @ y # ys) (length pre) = Some M"
    using g(1) by (intro c_string_seg) auto
  have 3: "skip_to_end_of_word_and_terminate False (pre @ M @ 0 # U @ 32 # V @ 13 # ws @ y # ys) u =
      Some (1, pre @ M @ 0 # U @ 0 # V @ 13 # ws @ y # ys, v)"
    using skip_word_seg [OF g(3), of "[]" False 32 72 "pre @ M @ [0]"] V by (simp add: u_def v_def M_def U_def isgraph_def)
  define U0 where "U0 = uri_text 0 r"
  define q where "q = u + length (req_path r)"
  have p: "\<forall>c \<in> set (req_path r). c \<noteq> 63 \<and> c \<noteq> 0" using wf by (auto simp: request_wf_def)
  have 4: "skip_while (\<lambda>c. c \<noteq> 63 \<and> c \<noteq> 0) (pre @ M @ 0 # U @ 0 # V @ 13 # ws @ y # ys) u = Some q"
  proof (cases "req_query r")
    case None
    then show ?thesis using skip_while_seg [OF p, of 0 "pre @ M @ [0]" "V @ 13 # ws @ y # ys"]
      by (simp add: u_def q_def M_def U_def uri_text_def)
  next
    case (Some s)
    then show ?thesis using skip_while_seg [OF p, of 63 "pre @ M @ [0]" "s @ 0 # V @ 13 # ws @ y # ys"]
      by (simp add: u_def q_def M_def U_def uri_text_def)
  qed
  have 5: "(pre @ M @ 0 # U @ 0 # V @ 13 # ws @ y # ys) ! q = (if req_query r = None then 0 else 63)"
    "(if req_query r = None then pre @ M @ 0 # U @ 0 # V @ 13 # ws @ y # ys
      else (pre @ M @ 0 # U @ 0 # V @ 13 # ws @ y # ys)[q := 0]) = pre @ M @ 0 # U0 @ 0 # V @ 13 # ws @ y # ys"
    "q < length (pre @ M @ 0 # U @ 0 # V @ 13 # ws @ y # ys)"
    by (auto simp: q_def u_def M_def U_def U0_def uri_text_def nth_append list_update_append split: option.splits)
  have 6: "skip_to_end_of_word_and_terminate True (pre @ M @ 0 # U0 @ 0 # V @ 13 # ws @ y # ys) v =
      Some (1, pre @ M @ 0 # U0 @ 0 # V @ 0 # replicate (length ws) 0 @ y # ys, v + length V + 1 + length ws)"
    using skip_word_seg [OF g(4) ws(1), of True 13 y "pre @ M @ 0 # U0 @ [0]" ys] ws(2)
    by (auto simp: u_def v_def M_def U0_def uri_text_def add.assoc split: option.splits)
  have 7: "str_at (pre @ M @ 0 # U0 @ 0 # V @ 0 # replicate (length ws) 0 @ y # ys) v (str ''HTTP/'') = Some True"
    using str_at_seg [of "pre @ M @ 0 # U0 @ [0]" "str ''HTTP/''" "req_version r @ 0 # replicate (length ws) 0 @ y # ys"]
    by (auto simp: u_def v_def M_def U0_def V_def uri_text_def add.assoc split: option.splits)
  have 8: "pre @ request_line 0 0 r @ 0 # replicate (length ws) 0 @ y # ys = pre @ M @ 0 # U0 @ 0 # V @ 0 # replicate (length ws) 0 @ y # ys"
    "length pre + length (request_line 32 63 r) + 1 + length ws = v + length V + 1 + length ws"
    by (auto simp: request_line_def U0_def V_def M_def u_def v_def)
  show ?thesis
    unfolding 0 8
    using 1 2 3 4 5 6 7 g(2)
    by (cases "req_query r") (simp_all add: parse_request_line_def Let_def m_def q_def)
qed

lemma skip_leading_seg:
  "\<forall>c \<in> set ws. isspace c \<Longrightarrow> \<not> isspace c \<Longrightarrow> length ws < len \<Longrightarrow>
    skip_leading (pre @ ws @ c # ys) (length pre) len = Some (length pre + length ws, len - length ws)"
proof (induction ws arbitrary: pre len)
  case Nil
  then show ?case by (cases len) auto
next
  case (Cons x ws)
  then obtain len' where len: "len = Suc len'" by (cases len) auto
  show ?case using Cons.IH [of "len'" "pre @ [x]"] Cons.prems len by simp
qed

lemma header_lines_text: "header_lines hs = lines_text (map (\<lambda>(n, v). n @ [58, 32] @ v) hs)"
  unfolding header_lines_def lines_text_def by (simp add: comp_def split_def) (metis header_line.simps prod.collapse append.assoc append_Cons append_Nil)

lemma request_parts:
  assumes "request_wf r"
  shows "\<forall>c \<in> set (request_line 32 63 r). text_char c" "request_line 32 63 r \<noteq> []"
    "\<exists>c ys. request_line 32 63 r = c # ys \<and> isgraph c"
proof -
  have m: "list_all isgraph (req_method r) \<and> req_method r \<noteq> []" using assms method_graph by (auto simp: request_wf_def)
  have "text_char 32" by (simp add: text_char_def isprint_def)
  then show "\<forall>c \<in> set (request_line 32 63 r). text_char c"
    using m uri_graph [OF assms] assms http_graph(1)
    by (auto simp: request_line_def list_all_iff request_wf_def intro: graph_text)
  show "request_line 32 63 r \<noteq> []" by (simp add: request_line_def)
  show "\<exists>c ys. request_line 32 63 r = c # ys \<and> isgraph c"
    using m by (cases "req_method r") (auto simp: request_line_def)
qed

lemma request_header_len:
  assumes wf: "request_wf r" and n: "length (request_text r) \<le> len" "len \<le> length (request_text r @ content)"
  defines "b \<equiv> length (req_space r)"
  shows "get_http_header_len (request_text r @ content) b (len - b) = Some (int (length (request_text r) - b))"
proof -
  let ?ls = "request_line 32 63 r # map (\<lambda>(n, v). n @ [58, 32] @ v) (req_headers r)"
  have t: "request_text r = req_space r @ lines_text ?ls @ [13, 10]"
    by (simp add: request_text_def header_lines_text) (simp add: lines_text_def)
  have sep: "text_char 58" "text_char 32" by (simp_all add: text_char_def isprint_def)
  have "(\<forall>c \<in> set a. text_char c) \<and> (\<forall>c \<in> set v. text_char c)" if "(a, v) \<in> set (req_headers r)" for a v
  proof -
    have "header_wf (a, v)" using that wf unfolding request_wf_def by blast
    then show ?thesis by (auto intro: graph_text)
  qed
  then have "\<forall>l \<in> set ?ls. l \<noteq> [] \<and> (\<forall>c \<in> set l. text_char c)"
    using request_parts(1,2) [OF wf] sep by auto
  then have "header_len_from (req_space r @ lines_text ?ls @ [13, 10] @ content) b (len - b) 0 =
      Some (int (0 + length (lines_text ?ls) + 2))"
    using n by (intro header_len_lines) (auto simp: t b_def)
  then show ?thesis by (simp add: get_http_header_len_def t b_def)
qed

lemma length_request_line: "length (request_line a b r) = length (request_line 0 0 r)"
  by (simp add: request_line_def uri_text_def split: option.splits)

lemma request_reads:
  fixes t :: bytes
  assumes "request_wf r"
  defines "u \<equiv> length (req_space r) + length (req_method r) + 1" and "m \<equiv> req_space r @ request_line 0 0 r @ 0 # t"
  shows "reads m (Some (length (req_space r))) (req_method r)" "reads m (Some u) (req_path r)"
    "reads m (Some (u + length (uri_text 63 r) + 1 + 5)) (req_version r)"
    "req_query r = Some q \<Longrightarrow> reads m (Some (u + length (req_path r) + 1)) q"
proof -
  let ?w = "req_space r" and ?M = "req_method r" and ?V = "str ''HTTP/'' @ req_version r"
  have "list_all isgraph ?M" using assms(1) method_graph by (auto simp: request_wf_def)
  then have g: "0 \<notin> set ?M" "0 \<notin> set (req_path r)" "0 \<notin> set (req_version r)" "req_query r = Some q \<Longrightarrow> 0 \<notin> set q"
    using assms(1) by (auto simp: request_wf_def list_all_iff)
  have U: "length (uri_text 63 r) = length (uri_text 0 r)" by (simp add: uri_text_def split: option.splits)
  show "reads m (Some (length ?w)) ?M"
    using c_string_seg [OF g(1), of ?w] by (simp add: reads_def m_def request_line_def)
  show "reads m (Some u) (req_path r)"
    using c_string_seg [OF g(2), of "?w @ ?M @ [0]"]
    by (simp add: reads_def m_def request_line_def u_def uri_text_def split: option.splits)
  show "reads m (Some (u + length (uri_text 63 r) + 1 + 5)) (req_version r)"
    using c_string_seg [OF g(3), of "?w @ ?M @ 0 # uri_text 0 r @ 0 # str ''HTTP/''" t] http_graph(2)
    by (simp add: reads_def m_def request_line_def u_def U ac_simps)
  show "reads m (Some (u + length (req_path r) + 1)) q" if q: "req_query r = Some q"
    using c_string_seg [OF g(4) [OF q], of "?w @ ?M @ 0 # req_path r @ [0]" "?V @ 0 # t"] q
    by (simp add: reads_def m_def request_line_def u_def uri_text_def ac_simps)
qed

lemma request_headers:
  assumes wf: "request_wf r" and hdr: "length hdr = HTTP_MAX_HEADERS"
  defines "A \<equiv> req_space r @ request_line 0 0 r @ [0, 0]" and "hs \<equiv> req_headers r"
  shows "\<exists>m1 p1 hdr' z p. parse_request_line (req_space r @ request_line 32 63 r @ 13 # 10 # header_lines hs @ 13 # 0 # ys)
       (length (req_space r)) ri = Some (True, m1, p1,
         ri\<lparr>request_method := Some (length (req_space r)), request_uri := Some (length (req_space r) + length (req_method r) + 1),
           query_string := map_option (\<lambda>_. length (req_space r) + length (req_method r) + 1 + length (req_path r) + 1) (req_query r),
           http_version := Some (length (req_space r) + length (req_method r) + 1 + length (uri_text 63 r) + 1 + 5)\<rparr>) \<and>
     parse_http_headers m1 p1 hdr = Some (int (length hs), A @ headers_done hs @ z # 0 # ys, p, hdr') \<and>
     list_all2 (header_reads (A @ headers_done hs)) (take (length hs) hdr') hs \<and>
     (hs \<noteq> [] \<longrightarrow> z = 13 \<and> p = length (A @ headers_done hs))"
proof (cases "hs = []")
  case True
  have "skip_while (\<lambda>c. c \<noteq> 58 \<and> 33 \<le> c \<and> c \<le> 126) ((A @ [0]) @ [] @ 0 # ys) (length (A @ [0])) = Some (length (A @ [0]) + length ([] :: bytes))"
    by (rule skip_while_seg) auto
  then have "parse_http_headers (A @ 0 # 0 # ys) (length A + 1) hdr = Some (0, A @ 0 # 0 # ys, length A + 1, hdr)"
    by (simp add: parse_http_headers_def HTTP_MAX_HEADERS_def numeral_eq_Suc)
  then show ?thesis
    using parse_request_line_seg [OF wf, of "[10, 13]" 0 "req_space r" ys ri] True
    by (simp add: A_def header_lines_def headers_done_def isspace_def length_request_line [of 32 63])
next
  case False
  then obtain h hs' where hs: "hs = h # hs'" by (cases hs) auto
  have hwf: "\<forall>h \<in> set hs. header_wf h" "length hs \<le> HTTP_MAX_HEADERS" using wf by (auto simp: request_wf_def hs_def)
  then obtain c cs where c: "header_line h = c # cs" "isgraph c" using header_starts [of h] hs by auto
  have "header_lines hs @ 13 # 0 # ys = c # (cs @ header_lines hs' @ 13 # 0 # ys)"
    by (simp add: hs headers_Cons c(1))
  then have l: "parse_request_line (req_space r @ request_line 32 63 r @ 13 # 10 # header_lines hs @ 13 # 0 # ys)
       (length (req_space r)) ri = Some (True, A @ header_lines hs @ 13 # 0 # ys, length A,
         ri\<lparr>request_method := Some (length (req_space r)), request_uri := Some (length (req_space r) + length (req_method r) + 1),
           query_string := map_option (\<lambda>_. length (req_space r) + length (req_method r) + 1 + length (req_path r) + 1) (req_query r),
           http_version := Some (length (req_space r) + length (req_method r) + 1 + length (uri_text 63 r) + 1 + 5)\<rparr>)"
    using parse_request_line_seg [OF wf, of "[10]" c "req_space r" "cs @ header_lines hs' @ 13 # 0 # ys" ri] isgraph_isspace [OF c(2)]
    by (simp add: A_def isspace_def length_request_line [of 32 63])
  obtain hdr' where "headers_from HTTP_MAX_HEADERS 0 (A @ header_lines hs @ 13 # 0 # ys) (length A) hdr =
        Some (int (0 + length hs), A @ headers_done hs @ 13 # 0 # ys, length A + length (header_lines hs), hdr')"
      "list_all2 (header_reads (A @ headers_done hs)) (take (length hs) (drop 0 hdr')) hs"
    using headers_from_lines [OF False hwf(2) _ hwf(1), of 0 hdr A "0 # ys"] hdr by auto
  then show ?thesis using l False by (simp add: parse_http_headers_def)
qed

lemma get_header_take: "get_header mem (take n hdr) n name = Some p \<Longrightarrow> get_header mem hdr n name = Some p"
proof (induction mem hdr n name rule: get_header.induct)
  case (3 mem h hdr k name)
  then show ?case by (cases "hdr_name h"; cases "c_string mem (the (hdr_name h))") (auto split: if_splits)
qed auto

lemma request_run:
  assumes wf: "request_wf r" and hdr: "length (http_headers ri) = HTTP_MAX_HEADERS"
    and len: "length (request_text r) \<le> len" "len \<le> length (request_text r @ content)"
  defines "A \<equiv> req_space r @ request_line 0 0 r @ [0, 0]"
  shows "\<exists>hdr' z p cl. parse_http_request (request_text r @ content) len ri =
      (let ri2 = ri\<lparr>request_method := Some (length (req_space r)), request_uri := Some (length (req_space r) + length (req_method r) + 1),
      http_version := Some (length (req_space r) + length (req_method r) + 1 + length (uri_text 63 r) + 1 + 5),
      query_string := map_option (\<lambda>_. length (req_space r) + length (req_method r) + 1 + length (req_path r) + 1) (req_query r),
      num_headers := int (length (req_headers r)), http_headers := hdr'\<rparr>;
           mem = A @ headers_done (req_headers r) @ z # 0 # content
       in case cl of None \<Rightarrow> Some (int (length (request_text r)), mem, ri2)
          | Some p' \<Rightarrow> do { s \<leftarrow> c_string mem p';
              (q, m3, t) \<leftarrow> skip_to_end_of_word_and_terminate True mem p;
              if q \<le> 0 then Some (-1, m3, ri2\<lparr>content_length := strtoll s\<rparr>)
              else Some (int (length (request_text r)), m3, ri2\<lparr>content_length := strtoll s, body := Some (t + 1)\<rparr>) }) \<and>
    list_all2 (header_reads (A @ headers_done (req_headers r))) (take (length (req_headers r)) hdr') (req_headers r) \<and>
    (case map_of (req_headers r) (str ''Content-Length'') of None \<Rightarrow> cl = None
     | Some v \<Rightarrow> reads (A @ headers_done (req_headers r) @ z # 0 # content) cl v) \<and>
    (req_headers r \<noteq> [] \<longrightarrow> z = 13 \<and> p = length (A @ headers_done (req_headers r)))"
proof -
  let ?w = "req_space r" and ?hs = "req_headers r"
  let ?t = "request_line 32 63 r @ 13 # 10 # header_lines ?hs @ 13 # 0 # content"
  obtain c cs where c: "request_line 32 63 r = c # cs" "isgraph c" using request_parts(3) [OF wf] by blast
  have c': "\<not> isspace c" "\<not> iscntrl c" "c \<noteq> 0" "c \<noteq> 13" "c \<noteq> 10"
    using c(2) isgraph_isspace by (auto simp: isgraph_def iscntrl_def word_le_nat_alt word_less_nat_alt)
  have sp: "\<forall>c \<in> set ?w. isspace c" using wf by (simp add: request_wf_def)
  have s1: "skip_leading (request_text r @ content) 0 len = Some (length ?w, len - length ?w)"
    using skip_leading_seg [OF sp c'(1), of len "[]"] len(1) c(1) by (simp add: request_text_def)
  have s2: "get_http_header_len (request_text r @ content) (length ?w) (len - length ?w) = Some (int (length (request_text r) - length ?w))"
    using request_header_len [OF wf len] .
  have s3: "wr (request_text r @ content) (length (request_text r) - 1) 0 = Some (?w @ ?t)"
    by (simp add: request_text_def nth_append list_update_append)
  have s4: "rd (request_text r @ content) (length ?w) = Some c" "rd (?w @ ?t) (length ?w) = Some c"
    using c(1) by (simp_all add: request_text_def nth_append)
  define ri0 where "ri0 = ri\<lparr>request_method := None, request_uri := None, http_version := None, num_headers := 0\<rparr>"
  let ?u = "length ?w + length (req_method r) + 1"
  define ri1 where "ri1 = ri0\<lparr>request_method := Some (length ?w), request_uri := Some ?u,
      query_string := map_option (\<lambda>_. ?u + length (req_path r) + 1) (req_query r),
      http_version := Some (?u + length (uri_text 63 r) + 1 + 5)\<rparr>"
  obtain m1 p1 hdr' z p where s5: "parse_request_line (?w @ ?t) (length ?w) ri0 = Some (True, m1, p1, ri1)"
    "parse_http_headers m1 p1 (http_headers ri) = Some (int (length ?hs), A @ headers_done ?hs @ z # 0 # content, p, hdr')"
    "list_all2 (header_reads (A @ headers_done ?hs)) (take (length ?hs) hdr') ?hs"
    "?hs \<noteq> [] \<longrightarrow> z = 13 \<and> p = length (A @ headers_done ?hs)"
    using request_headers [OF wf hdr, of content ri0] unfolding A_def ri1_def by blast
  obtain cl where cl: "get_header ((A @ headers_done ?hs) @ z # 0 # content) (take (length ?hs) hdr') (length ?hs) (str ''Content-Length'') = Some cl"
    "case map_of ?hs (str ''Content-Length'') of None \<Rightarrow> cl = None | Some v \<Rightarrow> reads ((A @ headers_done ?hs) @ z # 0 # content) cl v"
    using get_header_reads [OF s5(3), of "z # 0 # content" "str ''Content-Length''"] by blast
  have s6: "get_header (A @ headers_done ?hs @ z # 0 # content) hdr' (length ?hs) (str ''Content-Length'') = Some cl"
    using get_header_take [OF cl(1)] by simp
  have T: "length (A @ headers_done ?hs) + 2 = length (request_text r)" "length ?w \<le> length (request_text r)"
    by (simp_all add: A_def request_text_def length_request_line [of 32 63])
  have tot: "int (length (request_text r) - length ?w) + int (length ?w) = int (length (request_text r))"
    "0 < length (request_text r) - length ?w" "length ?w < len" "length ?w + (length (request_text r) - length ?w) - 1 = length (request_text r) - 1"
    using T len(1) by (simp_all add: request_text_def)
  define ri2 where "ri2 = ri1\<lparr>num_headers := int (length ?hs), http_headers := hdr'\<rparr>"
  have f: "len - length ?w \<noteq> 0" "0 < int (length (request_text r) - length ?w)"
    "wr (request_text r @ content) (length ?w + nat (int (length (request_text r) - length ?w)) - 1) 0 = Some (?w @ ?t)"
    "parse_http_headers m1 p1 (http_headers ri1) = Some (int (length ?hs), A @ headers_done ?hs @ z # 0 # content, p, hdr')"
    "get_header (A @ headers_done ?hs @ z # 0 # content) hdr' (nat (int (length ?hs))) (str ''Content-Length'') = Some cl"
    using tot(2,3) s3 s5(2) s6 by (simp_all only: nat_int tot(4)) (simp_all add: ri1_def ri0_def)
  have ri2: "ri2 = ri\<lparr>request_method := Some (length (req_space r)), request_uri := Some (length (req_space r) + length (req_method r) + 1),
      http_version := Some (length (req_space r) + length (req_method r) + 1 + length (uri_text 63 r) + 1 + 5),
      query_string := map_option (\<lambda>_. length (req_space r) + length (req_method r) + 1 + length (req_path r) + 1) (req_query r),
      num_headers := int (length (req_headers r)), http_headers := hdr'\<rparr>"
    by (simp add: ri2_def ri1_def ri0_def)
  show ?thesis
    using parse_http_request_steps [OF s1 f(1) s4(1) c'(2) s2 f(2,3) s4(2) s5(1) f(4) f(5) ri0_def ri2_def] s5(3,4) cl(2) c'(3-5)
    unfolding ri2 tot(1) Let_def append_assoc by (intro exI [of _ hdr'] exI [of _ z] exI [of _ p] exI [of _ cl]) simp
qed

text \<open>C29: a well-formed request is parsed to exactly its parts: for any method the server knows, a
  path, an optional query string, a version and up to 64 headers with printable values, whatever
  white space comes before and whatever content follows, the parser returns the length of the
  header, and in the buffer it leaves, every pointer it hands out reads as the part it stands for;
  the content is untouched.  With a Content-Length header (its first one counts) the length is that
  number and the body pointer is the first byte behind the header.  This is what the code does, and
  in two points not what the comments of \<open>HttpRequestInfo\<close> say: the URI is the path as it was sent,
  not decoded, and without a Content-Length header the length is not set to -1 but left as the
  caller had it.\<close>

theorem http_request_roundtrip:
  assumes wf: "request_wf r" and hdr: "length (http_headers ri) = HTTP_MAX_HEADERS"
    and len: "length (request_text r) \<le> len" "len \<le> length (request_text r @ content)"
  shows "\<exists>mem' ri'. parse_http_request (request_text r @ content) len ri = Some (int (length (request_text r)), mem', ri') \<and>
    reads mem' (request_method ri') (req_method r) \<and> reads mem' (request_uri ri') (req_path r) \<and>
    reads mem' (http_version ri') (req_version r) \<and>
    (case req_query r of None \<Rightarrow> query_string ri' = None | Some q \<Rightarrow> reads mem' (query_string ri') q) \<and>
    num_headers ri' = int (length (req_headers r)) \<and>
    list_all2 (\<lambda>h nv. reads mem' (hdr_name h) (fst nv) \<and> reads mem' (hdr_value h) (snd nv))
      (take (length (req_headers r)) (http_headers ri')) (req_headers r) \<and>
    (case map_of (req_headers r) (str ''Content-Length'') of
       None \<Rightarrow> content_length ri' = content_length ri \<and> body ri' = body ri
     | Some v \<Rightarrow> content_length ri' = strtoll v \<and> body ri' = Some (length (request_text r))) \<and>
    drop (length (request_text r)) mem' = content"
proof -
  let ?w = "req_space r" and ?hs = "req_headers r"
  define A where "A = ?w @ request_line 0 0 r @ [0, 0]"
  obtain hdr' z p cl ri2 where ri2: "ri2 = ri\<lparr>request_method := Some (length (req_space r)), request_uri := Some (length (req_space r) + length (req_method r) + 1),
      http_version := Some (length (req_space r) + length (req_method r) + 1 + length (uri_text 63 r) + 1 + 5),
      query_string := map_option (\<lambda>_. length (req_space r) + length (req_method r) + 1 + length (req_path r) + 1) (req_query r),
      num_headers := int (length (req_headers r)), http_headers := hdr'\<rparr>"
    and eq: "parse_http_request (request_text r @ content) len ri =
      (let mem = A @ headers_done (req_headers r) @ z # 0 # content
       in case cl of None \<Rightarrow> Some (int (length (request_text r)), mem, ri2)
          | Some p' \<Rightarrow> do { s \<leftarrow> c_string mem p';
              (q, m3, t) \<leftarrow> skip_to_end_of_word_and_terminate True mem p;
              if q \<le> 0 then Some (-1, m3, ri2\<lparr>content_length := strtoll s\<rparr>)
              else Some (int (length (request_text r)), m3, ri2\<lparr>content_length := strtoll s, body := Some (t + 1)\<rparr>) })"
    and s5: "list_all2 (header_reads (A @ headers_done ?hs)) (take (length ?hs) hdr') ?hs"
      "?hs \<noteq> [] \<longrightarrow> z = 13 \<and> p = length (A @ headers_done ?hs)"
    and cl: "case map_of ?hs (str ''Content-Length'') of None \<Rightarrow> cl = None
      | Some v \<Rightarrow> reads (A @ headers_done ?hs @ z # 0 # content) cl v"
    using request_run [OF assms] unfolding A_def Let_def by blast
  have T: "length (A @ headers_done ?hs) + 2 = length (request_text r)"
    by (simp add: A_def request_text_def length_request_line [of 32 63])
  have R: "reads (A @ t) (request_method ri2) (req_method r)" "reads (A @ t) (request_uri ri2) (req_path r)"
    "reads (A @ t) (http_version ri2) (req_version r)"
    "case req_query r of None \<Rightarrow> query_string ri2 = None | Some q \<Rightarrow> reads (A @ t) (query_string ri2) q" for t
    using request_reads [OF wf, where t = "0 # t"] by (auto simp: A_def ri2 split: option.split)
  have H: "list_all2 (\<lambda>h nv. reads (A @ headers_done ?hs @ t) (hdr_name h) (fst nv) \<and> reads (A @ headers_done ?hs @ t) (hdr_value h) (snd nv))
      (take (length ?hs) (http_headers ri2)) ?hs" for t
    using s5(1) by (auto simp: header_reads_def ri2 elim: list_all2_mono)
  have O: "content_length ri2 = content_length ri" "body ri2 = body ri" "num_headers ri2 = int (length ?hs)"
    by (simp_all add: ri2)
  have D: "drop (length (request_text r)) (A @ headers_done ?hs @ a # 0 # content) = content" for a
    unfolding T [symmetric] by simp
  show ?thesis
  proof (cases "map_of ?hs (str ''Content-Length'')")
    case None
    then have "cl = None" using cl by simp
    then show ?thesis using eq R H D None O by simp
  next
    case (Some v)
    then obtain i where i: "cl = Some i" "c_string (A @ headers_done ?hs @ z # 0 # content) i = Some v"
      using cl by (auto simp: reads_def)
    have z: "z = 13" "p = length (A @ headers_done ?hs)" using s5(2) Some by auto
    have "skip_to_end_of_word_and_terminate True ((A @ headers_done ?hs) @ [] @ 13 # [] @ 0 # content) (length (A @ headers_done ?hs)) =
        Some (1, (A @ headers_done ?hs) @ [] @ 0 # replicate (length ([] :: bytes)) 0 @ 0 # content,
          length (A @ headers_done ?hs) + length ([] :: bytes) + 1 + length ([] :: bytes))"
      by (rule skip_word_seg) auto
    then show ?thesis using eq R H D Some i z T O by (cases "req_query r") simp_all
  qed
qed

definition sample_request :: http_msg where
  "sample_request = \<lparr>req_space = [32], req_method = str ''POST'', req_path = str ''/t'', req_query = Some (str ''a=1''),
     req_version = str ''1.1'', req_headers = [(str ''Content-Length'', str ''3''), (str ''Host'', str ''x y'')]\<rparr>"

theorem http_request_roundtrip_witness:
  "\<exists>mem' ri'. parse_http_request (request_text sample_request @ [1, 2, 3]) (length (request_text sample_request) + 3) no_request =
      Some (int (length (request_text sample_request)), mem', ri') \<and>
    reads mem' (request_uri ri') (str ''/t'') \<and> reads mem' (query_string ri') (str ''a=1'') \<and> num_headers ri' = 2 \<and>
    content_length ri' = 3 \<and> body ri' = Some (length (request_text sample_request)) \<and>
    drop (length (request_text sample_request)) mem' = [1, 2, 3]"
proof -
  have wf: "request_wf sample_request"
    by (simp add: request_wf_def sample_request_def str_def isspace_def isgraph_def text_char_def isprint_def uri_text_def
        HTTP_MAX_HEADERS_def g_sHttpMethods_def mk_method_def)
  have "strtoll (str ''3'') = 3" by (simp add: strtoll_def str_def isspace_def isdigit_def digits_val_def)
  moreover have "map_of (req_headers sample_request) (str ''Content-Length'') = Some (str ''3'')" by (simp add: sample_request_def)
  ultimately show ?thesis
    using http_request_roundtrip [OF wf, of no_request "length (request_text sample_request) + 3" "[1, 2, 3]"]
    by (auto simp: no_request_def sample_request_def)
qed

text \<open>A blank line made of two LF ends the header, but the header lines are only separated at CR LF:
  of a request with bare LF only the first header is found, with the rest of the text as its value.\<close>

definition lf_request :: bytes where
  "lf_request = str ''GET / HTTP/1.0'' @ 10 # str ''A: b'' @ 10 # str ''C: d'' @ [10, 10]"

lemma lf_request_headers:
  "\<exists>mem' ri'. parse_http_request lf_request 26 no_request = Some (26, mem', ri') \<and> num_headers ri' = 1 \<and>
    reads mem' (hdr_value (http_headers ri' ! 0)) (98 # 10 # str ''C: d'' @ [10])"
proof -
  have "map_option (\<lambda>(r, mem', ri'). (r, num_headers ri', map_option (c_string mem') (hdr_value (http_headers ri' ! 0))))
      (parse_http_request lf_request 26 no_request) = Some (26, 1, Some (Some (98 # 10 # str ''C: d'' @ [10])))"
    by code_simp
  then show ?thesis by (auto simp: reads_def)
qed

section \<open>Status codes\<close>

definition response_codes :: "(int \<times> bytes) list" where
  "response_codes =
    [(100, str ''Continue''), (101, str ''Switching Protocols''), (102, str ''Processing''),
     (200, str ''OK''), (201, str ''Created''), (202, str ''Accepted''),
     (203, str ''Non-Authoritative Information''), (204, str ''No Content''), (205, str ''Reset Content''),
     (206, str ''Partial Content''), (207, str ''Multi-Status''), (208, str ''Already Reported''),
     (226, str ''IM used''), (300, str ''Multiple Choices''), (301, str ''Moved Permanently''),
     (302, str ''Found''), (303, str ''See Other''), (304, str ''Not Modified''),
     (305, str ''Use Proxy''), (307, str ''Temporary Redirect''), (308, str ''Permanent Redirect''),
     (400, str ''Bad Request''), (401, str ''Unauthorized''), (402, str ''Payment Required''),
     (403, str ''Forbidden''), (404, str ''Not Found''), (405, str ''Method Not Allowed''),
     (406, str ''Not Acceptable''), (407, str ''Proxy Authentication Required''), (408, str ''Request Time-out''),
     (409, str ''Conflict''), (410, str ''Gone''), (411, str ''Length Required''),
     (412, str ''Precondition Failed''), (413, str ''Request Entity Too Large''), (414, str ''Request-URI Too Large''),
     (415, str ''Unsupported Media Type''), (416, str ''Requested range not satisfiable''), (417, str ''Expectation Failed''),
     (421, str ''Misdirected Request''), (422, str ''Unproccessable entity''), (423, str ''Locked''),
     (424, str ''Failed Dependency''), (426, str ''Upgrade Required''), (428, str ''Precondition Required''),
     (429, str ''Too Many Requests''), (431, str ''Request Header Fields Too Large''), (451, str ''Unavailable For Legal Reasons''),
     (500, str ''Internal Server Error''), (501, str ''Not Implemented''), (502, str ''Bad Gateway''),
     (503, str ''Service Unavailable''), (504, str ''Gateway Time-out''), (505, str ''HTTP Version not supported''),
     (506, str ''Variant Also Negotiates''), (507, str ''Insufficient Storage''), (508, str ''Loop Detected''),
     (510, str ''Not Extended''), (511, str ''Network Authentication Required''), (418, str ''I am a teapot''),
     (419, str ''Authentication Timeout''), (420, str ''Enhance Your Calm''), (440, str ''Login Timeout''),
     (509, str ''Bandwidth Limit Exceeded'')]"

definition mg_get_response_code_text :: "int \<Rightarrow> bytes" where
  "mg_get_response_code_text response_code =
    (case map_of response_codes response_code of
       Some t \<Rightarrow> t
     | None \<Rightarrow>
         if response_code \<ge> 100 \<and> response_code < 200 then str ''Information''
         else if response_code \<ge> 200 \<and> response_code < 300 then str ''Success''
         else if response_code \<ge> 300 \<and> response_code < 400 then str ''Redirection''
         else if response_code \<ge> 400 \<and> response_code < 500 then str ''Client Error''
         else if response_code \<ge> 500 \<and> response_code < 600 then str ''Server Error''
         else [])"

lemma response_codes_range:
  "list_all (\<lambda>(c, t). 100 \<le> c \<and> c < 600 \<and> t \<noteq> [] \<and> list_all text_char t) response_codes" "distinct (map fst response_codes)"
  by (simp_all add: response_codes_def str_def text_char_def isprint_def)

text \<open>A status line can be built for every code: the text is printable, and it is empty exactly for
  the numbers that are not status codes.\<close>

lemma response_text:
  "list_all text_char (mg_get_response_code_text c)" "mg_get_response_code_text c = [] \<longleftrightarrow> c < 100 \<or> 600 \<le> c"
proof -
  show "list_all text_char (mg_get_response_code_text c)"
    using response_codes_range(1) by (auto simp: mg_get_response_code_text_def list_all_iff str_def text_char_def isprint_def
        dest!: map_of_SomeD split: option.splits)
  show "mg_get_response_code_text c = [] \<longleftrightarrow> c < 100 \<or> 600 \<le> c"
    using response_codes_range(1) by (force simp: mg_get_response_code_text_def list_all_iff str_def
        dest!: map_of_SomeD split: option.splits)
qed

end
