(* ===== verification/DataHeader.thy ===== *)
theory DataHeader imports NetStream begin

text \<open>
  The packet header of binary sessions, \<open>BinaryDataHeader\<close> of \<open>Server/GameServer/SocketSession.cpp\<close>
  with \<open>IFxDataHeader::ParsePacket\<close> of \<open>Server/Net/ifnet.cpp\<close>: eight bytes, the length of the
  data and a magic number, written and read with \<open>CNetStream\<close>.  A \<open>char*\<close> argument is a memory
  object and an offset; \<open>None\<close> is an access outside an object.  The size of a packet is returned as
  an \<open>int\<close>: the sum of the lengths is taken in 32 bits and read as a signed number.
\<close>

record data_header =
  m_dataRecvBuffer :: bytes
  m_dataSendBuffer :: bytes

definition HEADER_SIZE :: nat where
  "HEADER_SIZE = 8"

definition s_dwMagic :: "32 word" where
  "s_dwMagic = push_bit 24 84 OR push_bit 16 69 OR push_bit 8 83 OR 84"

definition GetHeaderLength :: "data_header \<Rightarrow> nat" where
  "GetHeaderLength h = HEADER_SIZE"

definition BuildSendPkgHeader :: "32 word \<Rightarrow> data_header \<Rightarrow> (bytes \<times> nat \<times> data_header) option" where
  "BuildSendPkgHeader dwDataLen h =
    do { let s = CNetStream ENetStreamType_Write (m_dataSendBuffer h) 0 HEADER_SIZE;
         (r, s) \<leftarrow> WriteInt dwDataLen s;
         (r, s) \<leftarrow> WriteInt s_dwMagic s;
         Some (m_mem s, HEADER_SIZE, h\<lparr>m_dataSendBuffer := m_mem s\<rparr>) }"

text \<open>\<open>src\<close> are the \<open>dwLen\<close> bytes at \<open>pBuff\<close>.\<close>

definition BuildRecvPkgHeader :: "bytes \<Rightarrow> nat \<Rightarrow> data_header \<Rightarrow> (bool \<times> data_header) option" where
  "BuildRecvPkgHeader src dwOffset h =
    (if length src + dwOffset > GetHeaderLength h then Some (False, h)
     else do { buf \<leftarrow> copy_to (m_dataRecvBuffer h) dwOffset src; Some (True, h\<lparr>m_dataRecvBuffer := buf\<rparr>) })"

definition read_or_0 :: "netstream \<Rightarrow> (32 word \<times> netstream) option" where
  "read_or_0 s = do { (r, s) \<leftarrow> ReadInt s; Some (case r of None \<Rightarrow> 0 | Some w \<Rightarrow> w, s) }"

definition CheckPkgHeader :: "bytes \<Rightarrow> nat \<Rightarrow> data_header \<Rightarrow> int option" where
  "CheckPkgHeader mem pBuf h =
    do { let oHeaderStream = CNetStream_read (m_dataRecvBuffer h) 0 HEADER_SIZE;
         let oRecvStream = CNetStream_read mem pBuf HEADER_SIZE;
         (dwHeaderLength, oHeaderStream) \<leftarrow> read_or_0 oHeaderStream;
         (dwBufferLength, oRecvStream) \<leftarrow> read_or_0 oRecvStream;
         (dwHeaderMagic, oHeaderStream) \<leftarrow> read_or_0 oHeaderStream;
         (dwBufferMagic, oRecvStream) \<leftarrow> read_or_0 oRecvStream;
         if dwHeaderLength \<noteq> dwBufferLength then Some (-1)
         else if s_dwMagic \<noteq> dwBufferMagic then Some (-1)
         else Some (sint (of_nat (GetHeaderLength h) + dwHeaderLength)) }"

definition ParsePacket :: "bytes \<Rightarrow> nat \<Rightarrow> nat \<Rightarrow> data_header \<Rightarrow> int option" where
  "ParsePacket mem pBuf dwLen h =
    (if dwLen < GetHeaderLength h then Some 0 else CheckPkgHeader mem pBuf h)"

section \<open>Headers of frames\<close>

definition header_ok :: "data_header \<Rightarrow> bool" where
  "header_ok h \<longleftrightarrow> length (m_dataRecvBuffer h) = HEADER_SIZE \<and> length (m_dataSendBuffer h) = HEADER_SIZE"

definition pkg_header :: "nat \<Rightarrow> bytes" where
  "pkg_header n = be_bytes 4 n @ be_bytes 4 (unat s_dwMagic)"

lemma length_pkg_header [simp]: "length (pkg_header n) = 8"
  by (simp add: pkg_header_def)

lemma BuildSendPkgHeader_eq:
  assumes "header_ok h"
  shows "BuildSendPkgHeader w h = Some (pkg_header (unat w), 8, h\<lparr>m_dataSendBuffer := pkg_header (unat w)\<rparr>)"
proof -
  let ?s = "CNetStream ENetStreamType_Write (m_dataSendBuffer h) 0 8"
  have s: "m_eType ?s = ENetStreamType_Write" "stream_ok ?s" "m_dwLen ?s = 8" "m_pData ?s = 0" "m_mem ?s = m_dataSendBuffer h"
    using assms by (simp_all add: CNetStream_def stream_ok_def header_ok_def HEADER_SIZE_def)
  let ?t = "put_bytes (be_bytes 4 (unat w)) ?s"
  have t: "m_eType ?t = ENetStreamType_Write" "stream_ok ?t" "m_dwLen ?t = 4"
    "m_mem (put_bytes (be_bytes 4 (unat s_dwMagic)) ?t) = pkg_header (unat w)"
    using s assms by (simp_all add: put_bytes_def skip_def stream_ok_def header_ok_def HEADER_SIZE_def blit_def pkg_header_def)
  show ?thesis
    using s t by (simp add: BuildSendPkgHeader_def HEADER_SIZE_def writer_eqs)
qed

lemma read_or_0_eq:
  "length bs = 4 \<Longrightarrow> read_or_0 (CNetStream_read (a @ bs @ c) (length a) (4 + n)) =
    Some (of_nat (be_nat bs), CNetStream_read (a @ bs @ c) (length a + 4) n)"
proof -
  assume l: "length bs = 4"
  let ?s = "CNetStream_read (a @ bs @ c) (length a) (4 + n)"
  have "read_var 4 ?s = Some (Some bs, CNetStream_read (a @ bs @ c) (length a + 4) n)"
    using l by (simp add: read_var_def ReadData_def copy_from_def CNetStream_read_def)
  then show ?thesis using l ntohl_load [of bs] by (simp add: read_or_0_def ReadInt_def)
qed

text \<open>A header as \<open>BuildSendPkgHeader\<close> makes it announces the size of the whole packet, in 32 bits.\<close>

lemma CheckPkgHeader_any:
  assumes "m_dataRecvBuffer h = pkg_header n" "length a = p" "n < 2 ^ 32"
  shows "CheckPkgHeader (a @ pkg_header n @ c) p h = Some (sint (8 + of_nat n :: 32 word))"
proof -
  let ?l = "be_bytes 4 n" and ?m = "be_bytes 4 (unat s_dwMagic)"
  have m: "be_nat ?m = unat s_dwMagic" "be_nat ?l = n"
    using unsigned_less [of s_dwMagic, where 'a = nat] assms(3) by (simp_all add: be_nat_be_bytes)
  have 1: "read_or_0 (CNetStream_read (?l @ ?m) 0 8) = Some (of_nat n, CNetStream_read (?l @ ?m) 4 4)"
    "read_or_0 (CNetStream_read (?l @ ?m) 4 4) = Some (s_dwMagic, CNetStream_read (?l @ ?m) 8 0)"
    using read_or_0_eq [of ?l "[]" ?m 4] read_or_0_eq [of ?m ?l "[]" 0] m by simp_all
  have 2: "read_or_0 (CNetStream_read (a @ ?l @ ?m @ c) p 8) = Some (of_nat n, CNetStream_read (a @ ?l @ ?m @ c) (p + 4) 4)"
    "read_or_0 (CNetStream_read (a @ ?l @ ?m @ c) (p + 4) 4) = Some (s_dwMagic, CNetStream_read (a @ ?l @ ?m @ c) (p + 8) 0)"
    using read_or_0_eq [of ?l a "?m @ c" 4] read_or_0_eq [of ?m "a @ ?l" c 0] m assms(2) by (simp_all add: add.commute)
  show ?thesis
    using assms(1) 1 2 by (simp add: CheckPkgHeader_def pkg_header_def HEADER_SIZE_def GetHeaderLength_def)
qed

lemma CheckPkgHeader_frame:
  assumes "m_dataRecvBuffer h = pkg_header n" "length a = p" "n + 8 < 2 ^ 31"
  shows "CheckPkgHeader (a @ pkg_header n @ c) p h = Some (int n + 8)"
proof -
  have "sint (word_of_int (int n + 8) :: 32 word) = int n + 8"
    unfolding sint_sbintrunc' using assms(3) by (intro signed_take_bit_int_eq_self) simp_all
  moreover have "(8 + of_nat n :: 32 word) = word_of_int (int n + 8)" by (simp add: add.commute)
  ultimately have "sint (8 + of_nat n :: 32 word) = int n + 8" by (simp only:)
  then show ?thesis using CheckPkgHeader_any [OF assms(1,2), of c] assms(3) by simp
qed

end
