(* ===== verification/TcpSock.thy ===== *)
theory TcpSock imports LoopBuff DataHeader begin

text \<open>
  The TCP connection of \<open>Server/Net/mytcpsock.cpp\<close> (\<open>FxTCPConnectSockBase\<close> and
  \<open>FxTCPConnectSock\<close>, the branches for Linux) with binary packet headers: sending a message
  (\<open>Send\<close>, \<open>PostSend\<close>, \<open>OnSend\<close>), receiving and splitting the byte stream into packets
  (\<open>OnRecv\<close>) and handing a packet to the session (\<open>__ProcRecv\<close>).  The ring buffers are
  \<open>LoopBuff\<close>, the header is \<open>DataHeader\<close>.  The operating system is an argument: what
  \<open>recv\<close> and \<open>send\<close> return, and whether \<open>ChangeEvent\<close> succeeds.  Network events go to the list
  \<open>m_events\<close>, logging is left out.  \<open>None\<close> is an access outside a buffer.  The C \<open>int\<close>s of the
  parsing loop are integers without a width.
\<close>

section \<open>State\<close>

datatype ESocketState = SSTATE_INVALID | SSTATE_LISTEN | SSTATE_STOP_LISTEN | SSTATE_CONNECT
  | SSTATE_ESTABLISH | SSTATE_CLOSE | SSTATE_RELEASE

text \<open>\<open>NET_ERRNO\<close> stands for a value of \<open>errno\<close>, which the same field of an event carries.\<close>

datatype ENetErrCode = NET_UNKNOWN_ERROR | NET_CLOSE_ERROR | NET_RECVBUFF_ERROR | NET_CONNECT_FAIL | NET_SYSTEM_ERROR
  | NET_RECV_ERROR | NET_SEND_ERROR | NET_SEND_OVERFLOW | NET_PACKET_ERROR | NET_EOF_ERROR | NET_SUCCESS | NET_ERRNO nat

datatype net_event = NETEVT_INVALID | NETEVT_ESTABLISH | NETEVT_ASSOCIATE | NETEVT_RECV int | NETEVT_RECV_PACKAGE_ERROR
  | NETEVT_CONN_ERR ENetErrCode | NETEVT_ERROR ENetErrCode | NETEVT_TERMINATE | NETEVT_RELEASE

record tcp_sock =
  m_poRecvBuf :: loopbuff
  m_poSendBuf :: loopbuff
  m_pDataHeader :: data_header
  m_nNeedData :: int
  m_nPacketLen :: int
  m_nState :: ESocketState
  m_hSock :: bool
  m_bSending :: bool
  m_bSendLinger :: bool
  m_bDelayClose :: bool
  m_events :: "net_event list"

definition IsConnected :: "tcp_sock \<Rightarrow> bool" where
  "IsConnected s \<longleftrightarrow> m_nState s = SSTATE_ESTABLISH"

definition PushNetEvent :: "net_event \<Rightarrow> tcp_sock \<Rightarrow> tcp_sock" where
  "PushNetEvent e s = s\<lparr>m_events := m_events s @ [e]\<rparr>"

definition Close :: "tcp_sock \<Rightarrow> tcp_sock" where
  "Close s =
    (if m_nState s = SSTATE_RELEASE \<or> m_nState s = SSTATE_CLOSE then s
     else let s = (if IsConnected s then s\<lparr>m_nState := SSTATE_CLOSE\<rparr> else s) in
       if \<not> m_hSock s then s else PushNetEvent NETEVT_TERMINATE (s\<lparr>m_hSock := False\<rparr>))"

text \<open>On Linux \<open>PostClose\<close> puts the socket on the list of the network thread.\<close>

definition PostClose :: "tcp_sock \<Rightarrow> tcp_sock" where
  "PostClose s = s\<lparr>m_bDelayClose := True\<rparr>"

definition fail_close :: "ENetErrCode \<Rightarrow> tcp_sock \<Rightarrow> tcp_sock" where
  "fail_close e s = Close (PushNetEvent (NETEVT_ERROR e) s)"

definition RECV_BUFF_SIZE :: int where "RECV_BUFF_SIZE = 8 * 64 * 1024"

definition SEND_BUFF_SIZE :: int where "SEND_BUFF_SIZE = 64 * 64 * 1024"

definition VAL_SO_SNDLOWAT :: int where "VAL_SO_SNDLOWAT = 64 * 1024"

text \<open>\<open>Init\<close>, with what \<open>realloc\<close> returns for the two buffers.\<close>

definition tcp_Init :: "bytes option \<Rightarrow> bytes option \<Rightarrow> tcp_sock \<Rightarrow> bool \<times> tcp_sock" where
  "tcp_Init rblk sblk s =
    (let (ok, b) = Init rblk RECV_BUFF_SIZE (m_poRecvBuf s); s = s\<lparr>m_poRecvBuf := b\<rparr> in
     if \<not> ok then (False, s)
     else let (ok, b) = Init sblk SEND_BUFF_SIZE (m_poSendBuf s) in (ok, s\<lparr>m_poSendBuf := b\<rparr>))"

section \<open>Sending\<close>

text \<open>The loop around \<open>PushBuff\<close>: with \<open>m_bSendLinger\<close> it sleeps and tries again, 30 times at
  most; what the network thread does to the buffer during a sleep is the argument \<open>sleep\<close>.\<close>

fun push_retry :: "(loopbuff \<Rightarrow> loopbuff) \<Rightarrow> bool \<Rightarrow> nat \<Rightarrow> bytes \<Rightarrow> int \<Rightarrow> loopbuff \<Rightarrow> (bool \<times> loopbuff) option" where
  "push_retry sleep linger tries src nLen b =
    do { (ok, b) \<leftarrow> PushBuff src nLen b;
         if ok then Some (True, b)
         else if \<not> linger then Some (False, b)
         else (case tries of 0 \<Rightarrow> Some (False, b)
               | Suc n \<Rightarrow> push_retry sleep linger n src nLen (sleep b)) }"

definition PostSendFree :: "bool \<Rightarrow> tcp_sock \<Rightarrow> bool" where
  "PostSendFree change s = (IsConnected s \<and> change)"

text \<open>\<open>pTemData\<close> is the static array in which the packet is put together; it is returned as it
  is left.\<close>

definition Send :: "(loopbuff \<Rightarrow> loopbuff) \<Rightarrow> bool \<Rightarrow> bytes \<Rightarrow> nat \<Rightarrow> bytes \<Rightarrow> tcp_sock
    \<Rightarrow> (bool \<times> bytes \<times> tcp_sock) option" where
  "Send sleep change pData dwLen pTemData s =
    (if \<not> IsConnected s then Some (False, pTemData, s)
     else do {
       let s = (if IsEmpty (m_poSendBuf s) then s\<lparr>m_poSendBuf := Clear (m_poSendBuf s)\<rparr> else s);
       (pDataHeaderBuff, dwHeaderLen, h) \<leftarrow> BuildSendPkgHeader (of_nat dwLen) (m_pDataHeader s);
       let s = s\<lparr>m_pDataHeader := h\<rparr>;
       if int (dwLen + dwHeaderLen) > GetTotalLen (m_poSendBuf s)
       then Some (False, pTemData, PostClose (PushNetEvent (NETEVT_ERROR NET_SEND_OVERFLOW) s))
       else do {
         let os = CNetStream ENetStreamType_Write pTemData 0 (dwLen + dwHeaderLen);
         (r, os) \<leftarrow> WriteData pDataHeaderBuff dwHeaderLen os;
         (r, os) \<leftarrow> WriteData pData dwLen os;
         let pTemData = m_mem os;
         (ok, b) \<leftarrow> push_retry sleep (m_bSendLinger s) 30 pTemData (int (dwLen + dwHeaderLen)) (m_poSendBuf s);
         let s = s\<lparr>m_poSendBuf := b\<rparr>;
         if \<not> ok then Some (False, pTemData, s)
         else if \<not> PostSendFree change s
         then Some (False, pTemData, PostClose (PushNetEvent (NETEVT_ERROR NET_SEND_OVERFLOW) s))
         else Some (True, pTemData, s) } })"

text \<open>What \<open>send\<close> returns: the number of bytes taken, or an error.\<close>

datatype send_result = Sent nat | Again | Failed

text \<open>\<open>PostSend\<close> with the bytes handed to the operating system.  \<open>change\<close> is the result of
  \<open>ChangeEvent\<close>, \<open>err\<close> the value of \<open>errno\<close> after it.\<close>

definition PostSend :: "send_result \<Rightarrow> bool \<Rightarrow> nat \<Rightarrow> tcp_sock \<Rightarrow> (bool \<times> bytes \<times> tcp_sock) option" where
  "PostSend sr change err s =
    (if \<not> IsConnected s then Some (False, [], s)
     else if m_bSending s then Some (True, [], s)
     else
       (let (pSendBuf, nLen) = GetOutCursorPtr (m_poSendBuf s) in
        if 0 \<ge> nLen \<or> pSendBuf = None then
          Some (if \<not> change then (False, [], fail_close (NET_ERRNO err) s) else (True, [], s))
        else
          (let s = s\<lparr>m_bSending := True\<rparr>;
               nLen = (if VAL_SO_SNDLOWAT < nLen then VAL_SO_SNDLOWAT else nLen)
           in case sr of
                Again \<Rightarrow> Some (if \<not> change then (False, [], s\<lparr>m_bSending := False\<rparr>) else (True, [], s))
              | Failed \<Rightarrow> Some (False, [], s\<lparr>m_bSending := False\<rparr>)
              | Sent n \<Rightarrow>
                  if n = 0 then Some (False, [], s\<lparr>m_bSending := False\<rparr>)
                  else do {
                    out \<leftarrow> copy_out pSendBuf (min (int n) nLen) (m_poSendBuf s);
                    let s = s\<lparr>m_poSendBuf := snd (DiscardBuff (int n) (m_poSendBuf s))\<rparr>;
                    Some (if \<not> change then (False, out, fail_close (NET_ERRNO err) (s\<lparr>m_bSending := False\<rparr>))
                          else (True, out, s)) })))"

definition OnSend :: "send_result \<Rightarrow> bool \<Rightarrow> nat \<Rightarrow> tcp_sock \<Rightarrow> (bytes \<times> tcp_sock) option" where
  "OnSend sr change err s =
    (if \<not> IsConnected s then Some ([], s)
     else do { (ok, out, s) \<leftarrow> PostSend sr change err (s\<lparr>m_bSending := False\<rparr>);
               Some (out, if \<not> ok then fail_close (NET_ERRNO err) s else s) })"

section \<open>Receiving\<close>

text \<open>How the loop over the received bytes goes on: it returns from the handler, leaves the loop, or
  starts the next round.  The numbers are \<open>pUseBuf\<close> (an offset), \<open>nLen\<close>, \<open>nUsedLen\<close> and
  \<open>nParserLen\<close>.\<close>

datatype round = Return tcp_sock | Leave int tcp_sock | Round int int int int tcp_sock

definition cost_used :: "int \<Rightarrow> tcp_sock \<Rightarrow> tcp_sock" where
  "cost_used n s = s\<lparr>m_poRecvBuf := snd (CostUsedBuff n (m_poRecvBuf s))\<rparr>"

definition build_recv :: "int option \<Rightarrow> int \<Rightarrow> int \<Rightarrow> tcp_sock \<Rightarrow> tcp_sock option" where
  "build_recv pBuff n off s =
    do { src \<leftarrow> copy_out pBuff n (m_poRecvBuf s);
         (r, h) \<leftarrow> BuildRecvPkgHeader src (nat off) (m_pDataHeader s);
         Some (s\<lparr>m_pDataHeader := h\<rparr>) }"

text \<open>A header that is cut in two by the end of the block.\<close>

definition split_header :: "int \<Rightarrow> int \<Rightarrow> tcp_sock \<Rightarrow> round option" where
  "split_header pParseBuf nLen s =
    (let H = int (GetHeaderLength (m_pDataHeader s)) in
     do { s \<leftarrow> build_recv (Some pParseBuf) nLen 0 s;
          let (ok, b) = CostUsedBuff nLen (m_poRecvBuf s);
          let s = s\<lparr>m_poRecvBuf := b\<rparr>;
          if \<not> ok then Some (Leave 0 s)
          else do {
            let (pUse, nNewLen) = GetUsedCursorPtr b;
            if H - nLen > nNewLen then Some (Return (fail_close NET_RECVBUFF_ERROR s))
            else do {
              s \<leftarrow> build_recv pUse (H - nLen) nLen s;
              n \<leftarrow> ParsePacket (m_dataRecvBuffer (m_pDataHeader s)) 0 (nat H) (m_pDataHeader s);
              let s = s\<lparr>m_nPacketLen := n\<rparr>;
              if 0 \<ge> n then Some (Return (fail_close NET_RECVBUFF_ERROR s))
              else do {
                pUseBuf \<leftarrow> pUse;
                let s = s\<lparr>m_nNeedData := n - H\<rparr>;
                let nUsedLen = H - nLen;
                let nLen' = nNewLen - nUsedLen;
                if m_nNeedData s = 0
                then Some (Round pUseBuf nLen' 0 nUsedLen
                       ((PushNetEvent (NETEVT_RECV n) (cost_used nUsedLen s))\<lparr>m_nPacketLen := 0\<rparr>))
                else Some (Round pUseBuf nLen' nUsedLen nUsedLen s) } } } })"

definition parse_round :: "int \<Rightarrow> int \<Rightarrow> int \<Rightarrow> int \<Rightarrow> tcp_sock \<Rightarrow> round option" where
  "parse_round pUseBuf nLen nUsedLen nParserLen s =
    (if 0 \<noteq> m_nNeedData s then
       (if nLen \<ge> m_nNeedData s
        then Some (Round pUseBuf (nLen - m_nNeedData s) 0 (nParserLen + m_nNeedData s)
               ((PushNetEvent (NETEVT_RECV (m_nPacketLen s)) (cost_used (nUsedLen + m_nNeedData s) s))
                  \<lparr>m_nPacketLen := 0, m_nNeedData := 0\<rparr>))
        else Some (Round pUseBuf 0 (nUsedLen + nLen) nParserLen (s\<lparr>m_nNeedData := m_nNeedData s - nLen\<rparr>)))
     else
       (let pParseBuf = pUseBuf + nParserLen; H = int (GetHeaderLength (m_pDataHeader s)) in
        do { s \<leftarrow> build_recv (Some pParseBuf) (if H > nLen then nLen else H) 0 s;
             n \<leftarrow> ParsePacket (lb_block (m_poRecvBuf s)) (nat pParseBuf) (nat nLen) (m_pDataHeader s);
             let s = s\<lparr>m_nPacketLen := n\<rparr>;
             if n = -1 then Some (Return (fail_close NET_RECV_ERROR s))
             else if n = 0 then
               (let s = (cost_used nUsedLen s)\<lparr>m_nNeedData := 0\<rparr> in
                if H > nLen then
                  (if H \<le> GetUseLen (m_poRecvBuf s) then split_header pParseBuf nLen s
                   else Some (Leave 0 s))
                else Some (Round pUseBuf nLen 0 nParserLen s))
             else if nLen \<ge> n
             then Some (Round pUseBuf (nLen - n) 0 (nParserLen + (nUsedLen + n))
                    ((PushNetEvent (NETEVT_RECV n) (cost_used (nUsedLen + n) s))\<lparr>m_nPacketLen := 0, m_nNeedData := 0\<rparr>))
             else Some (Round pUseBuf 0 (nUsedLen + nLen) nParserLen (s\<lparr>m_nNeedData := n - nLen\<rparr>)) }))"

text \<open>The loop with fuel; the inner \<open>None\<close> says that it is still running.\<close>

fun parse_loop :: "nat \<Rightarrow> int \<Rightarrow> int \<Rightarrow> int \<Rightarrow> int \<Rightarrow> tcp_sock \<Rightarrow> tcp_sock option option" where
  "parse_loop 0 pUseBuf nLen nUsedLen nParserLen s = Some None"
| "parse_loop (Suc fuel) pUseBuf nLen nUsedLen nParserLen s =
    (if 0 < nLen then
       do { r \<leftarrow> parse_round pUseBuf nLen nUsedLen nParserLen s;
            case r of Return s \<Rightarrow> Some (Some s)
            | Leave nUsedLen s \<Rightarrow> Some (Some (if nUsedLen \<noteq> 0 then cost_used nUsedLen s else s))
            | Round p n u k s \<Rightarrow> parse_loop fuel p n u k s }
     else Some (Some (if nUsedLen \<noteq> 0 then cost_used nUsedLen s else s)))"

text \<open>What \<open>recv\<close> returns: bytes (no more than were asked for), the end of the stream, or an error,
  which may be one to try again.\<close>

datatype recv_result = Received bytes | Eof | Recv_error bool nat

definition OnRecv :: "nat \<Rightarrow> recv_result \<Rightarrow> tcp_sock \<Rightarrow> tcp_sock option option" where
  "OnRecv fuel rr s =
    (if \<not> IsConnected s then Some (Some s)
     else
       (let s = (if IsEmpty (m_poRecvBuf s) then s\<lparr>m_poRecvBuf := Clear (m_poRecvBuf s)\<rparr> else s);
            (pRecvBuff, nLen) = GetInCursorPtr (m_poRecvBuf s)
        in if 0 \<ge> nLen then Some (Some s)
           else case rr of
             Recv_error again err \<Rightarrow> Some (Some (if again then s else fail_close (NET_ERRNO err) s))
           | Eof \<Rightarrow> Some (Some (fail_close NET_EOF_ERROR s))
           | Received bs \<Rightarrow>
               do { b \<leftarrow> copy_in pRecvBuff bs (m_poRecvBuf s);
                    let b = snd (CostBuff (int (length bs)) b);
                    let s = s\<lparr>m_poRecvBuf := b\<rparr>;
                    let (pUse, nLen) = GetUsedCursorPtr b;
                    case pUse of None \<Rightarrow> Some (Some (fail_close NET_RECVBUFF_ERROR s))
                    | Some pUseBuf \<Rightarrow>
                        if nLen \<le> 0 then Some (Some (fail_close NET_RECVBUFF_ERROR s))
                        else parse_loop fuel pUseBuf nLen 0 0 s }))"

text \<open>The largest number of bytes \<open>OnRecv\<close> asks \<open>recv\<close> for.\<close>

definition recv_room :: "tcp_sock \<Rightarrow> int" where
  "recv_room s =
    (let b = m_poRecvBuf s; nLen = snd (GetInCursorPtr (if IsEmpty b then Clear b else b))
     in if VAL_SO_SNDLOWAT < nLen then VAL_SO_SNDLOWAT else nLen)"

text \<open>\<open>__ProcRecv\<close> in the main thread, for a socket that still belongs to its connection: \<open>buf\<close> is
  the session's receive buffer of which \<open>recv_size\<close> bytes count, the result is what the session's
  \<open>OnRecv\<close> is called with.\<close>

definition ProcRecv :: "nat \<Rightarrow> int \<Rightarrow> bytes \<Rightarrow> tcp_sock \<Rightarrow> (bytes option \<times> bytes \<times> tcp_sock) option" where
  "ProcRecv recv_size dwLen buf s =
    (if dwLen = -1 then Some (None, buf, fail_close NET_RECV_ERROR s)
     else if int recv_size < dwLen mod 2 ^ 32 then Some (None, buf, fail_close NET_RECV_ERROR s)
     else do {
       (ok, out, b) \<leftarrow> PopBuff dwLen (m_poRecvBuf s);
       if \<not> ok then Some (None, buf, s)
       else do {
         buf \<leftarrow> copy_to buf 0 out;
         let s = s\<lparr>m_poRecvBuf := b\<rparr>;
         let n = nat ((dwLen - int (GetHeaderLength (m_pDataHeader s))) mod 2 ^ 32);
         src \<leftarrow> copy_from buf (GetHeaderLength (m_pDataHeader s)) n;
         buf \<leftarrow> copy_to buf 0 src;
         buf \<leftarrow> copy_to buf n [0];
         Some (Some (take n buf), buf, s) } })"

end
