(* ===== verification/TcpStream.thy ===== *)
theory TcpStream imports TcpSock begin

text \<open>
  The parsing loop of \<open>OnRecv\<close> on a stream of frames that lies in one piece: what one round does
  with a header, with a packet that is complete and with one that is not, and the loop by induction
  on its fuel (\<open>parse_loop_linear\<close>): it announces the packets that are complete and leaves the socket
  waiting for the rest of the next one.
\<close>

section \<open>Frames\<close>

definition pkt_frame :: "bytes \<Rightarrow> bytes" where
  "pkt_frame m = pkg_header (length m) @ m"

definition pkt_stream :: "bytes list \<Rightarrow> bytes" where
  "pkt_stream ms = concat (map pkt_frame ms)"

definition announce :: "bytes list \<Rightarrow> net_event list" where
  "announce ms = map (\<lambda>m. NETEVT_RECV (int (length m) + 8)) ms"

text \<open>How many packets are complete after \<open>n\<close> bytes, and how many bytes of the next one are there.\<close>

fun progress :: "bytes list \<Rightarrow> nat \<Rightarrow> nat \<times> nat" where
  "progress [] n = (0, n)"
| "progress (m # ms) n =
    (if 8 + length m \<le> n then (let (k, r) = progress ms (n - (8 + length m)) in (Suc k, r)) else (0, n))"

definition small :: "bytes list \<Rightarrow> bool" where
  "small ms \<longleftrightarrow> (\<forall>m \<in> set ms. length m + 8 < 2 ^ 31)"

lemma length_frame [simp]: "length (pkt_frame m) = 8 + length m"
  by (simp add: pkt_frame_def)

lemma stream_simps [simp]: "pkt_stream [] = []" "pkt_stream (m # ms) = pkt_frame m @ pkt_stream ms"
  "announce [] = []" "announce (m # ms) = NETEVT_RECV (int (length m) + 8) # announce ms"
  "small (m # ms) \<longleftrightarrow> length m + 8 < 2 ^ 31 \<and> small ms"
  by (simp_all add: pkt_stream_def announce_def small_def)

lemma stream_append: "pkt_stream (a @ b) = pkt_stream a @ pkt_stream b"
  by (simp add: pkt_stream_def)

lemma progress_0 [simp]: "n < 8 \<Longrightarrow> progress ms n = (0, n)"
  by (cases ms) simp_all

lemma progress_part: "r < 8 + length m \<Longrightarrow> progress (m # ms) r = (0, r)"
  by simp

section \<open>The parsing loop\<close>

text \<open>After the loop: \<open>r\<close> bytes of the first packet of \<open>ms\<close> have arrived.  A part of a header stays
  unparsed; later the rest of the packet is awaited.\<close>

definition waiting :: "bytes list \<Rightarrow> nat \<Rightarrow> tcp_sock \<Rightarrow> bool" where
  "waiting ms r s \<longleftrightarrow>
    (if r < 8 then m_nNeedData s = 0 \<and> lb_pending (m_poRecvBuf s) = take r (pkt_stream ms) \<and> r \<le> length (pkt_stream ms)
     else lb_pending (m_poRecvBuf s) = [] \<and> (case ms of [] \<Rightarrow> False | m # _ \<Rightarrow>
       r < 8 + length m \<and> m_nNeedData s = int (length m) + 8 - int r \<and> m_nPacketLen s = int (length m) + 8))"

text \<open>What parsing leaves alone.\<close>

definition kept :: "tcp_sock \<Rightarrow> tcp_sock \<Rightarrow> bool" where
  "kept s s' \<longleftrightarrow> lb_inv (m_poRecvBuf s') \<and> lb_data (m_poRecvBuf s') = lb_data (m_poRecvBuf s) \<and>
     m_nState s' = m_nState s \<and> m_hSock s' = m_hSock s \<and> m_poSendBuf s' = m_poSendBuf s \<and>
     header_ok (m_pDataHeader s') \<and> m_nTotalLen (m_poRecvBuf s') = m_nTotalLen (m_poRecvBuf s)"

lemma total_len [simp]:
  "m_nTotalLen (snd (CostUsedBuff n b)) = m_nTotalLen b" "m_nTotalLen (snd (CostBuff n b)) = m_nTotalLen b"
  "m_nTotalLen (m_poRecvBuf (cost_used n s)) = m_nTotalLen (m_poRecvBuf s)"
  by (auto simp: CostUsedBuff_def CostBuff_def cost_used_def Let_def)

lemma copy_in_total: "copy_in p src b = Some b' \<Longrightarrow> m_nTotalLen b' = m_nTotalLen b"
  by (auto simp: copy_in_def split: option.splits if_splits)

lemma kept_trans: "kept s s' \<Longrightarrow> kept s' s'' \<Longrightarrow> kept s s''"
  by (simp add: kept_def)

text \<open>The unparsed bytes lie in one piece: \<open>u\<close> bytes already looked at, then \<open>n\<close> bytes from
  \<open>pos\<close> on.\<close>

definition linear :: "int \<Rightarrow> int \<Rightarrow> int \<Rightarrow> tcp_sock \<Rightarrow> bool" where
  "linear u n pos s \<longleftrightarrow> lb_inv (m_poRecvBuf s) \<and> header_ok (m_pDataHeader s) \<and> 0 \<le> u \<and> 0 \<le> n \<and>
     int (length (lb_pending (m_poRecvBuf s))) = u + n \<and>
     (0 < n \<longrightarrow> u \<le> pos \<and> nat (pos - u) + nat (u + n) \<le> length (lb_block (m_poRecvBuf s)) \<and>
       take (nat (u + n)) (drop (nat (pos - u)) (lb_block (m_poRecvBuf s))) = lb_pending (m_poRecvBuf s))"

lemma CostUsedBuff_block: "lb_block (snd (CostUsedBuff n b)) = lb_block b"
  by (auto simp: CostUsedBuff_def lb_block_def Let_def)

lemma linear_cost:
  assumes "linear u n pos s" "0 \<le> j" "j \<le> n"
  shows "linear 0 (n - j) (pos + j) (cost_used (u + j) s)"
    "lb_pending (m_poRecvBuf (cost_used (u + j) s)) = drop (nat (u + j)) (lb_pending (m_poRecvBuf s))"
    "lb_data (m_poRecvBuf (cost_used (u + j) s)) = lb_data (m_poRecvBuf s)"
proof -
  let ?b = "m_poRecvBuf s" and ?s = "cost_used (u + j) s"
  have inv: "lb_inv ?b" and len: "int (length (lb_pending ?b)) = u + n" and un: "0 \<le> u" "0 \<le> n"
    using assms(1) by (simp_all add: linear_def)
  have r: "lb_inv (m_poRecvBuf ?s) \<and> lb_data (m_poRecvBuf ?s) = lb_data ?b \<and>
      lb_pending (m_poRecvBuf ?s) = drop (nat (u + j)) (lb_pending ?b)"
  proof (cases "u + j \<le> 0")
    case True
    then show ?thesis using inv un assms(2) CostUsedBuff_refused [OF inv, of "u + j"] by (simp add: cost_used_def)
  next
    case False
    then show ?thesis
      using CostUsedBuff_ok [OF inv, of "u + j"] len length_lb_pending [OF inv] assms(3) by (auto simp: cost_used_def)
  qed
  then show "lb_pending (m_poRecvBuf ?s) = drop (nat (u + j)) (lb_pending ?b)" "lb_data (m_poRecvBuf ?s) = lb_data ?b"
    by simp_all
  show "linear 0 (n - j) (pos + j) ?s"
  proof (cases "0 < n - j")
    case True
    have l: "u \<le> pos" "nat (pos - u) + nat (u + n) \<le> length (lb_block ?b)"
      "take (nat (u + n)) (drop (nat (pos - u)) (lb_block ?b)) = lb_pending ?b"
      using assms True by (simp_all add: linear_def)
    have e: "nat (pos + j) = nat (pos - u) + nat (u + j)" "nat (n - j) = nat (u + n) - nat (u + j)"
      "nat (u + j) \<le> nat (u + n)"
      using l(1) un assms(2,3) by linarith+
    have "take (nat (n - j)) (drop (nat (pos + j)) (lb_block ?b)) = drop (nat (u + j)) (lb_pending ?b)"
      unfolding l(3) [symmetric] e by (simp add: drop_take add.commute)
    moreover have "nat (pos + j) + nat (n - j) \<le> length (lb_block ?b)" using l e by linarith
    moreover have "int (length (drop (nat (u + j)) (lb_pending ?b))) = n - j" using len un assms by simp
    ultimately show ?thesis
      using r True l(1) assms(1,2,3) by (simp add: linear_def CostUsedBuff_block cost_used_def)
  next
    case False
    then show ?thesis using r assms len by (simp add: linear_def cost_used_def)
  qed
qed

text \<open>One header in one piece.\<close>

lemma build_recv_ok:
  assumes "header_ok (m_pDataHeader s)" "copy_out p n (m_poRecvBuf s) = Some src" "length src + nat off \<le> 8"
  shows "build_recv p n off s = Some (s\<lparr>m_pDataHeader := (m_pDataHeader s)
      \<lparr>m_dataRecvBuffer := blit (m_dataRecvBuffer (m_pDataHeader s)) (nat off) src\<rparr>\<rparr>)"
  using assms by (simp add: build_recv_def BuildRecvPkgHeader_def GetHeaderLength_def HEADER_SIZE_def header_ok_def copy_to_def add.commute)

lemma header_ok_blit:
  "header_ok h \<Longrightarrow> off + length src \<le> 8 \<Longrightarrow> header_ok (h\<lparr>m_dataRecvBuffer := blit (m_dataRecvBuffer h) off src\<rparr>)"
  by (simp add: header_ok_def HEADER_SIZE_def)

lemma copy_out_block:
  assumes "lb_inv b" "0 \<le> p" "0 \<le> n" "nat p + nat n \<le> length (lb_block b)"
  shows "copy_out (Some p) n b = Some (take (nat n) (drop (nat p) (lb_block b)))"
proof -
  have "m_pszBuff b = Some (lb_block b)"
    using assms(1) by (auto simp: lb_inv_def lb_core_def lb_block_def split: option.splits)
  then show ?thesis using assms by (simp add: copy_out_def)
qed

lemma linear_head:
  assumes "linear 0 n pos s" "0 < n" "j \<le> n" "0 \<le> j"
  shows "copy_out (Some pos) j (m_poRecvBuf s) = Some (take (nat j) (lb_pending (m_poRecvBuf s)))"
    "\<exists>a c. lb_block (m_poRecvBuf s) = a @ take (nat j) (lb_pending (m_poRecvBuf s)) @ c \<and> length a = nat pos"
proof -
  let ?b = "m_poRecvBuf s"
  have l: "0 \<le> pos" "nat pos + nat n \<le> length (lb_block ?b)" "take (nat n) (drop (nat pos) (lb_block ?b)) = lb_pending ?b" "lb_inv ?b"
    using assms(1,2) by (simp_all add: linear_def)
  have t: "take (nat j) (lb_pending ?b) = take (nat j) (drop (nat pos) (lb_block ?b))"
    unfolding l(3) [symmetric] using assms(3) by (simp add: min_def)
  show "copy_out (Some pos) j ?b = Some (take (nat j) (lb_pending ?b))"
    unfolding t using l assms(3,4) by (intro copy_out_block) auto
  show "\<exists>a c. lb_block ?b = a @ take (nat j) (lb_pending ?b) @ c \<and> length a = nat pos"
  proof -
    have "lb_block ?b = take (nat pos) (lb_block ?b) @ take (nat j) (drop (nat pos) (lb_block ?b)) @ drop (nat j) (drop (nat pos) (lb_block ?b))"
      by (simp del: drop_drop)
    moreover have "length (take (nat pos) (lb_block ?b)) = nat pos" using l by simp
    ultimately show ?thesis unfolding t by blast
  qed
qed

lemma parse_round_header:
  assumes lin: "linear 0 n pos s" and n: "8 \<le> n" and need: "m_nNeedData s = 0" and pos: "pos = p + k"
    and st: "lb_pending (m_poRecvBuf s) @ t = pkt_frame m @ t'" and m: "length m + 8 < 2 ^ 31"
  defines "s1 \<equiv> s\<lparr>m_pDataHeader := (m_pDataHeader s)\<lparr>m_dataRecvBuffer := pkg_header (length m)\<rparr>, m_nPacketLen := int (length m) + 8\<rparr>"
  shows "parse_round p n 0 k s = Some
    (if n \<ge> int (length m) + 8
     then Round p (n - (int (length m) + 8)) 0 (k + (int (length m) + 8))
       ((PushNetEvent (NETEVT_RECV (int (length m) + 8)) (cost_used (int (length m) + 8) s1))\<lparr>m_nPacketLen := 0, m_nNeedData := 0\<rparr>)
     else Round p 0 n k (s1\<lparr>m_nNeedData := int (length m) + 8 - n\<rparr>))"
proof -
  let ?b = "m_poRecvBuf s" and ?h = "m_pDataHeader s"
  have len: "length (lb_pending ?b) = nat n" "header_ok ?h" using lin by (auto simp: linear_def)
  have hd: "take 8 (lb_pending ?b) = pkg_header (length m)"
  proof -
    have "take 8 (lb_pending ?b) = take 8 (lb_pending ?b @ t)" using len n by simp
    then show ?thesis unfolding st by (simp add: pkt_frame_def)
  qed
  have "blit (m_dataRecvBuffer ?h) 0 (pkg_header (length m)) = pkg_header (length m)"
    using len(2) by (simp add: blit_def header_ok_def HEADER_SIZE_def)
  then have 1: "build_recv (Some pos) 8 0 s = Some (s\<lparr>m_pDataHeader := ?h\<lparr>m_dataRecvBuffer := pkg_header (length m)\<rparr>\<rparr>)"
    using build_recv_ok [OF len(2), of "Some pos" 8 _ 0] linear_head(1) [OF lin, of 8] n hd by simp
  obtain a c where ac: "lb_block ?b = a @ pkg_header (length m) @ c" "length a = nat pos"
    using linear_head(2) [OF lin, of 8] n hd by auto
  have 2: "ParsePacket (lb_block ?b) (nat pos) (nat n) (?h\<lparr>m_dataRecvBuffer := pkg_header (length m)\<rparr>) = Some (int (length m) + 8)"
    unfolding ac(1) using CheckPkgHeader_frame [of "?h\<lparr>m_dataRecvBuffer := pkg_header (length m)\<rparr>" "length m" a "nat pos" c] ac(2) m n
    by (simp add: ParsePacket_def GetHeaderLength_def HEADER_SIZE_def)
  show ?thesis
    using need n 1 2 by (simp add: parse_round_def pos [symmetric] GetHeaderLength_def HEADER_SIZE_def Let_def s1_def)
qed

lemma parse_loop_end:
  "n \<le> 0 \<Longrightarrow> parse_loop (Suc f) p n u k s = Some (Some (if u \<noteq> 0 then cost_used u s else s))"
  by simp

lemma cost_used_0: "lb_inv (m_poRecvBuf s) \<Longrightarrow> cost_used 0 s = s"
  using CostUsedBuff_refused [of "m_poRecvBuf s" 0] by (simp add: cost_used_def)

lemma parse_loop_end':
  "lb_inv (m_poRecvBuf s) \<Longrightarrow> 0 < f \<Longrightarrow> parse_loop f p 0 u k s = Some (Some (cost_used u s))"
  by (cases f) (auto simp: cost_used_0)

text \<open>The awaited state: the first packet of \<open>ms\<close> has been started, and the loop is between two
  packets or inside one.\<close>

definition loop_at :: "bytes list \<Rightarrow> nat \<Rightarrow> int \<Rightarrow> tcp_sock \<Rightarrow> bool" where
  "loop_at ms r u s \<longleftrightarrow>
    (r = 0 \<and> m_nNeedData s = 0 \<and> u = 0 \<or>
     8 \<le> r \<and> (case ms of [] \<Rightarrow> False | m # _ \<Rightarrow> r \<le> 8 + length m \<and> r \<noteq> 8 + length m \<and>
       m_nNeedData s = int (length m) + 8 - int r \<and> m_nPacketLen s = int (length m) + 8))"

lemma loop_short:
  assumes lin: "linear 0 n pos s" and n: "0 < n" "n < 8" and need: "m_nNeedData s = 0" and pos: "pos = p + k"
    and st: "lb_pending (m_poRecvBuf s) @ t = pkt_stream ms"
  shows "\<exists>s'. parse_loop (Suc f) p n 0 k s = Some (Some s') \<and> m_events s' = m_events s \<and> waiting ms (nat n) s' \<and> kept s s'"
proof -
  let ?b = "m_poRecvBuf s" and ?h = "m_pDataHeader s"
  have len: "length (lb_pending ?b) = nat n" "header_ok ?h" "lb_inv ?b" using lin by (auto simp: linear_def)
  let ?h' = "?h\<lparr>m_dataRecvBuffer := blit (m_dataRecvBuffer ?h) 0 (lb_pending ?b)\<rparr>"
  have 1: "build_recv (Some pos) n 0 s = Some (s\<lparr>m_pDataHeader := ?h'\<rparr>)"
    using build_recv_ok [OF len(2), of "Some pos" n "lb_pending ?b" 0] linear_head(1) [OF lin n(1), of n] len n by simp
  have 4: "nat n < 8" using n by linarith
  have 2: "GetUseLen ?b = n" using GetUseLen_pending [OF len(3)] len(1) n by simp
  have 3: "header_ok ?h'" using header_ok_blit [OF len(2), of 0 "lb_pending ?b"] len(1) n by simp
  have "parse_round p n 0 k s = Some (Leave 0 (s\<lparr>m_pDataHeader := ?h', m_nPacketLen := 0, m_nNeedData := 0\<rparr>))"
    using need n 1 2 4 cost_used_0 [of "s\<lparr>m_pDataHeader := ?h', m_nPacketLen := 0\<rparr>"] len(3)
    by (simp add: parse_round_def pos [symmetric] GetHeaderLength_def HEADER_SIZE_def ParsePacket_def Let_def)
  moreover have "lb_pending ?b = take (nat n) (pkt_stream ms)"
    unfolding st [symmetric] using len(1) by simp
  moreover have "nat n \<le> length (pkt_stream ms)" unfolding st [symmetric] using len(1) by simp
  ultimately show ?thesis
    using n(1) n(2) len 3 4 by (simp add: waiting_def kept_def)
qed

text \<open>A round that completes the current packet, and a round that takes all bytes for it.\<close>

lemma loop_atE:
  assumes "loop_at (m # ms) r u s"
  obtains "r = 0" "m_nNeedData s = 0" "u = 0"
  | "8 \<le> r" "r < 8 + length m" "m_nNeedData s = int (length m) + 8 - int r" "m_nPacketLen s = int (length m) + 8" "m_nNeedData s \<noteq> 0"
  using assms by (auto simp: loop_at_def)

lemma round_result:
  assumes lin: "linear u n (p + k) s" and at: "loop_at (m # ms) r u s" and n: "8 \<le> int r + n" "0 < n"
    and m: "length m + 8 < 2 ^ 31" and st: "drop (nat u) (lb_pending (m_poRecvBuf s)) @ t = drop r (pkt_stream (m # ms))"
  defines "d \<equiv> int (length m) + 8 - int r"
  shows "\<exists>s1. parse_round p n u k s = Some
    (if n \<ge> d then Round p (n - d) 0 (k + d)
       ((PushNetEvent (NETEVT_RECV (int (length m) + 8)) (cost_used (u + d) s1))\<lparr>m_nPacketLen := 0, m_nNeedData := 0\<rparr>)
     else Round p 0 (u + n) k (s1\<lparr>m_nNeedData := d - n\<rparr>)) \<and>
    linear u n (p + k) s1 \<and> m_poRecvBuf s1 = m_poRecvBuf s \<and> m_events s1 = m_events s \<and> kept s s1 \<and> 0 < d \<and>
    m_nPacketLen s1 = int (length m) + 8"
  using at
proof (cases rule: loop_atE)
  case 1
  let ?s1 = "s\<lparr>m_pDataHeader := (m_pDataHeader s)\<lparr>m_dataRecvBuffer := pkg_header (length m)\<rparr>, m_nPacketLen := int (length m) + 8\<rparr>"
  have l: "linear 0 n (p + k) s" "lb_pending (m_poRecvBuf s) @ t = pkt_frame m @ pkt_stream ms" using lin st 1 by simp_all
  have "header_ok (m_pDataHeader ?s1)" "lb_inv (m_poRecvBuf s)" using lin by (simp_all add: linear_def header_ok_def HEADER_SIZE_def)
  then show ?thesis
    using parse_round_header [OF l(1) _ 1(2) refl l(2) m] lin n 1
    by (intro exI [of _ ?s1]) (simp add: d_def linear_def kept_def)
next
  case 2
  then show ?thesis
    using lin by (intro exI [of _ s]) (simp add: d_def parse_round_def linear_def kept_def)
qed

lemma round_complete:
  assumes lin: "linear u n (p + k) s" and at: "loop_at (m # ms) r u s" and n: "8 + length m \<le> r + nat n" "0 < n"
    and m: "length m + 8 < 2 ^ 31" and st: "drop (nat u) (lb_pending (m_poRecvBuf s)) @ t = drop r (pkt_stream (m # ms))"
  shows "\<exists>s2 d. parse_round p n u k s = Some (Round p (n - d) 0 (k + d) s2) \<and> 0 < d \<and> d \<le> n \<and>
    int r + d = int (length m) + 8 \<and> linear 0 (n - d) (p + (k + d)) s2 \<and> loop_at ms 0 0 s2 \<and>
    drop (nat 0) (lb_pending (m_poRecvBuf s2)) @ t = drop 0 (pkt_stream ms) \<and>
    m_events s2 = m_events s @ [NETEVT_RECV (int (length m) + 8)] \<and> kept s s2"
proof -
  define d where "d = int (length m) + 8 - int r"
  have "8 \<le> int r + n" using n by linarith
  then obtain s1 where s1: "parse_round p n u k s = Some
      (if n \<ge> d then Round p (n - d) 0 (k + d)
         ((PushNetEvent (NETEVT_RECV (int (length m) + 8)) (cost_used (u + d) s1))\<lparr>m_nPacketLen := 0, m_nNeedData := 0\<rparr>)
       else Round p 0 (u + n) k (s1\<lparr>m_nNeedData := d - n\<rparr>))"
    "linear u n (p + k) s1" "m_poRecvBuf s1 = m_poRecvBuf s" "m_events s1 = m_events s" "kept s s1" "0 < d"
    using round_result [OF lin at _ n(2) m st] unfolding d_def by blast
  have dn: "d \<le> n" using n by (simp add: d_def)
  define s2 where "s2 = (PushNetEvent (NETEVT_RECV (int (length m) + 8)) (cost_used (u + d) s1))\<lparr>m_nPacketLen := 0, m_nNeedData := 0\<rparr>"
  have c: "linear 0 (n - d) (p + k + d) (cost_used (u + d) s1)"
    "lb_pending (m_poRecvBuf (cost_used (u + d) s1)) = drop (nat (u + d)) (lb_pending (m_poRecvBuf s))"
    "lb_data (m_poRecvBuf (cost_used (u + d) s1)) = lb_data (m_poRecvBuf s)"
    using linear_cost [OF s1(2), of d] s1(3,6) dn by simp_all
  have u: "0 \<le> u" "length (lb_pending (m_poRecvBuf s)) = nat (u + n)" using lin by (auto simp: linear_def)
  have "drop (nat d) (drop (nat u) (lb_pending (m_poRecvBuf s)) @ t) = drop (nat d) (drop r (pkt_stream (m # ms)))"
    unfolding st by (rule refl)
  also have "\<dots> = drop (nat d + r) (pkt_stream (m # ms))" by (rule drop_drop)
  also have "\<dots> = pkt_stream ms"
  proof -
    have "nat d + r = length (pkt_frame m)" using s1(6) by (simp add: d_def)
    then show ?thesis by simp
  qed
  finally have "drop (nat (u + d)) (lb_pending (m_poRecvBuf s)) @ t = pkt_stream ms"
    using u dn s1(6) n(2) by (simp add: nat_add_distrib add.commute)
  then have st2: "drop (nat 0) (lb_pending (m_poRecvBuf s2)) @ t = drop 0 (pkt_stream ms)"
    using c(2) by (simp add: s2_def PushNetEvent_def)
  have ev: "m_events s2 = m_events s @ [NETEVT_RECV (int (length m) + 8)]" and k: "kept s1 s2"
    using s1(3,4) c by (simp_all add: s2_def PushNetEvent_def cost_used_def kept_def linear_def)
  have lin2: "linear 0 (n - d) (p + (k + d)) s2"
    using c(1) by (simp add: s2_def PushNetEvent_def linear_def add.assoc)
  have "parse_round p n u k s = Some (Round p (n - d) 0 (k + d) s2)" using s1(1) dn by (simp add: s2_def)
  moreover have "int r + d = int (length m) + 8" by (simp add: d_def)
  moreover have "loop_at ms 0 0 s2" by (simp add: loop_at_def s2_def)
  ultimately show ?thesis using s1(6) dn lin2 st2 ev kept_trans [OF s1(5) k] by blast
qed

lemma round_partial:
  assumes lin: "linear u n (p + k) s" and at: "loop_at (m # ms) r u s" and n: "8 \<le> r + nat n" "r + nat n < 8 + length m" "0 < n"
    and m: "length m + 8 < 2 ^ 31" and st: "drop (nat u) (lb_pending (m_poRecvBuf s)) @ t = drop r (pkt_stream (m # ms))"
  shows "\<exists>s2. parse_round p n u k s = Some (Round p 0 (u + n) k s2) \<and> linear (u + n) 0 (p + k) s2 \<and>
    loop_at (m # ms) (r + nat n) (u + n) s2 \<and> m_events s2 = m_events s \<and> kept s s2"
proof -
  have "8 \<le> int r + n" using n by linarith
  from round_result [OF lin at this n(3) m st] n show ?thesis
    by (auto simp: linear_def kept_def loop_at_def)
qed

lemma loop_finish:
  assumes "linear u 0 pos s" "loop_at ms r u s" "0 < f"
  shows "\<exists>s'. parse_loop f p 0 u k s = Some (Some s') \<and> progress ms r = (0, r) \<and>
    m_events s' = m_events s \<and> waiting ms r s' \<and> kept s s'"
proof -
  have "progress ms r = (0, r)" using assms(2) by (auto simp: loop_at_def split: list.splits)
  moreover have "waiting ms r (cost_used u s) \<and> kept s (cost_used u s)"
    using assms linear_cost [OF assms(1), of 0]
    by (auto simp: loop_at_def waiting_def kept_def linear_def cost_used_def split: list.splits)
  ultimately show ?thesis using parse_loop_end' [of s f p u k] assms(1,3)
    by (simp add: linear_def cost_used_def)
qed

definition parsed :: "bytes list \<Rightarrow> nat \<Rightarrow> tcp_sock \<Rightarrow> tcp_sock option option \<Rightarrow> bool" where
  "parsed ms n s res \<longleftrightarrow> (\<exists>s' j r. res = Some (Some s') \<and> progress ms n = (j, r) \<and>
     m_events s' = m_events s @ announce (take j ms) \<and> waiting (drop j ms) r s' \<and> kept s s')"

lemma parsed_next:
  assumes "parsed ms n s2 res" "m_events s2 = m_events s @ [NETEVT_RECV (int (length m) + 8)]" "kept s s2"
  shows "parsed (m # ms) (8 + length m + n) s res"
  using assms kept_trans [OF assms(3)] by (force simp: parsed_def)

lemma parse_loop_linear:
  assumes "linear u n (p + k) s" "loop_at ms r u s" "small ms" "nat n + 1 < f"
    "drop (nat u) (lb_pending (m_poRecvBuf s)) @ t = drop r (pkt_stream ms)"
  shows "parsed ms (r + nat n) s (parse_loop f p n u k s)"
  using assms
proof (induction f arbitrary: u n p k s ms r t)
  case (Suc f)
  have len: "0 \<le> n" "length (drop (nat u) (lb_pending (m_poRecvBuf s))) = nat n"
    using Suc.prems(1) by (auto simp: linear_def)
  consider "n = 0" | "0 < n" "r + nat n < 8" | "0 < n" "8 \<le> r + nat n" using len(1) by linarith
  then show ?case
  proof cases
    case 1
    then show ?thesis using loop_finish [of u "p + k" s ms r "Suc f" p k] Suc.prems(1,2) by (auto simp: parsed_def)
  next
    case 2
    then have r: "r = 0" "u = 0" "m_nNeedData s = 0" "n < 8" using Suc.prems(2) by (auto simp: loop_at_def)
    have "linear 0 n (p + k) s" "lb_pending (m_poRecvBuf s) @ t = pkt_stream ms" using Suc.prems(1,5) r by simp_all
    from loop_short [OF this(1) 2(1) r(4,3) refl this(2), of f] show ?thesis
      using r 2 by (auto simp: parsed_def)
  next
    case 3
    obtain m ms' where ms: "ms = m # ms'"
      using Suc.prems(2,5) 3 len by (cases ms) (auto simp: loop_at_def)
    have m: "length m + 8 < 2 ^ 31" "small ms'" using Suc.prems(3) ms by auto
    note at = Suc.prems(2) [unfolded ms] and st = Suc.prems(5) [unfolded ms]
    show ?thesis
    proof (cases "8 + length m \<le> r + nat n")
      case True
      from round_complete [OF Suc.prems(1) at True 3(1) m(1) st] obtain s2 d where s2:
        "parse_round p n u k s = Some (Round p (n - d) 0 (k + d) s2)" "0 < d" "d \<le> n" "int r + d = int (length m) + 8"
        "linear 0 (n - d) (p + (k + d)) s2" "loop_at ms' 0 0 s2"
        "drop (nat 0) (lb_pending (m_poRecvBuf s2)) @ t = drop 0 (pkt_stream ms')"
        "m_events s2 = m_events s @ [NETEVT_RECV (int (length m) + 8)]" "kept s s2" by blast
      have "nat (n - d) + 1 < f" using Suc.prems(4) s2(2,3) by linarith
      from Suc.IH [OF s2(5,6) m(2) this s2(7)]
      have "parsed ms (8 + length m + (0 + nat (n - d))) s (parse_loop f p (n - d) 0 (k + d) s2)"
        unfolding ms using parsed_next [OF _ s2(8,9)] by blast
      moreover have "8 + length m + (0 + nat (n - d)) = r + nat n" using s2(2-4) by linarith
      ultimately show ?thesis using s2(1) 3 by simp
    next
      case False
      then obtain s2 where s2: "parse_round p n u k s = Some (Round p 0 (u + n) k s2)" "linear (u + n) 0 (p + k) s2"
        "loop_at ms (r + nat n) (u + n) s2" "m_events s2 = m_events s" "kept s s2"
        using round_partial [OF Suc.prems(1) at 3(2) _ 3(1) m(1) st] ms by auto
      have "0 < f" using Suc.prems(4) 3(1) by linarith
      from loop_finish [OF s2(2,3) this, of p k] show ?thesis
        using s2(1,4) 3 kept_trans [OF s2(5)] by (auto simp: parsed_def)
    qed
  qed
qed simp

end
