(* ===== verification/TcpRecv.thy ===== *)
theory TcpRecv imports TcpStream begin

text \<open>
  The handler \<open>OnRecv\<close> of \<open>TcpSock\<close> on any chunk the operating system delivers: the received bytes
  extend the ring buffer in place, the header that is cut in two by the end of the block is put
  together, and the loop announces exactly the packets that are complete (\<open>OnRecv_step\<close>).  The last
  section is the header on which the loop does not end.
\<close>

section \<open>Receiving in place\<close>

lemma recv_in_block:
  assumes inv: "lb_inv b" and c: "GetInCursorPtr b = (Some off, k)" "src \<noteq> []" "int (length src) \<le> k"
  obtains b1 b2 p n where "copy_in (Some off) src b = Some b1" "CostBuff (int (length src)) b1 = (True, b2)"
    "lb_inv b2" "lb_data b2 = lb_data b @ src" "lb_pending b2 = lb_pending b @ src"
    "GetUsedCursorPtr b2 = (Some p, n)" "0 < n" "n = pend_len b2 \<or> n \<le> pend_len b"
proof -
  obtain xs f i out u l v where b: "b = mk_lb xs f i out u l v" and ok: "mk_core xs f i out l" and use: "mk_use xs f i u v"
    using inv by (rule lb_inv_mkE)
  have core: "lb_core b" using inv by (rule lb_inv_core)
  obtain b1 where b1: "copy_in (Some off) src b = Some b1"
    "PushBuff src (int (length src)) b = Some (CostBuff (int (length src)) b1)"
    using CostBuff_after_recv [OF core c] by blast
  have room: "int (length src) \<le> m_nFreeLen b" "off = int i" "i + length src \<le> length xs" "length src \<le> f"
    using GetInCursorPtr_room [OF core c(1)] c by (auto simp: b mk_lb_def GetInCursorPtr_def split: if_splits)
  obtain b2 where b2: "CostBuff (int (length src)) b1 = (True, b2)" "lb_data b2 = lb_data b @ src"
    using PushBuff_core [OF core, of "int (length src)" src] room(1) c(2) b1(2) by auto
  have i2: "lb_inv b2" "lb_pending b2 = lb_pending b @ src"
    using PushBuff_inv [OF inv, of "int (length src)" src True b2] room(1) c(2) b1(2) b2(1) by simp_all
  have ok': "mk_core (blit xs i src) f i out l" using ok room(3) by (simp add: mk_core_def)
  have "b1 = mk_lb (blit xs i src) f i out u l v"
    using b1(1) copy_in_mk [of i src xs] room(2,3) by (simp add: b)
  then have e: "b2 = (if length src + i < length xs then mk_lb (blit xs i src) (f - length src) (i + length src) out u l v
      else mk_lb (blit xs i src) (f - length src) (length src + i - length xs) out u True True)"
    using CostBuff_mk [OF ok', of "length src"] b2(1) c(2) room(3,4) by auto
  obtain c where l: "length src = Suc c" using c(2) by (cases src) auto
  have "\<exists>p n. GetUsedCursorPtr b2 = (Some p, n) \<and> 0 < n \<and> (n = pend_len b2 \<or> n \<le> pend_len b)"
  proof (cases "length src + i < length xs")
    case True
    have "int (f - length src) < int (length xs)" using l room(4) ok unfolding mk_core_def by linarith
    then show ?thesis using use ok l room True
      by (auto simp: e b GetUsedCursorPtr_def pend_len_def mk_lb_def mk_use_def mk_core_def simp del: of_nat_diff)
  next
    case False
    then have "length src + i = length xs" using room(3) by simp
    moreover have "int (f - length src) < int (length xs)" using l room(4) ok unfolding mk_core_def by linarith
    ultimately show ?thesis using use ok l room False
      by (auto simp: e b GetUsedCursorPtr_def pend_len_def mk_lb_def mk_use_def mk_core_def simp del: of_nat_diff)
  qed
  then show thesis using that b1(1) b2 i2 by blast
qed

lemma used_wrap:
  assumes inv: "lb_inv b" and g: "GetUsedCursorPtr b = (Some p, k)" "k < pend_len b" "0 < k"
  shows "\<exists>b'. CostUsedBuff k b = (True, b') \<and> GetUsedCursorPtr b' = (Some 0, pend_len b - k) \<and> pend_len b' = pend_len b - k"
proof -
  obtain xs f i out u l v where b: "b = mk_lb xs f i out u l v" and ok: "mk_core xs f i out l" and use: "mk_use xs f i u v"
    using inv by (rule lb_inv_mkE)
  have v: "v" "k = int (length xs - u)" "f \<noteq> length xs"
    using g use by (auto simp: b GetUsedCursorPtr_def pend_len_def mk_lb_def mk_use_def split: if_splits)
  have "CostUsedBuff k b = (True, mk_lb xs f i out 0 l False)"
    using CostUsedBuff_mk [OF ok use, of "length xs - u"] v g use by (simp add: b mk_use_def)
  then show ?thesis using v use by (auto simp: b GetUsedCursorPtr_def pend_len_def mk_lb_def mk_use_def)
qed

text \<open>A header in two pieces.\<close>

lemma blit_two:
  assumes "length buf = 8" "length a + length c = 8"
  shows "blit (blit buf 0 a) (length a) c = a @ c"
  using assms by (simp add: blit_def)

text \<open>The header of the next packet is cut in two by the end of the block.\<close>

lemma split_header_ok:
  assumes inv: "lb_inv (m_poRecvBuf s)" "header_ok (m_pDataHeader s)"
    and g: "GetUsedCursorPtr (m_poRecvBuf s) = (Some p, k)" "0 < k" "k < 8" "8 \<le> pend_len (m_poRecvBuf s)"
    and st: "lb_pending (m_poRecvBuf s) @ t = pkt_frame m @ t'" and m: "length m + 8 < 2 ^ 31"
  shows "\<exists>s2. split_header p k s = Some
      (if m = [] then Round 0 (pend_len (m_poRecvBuf s) - 8) 0 (8 - k) ((PushNetEvent (NETEVT_RECV 8) (cost_used (8 - k) s2))\<lparr>m_nPacketLen := 0\<rparr>)
       else Round 0 (pend_len (m_poRecvBuf s) - 8) (8 - k) (8 - k) s2) \<and>
    linear (8 - k) (pend_len (m_poRecvBuf s) - 8) (8 - k) s2 \<and> kept s s2 \<and> m_events s2 = m_events s \<and> m_nNeedData s2 = int (length m) \<and>
    m_nPacketLen s2 = int (length m) + 8 \<and> lb_pending (m_poRecvBuf s2) = drop (nat k) (lb_pending (m_poRecvBuf s))"
proof -
  let ?b = "m_poRecvBuf s" and ?h = "m_pDataHeader s"
  define q where "q = lb_pending ?b"
  have q: "int (length q) = pend_len ?b" using length_lb_pending [OF inv(1)] by (simp add: q_def)
  obtain b' where b': "CostUsedBuff k ?b = (True, b')" "GetUsedCursorPtr b' = (Some 0, pend_len ?b - k)"
    "pend_len b' = pend_len ?b - k"
    using used_wrap [OF inv(1) g(1) _ g(2)] g(3,4) by auto
  have i': "lb_inv b'" "lb_data b' = lb_data ?b" "lb_pending b' = drop (nat k) q"
    using CostUsedBuff_ok [OF inv(1) g(2)] g(3,4) b'(1) by (auto simp: q_def)
  have p: "0 \<le> p" "nat p + nat k \<le> length (lb_block ?b)" "take (nat k) (drop (nat p) (lb_block ?b)) = take (nat k) q"
    using GetUsedCursorPtr_region [OF inv(1) g(1)] by (simp_all add: q_def)
  have r: "nat (pend_len ?b - k) \<le> length (lb_block b')"
    "take (nat (pend_len ?b - k)) (lb_block b') = drop (nat k) q"
    using GetUsedCursorPtr_region [OF i'(1) b'(2)] i'(3) q g(3,4) by simp_all
  have hd: "take 8 q = pkg_header (length m)"
  proof -
    have "take 8 q = take 8 (q @ t)" using q g(4) by simp
    then show ?thesis unfolding q_def st by (simp add: pkt_frame_def)
  qed
  define a where "a = take (nat k) q"
  define c where "c = take (nat (8 - k)) (lb_block b')"
  have la: "length a = nat k" using q g(3,4) by (simp add: a_def)
  have c: "c = take (nat (8 - k)) (drop (nat k) q)"
    unfolding r(2) [symmetric] c_def using g(4) by (simp add: min_def)
  have ac: "a @ c = pkg_header (length m)"
  proof -
    have "a @ c = take (nat k + nat (8 - k)) q" unfolding a_def c by (simp only: take_add)
    also have "nat k + nat (8 - k) = 8" using g(2,3) by linarith
    finally show ?thesis using hd by simp
  qed
  have lc: "length c = nat (8 - k)" using q g(2-4) by (simp add: c)
  let ?h1 = "?h\<lparr>m_dataRecvBuffer := blit (m_dataRecvBuffer ?h) 0 a\<rparr>" and ?h2 = "?h\<lparr>m_dataRecvBuffer := pkg_header (length m)\<rparr>"
  let ?s1 = "s\<lparr>m_pDataHeader := ?h1\<rparr>"
  have 1: "build_recv (Some p) k 0 s = Some ?s1"
    using build_recv_ok [OF inv(2), of "Some p" k a 0] copy_out_block [OF inv(1) p(1) _ p(2)] g(2,3) la p(3) by (simp add: a_def)
  have h1: "header_ok ?h1" using header_ok_blit [OF inv(2), of 0 a] la g(3) by simp
  have b2: "blit (blit (m_dataRecvBuffer ?h) 0 a) (nat k) c = pkg_header (length m)"
    using blit_two [of "m_dataRecvBuffer ?h" a c] inv(2) la lc ac g(2,3) by (simp add: header_ok_def HEADER_SIZE_def)
  have "copy_out (Some 0) (8 - k) b' = Some c"
    using copy_out_block [OF i'(1), of 0 "8 - k"] g(3,4) r(1) by (simp add: c_def)
  then have 2: "build_recv (Some 0) (8 - k) k (?s1\<lparr>m_poRecvBuf := b'\<rparr>) = Some (?s1\<lparr>m_poRecvBuf := b', m_pDataHeader := ?h2\<rparr>)"
    using build_recv_ok [of "?s1\<lparr>m_poRecvBuf := b'\<rparr>" "Some 0" "8 - k" c k] h1 b2 lc g(2,3) by simp
  have 3: "ParsePacket (pkg_header (length m)) 0 8 ?h2 = Some (int (length m) + 8)"
    using CheckPkgHeader_frame [of ?h2 "length m" "[]" 0 "[]"] m by (simp add: ParsePacket_def GetHeaderLength_def HEADER_SIZE_def)
  let ?s2 = "?s1\<lparr>m_poRecvBuf := b', m_pDataHeader := ?h2, m_nPacketLen := int (length m) + 8, m_nNeedData := int (length m)\<rparr>"
  have 4: "split_header p k s = Some
      (if m = [] then Round 0 (pend_len ?b - 8) 0 (8 - k) ((PushNetEvent (NETEVT_RECV 8) (cost_used (8 - k) ?s2))\<lparr>m_nPacketLen := 0\<rparr>)
       else Round 0 (pend_len ?b - 8) (8 - k) (8 - k) ?s2)"
    using g 1 2 3 b' by (simp add: split_header_def GetHeaderLength_def HEADER_SIZE_def Let_def)
  have "header_ok ?h2" using inv(2) by (simp add: header_ok_def HEADER_SIZE_def)
  moreover have "m_nTotalLen b' = m_nTotalLen ?b" using total_len(1) [of k ?b] b'(1) by simp
  ultimately have "linear (8 - k) (pend_len ?b - 8) (8 - k) ?s2 \<and> kept s ?s2"
    using i' r q g by (simp add: linear_def kept_def)
  then show ?thesis using 4 i'(3) by (intro exI [of _ ?s2]) (simp add: q_def)
qed

lemma parsed_kept:
  assumes "parsed ms n s2 res" "m_events s2 = m_events s" "kept s s2"
  shows "parsed ms n s res"
  using assms kept_trans [OF assms(3)] by (force simp: parsed_def)

lemma parse_loop_split:
  assumes inv: "lb_inv (m_poRecvBuf s)" "header_ok (m_pDataHeader s)"
    and g: "GetUsedCursorPtr (m_poRecvBuf s) = (Some p, k)" "0 < k" "k < 8" "8 \<le> pend_len (m_poRecvBuf s)"
    and st: "lb_pending (m_poRecvBuf s) @ t = pkt_stream ms" and ms: "small ms"
    and f: "nat (pend_len (m_poRecvBuf s)) < f"
  shows "\<exists>p' n u k' s2. split_header p k s = Some (Round p' n u k' s2) \<and>
    parsed ms (nat (pend_len (m_poRecvBuf s))) s (parse_loop f p' n u k' s2)"
proof -
  let ?b = "m_poRecvBuf s"
  define L where "L = pend_len ?b"
  have lp: "length (lb_pending ?b) = nat L" using length_lb_pending [OF inv(1)] by (simp add: L_def)
  obtain m ms' where m: "ms = m # ms'" "length m + 8 < 2 ^ 31" "small ms'"
    using st lp g(4) ms by (cases ms) (auto simp: L_def)
  have st': "lb_pending ?b @ t = pkt_frame m @ pkt_stream ms'" using st by (simp add: m(1))
  obtain s2 where s2: "split_header p k s = Some
      (if m = [] then Round 0 (L - 8) 0 (8 - k) ((PushNetEvent (NETEVT_RECV 8) (cost_used (8 - k) s2))\<lparr>m_nPacketLen := 0\<rparr>)
       else Round 0 (L - 8) (8 - k) (8 - k) s2)"
    "linear (8 - k) (L - 8) (8 - k) s2" "kept s s2" "m_events s2 = m_events s" "m_nNeedData s2 = int (length m)"
    "m_nPacketLen s2 = int (length m) + 8" "lb_pending (m_poRecvBuf s2) = drop (nat k) (lb_pending ?b)"
    using split_header_ok [OF inv g st' m(2)] unfolding L_def by blast
  have L: "8 + nat (L - 8) = nat L" "nat (L - 8) + 1 < f" using g(4) f by (simp_all add: L_def)
  have "drop (nat (8 - k)) (lb_pending (m_poRecvBuf s2) @ t) = drop 8 (pkt_stream ms)"
  proof -
    have "lb_pending (m_poRecvBuf s2) @ t = drop (nat k) (pkt_stream ms)"
      unfolding st [symmetric] s2(7) using g lp by (simp add: L_def)
    moreover have "nat (8 - k) + nat k = 8" using g by linarith
    ultimately show ?thesis by (metis drop_drop)
  qed
  then have d: "drop (nat (8 - k)) (lb_pending (m_poRecvBuf s2)) @ t = drop 8 (pkt_stream ms)"
    using g lp s2(7) by (simp add: L_def)
  show ?thesis
  proof (cases "m = []")
    case False
    have "loop_at ms 8 (8 - k) s2" using s2(5,6) False by (simp add: loop_at_def m(1))
    from parse_loop_linear [OF _ this ms L(2) d, of 0] s2(2)
    have "parsed ms (nat L) s2 (parse_loop f 0 (L - 8) (8 - k) (8 - k) s2)" by (simp add: L(1))
    then show ?thesis using s2(1) False parsed_kept [OF _ s2(4,3)] by (simp add: L_def)
  next
    case True
    let ?s3 = "(PushNetEvent (NETEVT_RECV 8) (cost_used (8 - k) s2))\<lparr>m_nPacketLen := 0\<rparr>"
    have c: "linear 0 (L - 8) (8 - k) (cost_used (8 - k) s2)"
      "lb_pending (m_poRecvBuf (cost_used (8 - k) s2)) = drop (nat (8 - k)) (lb_pending (m_poRecvBuf s2))"
      "lb_data (m_poRecvBuf (cost_used (8 - k) s2)) = lb_data (m_poRecvBuf s2)"
      using linear_cost [OF s2(2), of 0] g L f by (simp_all add: L_def)
    have l: "linear 0 (L - 8) (0 + (8 - k)) ?s3" using c(1) by (simp add: linear_def PushNetEvent_def)
    have a: "loop_at ms' 0 0 ?s3" using s2(5) True by (simp add: loop_at_def PushNetEvent_def cost_used_def)
    have e: "m_events ?s3 = m_events s @ [NETEVT_RECV (int (length m) + 8)]"
      using s2(4) True by (simp add: PushNetEvent_def cost_used_def)
    have k: "kept s ?s3"
      using s2(3) c(1,3) by (simp add: kept_def PushNetEvent_def cost_used_def linear_def)
    have "drop (nat 0) (lb_pending (m_poRecvBuf ?s3)) @ t = drop 0 (pkt_stream ms')"
      using c(2) d True by (simp add: m(1) PushNetEvent_def)
    from parsed_next [OF parse_loop_linear [OF l a m(3) L(2) this] e k]
    show ?thesis using s2(1) True L(1) by (simp add: L_def m(1))
  qed
qed

lemma parse_loop_wrapped:
  assumes inv: "lb_inv (m_poRecvBuf s)" "header_ok (m_pDataHeader s)" "m_nNeedData s = 0"
    and g: "GetUsedCursorPtr (m_poRecvBuf s) = (Some p, k)" "0 < k" "k < 8" "k < pend_len (m_poRecvBuf s)"
    and st: "lb_pending (m_poRecvBuf s) @ t = pkt_stream ms" and ms: "small ms"
    and f: "nat (pend_len (m_poRecvBuf s)) < f"
  shows "parsed ms (nat (pend_len (m_poRecvBuf s))) s (parse_loop (Suc f) p k 0 0 s)"
proof -
  let ?b = "m_poRecvBuf s" and ?h = "m_pDataHeader s"
  define a where "a = take (nat k) (lb_pending ?b)"
  have lp: "int (length (lb_pending ?b)) = pend_len ?b" by (rule length_lb_pending [OF inv(1)])
  have p: "0 \<le> p" "nat p + nat k \<le> length (lb_block ?b)" "take (nat k) (drop (nat p) (lb_block ?b)) = a"
    using GetUsedCursorPtr_region [OF inv(1) g(1)] by (simp_all add: a_def)
  have la: "length a = nat k" using lp g by (simp add: a_def)
  let ?h1 = "?h\<lparr>m_dataRecvBuffer := blit (m_dataRecvBuffer ?h) 0 a\<rparr>"
  let ?s1 = "s\<lparr>m_pDataHeader := ?h1, m_nPacketLen := 0, m_nNeedData := 0\<rparr>"
  have 1: "build_recv (Some p) k 0 s = Some (s\<lparr>m_pDataHeader := ?h1\<rparr>)"
    using build_recv_ok [OF inv(2), of "Some p" k a 0] copy_out_block [OF inv(1) p(1) _ p(2)] g(2,3) la p(3) by simp
  have h1: "header_ok ?h1" using header_ok_blit [OF inv(2), of 0 a] la g(3) by simp
  have u: "GetUseLen ?b = pend_len ?b" using GetUseLen_pending [OF inv(1)] lp by simp
  have "nat k < 8" using g(3) by linarith
  then have r: "parse_round p k 0 0 s = (if 8 \<le> pend_len ?b then split_header p k ?s1 else Some (Leave 0 ?s1))"
    using inv(3) g 1 u cost_used_0 [of "s\<lparr>m_pDataHeader := ?h1, m_nPacketLen := 0\<rparr>"] inv(1)
    by (simp add: parse_round_def GetHeaderLength_def HEADER_SIZE_def ParsePacket_def Let_def)
  have k: "kept s ?s1" "m_events ?s1 = m_events s" using inv h1 by (simp_all add: kept_def)
  show ?thesis
  proof (cases "8 \<le> pend_len ?b")
    case True
    have "lb_inv (m_poRecvBuf ?s1)" "header_ok (m_pDataHeader ?s1)" using inv(1) h1 by simp_all
    from parse_loop_split [OF this, of p k t ms f] g True st ms f
    show ?thesis using r parsed_kept [OF _ k(2,1)] g(2) by auto
  next
    case False
    have "lb_pending ?b = take (nat (pend_len ?b)) (pkt_stream ms)" "nat (pend_len ?b) \<le> length (pkt_stream ms)"
      using st lp by (metis append_eq_conv_conj nat_int, metis le_add1 length_append nat_int)
    moreover have "nat (pend_len ?b) < 8" using False by linarith
    ultimately have "waiting ms (nat (pend_len ?b)) ?s1" by (simp add: waiting_def)
    then show ?thesis using r False g(2) k by (auto simp: parsed_def)
  qed
qed

section \<open>The handler\<close>

text \<open>The receiving side between two events: \<open>r\<close> bytes of the first packet of \<open>ms\<close> have been taken
  from the stream.\<close>

definition receiving :: "bytes list \<Rightarrow> nat \<Rightarrow> tcp_sock \<Rightarrow> bool" where
  "receiving ms r s \<longleftrightarrow> IsConnected s \<and> lb_inv (m_poRecvBuf s) \<and> header_ok (m_pDataHeader s) \<and> waiting ms r s"

lemma Clear_empty:
  assumes "lb_inv b" "IsEmpty b"
  shows "lb_inv (Clear b) \<and> lb_data (Clear b) = lb_data b \<and> lb_pending (Clear b) = lb_pending b"
proof -
  have "int (length (lb_data b)) = 0" "int (length (lb_pending b)) = 0"
    using assms length_lb_pending [OF assms(1)] length_lb_data [OF lb_inv_core [OF assms(1)]]
    by (auto simp: IsEmpty_def used_len_def lb_inv_def)
  moreover have "lb_inv (Clear b)"
    using assms by (auto simp: lb_inv_def lb_core_def Clear_def IsEmpty_def used_len_def pend_len_def split: option.splits)
  moreover have "lb_data (Clear b) = []" "lb_pending (Clear b) = []"
    using assms(2) by (simp_all add: lb_data_def lb_pending_def used_len_def pend_len_def Clear_def IsEmpty_def)
  ultimately show ?thesis by simp
qed

lemma OnRecv_step:
  assumes rec: "receiving ms r s" and ms: "small ms" and bs: "bs \<noteq> []" "int (length bs) \<le> recv_room s"
    and st: "bs = take (length bs) (drop r (pkt_stream ms))" and f: "length bs + 10 < f"
  shows "\<exists>s' j r'. OnRecv f (Received bs) s = Some (Some s') \<and> progress ms (r + length bs) = (j, r') \<and>
    m_events s' = m_events s @ announce (take j ms) \<and> receiving (drop j ms) r' s' \<and>
    lb_data (m_poRecvBuf s') = lb_data (m_poRecvBuf s) @ bs \<and> m_poSendBuf s' = m_poSendBuf s \<and>
    m_nTotalLen (m_poRecvBuf s') = m_nTotalLen (m_poRecvBuf s)"
proof -
  define s0 where "s0 = (if IsEmpty (m_poRecvBuf s) then s\<lparr>m_poRecvBuf := Clear (m_poRecvBuf s)\<rparr> else s)"
  let ?b = "m_poRecvBuf s0"
  have s0: "lb_inv ?b" "header_ok (m_pDataHeader s0)" "IsConnected s0" "waiting ms r s0"
    "lb_data ?b = lb_data (m_poRecvBuf s)" "m_nTotalLen ?b = m_nTotalLen (m_poRecvBuf s)" "m_events s0 = m_events s" "m_poSendBuf s0 = m_poSendBuf s" "m_nState s0 = m_nState s"
    using rec Clear_empty [of "m_poRecvBuf s"]
    by (auto simp: s0_def receiving_def waiting_def IsConnected_def Clear_def split: list.splits if_splits)
  obtain q k where qk: "GetInCursorPtr ?b = (q, k)" by (cases "GetInCursorPtr ?b")
  have room: "int (length bs) \<le> k" "0 < k"
  proof -
    have "GetInCursorPtr (if IsEmpty (m_poRecvBuf s) then Clear (m_poRecvBuf s) else m_poRecvBuf s) = (q, k)"
      using qk by (simp add: s0_def split: if_splits)
    then show "int (length bs) \<le> k" using bs(2) by (simp add: recv_room_def Let_def split: if_splits)
    then show "0 < k" using bs(1) by (cases bs) auto
  qed
  obtain off where off: "q = Some off" using qk room(2) by (auto simp: GetInCursorPtr_def split: if_splits)
  obtain b1 b2 p n where b: "copy_in (Some off) bs ?b = Some b1" "CostBuff (int (length bs)) b1 = (True, b2)"
    "lb_inv b2" "lb_data b2 = lb_data ?b @ bs" "lb_pending b2 = lb_pending ?b @ bs"
    "GetUsedCursorPtr b2 = (Some p, n)" "0 < n" "n = pend_len b2 \<or> n \<le> pend_len ?b"
    by (rule recv_in_block [OF s0(1) qk [unfolded off] bs(1) room(1)])
  let ?s2 = "s0\<lparr>m_poRecvBuf := b2\<rparr>"
  have run: "OnRecv f (Received bs) s = parse_loop f p n 0 0 ?s2"
    using rec b qk off room(2) by (simp add: OnRecv_def receiving_def s0_def [symmetric] Let_def)
  have pl: "pend_len b2 = int (length (lb_pending ?b) + length bs)" "pend_len ?b = int (length (lb_pending ?b))"
    using length_lb_pending [OF b(3)] length_lb_pending [OF s0(1)] b(5) by simp_all
  have reg: "0 \<le> p" "nat p + nat n \<le> length (lb_block b2)" "take (nat n) (drop (nat p) (lb_block b2)) = take (nat n) (lb_pending b2)"
    using GetUsedCursorPtr_region [OF b(3,6)] by simp_all
  define t where "t = drop (length bs) (drop r (pkt_stream ms))"
  have bt: "bs @ t = drop r (pkt_stream ms)" unfolding t_def by (subst st) (rule append_take_drop_id)
  have k2: "header_ok (m_pDataHeader ?s2)" "lb_inv (m_poRecvBuf ?s2)" using s0 b by simp_all
  have lin: "linear 0 n (p + 0) ?s2" if "n = pend_len b2"
    using that k2 reg b(7) length_lb_pending [OF b(3)] by (simp add: linear_def)
  have "parsed ms (r + length bs) ?s2 (parse_loop f p n 0 0 ?s2)"
  proof (cases "r < 8")
    case True
    have w: "m_nNeedData s0 = 0" "lb_pending ?b = take r (pkt_stream ms)" "length (lb_pending ?b) = r"
      using s0(4) True by (simp_all add: waiting_def)
    have st2: "lb_pending (m_poRecvBuf ?s2) @ t = pkt_stream ms" using b(5) bt w by simp
    show ?thesis
    proof (cases "n = pend_len b2")
      case True
      have "loop_at ms 0 0 ?s2" using w by (simp add: loop_at_def)
      moreover have e: "nat n = r + length bs" using True pl w by simp
      moreover have "nat n + 1 < f" using e f \<open>r < 8\<close> by linarith
      ultimately show ?thesis using parse_loop_linear [OF lin [OF True] _ ms, of 0 f t] st2 by simp
    next
      case False
      then have n: "n \<le> int r" using b(8) pl w by simp
      obtain f' where f': "f = Suc f'" "length bs + 8 < f'" using f by (cases f) auto
      have "0 < length bs" using bs(1) by simp
      then have c: "n < 8" "n < pend_len b2" "pend_len b2 = int (r + length bs)" using n True pl w by linarith+
      have e: "nat (pend_len (m_poRecvBuf ?s2)) = r + length bs" using c by simp
      have "m_nNeedData ?s2 = 0" "GetUsedCursorPtr (m_poRecvBuf ?s2) = (Some p, n)" "n < pend_len (m_poRecvBuf ?s2)"
        "nat (pend_len (m_poRecvBuf ?s2)) < f'"
        using w(1) b(6) c e f' True by simp_all
      from parse_loop_wrapped [OF k2(2,1) this(1,2) b(7) c(1) this(3) st2 ms this(4)]
      show ?thesis unfolding e f'(1) .
    qed
  next
    case False
    then obtain m ms' where m: "ms = m # ms'" "lb_pending ?b = []" "r < 8 + length m"
        "m_nNeedData s0 = int (length m) + 8 - int r" "m_nPacketLen s0 = int (length m) + 8"
      using s0(4) by (auto simp: waiting_def split: list.splits)
    have n: "n = pend_len b2" "n = int (length bs)" using b(7,8) pl m(2) by auto
    have "loop_at ms r 0 ?s2" using m False by (auto simp: loop_at_def)
    from parse_loop_linear [OF lin [OF n(1)] this ms _, of f t] n(2) f bt m(2) b(5)
    show ?thesis by simp
  qed
  then obtain s' j r' where s': "parse_loop f p n 0 0 ?s2 = Some (Some s')" "progress ms (r + length bs) = (j, r')"
    "m_events s' = m_events ?s2 @ announce (take j ms)" "waiting (drop j ms) r' s'" "kept ?s2 s'"
    unfolding parsed_def by blast
  moreover have "receiving (drop j ms) r' s'" using s'(4,5) s0(3) by (simp add: receiving_def kept_def IsConnected_def)
  moreover have "m_nTotalLen b2 = m_nTotalLen ?b" using total_len(2) [of "int (length bs)" b1] b(2) copy_in_total [OF b(1)] by simp
  ultimately show ?thesis using run s0 b(4) by (simp add: kept_def)
qed

section \<open>A packet of length zero\<close>

lemma parse_loop_spins:
  assumes "linear 0 n p s" "8 \<le> n" "m_nNeedData s = 0" "take 8 (lb_pending (m_poRecvBuf s)) = pkg_header (2 ^ 32 - 8)"
  shows "parse_loop f p n 0 0 s = Some None"
  using assms
proof (induction f arbitrary: s)
  case (Suc f)
  let ?b = "m_poRecvBuf s" and ?h = "m_pDataHeader s"
  let ?hd = "pkg_header (2 ^ 32 - 8)"
  let ?h1 = "?h\<lparr>m_dataRecvBuffer := ?hd\<rparr>"
  have lin: "header_ok ?h" "lb_inv ?b" using Suc.prems(1) by (simp_all add: linear_def)
  have "blit (m_dataRecvBuffer ?h) 0 ?hd = ?hd" using lin(1) by (simp add: blit_def header_ok_def HEADER_SIZE_def)
  then have 1: "build_recv (Some p) 8 0 s = Some (s\<lparr>m_pDataHeader := ?h1\<rparr>)"
    using build_recv_ok [OF lin(1), of "Some p" 8 ?hd 0] linear_head(1) [OF Suc.prems(1), of 8] Suc.prems(2,4) by simp
  obtain a c where ac: "lb_block ?b = a @ ?hd @ c" "length a = nat p"
    using linear_head(2) [OF Suc.prems(1), of 8] Suc.prems(2,4) by auto
  have 2: "ParsePacket (lb_block ?b) (nat p) (nat n) ?h1 = Some 0"
    unfolding ac(1) using CheckPkgHeader_any [of ?h1 "2 ^ 32 - 8" a "nat p" c] ac(2) Suc.prems(2)
    by (simp add: ParsePacket_def GetHeaderLength_def HEADER_SIZE_def)
  let ?s1 = "s\<lparr>m_pDataHeader := ?h1, m_nPacketLen := 0, m_nNeedData := 0\<rparr>"
  have "parse_round p n 0 0 s = Some (Round p n 0 0 ?s1)"
    using Suc.prems 1 2 cost_used_0 [of "s\<lparr>m_pDataHeader := ?h1, m_nPacketLen := 0\<rparr>"] lin(2)
    by (simp add: parse_round_def GetHeaderLength_def HEADER_SIZE_def Let_def)
  moreover have "linear 0 n p ?s1" using Suc.prems(1) by (simp add: linear_def header_ok_def HEADER_SIZE_def)
  ultimately show ?case using Suc.prems Suc.IH [of ?s1] by simp
qed simp

text \<open>
  C34: A packet header with the right magic number and the length \<open>2 ^ 32 - 8\<close> announces a packet
  of zero bytes; \<open>OnRecv\<close> then never returns: no number of rounds is enough for its loop, whatever
  follows the header.
\<close>

theorem OnRecv_spins_on_empty_packet:
  assumes "IsConnected s" "lb_inv (m_poRecvBuf s)" "header_ok (m_pDataHeader s)"
    and "lb_data (m_poRecvBuf s) = []" "m_nNeedData s = 0" "int (8 + length rst) \<le> recv_room s"
  shows "OnRecv fuel (Received (pkg_header (2 ^ 32 - 8) @ rst)) s = Some None"
proof -
  let ?bs = "pkg_header (2 ^ 32 - 8) @ rst"
  define s0 where "s0 = (if IsEmpty (m_poRecvBuf s) then s\<lparr>m_poRecvBuf := Clear (m_poRecvBuf s)\<rparr> else s)"
  let ?b = "m_poRecvBuf s0"
  have s0: "lb_inv ?b" "header_ok (m_pDataHeader s0)" "m_nNeedData s0 = 0" "lb_data ?b = []"
    using assms Clear_empty [of "m_poRecvBuf s"] by (auto simp: s0_def)
  have pend0: "pend_len ?b = 0"
    using length_lb_data [OF lb_inv_core [OF s0(1)]] s0(1,4) by (simp add: lb_inv_def)
  then have "lb_pending ?b = []" using length_lb_pending [OF s0(1)] by simp
  obtain q k where qk: "GetInCursorPtr ?b = (q, k)" by (cases "GetInCursorPtr ?b")
  have "GetInCursorPtr (if IsEmpty (m_poRecvBuf s) then Clear (m_poRecvBuf s) else m_poRecvBuf s) = (q, k)"
    using qk by (simp add: s0_def split: if_splits)
  then have room: "int (length ?bs) \<le> k" "0 < k"
    using assms(6) by (simp_all add: recv_room_def Let_def split: if_splits)
  obtain off where off: "q = Some off" using qk room(2) by (auto simp: GetInCursorPtr_def split: if_splits)
  have ne: "?bs \<noteq> []" using length_pkg_header [of "2 ^ 32 - 8"] by (auto simp del: length_pkg_header)
  obtain b1 b2 p n where b: "copy_in (Some off) ?bs ?b = Some b1" "CostBuff (int (length ?bs)) b1 = (True, b2)"
    "lb_inv b2" "lb_pending b2 = lb_pending ?b @ ?bs"
    "GetUsedCursorPtr b2 = (Some p, n)" "0 < n" "n = pend_len b2 \<or> n \<le> pend_len ?b"
    by (rule recv_in_block [OF s0(1) qk [unfolded off] ne room(1)])
  let ?s2 = "s0\<lparr>m_poRecvBuf := b2\<rparr>"
  have run: "OnRecv fuel (Received ?bs) s = parse_loop fuel p n 0 0 ?s2"
    using assms(1) b qk off room(2) by (simp add: OnRecv_def s0_def [symmetric] Let_def)
  have n: "n = pend_len b2" "n = int (length (lb_pending b2))"
    using b(6,7) pend0 length_lb_pending [OF b(3)] by auto
  have "linear 0 n p ?s2"
    using GetUsedCursorPtr_region [OF b(3,5)] n(2) b(3,6) s0(2) by (simp add: linear_def)
  moreover have "8 \<le> n" "take 8 (lb_pending (m_poRecvBuf ?s2)) = pkg_header (2 ^ 32 - 8)"
    using n(2) b(4) \<open>lb_pending ?b = []\<close> by simp_all
  ultimately show ?thesis using parse_loop_spins [of n p ?s2 fuel] run s0(3) by simp
qed

theorem OnRecv_spins_on_empty_packet_witness:
  "OnRecv 1000 (Received (pkg_header (2 ^ 32 - 8) @ [1, 2]))
    \<lparr>m_poRecvBuf = mk_lb (replicate 16 0) 16 0 0 0 False False, m_poSendBuf = FxLoopBuff,
     m_pDataHeader = \<lparr>m_dataRecvBuffer = replicate 8 0, m_dataSendBuffer = replicate 8 0\<rparr>,
     m_nNeedData = 0, m_nPacketLen = 0, m_nState = SSTATE_ESTABLISH, m_hSock = True, m_bSending = False,
     m_bSendLinger = False, m_bDelayClose = False, m_events = []\<rparr> = Some None"
  by (rule OnRecv_spins_on_empty_packet)
    (simp_all add: IsConnected_def lb_inv_mk mk_core_def mk_use_def header_ok_def HEADER_SIZE_def lb_data_mk recv_room_def,
     simp add: Let_def mk_lb_def Clear_def IsEmpty_def GetInCursorPtr_def VAL_SO_SNDLOWAT_def)

end
