(* ===== verification/TcpLink.thy ===== *)
theory TcpLink imports TcpRecv begin

text \<open>
  Two connected sockets of \<open>TcpSock\<close>: \<open>Send\<close>, \<open>OnSend\<close>, the wire, \<open>OnRecv\<close> and \<open>__ProcRecv\<close> composed in
  any order of steps.  The invariant \<open>link_inv\<close> splits the accepted messages into those delivered,
  those announced and those still on their way; every step keeps it.
\<close>

section \<open>Sending\<close>

text \<open>The sending side: a connection without an error, whose buffer is empty or holds frames.\<close>

definition sending :: "tcp_sock \<Rightarrow> bool" where
  "sending s \<longleftrightarrow> IsConnected s \<and> lb_core (m_poSendBuf s) \<and> header_ok (m_pDataHeader s) \<and> \<not> m_bSendLinger s"

lemma write_frame:
  assumes "8 + length m \<le> length tem"
  shows "\<exists>os1 os2. WriteData (pkg_header (length m)) 8 (CNetStream ENetStreamType_Write tem 0 (length m + 8)) = Some (True, os1) \<and>
    WriteData m (length m) os1 = Some (True, os2) \<and> length (m_mem os2) = length tem \<and>
    take (8 + length m) (m_mem os2) = pkt_frame m"
proof -
  let ?s = "CNetStream ENetStreamType_Write tem 0 (length m + 8)"
  have s: "m_eType ?s = ENetStreamType_Write" "stream_ok ?s" "m_dwLen ?s = length m + 8" "m_pData ?s = 0" "m_mem ?s = tem"
    using assms by (simp_all add: CNetStream_def stream_ok_def)
  let ?t = "put_bytes (pkg_header (length m)) ?s"
  have t: "m_eType ?t = ENetStreamType_Write" "stream_ok ?t" "m_dwLen ?t = length m"
    using s assms by (simp_all add: put_bytes_def skip_def stream_ok_def)
  have "put_bytes m ?t = put_bytes (pkt_frame m) ?s"
    using put_bytes_put_bytes [OF s(2), of "pkg_header (length m)" m] s(3) by (simp add: pkt_frame_def)
  then show ?thesis
    using WriteData_eq [OF s(1,2), of 8 "pkg_header (length m)"] WriteData_eq [OF t(1,2), of "length m" m] s t assms
    by (simp add: put_bytes_def skip_def blit_def)
qed

lemma Send_step:
  assumes s: "sending s" and m: "length m + 8 < 2 ^ 31" "int (8 + length m) \<le> m_nTotalLen (m_poSendBuf s)" "8 + length m \<le> length tem"
  defines "ok \<equiv> int (8 + length m) \<le> m_nFreeLen (m_poSendBuf s)"
  shows "\<exists>tem' s'. Send sleep True m (length m) tem s = Some (ok, tem', s') \<and> length tem' = length tem \<and> sending s' \<and>
    lb_data (m_poSendBuf s') = lb_data (m_poSendBuf s) @ (if ok then pkt_frame m else []) \<and>
    m_nTotalLen (m_poSendBuf s') = m_nTotalLen (m_poSendBuf s)"
proof -
  define s0 where "s0 = (if IsEmpty (m_poSendBuf s) then s\<lparr>m_poSendBuf := Clear (m_poSendBuf s)\<rparr> else s)"
  have s0: "sending s0" "lb_data (m_poSendBuf s0) = lb_data (m_poSendBuf s)"
    "m_nFreeLen (m_poSendBuf s0) = m_nFreeLen (m_poSendBuf s)" "m_nTotalLen (m_poSendBuf s0) = m_nTotalLen (m_poSendBuf s)"
    using s Clear_core [of "m_poSendBuf s"] by (auto simp: s0_def sending_def IsConnected_def)
  have "length m < 2 ^ LENGTH(32)" using m(1) by simp
  then have w: "unat (of_nat (length m) :: 32 word) = length m" by (simp add: unsigned_of_nat take_bit_nat_eq_self)
  let ?s1 = "s0\<lparr>m_pDataHeader := (m_pDataHeader s0)\<lparr>m_dataSendBuffer := pkg_header (length m)\<rparr>\<rparr>"
  have 1: "BuildSendPkgHeader (of_nat (length m)) (m_pDataHeader s0) = Some (pkg_header (length m), 8, m_pDataHeader ?s1)"
    using BuildSendPkgHeader_eq [of "m_pDataHeader s0" "of_nat (length m)"] s0(1) w by (simp add: sending_def)
  obtain os1 os2 where os: "WriteData (pkg_header (length m)) 8 (CNetStream ENetStreamType_Write tem 0 (length m + 8)) = Some (True, os1)"
    "WriteData m (length m) os1 = Some (True, os2)" "length (m_mem os2) = length tem" "take (8 + length m) (m_mem os2) = pkt_frame m"
    using write_frame [OF m(3)] by blast
  have run: "Send sleep True m (length m) tem s = (case PushBuff (m_mem os2) (int (length m + 8)) (m_poSendBuf s0) of
      None \<Rightarrow> None | Some (ok, b) \<Rightarrow> Some (ok, m_mem os2, ?s1\<lparr>m_poSendBuf := b\<rparr>))"
    using s s0 1 os(1,2) m(2)
    by (simp add: Send_def s0_def [symmetric] sending_def GetTotalLen_def Let_def push_retry.simps [of _ False]
        PostSendFree_def IsConnected_def del: push_retry.simps split: option.split)
  have k: "sending (?s1\<lparr>m_poSendBuf := b\<rparr>)" if "lb_core b" for b
    using s0(1) that by (simp add: sending_def IsConnected_def header_ok_def HEADER_SIZE_def)
  show ?thesis
  proof (cases "int (8 + length m) \<le> m_nFreeLen (m_poSendBuf s)")
    case True
    obtain b where b: "PushBuff (m_mem os2) (int (length m + 8)) (m_poSendBuf s0) = Some (True, b)" "lb_core b"
      "lb_data b = lb_data (m_poSendBuf s0) @ take (length m + 8) (m_mem os2)" "m_nTotalLen b = m_nTotalLen (m_poSendBuf s0)"
      using PushBuff_core [of "m_poSendBuf s0" "int (length m + 8)" "m_mem os2"] s0 True os(3) m(3) by (auto simp: sending_def nat_add_distrib)
    then show ?thesis using run k [OF b(2)] True s0 os(3,4) by (simp add: add.commute ok_def)
  next
    case False
    then have "PushBuff (m_mem os2) (int (length m + 8)) (m_poSendBuf s0) = Some (False, m_poSendBuf s0)"
      using s0(3) by (intro PushBuff_refused) simp
    then show ?thesis using run k [of "m_poSendBuf s0"] False s0 os(3) by (simp add: sending_def ok_def)
  qed
qed

text \<open>How much \<open>PostSend\<close> offers to \<open>send\<close>.\<close>

definition send_room :: "tcp_sock \<Rightarrow> int" where
  "send_room s = (let nLen = snd (GetOutCursorPtr (m_poSendBuf s)) in if VAL_SO_SNDLOWAT < nLen then VAL_SO_SNDLOWAT else nLen)"

lemma OnSend_step:
  fixes n :: nat
  assumes s: "sending s"
  defines "k \<equiv> min n (nat (send_room s))"
  shows "\<exists>s'. OnSend (if k = 0 then Again else Sent k) True e s = Some (take k (lb_data (m_poSendBuf s)), s') \<and> sending s' \<and>
    lb_data (m_poSendBuf s') = drop k (lb_data (m_poSendBuf s)) \<and> m_nTotalLen (m_poSendBuf s') = m_nTotalLen (m_poSendBuf s) \<and>
    (0 < n \<longrightarrow> lb_data (m_poSendBuf s) \<noteq> [] \<longrightarrow> 0 < k)"
proof -
  let ?b = "m_poSendBuf s"
  have core: "lb_core ?b" using s by (simp add: sending_def)
  obtain p l where pl: "GetOutCursorPtr ?b = (p, l)" by (cases "GetOutCursorPtr ?b")
  note reg = GetOutCursorPtr_region [OF core pl]
  have room: "send_room s = (if VAL_SO_SNDLOWAT < l then VAL_SO_SNDLOWAT else l)" by (simp add: send_room_def pl)
  show ?thesis
  proof (cases "lb_data ?b = []")
    case True
    then show ?thesis using s reg pl
      by (auto simp: OnSend_def PostSend_def sending_def IsConnected_def k_def)
  next
    case False
    then obtain off where off: "p = Some off" "0 \<le> off" "0 < l" "nat off + nat l \<le> length (lb_block ?b)" "l \<le> used_len ?b"
      "take (nat l) (drop (nat off) (lb_block ?b)) = take (nat l) (lb_data ?b)"
      using reg by auto
    have kl: "int k \<le> l" "int k \<le> send_room s" "0 < send_room s"
      using room off(3) by (auto simp: k_def VAL_SO_SNDLOWAT_def)
    show ?thesis
    proof (cases "k = 0")
      case True
      then show ?thesis using s pl off kl(3)
        by (auto simp: OnSend_def PostSend_def sending_def IsConnected_def k_def)
    next
      case k: False
      have kn: "k \<le> nat l" using kl(1) by linarith
      have blk: "m_pszBuff ?b = Some (lb_block ?b)"
        using core by (auto simp: lb_core_def lb_block_def split: option.splits)
      have "take k (drop (nat off) (lb_block ?b)) = take k (take (nat l) (drop (nat off) (lb_block ?b)))"
        using kn by (simp add: min_def)
      also have "\<dots> = take k (lb_data ?b)" unfolding off(6) using kn by (simp add: min_def)
      finally have out: "copy_out p (int k) ?b = Some (take k (lb_data ?b))"
        using off(1,2,4) kl(1) by (simp add: copy_out_def blk)
      obtain b' where b': "DiscardBuff (int k) ?b = (True, b')" "lb_core b'" "lb_data b' = drop k (lb_data ?b)" "m_nTotalLen b' = m_nTotalLen ?b"
        using DiscardBuff_core [OF core, of "int k"] k kl(1) off(5) by auto
      have "min (int k) (send_room s) = int k" using kl(2) by simp
      then show ?thesis using s pl off(1,3) k out b' room
        by (simp add: OnSend_def PostSend_def sending_def IsConnected_def Let_def)
    qed
  qed
qed

section \<open>Handing packets over\<close>

lemma ProcRecv_step:
  assumes rec: "receiving ms r s" and d: "lb_data (m_poRecvBuf s) = pkt_frame m @ q"
    and r: "(if r < 8 then r else 0) \<le> length q"
    and m: "length m + 8 < 2 ^ 31" "8 + length m \<le> sz" "8 + length m \<le> length buf"
  shows "\<exists>buf' s'. ProcRecv sz (int (length m) + 8) buf s = Some (Some m, buf', s') \<and> length buf' = length buf \<and>
    receiving ms r s' \<and> lb_data (m_poRecvBuf s') = q \<and> m_events s' = m_events s \<and> m_poSendBuf s' = m_poSendBuf s \<and>
    m_nTotalLen (m_poRecvBuf s') = m_nTotalLen (m_poRecvBuf s)"
proof -
  let ?b = "m_poRecvBuf s" and ?n = "int (length m) + 8"
  have b: "lb_inv ?b" "lb_core ?b" using rec by (simp_all add: receiving_def lb_inv_core)
  have used: "used_len ?b = ?n + int (length q)" using length_lb_data [OF b(2)] d by simp
  have pend: "pend_len ?b \<le> int (length q)"
    using length_lb_pending [OF b(1)] rec r by (auto simp: receiving_def waiting_def split: if_splits)
  obtain b' where b': "PopBuff ?n ?b = Some (True, pkt_frame m, b')" "lb_core b'" "lb_data b' = q" "m_nTotalLen b' = m_nTotalLen ?b"
    using PopBuff_core [OF b(2), of ?n] used d by (auto simp: nat_add_distrib)
  have i: "lb_inv b' \<and> lb_pending b' = lb_pending ?b"
    using PopBuff_inv [OF b(1) _ _ b'(1)] used pend by simp
  let ?x = "blit buf 0 (pkt_frame m)"
  have x: "take (length m) (drop 8 ?x) = m" "length ?x = length buf"
    using m(3) by (simp_all add: blit_def pkt_frame_def)
  have w: "nat ((?n - 8) mod 4294967296) = length m" "?n mod 4294967296 = ?n" using m(1) by simp_all
  have "ProcRecv sz ?n buf s = Some (Some m, blit (blit ?x 0 m) (length m) [0], s\<lparr>m_poRecvBuf := b'\<rparr>)"
    using b'(1) m x w by (simp add: ProcRecv_def copy_to_def copy_from_def GetHeaderLength_def HEADER_SIZE_def Let_def)
      (simp add: blit_def)
  then show ?thesis
    using i b'(3,4) rec x(2) m(3) by (simp add: receiving_def waiting_def IsConnected_def split: if_splits list.splits)
qed

section \<open>Two connected sockets\<close>

text \<open>A sender, the bytes on the wire, a receiver with the receive buffer of its session, and two
  logs: the messages \<open>Send\<close> accepted and those handed to the receiving session.  The steps are a call
  of \<open>Send\<close>, the two events of the network thread with what \<open>send\<close> and \<open>recv\<close> take, and the main
  thread's handling of the next event.  \<open>sleep\<close> never matters here, and \<open>ChangeEvent\<close> succeeds.\<close>

record tcp_link =
  lk_sender :: tcp_sock
  lk_tem :: bytes
  lk_wire :: bytes
  lk_receiver :: tcp_sock
  lk_buf :: bytes
  lk_accepted :: "bytes list"
  lk_delivered :: "bytes list"

datatype link_step = Call_Send bytes | Writable nat | Readable nat | Handle_event

definition recv_fuel :: nat where "recv_fuel = nat VAL_SO_SNDLOWAT + 11"

definition call_send :: "bytes \<Rightarrow> tcp_link \<Rightarrow> tcp_link option" where
  "call_send m p =
    do { (ok, tem, s) \<leftarrow> Send (\<lambda>b. b) True m (length m) (lk_tem p) (lk_sender p);
         Some (p\<lparr>lk_sender := s, lk_tem := tem, lk_accepted := lk_accepted p @ (if ok then [m] else [])\<rparr>) }"

definition writable :: "nat \<Rightarrow> tcp_link \<Rightarrow> tcp_link option" where
  "writable n p =
    (let k = min n (nat (send_room (lk_sender p))) in
     do { (out, s) \<leftarrow> OnSend (if k = 0 then Again else Sent k) True 0 (lk_sender p);
          Some (p\<lparr>lk_sender := s, lk_wire := lk_wire p @ out\<rparr>) })"

definition readable :: "nat \<Rightarrow> tcp_link \<Rightarrow> tcp_link option" where
  "readable n p =
    (let bs = take (min n (nat (recv_room (lk_receiver p)))) (lk_wire p) in
     do { r \<leftarrow> OnRecv recv_fuel (if bs = [] then Recv_error True 0 else Received bs) (lk_receiver p);
          s \<leftarrow> r;
          Some (p\<lparr>lk_receiver := s, lk_wire := drop (length bs) (lk_wire p)\<rparr>) })"

definition handle_event :: "nat \<Rightarrow> tcp_link \<Rightarrow> tcp_link option" where
  "handle_event sz p =
    (case m_events (lk_receiver p) of
       NETEVT_RECV n # es \<Rightarrow>
         do { (out, buf, s) \<leftarrow> ProcRecv sz n (lk_buf p) ((lk_receiver p)\<lparr>m_events := es\<rparr>);
              Some (p\<lparr>lk_receiver := s, lk_buf := buf,
                lk_delivered := lk_delivered p @ (case out of None \<Rightarrow> [] | Some m \<Rightarrow> [m])\<rparr>) }
     | _ \<Rightarrow> Some p)"

fun run_link :: "nat \<Rightarrow> link_step list \<Rightarrow> tcp_link \<Rightarrow> tcp_link option" where
  "run_link sz [] p = Some p"
| "run_link sz (Call_Send m # es) p = do { p \<leftarrow> call_send m p; run_link sz es p }"
| "run_link sz (Writable n # es) p = do { p \<leftarrow> writable n p; run_link sz es p }"
| "run_link sz (Readable n # es) p = do { p \<leftarrow> readable n p; run_link sz es p }"
| "run_link sz (Handle_event # es) p = do { p \<leftarrow> handle_event sz p; run_link sz es p }"

section \<open>The invariant of the link\<close>

text \<open>The accepted messages are those delivered, those announced to the main thread (\<open>mid\<close>) and
  those not complete at the receiver (\<open>rst\<close>), of whose first \<open>r\<close> bytes are there.\<close>

definition fits :: "nat \<Rightarrow> bytes list \<Rightarrow> bool" where
  "fits sz ms \<longleftrightarrow> (\<forall>m \<in> set ms. 8 + length m \<le> sz)"

lemma fits_simps [simp]: "fits sz []" "fits sz (m # ms) \<longleftrightarrow> 8 + length m \<le> sz \<and> fits sz ms"
  "fits sz (ms @ ms') \<longleftrightarrow> fits sz ms \<and> fits sz ms'"
  by (auto simp: fits_def)

definition link_inv :: "nat \<Rightarrow> bytes list \<Rightarrow> bytes list \<Rightarrow> nat \<Rightarrow> tcp_link \<Rightarrow> bool" where
  "link_inv sz mid rst r p \<longleftrightarrow>
     sending (lk_sender p) \<and> receiving rst r (lk_receiver p) \<and> fits sz (mid @ rst) \<and>
     sz < 2 ^ 31 \<and> sz \<le> length (lk_tem p) \<and> sz \<le> length (lk_buf p) \<and>
     int sz \<le> m_nTotalLen (m_poSendBuf (lk_sender p)) \<and> int sz \<le> m_nTotalLen (m_poRecvBuf (lk_receiver p)) \<and>
     lk_accepted p = lk_delivered p @ mid @ rst \<and>
     m_events (lk_receiver p) = announce mid \<and>
     r \<le> length (pkt_stream rst) \<and>
     lb_data (m_poRecvBuf (lk_receiver p)) = pkt_stream mid @ take r (pkt_stream rst) \<and>
     drop r (pkt_stream rst) = lk_wire p @ lb_data (m_poSendBuf (lk_sender p))"

lemma fits_small: "fits sz ms \<Longrightarrow> sz < 2 ^ 31 \<Longrightarrow> small ms"
  unfolding fits_def small_def by fastforce

lemma progress_split:
  "progress ms n = (j, r) \<Longrightarrow> n \<le> length (pkt_stream ms) \<Longrightarrow>
    n = length (pkt_stream (take j ms)) + r \<and> r \<le> length (pkt_stream (drop j ms))"
  by (induction ms n arbitrary: j rule: progress.induct) (auto simp: le_diff_conv add.commute split: if_splits prod.splits)

lemma waiting_append: "waiting ms r s \<Longrightarrow> waiting (ms @ ms') r s"
  by (auto simp: waiting_def stream_append split: if_splits list.splits)

lemma receiving_append: "receiving ms r s \<Longrightarrow> receiving (ms @ ms') r s"
  by (simp add: receiving_def waiting_append)

lemma call_send_inv:
  assumes "link_inv sz mid rst r p" "8 + length m \<le> sz"
  shows "\<exists>p' a. call_send m p = Some p' \<and> link_inv sz mid (rst @ a) r p' \<and> set a \<subseteq> {m} \<and>
    lk_delivered p' = lk_delivered p"
proof -
  note inv = assms(1) [unfolded link_inv_def]
  define a where "a = (if int (8 + length m) \<le> m_nFreeLen (m_poSendBuf (lk_sender p)) then [m] else [])"
  have "length m + 8 < 2 ^ 31" "int (8 + length m) \<le> m_nTotalLen (m_poSendBuf (lk_sender p))" "8 + length m \<le> length (lk_tem p)"
    "sending (lk_sender p)"
    using inv assms(2) by auto
  from Send_step [OF this(4,1-3), of "\<lambda>b. b"] obtain tem s where s:
    "call_send m p = Some (p\<lparr>lk_sender := s, lk_tem := tem, lk_accepted := lk_accepted p @ a\<rparr>)"
    "length tem = length (lk_tem p)" "sending s"
    "lb_data (m_poSendBuf s) = lb_data (m_poSendBuf (lk_sender p)) @ pkt_stream a"
    "m_nTotalLen (m_poSendBuf s) = m_nTotalLen (m_poSendBuf (lk_sender p))"
    by (auto simp: call_send_def a_def)
  moreover have "fits sz a" "set a \<subseteq> {m}" using assms(2) by (auto simp: a_def fits_def)
  ultimately show ?thesis
    using inv by (intro exI [of _ "p\<lparr>lk_sender := s, lk_tem := tem, lk_accepted := lk_accepted p @ a\<rparr>"] exI [of _ a]) (auto simp: link_inv_def receiving_append stream_append fits_def)
qed

definition in_flight :: "tcp_link \<Rightarrow> nat" where
  "in_flight p = length (lk_wire p) + length (lb_data (m_poSendBuf (lk_sender p)))"

lemma writable_inv:
  assumes "link_inv sz mid rst r p"
  shows "\<exists>p'. writable n p = Some p' \<and> link_inv sz mid rst r p' \<and> in_flight p' = in_flight p \<and>
    (0 < n \<longrightarrow> 0 < in_flight p \<longrightarrow> lk_wire p' \<noteq> []) \<and> lk_delivered p' = lk_delivered p"
proof -
  define k where "k = min n (nat (send_room (lk_sender p)))"
  have "sending (lk_sender p)" using assms by (simp add: link_inv_def)
  from OnSend_step [OF this, of n 0, folded k_def] obtain s where s:
    "OnSend (if k = 0 then Again else Sent k) True 0 (lk_sender p) = Some (take k (lb_data (m_poSendBuf (lk_sender p))), s)" "sending s"
    "lb_data (m_poSendBuf s) = drop k (lb_data (m_poSendBuf (lk_sender p)))"
    "m_nTotalLen (m_poSendBuf s) = m_nTotalLen (m_poSendBuf (lk_sender p))"
    "0 < n \<longrightarrow> lb_data (m_poSendBuf (lk_sender p)) \<noteq> [] \<longrightarrow> 0 < k"
    by blast
  let ?p = "p\<lparr>lk_sender := s, lk_wire := lk_wire p @ take k (lb_data (m_poSendBuf (lk_sender p)))\<rparr>"
  have "writable n p = Some ?p" using s(1) by (simp add: writable_def k_def [symmetric])
  moreover have "link_inv sz mid rst r ?p" using assms s(2-4) by (simp add: link_inv_def)
  moreover have "in_flight ?p = in_flight p" using s(3) by (simp add: in_flight_def)
  moreover have "0 < n \<longrightarrow> 0 < in_flight p \<longrightarrow> lk_wire ?p \<noteq> []" using s(5) by (auto simp: in_flight_def)
  ultimately show ?thesis by auto
qed

lemma OnRecv_again:
  assumes "receiving ms r s"
  shows "\<exists>s'. OnRecv f (Recv_error True e) s = Some (Some s') \<and> receiving ms r s' \<and> lb_data (m_poRecvBuf s') = lb_data (m_poRecvBuf s) \<and>
    m_events s' = m_events s \<and> m_nTotalLen (m_poRecvBuf s') = m_nTotalLen (m_poRecvBuf s)"
proof -
  let ?s = "if IsEmpty (m_poRecvBuf s) then s\<lparr>m_poRecvBuf := Clear (m_poRecvBuf s)\<rparr> else s"
  have "OnRecv f (Recv_error True e) s = Some (Some ?s)"
    using assms by (auto simp: OnRecv_def receiving_def Let_def split: prod.split)
  moreover have "receiving ms r ?s \<and> lb_data (m_poRecvBuf ?s) = lb_data (m_poRecvBuf s) \<and> m_events ?s = m_events s \<and>
    m_nTotalLen (m_poRecvBuf ?s) = m_nTotalLen (m_poRecvBuf s)"
    using assms Clear_empty [of "m_poRecvBuf s"]
    by (auto simp: receiving_def waiting_def IsConnected_def Clear_def split: list.splits if_splits)
  ultimately show ?thesis by blast
qed

lemma recv_room_pos:
  assumes "lb_inv (m_poRecvBuf s)" "int (length (lb_data (m_poRecvBuf s))) < m_nTotalLen (m_poRecvBuf s)"
  shows "0 < recv_room s" "recv_room s \<le> VAL_SO_SNDLOWAT"
proof -
  let ?b = "if IsEmpty (m_poRecvBuf s) then Clear (m_poRecvBuf s) else m_poRecvBuf s"
  have "lb_inv ?b" "lb_data ?b = lb_data (m_poRecvBuf s)" "m_nTotalLen ?b = m_nTotalLen (m_poRecvBuf s)"
    using assms(1) Clear_empty [of "m_poRecvBuf s"] by (auto simp: Clear_def)
  then have "0 < m_nFreeLen ?b" "lb_core ?b"
    using length_lb_data [of ?b] assms(2) lb_inv_core [of ?b] by (auto simp: used_len_def)
  then have "0 < snd (GetInCursorPtr ?b)"
    using GetInCursorPtr_room(2) [of ?b "fst (GetInCursorPtr ?b)" "snd (GetInCursorPtr ?b)"] by simp
  then show "0 < recv_room s" "recv_room s \<le> VAL_SO_SNDLOWAT"
    by (auto simp: recv_room_def Let_def VAL_SO_SNDLOWAT_def)
qed

lemma receiving_short:
  assumes "receiving ms r s" "fits sz ms" "r \<le> length (pkt_stream ms)"
  shows "ms \<noteq> [] \<Longrightarrow> r < 8 + length (hd ms)" "r = length (pkt_stream ms) \<Longrightarrow> ms = []"
  using assms by (cases ms; auto simp: receiving_def waiting_def split: if_splits)+

lemma readable_inv:
  assumes inv: "link_inv sz mid rst r p"
  shows "\<exists>p' j r'. readable n p = Some p' \<and> link_inv sz (mid @ take j rst) (drop j rst) r' p' \<and> in_flight p' \<le> in_flight p \<and>
    (0 < n \<longrightarrow> lk_wire p \<noteq> [] \<longrightarrow> mid = [] \<longrightarrow> in_flight p' < in_flight p) \<and>
    lk_delivered p' = lk_delivered p"
proof -
  let ?s = "lk_receiver p"
  note i = inv [unfolded link_inv_def]
  define bs where "bs = take (min n (nat (recv_room ?s))) (lk_wire p)"
  have rst: "receiving rst r ?s" "small rst" "fits sz rst"
    using i fits_small [of sz rst] by (auto simp: fits_def)
  have prog: "bs \<noteq> []" if "0 < n" "lk_wire p \<noteq> []" "mid = []"
  proof -
    have "rst \<noteq> []" using i that by auto
    then have "r < 8 + length (hd rst)" "8 + length (hd rst) \<le> sz"
      using receiving_short [OF rst(1,3)] i rst(3) by (auto simp: fits_def)
    then have "0 < recv_room ?s" using i that rst(1) by (intro recv_room_pos) (auto simp: receiving_def)
    then show ?thesis using that by (simp add: bs_def)
  qed
  show ?thesis
  proof (cases "bs = []")
    case True
    from OnRecv_again [OF rst(1), of recv_fuel 0] obtain s where s: "OnRecv recv_fuel (Recv_error True 0) ?s = Some (Some s)"
      "receiving rst r s" "lb_data (m_poRecvBuf s) = lb_data (m_poRecvBuf ?s)" "m_events s = m_events ?s"
      "m_nTotalLen (m_poRecvBuf s) = m_nTotalLen (m_poRecvBuf ?s)" by blast
    have "readable n p = Some (p\<lparr>lk_receiver := s\<rparr>)" using s(1) True by (simp add: readable_def bs_def [symmetric])
    moreover have "link_inv sz (mid @ take 0 rst) (drop 0 rst) r (p\<lparr>lk_receiver := s\<rparr>)"
      using i s(2-5) by (simp add: link_inv_def)
    ultimately show ?thesis using prog True by (intro exI [of _ "p\<lparr>lk_receiver := s\<rparr>"] exI [of _ 0] exI [of _ r]) (auto simp: in_flight_def)
  next
    case False
    have lw: "bs @ drop (length bs) (lk_wire p) = lk_wire p"
      unfolding bs_def by (metis append_take_drop_id length_take min_def take_all linorder_linear)
    have room: "int (length bs) \<le> recv_room ?s"
    proof -
      have "0 < recv_room ?s" using False by (cases "0 < recv_room ?s") (simp_all add: bs_def)
      then show ?thesis by (simp add: bs_def)
    qed
    have "recv_room ?s \<le> VAL_SO_SNDLOWAT" by (simp add: recv_room_def Let_def)
    then have fuel: "length bs + 10 < recv_fuel" using room by (simp add: recv_fuel_def VAL_SO_SNDLOWAT_def)
    have st: "drop r (pkt_stream rst) = bs @ drop (length bs) (lk_wire p) @ lb_data (m_poSendBuf (lk_sender p))"
      using i lw by (metis append.assoc)
    then have "bs = take (length bs) (drop r (pkt_stream rst))" by simp
    from OnRecv_step [OF rst(1,2) False room this fuel] obtain s j r' where s:
      "OnRecv recv_fuel (Received bs) ?s = Some (Some s)" "progress rst (r + length bs) = (j, r')"
      "m_events s = m_events ?s @ announce (take j rst)" "receiving (drop j rst) r' s"
      "lb_data (m_poRecvBuf s) = lb_data (m_poRecvBuf ?s) @ bs" "m_nTotalLen (m_poRecvBuf s) = m_nTotalLen (m_poRecvBuf ?s)"
      by blast
    let ?p = "p\<lparr>lk_receiver := s, lk_wire := drop (length bs) (lk_wire p)\<rparr>"
    have run: "readable n p = Some ?p" using s(1) False by (simp add: readable_def bs_def [symmetric])
    have le: "r + length bs \<le> length (pkt_stream rst)"
    proof -
      have "length bs \<le> length (drop r (pkt_stream rst))" unfolding st by simp
      moreover have "r \<le> length (pkt_stream rst)" using i by blast
      ultimately show ?thesis by simp
    qed
    note ps = progress_split [OF s(2) le]
    have rs: "pkt_stream rst = pkt_stream (take j rst) @ pkt_stream (drop j rst)"
      using stream_append [of "take j rst" "drop j rst"] by simp
    have "take r (pkt_stream rst) @ bs = take (r + length bs) (pkt_stream rst)"
      unfolding take_add st by simp
    also have "\<dots> = pkt_stream (take j rst) @ take r' (pkt_stream (drop j rst))"
      using ps by (subst rs) simp
    finally have e1: "take r (pkt_stream rst) @ bs = pkt_stream (take j rst) @ take r' (pkt_stream (drop j rst))" .
    have "drop (r + length bs) (pkt_stream rst) = drop (length bs) (drop r (pkt_stream rst))"
      by (simp add: add.commute)
    then have "drop (r + length bs) (pkt_stream rst) = drop (length bs) (lk_wire p) @ lb_data (m_poSendBuf (lk_sender p))"
      unfolding st by simp
    moreover have "drop (r + length bs) (pkt_stream rst) = drop r' (pkt_stream (drop j rst))"
      using ps by (subst rs) simp
    ultimately have e2: "drop r' (pkt_stream (drop j rst)) = drop (length bs) (lk_wire p) @ lb_data (m_poSendBuf (lk_sender p))" by simp
    have "announce (mid @ take j rst) = announce mid @ announce (take j rst)" by (simp add: announce_def)
    then have "link_inv sz (mid @ take j rst) (drop j rst) r' ?p"
      using i s(3-6) e1 e2 ps by (simp add: link_inv_def stream_append)
    moreover have "in_flight ?p < in_flight p"
    proof -
      have "0 < length bs" "length bs \<le> length (lk_wire p)" using False by (simp_all add: bs_def)
      then show ?thesis unfolding in_flight_def by (simp del: length_greater_0_conv)
    qed
    ultimately show ?thesis using run by (intro exI [of _ ?p] exI [of _ j] exI [of _ r']) simp
  qed
qed

lemma handle_event_inv:
  assumes inv: "link_inv sz mid rst r p"
  shows "\<exists>p'. handle_event sz p = Some p' \<and> link_inv sz (tl mid) rst r p' \<and> in_flight p' = in_flight p \<and> lk_accepted p' = lk_accepted p"
proof (cases mid)
  case Nil
  then show ?thesis using inv by (auto simp: handle_event_def link_inv_def)
next
  case (Cons m mid')
  note i = inv [unfolded link_inv_def Cons]
  let ?s = "(lk_receiver p)\<lparr>m_events := announce mid'\<rparr>"
  let ?q = "pkt_stream mid' @ take r (pkt_stream rst)"
  have 1: "receiving rst r ?s" using i by (auto simp: receiving_def waiting_def IsConnected_def split: list.splits if_splits)
  have 2: "lb_data (m_poRecvBuf ?s) = pkt_frame m @ ?q" using i by simp
  have 3: "(if r < 8 then r else 0) \<le> length ?q" using i by auto
  have 4: "8 + length m \<le> sz" using i by (simp add: fits_def)
  then have 5: "length m + 8 < 2 ^ 31" "8 + length m \<le> length (lk_buf p)" using i by auto
  from ProcRecv_step [OF 1 2 3 5(1) 4 5(2)] obtain buf s where s:
    "ProcRecv sz (int (length m) + 8) (lk_buf p) ?s = Some (Some m, buf, s)" "length buf = length (lk_buf p)"
    "receiving rst r s" "lb_data (m_poRecvBuf s) = ?q" "m_events s = m_events ?s"
    "m_nTotalLen (m_poRecvBuf s) = m_nTotalLen (m_poRecvBuf ?s)" by blast
  let ?p = "p\<lparr>lk_receiver := s, lk_buf := buf, lk_delivered := lk_delivered p @ [m]\<rparr>"
  have "handle_event sz p = Some ?p" using i s(1) by (simp add: handle_event_def)
  moreover have "link_inv sz mid' rst r ?p" using i s(2-6) by (simp add: link_inv_def)
  ultimately show ?thesis using Cons by (auto simp: in_flight_def)
qed

section \<open>Runs\<close>

text \<open>Every call of \<open>Send\<close> is for a message that, with its header, fits the session's buffer.\<close>

definition sends_fit :: "nat \<Rightarrow> link_step list \<Rightarrow> bool" where
  "sends_fit sz es \<longleftrightarrow> (\<forall>e \<in> set es. case e of Call_Send m \<Rightarrow> 8 + length m \<le> sz | _ \<Rightarrow> True)"

lemma run_link_inv:
  "link_inv sz mid rst r p \<Longrightarrow> sends_fit sz es \<Longrightarrow> \<exists>p' mid' rst' r'. run_link sz es p = Some p' \<and> link_inv sz mid' rst' r' p'"
proof (induction es arbitrary: mid rst r p)
  case (Cons e es)
  have fit: "sends_fit sz es" using Cons.prems(2) by (simp add: sends_fit_def)
  show ?case
  proof (cases e)
    case (Call_Send m)
    then have "8 + length m \<le> sz" using Cons.prems(2) by (simp add: sends_fit_def)
    from call_send_inv [OF Cons.prems(1) this] show ?thesis using Call_Send Cons.IH fit by fastforce
  next
    case (Writable n)
    then show ?thesis using writable_inv [OF Cons.prems(1), of n] Cons.IH fit by fastforce
  next
    case (Readable n)
    then show ?thesis using readable_inv [OF Cons.prems(1), of n] Cons.IH fit by fastforce
  next
    case Handle_event
    then show ?thesis using handle_event_inv [OF Cons.prems(1)] Cons.IH fit by fastforce
  qed
qed auto

lemma run_link_append: "run_link sz (as @ bs) p = do { p \<leftarrow> run_link sz as p; run_link sz bs p }"
  by (induction sz as p rule: run_link.induct) (auto split: Option.bind_splits)

lemma handle_events:
  "link_inv sz mid rst r p \<Longrightarrow> length mid \<le> n \<Longrightarrow>
    \<exists>p'. run_link sz (replicate n Handle_event) p = Some p' \<and> link_inv sz [] rst r p' \<and> in_flight p' = in_flight p \<and>
      lk_accepted p' = lk_accepted p"
proof (induction n arbitrary: mid p)
  case (Suc n)
  have "length (tl mid) \<le> n" using Suc.prems(2) by simp
  moreover obtain p' where "handle_event sz p = Some p'" "link_inv sz (tl mid) rst r p'" "in_flight p' = in_flight p"
    "lk_accepted p' = lk_accepted p" using handle_event_inv [OF Suc.prems(1)] by blast
  ultimately show ?case using Suc.IH [of "tl mid" p'] by auto
qed auto

text \<open>A round: some bytes are sent, some received, and the announced packets handled.\<close>

definition link_round :: "nat \<Rightarrow> nat \<times> nat \<Rightarrow> link_step list" where
  "link_round n io = Writable (fst io) # Readable (snd io) # replicate n Handle_event"

lemma link_round_inv:
  assumes "link_inv sz mid rst r p" "length (lk_accepted p) \<le> n" "0 < fst io" "0 < snd io"
  shows "\<exists>p' rst' r'. run_link sz (link_round n io) p = Some p' \<and> link_inv sz [] rst' r' p' \<and> lk_accepted p' = lk_accepted p \<and>
    in_flight p' \<le> in_flight p \<and> (mid = [] \<longrightarrow> in_flight p' \<le> in_flight p - 1)"
proof -
  obtain p1 where p1: "writable (fst io) p = Some p1" "link_inv sz mid rst r p1" "in_flight p1 = in_flight p"
    "0 < fst io \<longrightarrow> 0 < in_flight p \<longrightarrow> lk_wire p1 \<noteq> []" "lk_delivered p1 = lk_delivered p"
    using writable_inv [OF assms(1), of "fst io"] by (elim exE conjE) (rule that)
  obtain p2 j r' where p2: "readable (snd io) p1 = Some p2" "link_inv sz (mid @ take j rst) (drop j rst) r' p2"
    "in_flight p2 \<le> in_flight p1"
    "0 < snd io \<longrightarrow> lk_wire p1 \<noteq> [] \<longrightarrow> mid = [] \<longrightarrow> in_flight p2 < in_flight p1" "lk_delivered p2 = lk_delivered p1"
    using readable_inv [OF p1(2), of "snd io"] by (elim exE conjE) (rule that)
  have acc: "lk_accepted p2 = lk_accepted p"
    using p2(2,5) p1(5) assms(1) by (simp add: link_inv_def)
  have "length (mid @ take j rst) \<le> length (lk_accepted p)"
    using assms(1) by (simp add: link_inv_def)
  then have "length (mid @ take j rst) \<le> n" using assms(2) by (rule order_trans)
  from handle_events [OF p2(2) this] obtain p3 where p3: "run_link sz (replicate n Handle_event) p2 = Some p3"
    "link_inv sz [] (drop j rst) r' p3" "in_flight p3 = in_flight p2" "lk_accepted p3 = lk_accepted p2" by blast
  have "mid = [] \<longrightarrow> in_flight p3 \<le> in_flight p - 1" using p1(3,4) p2(3,4) p3(3) assms(3,4) by auto
  moreover have "in_flight p3 \<le> in_flight p" using p1(3) p2(3) p3(3) by simp
  moreover have "run_link sz (link_round n io) p = Some p3" using p1(1) p2(1) p3(1) by (simp add: link_round_def)
  ultimately show ?thesis using p3(2,4) acc by auto
qed

lemma link_rounds_inv:
  assumes "link_inv sz [] rst r p" "length (lk_accepted p) \<le> n" "\<forall>io \<in> set ios. 0 < fst io \<and> 0 < snd io"
  shows "\<exists>p' rst' r'. run_link sz (concat (map (link_round n) ios)) p = Some p' \<and> link_inv sz [] rst' r' p' \<and>
    lk_accepted p' = lk_accepted p \<and> in_flight p' \<le> in_flight p - length ios"
  using assms
proof (induction ios arbitrary: rst r p)
  case (Cons io ios)
  from link_round_inv [OF Cons.prems(1,2), of io] Cons.prems(3) obtain p1 rst1 r1 where p1:
    "run_link sz (link_round n io) p = Some p1" "link_inv sz [] rst1 r1 p1" "lk_accepted p1 = lk_accepted p"
    "in_flight p1 \<le> in_flight p - 1" by auto
  have "length (lk_accepted p1) \<le> n" "\<forall>io \<in> set ios. 0 < fst io \<and> 0 < snd io" using Cons.prems p1(3) by simp_all
  from Cons.IH [OF p1(2) this] obtain p2 rst2 r2 where p2: "run_link sz (concat (map (link_round n) ios)) p1 = Some p2"
    "link_inv sz [] rst2 r2 p2" "lk_accepted p2 = lk_accepted p1" "in_flight p2 \<le> in_flight p1 - length ios" by blast
  have "in_flight p2 \<le> in_flight p - length (io # ios)" using p1(4) p2(4) by auto
  then show ?case using p1 p2 by (auto simp: run_link_append)
qed auto

lemma link_inv_done:
  assumes "link_inv sz mid rst r p" "in_flight p = 0" "mid = []"
  shows "lk_delivered p = lk_accepted p"
proof -
  have "receiving rst r (lk_receiver p)" "fits sz rst" "r = length (pkt_stream rst)"
    using assms by (auto simp: link_inv_def in_flight_def)
  then have "rst = []" using receiving_short(2) by blast
  then show ?thesis using assms by (simp add: link_inv_def)
qed

section \<open>Properties\<close>

text \<open>A connected pair before the first message.\<close>

definition link_start :: "nat \<Rightarrow> tcp_link \<Rightarrow> bool" where
  "link_start sz p \<longleftrightarrow>
     (let a = lk_sender p; b = lk_receiver p in
      IsConnected a \<and> lb_core (m_poSendBuf a) \<and> lb_data (m_poSendBuf a) = [] \<and> header_ok (m_pDataHeader a) \<and> \<not> m_bSendLinger a \<and>
      IsConnected b \<and> lb_inv (m_poRecvBuf b) \<and> lb_data (m_poRecvBuf b) = [] \<and> header_ok (m_pDataHeader b) \<and> m_nNeedData b = 0 \<and>
      m_events b = [] \<and> lk_wire p = [] \<and> lk_accepted p = [] \<and> lk_delivered p = [] \<and>
      sz < 2 ^ 31 \<and> sz \<le> length (lk_tem p) \<and> sz \<le> length (lk_buf p) \<and>
      int sz \<le> GetTotalLen (m_poSendBuf a) \<and> int sz \<le> GetTotalLen (m_poRecvBuf b))"

lemma link_start_inv: "link_start sz p \<Longrightarrow> link_inv sz [] [] 0 p"
proof -
  assume s: "link_start sz p"
  let ?b = "m_poRecvBuf (lk_receiver p)"
  have "lb_inv ?b" "lb_data ?b = []" using s by (simp_all add: link_start_def Let_def)
  then have "int (length (lb_pending ?b)) = 0"
    using length_lb_data [OF lb_inv_core, of ?b] length_lb_pending [of ?b] by (auto simp: lb_inv_def)
  then show ?thesis
    using s by (simp add: link_start_def link_inv_def Let_def sending_def receiving_def waiting_def GetTotalLen_def)
qed

text \<open>
  C30: Message transport over a TCP connection.  However the calls of \<open>Send\<close>, the bytes the
  operating system takes and gives at a time and the handling of events interleave, no step leaves a
  buffer or runs the parsing loop out of fuel, no connection is closed, and the messages handed to
  the receiving session are a prefix of the messages \<open>Send\<close> accepted, unchanged and in order; they
  are all of them once nothing is left in the send buffer, on the wire and in the event queue.
\<close>

theorem tcp_messages_in_order:
  assumes "link_start sz p" "sends_fit sz es"
  shows "\<exists>p' rst. run_link sz es p = Some p' \<and> lk_accepted p' = lk_delivered p' @ rst \<and>
    IsConnected (lk_sender p') \<and> IsConnected (lk_receiver p') \<and>
    (lb_data (m_poSendBuf (lk_sender p')) = [] \<and> lk_wire p' = [] \<and> m_events (lk_receiver p') = [] \<longrightarrow> rst = [])"
proof -
  obtain p' mid rst r where run: "run_link sz es p = Some p'" and inv: "link_inv sz mid rst r p'"
    using run_link_inv [OF link_start_inv [OF assms(1)] assms(2)] by blast
  have "mid @ rst = []" if "lb_data (m_poSendBuf (lk_sender p')) = []" "lk_wire p' = []" "m_events (lk_receiver p') = []"
  proof -
    have "mid = []" using inv that(3) by (cases mid) (simp_all add: link_inv_def)
    then have "lk_delivered p' = lk_accepted p'" using link_inv_done [OF inv] that by (simp add: in_flight_def)
    then show ?thesis using inv by (simp add: link_inv_def)
  qed
  moreover have "IsConnected (lk_sender p')" "IsConnected (lk_receiver p')" "lk_accepted p' = lk_delivered p' @ mid @ rst"
    using inv by (simp_all add: link_inv_def sending_def receiving_def)
  ultimately show ?thesis using run by blast
qed

text \<open>
  C31: Progress of a TCP connection: from every state of a run, as many rounds as bytes are under
  way and one more, each in which at least one byte may be sent and one received and in which the
  announced packets are handled, deliver every accepted message.
\<close>

theorem tcp_delivers_all:
  assumes "link_start sz p" "sends_fit sz es" "run_link sz es p = Some p1"
    and "length (lk_accepted p1) \<le> n" "\<forall>io \<in> set ios. 0 < fst io \<and> 0 < snd io" "in_flight p1 < length ios"
  shows "\<exists>p2. run_link sz (concat (map (link_round n) ios)) p1 = Some p2 \<and>
    lk_accepted p2 = lk_accepted p1 \<and> lk_delivered p2 = lk_accepted p1"
proof -
  obtain mid rst r where inv: "link_inv sz mid rst r p1"
    using run_link_inv [OF link_start_inv [OF assms(1)] assms(2)] assms(3) by auto
  obtain io ios' where io: "ios = io # ios'" using assms(6) by (cases ios) auto
  obtain p2 rst2 r2 where p2: "run_link sz (link_round n io) p1 = Some p2" "link_inv sz [] rst2 r2 p2"
    "lk_accepted p2 = lk_accepted p1" "in_flight p2 \<le> in_flight p1"
    using link_round_inv [OF inv assms(4), of io] assms(5) io by auto
  have "length (lk_accepted p2) \<le> n" "\<forall>io \<in> set ios'. 0 < fst io \<and> 0 < snd io"
    using assms(4,5) io p2(3) by simp_all
  from link_rounds_inv [OF p2(2) this] obtain p3 rst3 r3 where p3: "run_link sz (concat (map (link_round n) ios')) p2 = Some p3"
    "link_inv sz [] rst3 r3 p3" "lk_accepted p3 = lk_accepted p2" "in_flight p3 \<le> in_flight p2 - length ios'" by blast
  have "in_flight p3 = 0" using p2(4) p3(4) assms(6) io by simp
  then have "lk_delivered p3 = lk_accepted p3" using link_inv_done [OF p3(2)] by simp
  then show ?thesis using p2(1,3) p3(1,3) io by (auto simp: run_link_append)
qed

text \<open>A small pair: buffers of 16 bytes, messages of up to 4 bytes.\<close>

definition small_sock :: tcp_sock where
  "small_sock = \<lparr>m_poRecvBuf = mk_lb (replicate 16 0) 16 0 0 0 False False,
     m_poSendBuf = mk_lb (replicate 16 0) 16 0 0 0 False False,
     m_pDataHeader = \<lparr>m_dataRecvBuffer = replicate 8 0, m_dataSendBuffer = replicate 8 0\<rparr>,
     m_nNeedData = 0, m_nPacketLen = 0, m_nState = SSTATE_ESTABLISH, m_hSock = True, m_bSending = False,
     m_bSendLinger = False, m_bDelayClose = False, m_events = []\<rparr>"

definition small_link :: tcp_link where
  "small_link = \<lparr>lk_sender = small_sock, lk_tem = replicate 12 0, lk_wire = [], lk_receiver = small_sock,
     lk_buf = replicate 12 0, lk_accepted = [], lk_delivered = []\<rparr>"

lemma small_link_start: "link_start 12 small_link"
  by (simp add: link_start_def small_link_def small_sock_def IsConnected_def lb_core_mk lb_inv_mk mk_core_def mk_use_def
      lb_data_mk header_ok_def HEADER_SIZE_def) (simp add: mk_lb_def GetTotalLen_def)

lemma small_sends: "sends_fit 12 [Call_Send [1, 2], Call_Send [3, 4, 5]]"
  by (simp add: sends_fit_def)

theorem tcp_messages_in_order_witness:
  "\<exists>p' rst. run_link 12 [Call_Send [1, 2], Call_Send [3, 4, 5]] small_link = Some p' \<and>
    lk_accepted p' = lk_delivered p' @ rst"
  using tcp_messages_in_order [OF small_link_start small_sends] by blast


lemma small_run:
  "\<exists>p1. run_link 12 [Call_Send [1, 2]] small_link = Some p1 \<and> lk_accepted p1 = [[1, 2]] \<and> in_flight p1 = 10"
proof -
  have "link_inv 12 [] [] 0 small_link" by (rule link_start_inv [OF small_link_start])
  then have s: "sending small_sock" by (simp add: link_inv_def small_link_def)
  have b: "m_nTotalLen (m_poSendBuf small_sock) = 16" "m_nFreeLen (m_poSendBuf small_sock) = 16" "lb_data (m_poSendBuf small_sock) = []"
    by (simp_all add: small_sock_def lb_data_mk) (simp_all add: mk_lb_def)
  show ?thesis
    using Send_step [OF s, of "[1, 2]" "replicate 12 0" "\<lambda>b. b"] b
    by (auto simp: call_send_def small_link_def in_flight_def)
qed

lemma small_run_sends: "sends_fit 12 [Call_Send [1, 2]]"
  by (simp add: sends_fit_def)

theorem tcp_delivers_all_witness:
  "\<exists>p1 p2. run_link 12 [Call_Send [1, 2]] small_link = Some p1 \<and>
    run_link 12 (concat (map (link_round 1) (replicate 11 (3, 2)))) p1 = Some p2 \<and> lk_delivered p2 = [[1, 2]]"
proof -
  obtain p1 where p1: "run_link 12 [Call_Send [1, 2]] small_link = Some p1" "lk_accepted p1 = [[1, 2]]" "in_flight p1 = 10"
    using small_run by blast
  have "length (lk_accepted p1) \<le> 1" "\<forall>io \<in> set (replicate 11 (3 :: nat, 2 :: nat)). 0 < fst io \<and> 0 < snd io"
    "in_flight p1 < length (replicate 11 (3 :: nat, 2 :: nat))"
    using p1(2,3) by simp_all
  from tcp_delivers_all [OF small_link_start small_run_sends p1(1) this] show ?thesis using p1(1,2) by auto
qed

end
