(* ===== verification/Tetris.thy ===== *)
theory Tetris imports Prelude "HOL-Library.Monad_Syntax" begin

text \<open>
  The rules of the example game in \<open>Server/WebGame/TetrisBase.cpp\<close>: the board, the falling piece, its
  moves and rotations, and the removal of full rows (\<open>TetrisBase\<close> with \<open>CommonTetris::Init\<close>).  The
  board is the list of its rows, the table of the shapes is the one of the code: for each shape and
  direction four rows of four cells and then, per column or row, the lower, left and right edge of
  the piece.  What \<open>rand\<close> returns is an argument, the messages to the players go to the list
  \<open>m_notes\<close>, times (\<open>m_fTick\<close>, \<open>Update\<close>) are left out.  A write outside the board is the result \<open>None\<close>.
\<close>

unbundle bit_operations_syntax

section \<open>State\<close>

definition COLUMN_NUM :: nat where "COLUMN_NUM = 12"
definition ROW_NUM :: nat where "ROW_NUM = 22"
definition TETRIS_UNIT :: nat where "TETRIS_UNIT = 4"
definition SHAPE_COUNT :: nat where "SHAPE_COUNT = 7"
definition COLOR_NUM :: nat where "COLOR_NUM = 8"

type_synonym board = "32 word list list"

record tetris =
  m_dwTetrisShape :: "32 word"
  m_dwTetrisDirect :: "32 word"
  m_dwTetrisColor :: "32 word"
  m_dwPosX :: int
  m_dwPosY :: int

datatype tetris_note = EMD_Down | EMD_Left | EMD_Right | ERD_Left | ERD_Right | Note_Dead | Note_Next tetris
  | Note_Init tetris tetris

record tetris_game =
  m_dwTetrisPools :: board
  m_oCurrentTetris :: tetris
  m_oNextTetris :: tetris
  m_bNeedRefresh :: bool
  m_notes :: "tetris_note list"

definition g_dwColors :: "32 word list" where
  "g_dwColors = [0xFF000000, 0x00FF0000, 0x0000FF00, 0xFFFF0000, 0x00FFFF00, 0xFF00FF00, 0xF00F0000, 0x00F0F000,
    0, 0, 0, 0]"

definition g_dwTetrisTable :: "32 word list list list list" where
  "g_dwTetrisTable = [
    [[[0, 0xFFFFFFFF, 0, 0], [0, 0xFFFFFFFF, 0, 0], [0, 0xFFFFFFFF, 0, 0], [0, 0xFFFFFFFF, 0, 0], [0, 0xFFFFFFF0, 0, 0], [0xFFFFFFF1, 0xFFFFFFF1, 0xFFFFFFF1, 0xFFFFFFF1], [0xFFFFFFF1, 0xFFFFFFF1, 0xFFFFFFF1, 0xFFFFFFF1]],
     [[0, 0, 0, 0], [0xFFFFFFFF, 0xFFFFFFFF, 0xFFFFFFFF, 0xFFFFFFFF], [0, 0, 0, 0], [0, 0, 0, 0], [0xFFFFFFF2, 0xFFFFFFF2, 0xFFFFFFF2, 0xFFFFFFF2], [0, 0xFFFFFFF0, 0, 0], [0, 0xFFFFFFF3, 0, 0]],
     [[0, 0xFFFFFFFF, 0, 0], [0, 0xFFFFFFFF, 0, 0], [0, 0xFFFFFFFF, 0, 0], [0, 0xFFFFFFFF, 0, 0], [0, 0xFFFFFFF0, 0, 0], [0xFFFFFFF1, 0xFFFFFFF1, 0xFFFFFFF1, 0xFFFFFFF1], [0xFFFFFFF1, 0xFFFFFFF1, 0xFFFFFFF1, 0xFFFFFFF1]],
     [[0, 0, 0, 0], [0xFFFFFFFF, 0xFFFFFFFF, 0xFFFFFFFF, 0xFFFFFFFF], [0, 0, 0, 0], [0, 0, 0, 0], [0xFFFFFFF2, 0xFFFFFFF2, 0xFFFFFFF2, 0xFFFFFFF2], [0, 0xFFFFFFF0, 0, 0], [0, 0xFFFFFFF3, 0, 0]]],
    [[[0, 0, 0xFFFFFFFF, 0], [0, 0, 0xFFFFFFFF, 0xFFFFFFFF], [0, 0, 0xFFFFFFFF, 0], [0, 0, 0, 0], [0, 0, 0xFFFFFFF1, 0xFFFFFFF2], [0xFFFFFFF2, 0xFFFFFFF2, 0xFFFFFFF2, 0], [0xFFFFFFF2, 0xFFFFFFF3, 0xFFFFFFF2, 0]],
     [[0, 0, 0, 0], [0, 0xFFFFFFFF, 0xFFFFFFFF, 0xFFFFFFFF], [0, 0, 0xFFFFFFFF, 0], [0, 0, 0, 0], [0, 0xFFFFFFF2, 0xFFFFFFF1, 0xFFFFFFF2], [0, 0xFFFFFFF1, 0xFFFFFFF2, 0], [0, 0xFFFFFFF3, 0xFFFFFFF2, 0]],
     [[0, 0, 0xFFFFFFFF, 0], [0, 0xFFFFFFFF, 0xFFFFFFFF, 0], [0, 0, 0xFFFFFFFF, 0], [0, 0, 0, 0], [0, 0xFFFFFFF2, 0xFFFFFFF1, 0], [0xFFFFFFF2, 0xFFFFFFF1, 0xFFFFFFF2, 0], [0xFFFFFFF2, 0xFFFFFFF2, 0xFFFFFFF2, 0]],
     [[0, 0, 0xFFFFFFFF, 0], [0, 0xFFFFFFFF, 0xFFFFFFFF, 0xFFFFFFFF], [0, 0, 0, 0], [0, 0, 0, 0], [0, 0xFFFFFFF2, 0xFFFFFFF2, 0xFFFFFFF2], [0xFFFFFFF2, 0xFFFFFFF1, 0, 0], [0xFFFFFFF2, 0xFFFFFFF3, 0, 0]]],
    [[[0, 0, 0, 0xFFFFFFFF], [0, 0xFFFFFFFF, 0xFFFFFFFF, 0xFFFFFFFF], [0, 0, 0, 0], [0, 0, 0, 0], [0, 0xFFFFFFF2, 0xFFFFFFF2, 0xFFFFFFF2], [0xFFFFFFF3, 0xFFFFFFF1, 0, 0], [0xFFFFFFF3, 0xFFFFFFF3, 0, 0]],
     [[0, 0, 0xFFFFFFFF, 0], [0, 0, 0xFFFFFFFF, 0], [0, 0, 0xFFFFFFFF, 0xFFFFFFFF], [0, 0, 0, 0], [0, 0, 0xFFFFFFF1, 0xFFFFFFF1], [0xFFFFFFF2, 0xFFFFFFF2, 0xFFFFFFF2, 0], [0xFFFFFFF2, 0xFFFFFFF2, 0xFFFFFFF3, 0]],
     [[0, 0, 0, 0], [0, 0xFFFFFFFF, 0xFFFFFFFF, 0xFFFFFFFF], [0, 0xFFFFFFFF, 0, 0], [0, 0, 0, 0], [0, 0xFFFFFFF1, 0xFFFFFFF2, 0xFFFFFFF2], [0, 0xFFFFFFF1, 0xFFFFFFF1, 0], [0xFFFFFFF3, 0xFFFFFFF1, 0, 0]],
     [[0, 0xFFFFFFFF, 0xFFFFFFFF, 0], [0, 0, 0xFFFFFFFF, 0], [0, 0, 0xFFFFFFFF, 0], [0, 0, 0, 0], [0, 0xFFFFFFF3, 0xFFFFFFF1, 0], [0xFFFFFFF1, 0xFFFFFFF2, 0xFFFFFFF2, 0], [0xFFFFFFF2, 0xFFFFFFF2, 0xFFFFFFF2, 0]]],
    [[[0, 0, 0, 0], [0, 0xFFFFFFFF, 0xFFFFFFFF, 0xFFFFFFFF], [0, 0, 0, 0xFFFFFFFF], [0, 0, 0, 0], [0, 0xFFFFFFF2, 0xFFFFFFF2, 0xFFFFFFF1], [0, 0xFFFFFFF1, 0xFFFFFFF2, 0], [0, 0xFFFFFFF3, 0xFFFFFFF3, 0]],
     [[0, 0, 0xFFFFFFFF, 0], [0, 0, 0xFFFFFFFF, 0], [0, 0xFFFFFFFF, 0xFFFFFFFF, 0], [0, 0, 0, 0], [0, 0xFFFFFFF1, 0xFFFFFFF1, 0], [0xFFFFFFF2, 0xFFFFFFF2, 0xFFFFFFF1, 0], [0xFFFFFFF2, 0xFFFFFFF2, 0xFFFFFFF2, 0]],
     [[0, 0xFFFFFFFF, 0, 0], [0, 0xFFFFFFFF, 0xFFFFFFFF, 0xFFFFFFFF], [0, 0, 0, 0], [0, 0, 0, 0], [0, 0xFFFFFFF2, 0xFFFFFFF2, 0xFFFFFFF2], [0xFFFFFFF1, 0xFFFFFFF1, 0, 0], [0xFFFFFFF1, 0xFFFFFFF3, 0, 0]],
     [[0, 0, 0xFFFFFFFF, 0xFFFFFFFF], [0, 0, 0xFFFFFFFF, 0], [0, 0, 0xFFFFFFFF, 0], [0, 0, 0, 0], [0, 0, 0xFFFFFFF1, 0xFFFFFFF3], [0xFFFFFFF2, 0xFFFFFFF2, 0xFFFFFFF2, 0], [0xFFFFFFF3, 0xFFFFFFF2, 0xFFFFFFF2, 0]]],
    [[[0, 0, 0, 0xFFFFFFFF], [0, 0, 0xFFFFFFFF, 0xFFFFFFFF], [0, 0, 0xFFFFFFFF, 0], [0, 0, 0, 0], [0, 0, 0xFFFFFFF1, 0xFFFFFFF2], [0xFFFFFFF3, 0xFFFFFFF2, 0xFFFFFFF2, 0], [0xFFFFFFF3, 0xFFFFFFF3, 0xFFFFFFF2, 0]],
     [[0, 0, 0, 0], [0, 0xFFFFFFFF, 0xFFFFFFFF, 0], [0, 0, 0xFFFFFFFF, 0xFFFFFFFF], [0, 0, 0, 0], [0, 0xFFFFFFF2, 0xFFFFFFF1, 0xFFFFFFF1], [0, 0xFFFFFFF1, 0xFFFFFFF2, 0], [0, 0xFFFFFFF2, 0xFFFFFFF3, 0]],
     [[0, 0, 0, 0xFFFFFFFF], [0, 0, 0xFFFFFFFF, 0xFFFFFFFF], [0, 0, 0xFFFFFFFF, 0], [0, 0, 0, 0], [0, 0, 0xFFFFFFF1, 0xFFFFFFF2], [0xFFFFFFF3, 0xFFFFFFF2, 0xFFFFFFF2, 0], [0xFFFFFFF3, 0xFFFFFFF3, 0xFFFFFFF2, 0]],
     [[0, 0, 0, 0], [0, 0xFFFFFFFF, 0xFFFFFFFF, 0], [0, 0, 0xFFFFFFFF, 0xFFFFFFFF], [0, 0, 0, 0], [0, 0xFFFFFFF2, 0xFFFFFFF1, 0xFFFFFFF1], [0, 0xFFFFFFF1, 0xFFFFFFF2, 0], [0, 0xFFFFFFF2, 0xFFFFFFF3, 0]]],
    [[[0, 0, 0, 0], [0, 0, 0xFFFFFFFF, 0], [0, 0, 0xFFFFFFFF, 0xFFFFFFFF], [0, 0, 0, 0xFFFFFFFF], [0, 0, 0xFFFFFFF1, 0xFFFFFFF0], [0, 0xFFFFFFF2, 0xFFFFFFF2, 0xFFFFFFF3], [0, 0xFFFFFFF2, 0xFFFFFFF3, 0xFFFFFFF3]],
     [[0, 0, 0, 0], [0, 0, 0xFFFFFFFF, 0xFFFFFFFF], [0, 0xFFFFFFFF, 0xFFFFFFFF, 0], [0, 0, 0, 0], [0, 0xFFFFFFF1, 0xFFFFFFF1, 0xFFFFFFF2], [0, 0xFFFFFFF2, 0xFFFFFFF1, 0], [0, 0xFFFFFFF3, 0xFFFFFFF2, 0]],
     [[0, 0, 0, 0], [0, 0, 0xFFFFFFFF, 0], [0, 0, 0xFFFFFFFF, 0xFFFFFFFF], [0, 0, 0, 0xFFFFFFFF], [0, 0, 0xFFFFFFF1, 0xFFFFFFF0], [0, 0xFFFFFFF2, 0xFFFFFFF2, 0xFFFFFFF3], [0, 0xFFFFFFF2, 0xFFFFFFF3, 0xFFFFFFF3]],
     [[0, 0, 0, 0], [0, 0, 0xFFFFFFFF, 0xFFFFFFFF], [0, 0xFFFFFFFF, 0xFFFFFFFF, 0], [0, 0, 0, 0], [0, 0xFFFFFFF1, 0xFFFFFFF1, 0xFFFFFFF2], [0, 0xFFFFFFF2, 0xFFFFFFF1, 0], [0, 0xFFFFFFF3, 0xFFFFFFF2, 0]]],
    [[[0, 0, 0, 0], [0, 0xFFFFFFFF, 0xFFFFFFFF, 0], [0, 0xFFFFFFFF, 0xFFFFFFFF, 0], [0, 0, 0, 0], [0, 0xFFFFFFF1, 0xFFFFFFF1, 0], [0, 0xFFFFFFF1, 0xFFFFFFF1, 0], [0, 0xFFFFFFF2, 0xFFFFFFF2, 0]],
     [[0, 0, 0, 0], [0, 0xFFFFFFFF, 0xFFFFFFFF, 0], [0, 0xFFFFFFFF, 0xFFFFFFFF, 0], [0, 0, 0, 0], [0, 0xFFFFFFF1, 0xFFFFFFF1, 0], [0, 0xFFFFFFF1, 0xFFFFFFF1, 0], [0, 0xFFFFFFF2, 0xFFFFFFF2, 0]],
     [[0, 0, 0, 0], [0, 0xFFFFFFFF, 0xFFFFFFFF, 0], [0, 0xFFFFFFFF, 0xFFFFFFFF, 0], [0, 0, 0, 0], [0, 0xFFFFFFF1, 0xFFFFFFF1, 0], [0, 0xFFFFFFF1, 0xFFFFFFF1, 0], [0, 0xFFFFFFF2, 0xFFFFFFF2, 0]],
     [[0, 0, 0, 0], [0, 0xFFFFFFFF, 0xFFFFFFFF, 0], [0, 0xFFFFFFFF, 0xFFFFFFFF, 0], [0, 0, 0, 0], [0, 0xFFFFFFF1, 0xFFFFFFF1, 0], [0, 0xFFFFFFF1, 0xFFFFFFF1, 0], [0, 0xFFFFFFF2, 0xFFFFFFF2, 0]]]]"

definition block_info :: "tetris \<Rightarrow> nat \<Rightarrow> nat \<Rightarrow> 32 word" where
  "block_info p i j = g_dwTetrisTable ! unat (m_dwTetrisShape p) ! unat (m_dwTetrisDirect p) ! i ! j"

text \<open>The constructors.\<close>

definition Tetris :: tetris where
  "Tetris = \<lparr>m_dwTetrisShape = 0, m_dwTetrisDirect = 0, m_dwTetrisColor = 0, m_dwPosX = 0, m_dwPosY = 0\<rparr>"

definition empty_board :: board where
  "empty_board = replicate ROW_NUM (replicate COLUMN_NUM 0)"

definition TetrisBase :: tetris_game where
  "TetrisBase = \<lparr>m_dwTetrisPools = empty_board, m_oCurrentTetris = Tetris, m_oNextTetris = Tetris,
     m_bNeedRefresh = False, m_notes = []\<rparr>"

section \<open>Operations\<close>

definition CheckTetris :: "int \<Rightarrow> int \<Rightarrow> board \<Rightarrow> bool" where
  "CheckTetris dwCol dwRow pools =
    (if dwRow \<ge> int ROW_NUM then True
     else if dwRow < 0 then True
     else if dwCol \<ge> int COLUMN_NUM then True
     else if dwCol < 0 then True
     else pools ! nat dwRow ! nat dwCol AND 0xFFFFFF00 \<noteq> 0)"

definition edge :: "32 word \<Rightarrow> int" where
  "edge dwBlockInfo = uint (dwBlockInfo AND 0xF)"

definition CheckLeftTetris :: "tetris_game \<Rightarrow> bool" where
  "CheckLeftTetris g =
    (let p = m_oCurrentTetris g in
     list_ex (\<lambda>i. block_info p 5 i \<noteq> 0 \<and>
       CheckTetris (m_dwPosX p + edge (block_info p 5 i) - 1) (m_dwPosY p - int TETRIS_UNIT + int i) (m_dwTetrisPools g))
       [0..<TETRIS_UNIT])"

definition CheckRightTetris :: "tetris_game \<Rightarrow> bool" where
  "CheckRightTetris g =
    (let p = m_oCurrentTetris g in
     list_ex (\<lambda>i. block_info p 6 i \<noteq> 0 \<and>
       CheckTetris (m_dwPosX p + edge (block_info p 6 i) + 1) (m_dwPosY p - int TETRIS_UNIT + int i) (m_dwTetrisPools g))
       [0..<TETRIS_UNIT])"

definition CheckDownTetris :: "tetris_game \<Rightarrow> bool" where
  "CheckDownTetris g =
    (let p = m_oCurrentTetris g in
     list_ex (\<lambda>i. block_info p 4 i \<noteq> 0 \<and>
       CheckTetris (m_dwPosX p + int i) (m_dwPosY p - edge (block_info p 4 i)) (m_dwTetrisPools g))
       [0..<TETRIS_UNIT])"

definition row_full :: "board \<Rightarrow> nat \<Rightarrow> bool" where
  "row_full pools i = list_all (\<lambda>j. pools ! i ! j \<noteq> 0) [0..<COLUMN_NUM]"

definition CheckErase :: "board \<Rightarrow> nat option" where
  "CheckErase pools = find (row_full pools) [0..<ROW_NUM]"

definition zero_row :: "32 word list \<Rightarrow> 32 word list" where
  "zero_row r = foldl (\<lambda>r j. r[j := 0]) r [0..<COLUMN_NUM]"

definition copy_row :: "32 word list \<Rightarrow> 32 word list \<Rightarrow> 32 word list" where
  "copy_row dst src = foldl (\<lambda>r j. r[j := src ! j]) dst [0..<COLUMN_NUM]"

fun shift_rows :: "nat \<Rightarrow> board \<Rightarrow> board" where
  "shift_rows 0 pools = pools"
| "shift_rows (Suc i) pools = shift_rows i (pools[Suc i := copy_row (pools ! Suc i) (pools ! i)])"

definition EraseTetris :: "nat \<Rightarrow> board \<Rightarrow> board" where
  "EraseTetris dwRow pools =
    (let pools = pools[dwRow := zero_row (pools ! dwRow)];
         pools = shift_rows dwRow pools
     in pools[0 := zero_row (pools ! 0)])"

text \<open>\<open>while (CheckErase(dwRow)) EraseTetris(dwRow)\<close>; \<open>None\<close> would say that it does not end.\<close>

partial_function (option) erase_rows :: "board \<Rightarrow> board option" where
  "erase_rows pools =
    (case CheckErase pools of None \<Rightarrow> Some pools | Some dwRow \<Rightarrow> erase_rows (EraseTetris dwRow pools))"

declare erase_rows.simps [code]

definition set_cell :: "int \<Rightarrow> int \<Rightarrow> 32 word \<Rightarrow> board \<Rightarrow> board option" where
  "set_cell row col c pools =
    (if 0 \<le> row \<and> row < int ROW_NUM \<and> 0 \<le> col \<and> col < int COLUMN_NUM
     then Some (pools[nat row := (pools ! nat row)[nat col := c]]) else None)"

text \<open>The two loops that write the cells of a piece.\<close>

fun place_cells :: "tetris \<Rightarrow> (nat \<times> nat) list \<Rightarrow> board \<Rightarrow> board option" where
  "place_cells p [] pools = Some pools"
| "place_cells p ((i, j) # ijs) pools =
    (if block_info p i j = 0 then place_cells p ijs pools
     else do { pools \<leftarrow> set_cell (m_dwPosY p - int TETRIS_UNIT + int i) (m_dwPosX p + int j) (m_dwTetrisColor p) pools;
               place_cells p ijs pools })"

definition cell_loop :: "(nat \<times> nat) list" where
  "cell_loop = List.product [0..<TETRIS_UNIT] [0..<TETRIS_UNIT]"

text \<open>\<open>PrintInfo\<close> draws the piece into a copy of the board; only the writes matter here.\<close>

definition PrintInfo :: "tetris_game \<Rightarrow> board option" where
  "PrintInfo g = place_cells (m_oCurrentTetris g) cell_loop (m_dwTetrisPools g)"

definition new_tetris :: "nat \<Rightarrow> nat \<Rightarrow> nat \<Rightarrow> tetris" where
  "new_tetris r1 r2 r3 =
    \<lparr>m_dwTetrisShape = of_nat (r1 mod SHAPE_COUNT), m_dwTetrisDirect = of_nat (r2 mod 4),
     m_dwTetrisColor = g_dwColors ! (r3 mod COLOR_NUM), m_dwPosX = (int COLUMN_NUM - int TETRIS_UNIT) div 2,
     m_dwPosY = int TETRIS_UNIT\<rparr>"

definition notify :: "tetris_note \<Rightarrow> tetris_game \<Rightarrow> tetris_game" where
  "notify n g = g\<lparr>m_notes := m_notes g @ [n]\<rparr>"

definition DownTetris :: "nat \<Rightarrow> nat \<Rightarrow> nat \<Rightarrow> tetris_game \<Rightarrow> tetris_game option" where
  "DownTetris r1 r2 r3 g =
    (let p = m_oCurrentTetris g in
     if \<not> CheckDownTetris g then
       do { let g = notify EMD_Down (g\<lparr>m_oCurrentTetris := p\<lparr>m_dwPosY := m_dwPosY p + 1\<rparr>\<rparr>);
            b \<leftarrow> PrintInfo g;
            Some (g\<lparr>m_bNeedRefresh := True\<rparr>) }
     else
       do { pools \<leftarrow> place_cells p cell_loop (m_dwTetrisPools g);
            let g = g\<lparr>m_dwTetrisPools := pools\<rparr>;
            if m_dwPosY p \<le> int TETRIS_UNIT then Some (notify Note_Dead g)
            else do {
              pools \<leftarrow> erase_rows pools;
              let g = notify EMD_Down (g\<lparr>m_dwTetrisPools := pools\<rparr>);
              let n = new_tetris r1 r2 r3;
              let g = notify (Note_Next n) (g\<lparr>m_oCurrentTetris := m_oNextTetris g, m_oNextTetris := n\<rparr>);
              b \<leftarrow> PrintInfo g;
              Some (g\<lparr>m_bNeedRefresh := True\<rparr>) } })"

definition LeftTetris :: "tetris_game \<Rightarrow> tetris_game" where
  "LeftTetris g =
    (if \<not> CheckLeftTetris g then
       (let p = m_oCurrentTetris g in
        notify EMD_Left (g\<lparr>m_oCurrentTetris := p\<lparr>m_dwPosX := m_dwPosX p - 1\<rparr>, m_bNeedRefresh := True\<rparr>))
     else g)"

definition RightTetris :: "tetris_game \<Rightarrow> tetris_game" where
  "RightTetris g =
    (if \<not> CheckRightTetris g then
       (let p = m_oCurrentTetris g in
        notify EMD_Right (g\<lparr>m_oCurrentTetris := p\<lparr>m_dwPosX := m_dwPosX p + 1\<rparr>, m_bNeedRefresh := True\<rparr>))
     else g)"

definition rotation_blocked :: "tetris \<Rightarrow> board \<Rightarrow> bool" where
  "rotation_blocked p pools =
    list_ex (\<lambda>(i, j). block_info p i j \<noteq> 0 \<and> CheckTetris (m_dwPosX p + int j) (m_dwPosY p + int i) pools) cell_loop"

definition LeftRotation :: "tetris_game \<Rightarrow> tetris_game" where
  "LeftRotation g =
    (let p = m_oCurrentTetris g; p' = p\<lparr>m_dwTetrisDirect := (m_dwTetrisDirect p - 1) mod of_nat TETRIS_UNIT\<rparr> in
     if rotation_blocked p' (m_dwTetrisPools g) then g else notify ERD_Left (g\<lparr>m_oCurrentTetris := p'\<rparr>))"

definition RightRotation :: "tetris_game \<Rightarrow> tetris_game" where
  "RightRotation g =
    (let p = m_oCurrentTetris g; p' = p\<lparr>m_dwTetrisDirect := (m_dwTetrisDirect p + 1) mod of_nat TETRIS_UNIT\<rparr> in
     if rotation_blocked p' (m_dwTetrisPools g) then g else notify ERD_Right (g\<lparr>m_oCurrentTetris := p'\<rparr>))"

text \<open>\<open>CommonTetris::Init\<close> with the six results of \<open>rand\<close>.\<close>

definition CommonTetris_Init :: "nat list \<Rightarrow> tetris_game \<Rightarrow> tetris_game" where
  "CommonTetris_Init r g =
    (let cur = new_tetris (r ! 0) (r ! 1) (r ! 2); nxt = new_tetris (r ! 3) (r ! 4) (r ! 5) in
     notify (Note_Init cur nxt)
       (g\<lparr>m_oCurrentTetris := cur, m_oNextTetris := nxt, m_dwTetrisPools := empty_board\<rparr>))"

text \<open>What a player may ask for.\<close>

datatype tetris_op = Down nat nat nat | MoveLeft | MoveRight | RotateLeft | RotateRight

fun tetris_step :: "tetris_op \<Rightarrow> tetris_game \<Rightarrow> tetris_game option" where
  "tetris_step (Down r1 r2 r3) g = DownTetris r1 r2 r3 g"
| "tetris_step MoveLeft g = Some (LeftTetris g)"
| "tetris_step MoveRight g = Some (RightTetris g)"
| "tetris_step RotateLeft g = Some (LeftRotation g)"
| "tetris_step RotateRight g = Some (RightRotation g)"

fun tetris_run :: "tetris_op list \<Rightarrow> tetris_game \<Rightarrow> tetris_game option" where
  "tetris_run [] g = Some g"
| "tetris_run (e # es) g = do { g \<leftarrow> tetris_step e g; tetris_run es g }"

end
