(* ===== verification/TetrisRules.thy ===== *)
theory TetrisRules imports Tetris begin

text \<open>
  The rules of the example game are kept by its operations (definitions in \<open>Tetris\<close>): the invariant of
  the board and of the falling piece, the tests at the edges against the cells of the piece (the table
  is checked entry by entry by evaluation), and the removal of full rows.
\<close>

section \<open>The table of the shapes\<close>

text \<open>Cells and tested places of a block of the table as pairs of column and row, relative to the
  upper left corner of the four by four square.\<close>

type_synonym shape = "32 word list list"

definition cells :: "shape \<Rightarrow> (int \<times> int) list" where
  "cells b = [(int j, int i). (i, j) \<leftarrow> cell_loop, b ! i ! j \<noteq> 0]"

definition below :: "shape \<Rightarrow> (int \<times> int) list" where
  "below b = [(int i, 4 - edge (b ! 4 ! i)). i \<leftarrow> [0..<4], b ! 4 ! i \<noteq> 0]"

definition left_of :: "shape \<Rightarrow> (int \<times> int) list" where
  "left_of b = [(edge (b ! 5 ! i) - 1, int i). i \<leftarrow> [0..<4], b ! 5 ! i \<noteq> 0]"

definition right_of :: "shape \<Rightarrow> (int \<times> int) list" where
  "right_of b = [(edge (b ! 6 ! i) + 1, int i). i \<leftarrow> [0..<4], b ! 6 ! i \<noteq> 0]"

text \<open>The places that are tested are places of the moved piece, and among them are all that are not
  its own cells already.\<close>

definition edge_ok :: "(int \<times> int) list \<Rightarrow> (int \<times> int) list \<Rightarrow> (int \<times> int) list \<Rightarrow> bool" where
  "edge_ok tested own moved \<longleftrightarrow> list_all (\<lambda>c. List.member moved c) tested \<and>
     list_all (\<lambda>c. List.member own c \<or> List.member tested c) moved"

definition blocks :: "(nat \<times> shape) list" where
  "blocks = enumerate 0 (concat g_dwTetrisTable)"

lemma edges_ok:
  "list_all (\<lambda>(n, b). edge_ok (below b) (cells b) (map (\<lambda>(x, y). (x + 0, y + 1)) (cells b))) blocks"
  "list_all (\<lambda>(n, b). n = 12 \<or> edge_ok (left_of b) (cells b) (map (\<lambda>(x, y). (x + - 1, y + 0)) (cells b))) blocks"
  "list_all (\<lambda>(n, b). n = 10 \<or> edge_ok (right_of b) (cells b) (map (\<lambda>(x, y). (x + 1, y + 0)) (cells b))) blocks"
  by code_simp+

text \<open>In every case the tests keep the piece between the sides and above the floor.\<close>

lemma edges_bound:
  "list_all (\<lambda>(n, b). list_all (\<lambda>(x, y). list_ex (\<lambda>(x', y'). y + 1 \<le> y') (below b)) (cells b)) blocks"
  "list_all (\<lambda>(n, b). list_all (\<lambda>(x, y). list_ex (\<lambda>(x', y'). x' \<le> x - 1) (left_of b)) (cells b)) blocks"
  "list_all (\<lambda>(n, b). list_all (\<lambda>(x, y). list_ex (\<lambda>(x', y'). x + 1 \<le> x') (right_of b)) (cells b)) blocks"
  "list_all (\<lambda>(n, b). list_all (\<lambda>(x, y). 0 \<le> x \<and> x < 4 \<and> 0 \<le> y \<and> y < 4) (cells b)) blocks"
  by code_simp+

section \<open>Pieces\<close>

lemma concat_nth: "list_all (\<lambda>x. length x = n) xss \<Longrightarrow> i < length xss \<Longrightarrow> j < n \<Longrightarrow>
    n * i + j < length (concat xss) \<and> concat xss ! (n * i + j) = xss ! i ! j"
proof (induction xss arbitrary: i)
  case (Cons x xss)
  then show ?case by (cases i) (auto simp: nth_append)
qed simp

lemma table_size: "length g_dwTetrisTable = 7" "list_all (\<lambda>x. length x = 4) g_dwTetrisTable"
  by (simp_all add: g_dwTetrisTable_def)

definition piece :: "tetris \<Rightarrow> shape" where
  "piece p = g_dwTetrisTable ! unat (m_dwTetrisShape p) ! unat (m_dwTetrisDirect p)"

definition piece_ok :: "tetris \<Rightarrow> bool" where
  "piece_ok p \<longleftrightarrow> unat (m_dwTetrisShape p) < SHAPE_COUNT \<and> unat (m_dwTetrisDirect p) < 4"

lemma piece_block: "piece_ok p \<Longrightarrow> (4 * unat (m_dwTetrisShape p) + unat (m_dwTetrisDirect p), piece p) \<in> set blocks"
  using concat_nth [OF table_size(2), of "unat (m_dwTetrisShape p)" "unat (m_dwTetrisDirect p)"]
  by (force simp: piece_ok_def SHAPE_COUNT_def table_size piece_def blocks_def in_set_enumerate_eq)

lemma piece_numbers: "piece_ok p \<Longrightarrow> 4 * unat (m_dwTetrisShape p) + unat (m_dwTetrisDirect p) = 4 * s + d \<Longrightarrow> d < 4 \<Longrightarrow>
    unat (m_dwTetrisShape p) = s \<and> unat (m_dwTetrisDirect p) = d"
proof -
  have "a = s \<and> b = d" if "4 * a + b = 4 * s + d" "b < 4" "d < 4" for a b :: nat
  proof -
    have "(4 * a + b) div 4 = a" "(4 * s + d) div 4 = s" using that by simp_all
    then have "a = s" using that(1) by simp
    then show ?thesis using that(1) by simp
  qed
  then show "piece_ok p \<Longrightarrow> 4 * unat (m_dwTetrisShape p) + unat (m_dwTetrisDirect p) = 4 * s + d \<Longrightarrow> d < 4 \<Longrightarrow> ?thesis"
    by (simp add: piece_ok_def)
qed

lemma edges_at:
  assumes "piece_ok p"
  shows "edge_ok (below (piece p)) (cells (piece p)) (map (\<lambda>(x, y). (x + 0, y + 1)) (cells (piece p)))"
    "(m_dwTetrisShape p, m_dwTetrisDirect p) \<noteq> (3, 0) \<Longrightarrow>
      edge_ok (left_of (piece p)) (cells (piece p)) (map (\<lambda>(x, y). (x + - 1, y + 0)) (cells (piece p)))"
    "(m_dwTetrisShape p, m_dwTetrisDirect p) \<noteq> (2, 2) \<Longrightarrow>
      edge_ok (right_of (piece p)) (cells (piece p)) (map (\<lambda>(x, y). (x + 1, y + 0)) (cells (piece p)))"
proof -
  note at = bspec [OF _ piece_block [OF assms]]
  show "edge_ok (below (piece p)) (cells (piece p)) (map (\<lambda>(x, y). (x + 0, y + 1)) (cells (piece p)))"
    using at [OF edges_ok(1) [unfolded list_all_iff]] by simp
  have num: "m_dwTetrisShape p = of_nat s \<and> m_dwTetrisDirect p = of_nat d"
    if "4 * unat (m_dwTetrisShape p) + unat (m_dwTetrisDirect p) = 4 * s + d" "d < 4" for s d
    using piece_numbers [OF assms that] by (metis of_nat_unat ucast_id)
  show "edge_ok (left_of (piece p)) (cells (piece p)) (map (\<lambda>(x, y). (x + - 1, y + 0)) (cells (piece p)))"
    if "(m_dwTetrisShape p, m_dwTetrisDirect p) \<noteq> (3, 0)"
  proof -
    have "4 * unat (m_dwTetrisShape p) + unat (m_dwTetrisDirect p) \<noteq> 12" using num [of 3 0] that by force
    then show ?thesis using at [OF edges_ok(2) [unfolded list_all_iff]] by (simp only: prod.case) blast
  qed
  show "edge_ok (right_of (piece p)) (cells (piece p)) (map (\<lambda>(x, y). (x + 1, y + 0)) (cells (piece p)))"
    if "(m_dwTetrisShape p, m_dwTetrisDirect p) \<noteq> (2, 2)"
  proof -
    have "4 * unat (m_dwTetrisShape p) + unat (m_dwTetrisDirect p) \<noteq> 10" using num [of 2 2] that by force
    then show ?thesis using at [OF edges_ok(3) [unfolded list_all_iff]] by (simp only: prod.case) blast
  qed
qed

definition places :: "tetris \<Rightarrow> (int \<times> int) set" where
  "places p = (\<lambda>(x, y). (m_dwPosX p + x, m_dwPosY p - 4 + y)) ` set (cells (piece p))"

definition on_board :: "int \<times> int \<Rightarrow> bool" where
  "on_board c \<longleftrightarrow> 0 \<le> fst c \<and> fst c < int COLUMN_NUM \<and> 0 \<le> snd c \<and> snd c < int ROW_NUM"

definition occupied :: "board \<Rightarrow> int \<times> int \<Rightarrow> bool" where
  "occupied pools c \<longleftrightarrow> CheckTetris (fst c) (snd c) pools"

definition inside :: "tetris \<Rightarrow> bool" where
  "inside p \<longleftrightarrow> (\<forall>c \<in> places p. on_board c)"

definition fits :: "tetris \<Rightarrow> board \<Rightarrow> bool" where
  "fits p pools \<longleftrightarrow> (\<forall>c \<in> places p. \<not> occupied pools c)"

lemma not_occupied: "\<not> occupied pools c \<Longrightarrow> on_board c"
  by (auto simp: occupied_def on_board_def CheckTetris_def split: if_splits)

lemma block_info_piece: "block_info p i j = piece p ! i ! j"
  by (simp add: block_info_def piece_def)

lemma set_cells: "set (cells b) = {(int j, int i) |i j. i < 4 \<and> j < 4 \<and> b ! i ! j \<noteq> 0}"
  by (auto simp: cells_def cell_loop_def TETRIS_UNIT_def)

lemma set_edges:
  "set (below b) = (\<lambda>i. (int i, 4 - edge (b ! 4 ! i))) ` {i. i < 4 \<and> b ! 4 ! i \<noteq> 0}"
  "set (left_of b) = (\<lambda>i. (edge (b ! 5 ! i) - 1, int i)) ` {i. i < 4 \<and> b ! 5 ! i \<noteq> 0}"
  "set (right_of b) = (\<lambda>i. (edge (b ! 6 ! i) + 1, int i)) ` {i. i < 4 \<and> b ! 6 ! i \<noteq> 0}"
  by (auto simp: below_def left_of_def right_of_def)

lemma list_ex_upt: "list_ex P [0..<n] \<longleftrightarrow> (\<exists>i < n. P i)"
  by (auto simp: list_ex_iff)

lemma check_sets:
  "CheckDownTetris g \<longleftrightarrow> (\<exists>(x, y) \<in> set (below (piece (m_oCurrentTetris g))).
    occupied (m_dwTetrisPools g) (m_dwPosX (m_oCurrentTetris g) + x, m_dwPosY (m_oCurrentTetris g) - 4 + y))"
  "CheckLeftTetris g \<longleftrightarrow> (\<exists>(x, y) \<in> set (left_of (piece (m_oCurrentTetris g))).
    occupied (m_dwTetrisPools g) (m_dwPosX (m_oCurrentTetris g) + x, m_dwPosY (m_oCurrentTetris g) - 4 + y))"
  "CheckRightTetris g \<longleftrightarrow> (\<exists>(x, y) \<in> set (right_of (piece (m_oCurrentTetris g))).
    occupied (m_dwTetrisPools g) (m_dwPosX (m_oCurrentTetris g) + x, m_dwPosY (m_oCurrentTetris g) - 4 + y))"
  by (auto simp: CheckDownTetris_def CheckLeftTetris_def CheckRightTetris_def set_edges list_ex_upt
      occupied_def block_info_piece TETRIS_UNIT_def Let_def add_diff_eq add.assoc [symmetric])

definition move :: "int \<Rightarrow> int \<Rightarrow> tetris \<Rightarrow> tetris" where
  "move dx dy p = p\<lparr>m_dwPosX := m_dwPosX p + dx, m_dwPosY := m_dwPosY p + dy\<rparr>"

lemma move_simps [simp]: "m_dwPosX (move dx dy p) = m_dwPosX p + dx" "m_dwPosY (move dx dy p) = m_dwPosY p + dy"
  "piece (move dx dy p) = piece p" "piece_ok (move dx dy p) = piece_ok p"
  by (simp_all add: move_def piece_def piece_ok_def)

lemma places_move: "places (move dx dy p) = (\<lambda>(x, y). (x + dx, y + dy)) ` places p"
  unfolding places_def image_image by (rule image_cong) auto

text \<open>The test at the edge decides whether the moved piece fits.\<close>

lemma edge_test:
  assumes "edge_ok T (cells (piece p)) (map (\<lambda>(x, y). (x + dx, y + dy)) (cells (piece p)))" "fits p pools"
  shows "(\<exists>(x, y) \<in> set T. occupied pools (m_dwPosX p + x, m_dwPosY p - 4 + y)) \<longleftrightarrow> \<not> fits (move dx dy p) pools"
proof -
  let ?at = "\<lambda>(x, y). (m_dwPosX p + x, m_dwPosY p - 4 + y)"
  let ?mv = "\<lambda>(x, y). (x + dx, y + dy)"
  have T: "set T \<subseteq> ?mv ` set (cells (piece p))" "?mv ` set (cells (piece p)) \<subseteq> set (cells (piece p)) \<union> set T"
    using assms(1) by (auto simp: edge_ok_def list_all_iff)
  have "places (move dx dy p) = (\<lambda>c. ?at (?mv c)) ` set (cells (piece p))"
    unfolding places_def image_image by (intro image_cong) auto
  then have f: "fits (move dx dy p) pools \<longleftrightarrow> (\<forall>c \<in> ?mv ` set (cells (piece p)). \<not> occupied pools (?at c))"
    by (simp add: fits_def)
  have own: "\<forall>c \<in> set (cells (piece p)). \<not> occupied pools (?at c)"
    using assms(2) by (auto simp: fits_def places_def)
  have "(\<exists>c \<in> set T. occupied pools (?at c)) \<longleftrightarrow> \<not> (\<forall>c \<in> ?mv ` set (cells (piece p)). \<not> occupied pools (?at c))"
    using T own by blast
  then show ?thesis unfolding f by (simp add: split_beta)
qed

section \<open>The piece stays on the board\<close>

definition board_ok :: "board \<Rightarrow> bool" where
  "board_ok pools \<longleftrightarrow> length pools = ROW_NUM \<and> (\<forall>r \<in> set pools. length r = COLUMN_NUM)"

definition tetris_inv :: "tetris_game \<Rightarrow> bool" where
  "tetris_inv g \<longleftrightarrow> board_ok (m_dwTetrisPools g) \<and>
     piece_ok (m_oCurrentTetris g) \<and> inside (m_oCurrentTetris g) \<and> int TETRIS_UNIT \<le> m_dwPosY (m_oCurrentTetris g) \<and>
     piece_ok (m_oNextTetris g) \<and> m_dwPosX (m_oNextTetris g) = 4 \<and> m_dwPosY (m_oNextTetris g) = int TETRIS_UNIT"

lemma inside_start: "piece_ok p \<Longrightarrow> m_dwPosX p = 4 \<Longrightarrow> m_dwPosY p = int TETRIS_UNIT \<Longrightarrow> inside p"
  using edges_bound(4) piece_block [of p]
  by (force simp: inside_def places_def on_board_def list_all_iff TETRIS_UNIT_def COLUMN_NUM_def ROW_NUM_def)

lemma inside_moved:
  assumes "inside p" "\<not> (\<exists>(x, y) \<in> set T. occupied pools (m_dwPosX p + x, m_dwPosY p - 4 + y))"
    and "\<And>x y. (x, y) \<in> set (cells (piece p)) \<Longrightarrow> \<exists>(x', y') \<in> set T. near x y x' y'"
    and "\<And>x y x' y' a b. near x y x' y' \<Longrightarrow> on_board (a + x, b + y) \<Longrightarrow> on_board (a + x', b + y') \<Longrightarrow> on_board (a + x + dx, b + y + dy)"
  shows "inside (move dx dy p)"
  unfolding inside_def
proof
  fix c assume "c \<in> places (move dx dy p)"
  then obtain x y where c: "c = (m_dwPosX p + x + dx, m_dwPosY p - 4 + y + dy)" "(x, y) \<in> set (cells (piece p))"
    by (auto simp: places_move) (auto simp: places_def)
  have old: "on_board (m_dwPosX p + x, m_dwPosY p - 4 + y)" using assms(1) c(2) by (force simp: inside_def places_def)
  obtain x' y' where t: "(x', y') \<in> set T" "near x y x' y'" using assms(3) [OF c(2)] by auto
  have "on_board (m_dwPosX p + x', m_dwPosY p - 4 + y')" using assms(2) t(1) by (intro not_occupied) auto
  from assms(4) [OF t(2) old this] show "on_board c" by (simp add: c(1))
qed

lemma near_edges:
  assumes "piece_ok p" "(x, y) \<in> set (cells (piece p))"
  shows "\<exists>(x', y') \<in> set (below (piece p)). y + 1 \<le> y'" "\<exists>(x', y') \<in> set (left_of (piece p)). x' \<le> x - 1"
    "\<exists>(x', y') \<in> set (right_of (piece p)). x + 1 \<le> x'"
  using edges_bound(1-3) piece_block [OF assms(1)] assms(2) by (force simp: list_all_iff list_ex_iff)+

lemma inside_checked:
  assumes "piece_ok p" "inside p" "m_oCurrentTetris g = p"
  shows "\<not> CheckDownTetris g \<Longrightarrow> inside (move 0 1 p)" "\<not> CheckLeftTetris g \<Longrightarrow> inside (move (-1) 0 p)"
    "\<not> CheckRightTetris g \<Longrightarrow> inside (move 1 0 p)"
proof -
  note [simp] = assms(3) check_sets
  show "inside (move 0 1 p)" if "\<not> CheckDownTetris g"
    using that by (intro inside_moved [OF assms(2) _ near_edges(1) [OF assms(1)]]) (auto simp: on_board_def)
  show "inside (move (-1) 0 p)" if "\<not> CheckLeftTetris g"
    using that by (intro inside_moved [OF assms(2) _ near_edges(2) [OF assms(1)]]) (auto simp: on_board_def)
  show "inside (move 1 0 p)" if "\<not> CheckRightTetris g"
    using that by (intro inside_moved [OF assms(2) _ near_edges(3) [OF assms(1)]]) (auto simp: on_board_def)
qed

lemma inside_rotated:
  assumes "\<not> rotation_blocked p pools" "int TETRIS_UNIT \<le> m_dwPosY p"
  shows "inside p"
  unfolding inside_def
proof
  fix c assume "c \<in> places p"
  then obtain i j where c: "c = (m_dwPosX p + int j, m_dwPosY p - 4 + int i)" "i < 4" "j < 4" "piece p ! i ! j \<noteq> 0"
    by (auto simp: places_def set_cells)
  have "\<not> CheckTetris (m_dwPosX p + int j) (m_dwPosY p + int i) pools"
    using assms(1) c(2-4) by (force simp: rotation_blocked_def block_info_piece cell_loop_def TETRIS_UNIT_def list_ex_iff)
  then have "on_board (m_dwPosX p + int j, m_dwPosY p + int i)" using not_occupied [of pools] by (simp add: occupied_def)
  then show "on_board c" using assms(2) by (simp add: c(1) on_board_def TETRIS_UNIT_def)
qed

lemma set_cell_ok: "board_ok pools \<Longrightarrow> set_cell r c v pools = Some b \<Longrightarrow> board_ok b"
  by (auto simp: set_cell_def board_ok_def ROW_NUM_def split: if_splits dest!: set_update_subset_insert [THEN subsetD])

lemma place_cells_ok:
  assumes "inside p" "board_ok pools" "set ijs \<subseteq> set cell_loop"
  shows "\<exists>b. place_cells p ijs pools = Some b \<and> board_ok b"
  using assms(2,3)
proof (induction ijs arbitrary: pools)
  case (Cons ij ijs)
  obtain i j where ij: "ij = (i, j)" by fastforce
  show ?case
  proof (cases "block_info p i j = 0")
    case True
    then show ?thesis using Cons by (simp add: ij)
  next
    case False
    then have "(int j, int i) \<in> set (cells (piece p))"
      using Cons.prems(2) by (auto simp: ij set_cells cell_loop_def TETRIS_UNIT_def block_info_piece)
    then have "on_board (m_dwPosX p + int j, m_dwPosY p - 4 + int i)" using assms(1) by (force simp: inside_def places_def)
    then obtain b where b: "set_cell (m_dwPosY p - int TETRIS_UNIT + int i) (m_dwPosX p + int j) (m_dwTetrisColor p) pools = Some b"
      by (auto simp: set_cell_def on_board_def TETRIS_UNIT_def)
    then show ?thesis using Cons.IH [OF set_cell_ok [OF Cons.prems(1) b]] Cons.prems(2) False by (simp add: ij)
  qed
qed simp

section \<open>Removing full rows\<close>

lemma zero_row_eq: "length r = COLUMN_NUM \<Longrightarrow> zero_row r = replicate COLUMN_NUM 0"
  by (rule nth_equalityI) (auto simp: zero_row_def COLUMN_NUM_def upt_rec nth_list_update less_Suc_eq numeral_eq_Suc)

lemma copy_row_eq: "length dst = COLUMN_NUM \<Longrightarrow> length src = COLUMN_NUM \<Longrightarrow> copy_row dst src = src"
  by (rule nth_equalityI) (auto simp: copy_row_def COLUMN_NUM_def upt_rec nth_list_update less_Suc_eq numeral_eq_Suc)

lemma shift_rows_eq:
  assumes "\<forall>r \<in> set pools. length r = COLUMN_NUM" "k < length pools"
  shows "shift_rows k pools = (if k = 0 then pools else hd pools # take k pools @ drop (Suc k) pools)"
  using assms
proof (induction k arbitrary: pools)
  case (Suc k)
  let ?p = "pools[Suc k := pools ! k]"
  have c: "copy_row (pools ! Suc k) (pools ! k) = pools ! k" using Suc.prems by (intro copy_row_eq) auto
  have "\<forall>r \<in> set ?p. length r = COLUMN_NUM" using Suc.prems by (auto dest!: set_update_subset_insert [THEN subsetD])
  then have "shift_rows k ?p = (if k = 0 then ?p else hd ?p # take k ?p @ drop (Suc k) ?p)"
    using Suc.IH [of ?p] Suc.prems(2) by simp
  moreover have "drop (Suc k) ?p = pools ! k # drop (Suc (Suc k)) pools"
    using Suc.prems(2) by (simp add: Cons_nth_drop_Suc [symmetric])
  moreover have "take (Suc k) pools = take k pools @ [pools ! k]"
    using Suc.prems(2) by (simp add: take_Suc_conv_app_nth)
  moreover have "?p = hd pools # pools ! k # drop 2 pools" if "k = 0"
    using that Suc.prems(2) by (cases pools; cases "tl pools") auto
  moreover have "hd ?p = hd pools" using Suc.prems(2) by (cases pools) auto
  moreover have "take k ?p = take k pools" by simp
  ultimately show ?case using c Suc.prems(2) by (cases "k = 0"; cases pools) (simp_all add: numeral_eq_Suc)
qed simp

lemma EraseTetris_eq:
  assumes "board_ok pools" "k < ROW_NUM"
  shows "EraseTetris k pools = replicate COLUMN_NUM 0 # take k pools @ drop (Suc k) pools"
proof -
  let ?p = "pools[k := zero_row (pools ! k)]"
  have ok: "\<forall>r \<in> set pools. length r = COLUMN_NUM" "length pools = ROW_NUM" using assms(1) by (simp_all add: board_ok_def)
  then have z: "zero_row (pools ! k) = replicate COLUMN_NUM 0" using assms(2) by (intro zero_row_eq) auto
  have ok': "\<forall>r \<in> set ?p. length r = COLUMN_NUM" using ok z by (auto dest!: set_update_subset_insert [THEN subsetD])
  have s: "shift_rows k ?p = (if k = 0 then ?p else hd ?p # take k ?p @ drop (Suc k) ?p)"
    using ok(2) assms(2) by (intro shift_rows_eq [OF ok']) simp
  have ne: "pools \<noteq> []" using ok(2) assms(2) by auto
  have e: "length (hd pools) = COLUMN_NUM" using ok ne by (cases pools) auto
  have u: "take k ?p = take k pools" "drop (Suc k) ?p = drop (Suc k) pools" by simp_all
  show ?thesis
  proof (cases k)
    case 0
    then show ?thesis using z ne zero_row_eq [of "replicate COLUMN_NUM 0"] by (cases pools) (simp_all add: EraseTetris_def)
  next
    case (Suc j)
    then have "hd ?p = hd pools" using ne by (cases pools) simp_all
    then show ?thesis using s u Suc zero_row_eq [OF e] by (simp add: EraseTetris_def Let_def)
  qed
qed

definition full :: "32 word list \<Rightarrow> bool" where
  "full r \<longleftrightarrow> 0 \<notin> set r"

definition cleared :: "board \<Rightarrow> board" where
  "cleared pools = (let kept = filter (\<lambda>r. \<not> full r) pools in replicate (ROW_NUM - length kept) (replicate COLUMN_NUM 0) @ kept)"

lemma row_full_eq:
  assumes "board_ok pools" "i < ROW_NUM"
  shows "row_full pools i \<longleftrightarrow> full (pools ! i)"
proof -
  have "length (pools ! i) = COLUMN_NUM" using assms by (simp add: board_ok_def)
  then show ?thesis by (auto simp: row_full_def full_def list_all_iff in_set_conv_nth)
qed

lemma CheckErase_eq:
  assumes "board_ok pools"
  shows "case CheckErase pools of None \<Rightarrow> \<forall>r \<in> set pools. \<not> full r
    | Some k \<Rightarrow> k < ROW_NUM \<and> full (pools ! k) \<and> (\<forall>r \<in> set (take k pools). \<not> full r)"
proof (cases "CheckErase pools")
  case None
  then have "\<forall>i < ROW_NUM. \<not> full (pools ! i)" using row_full_eq [OF assms] by (auto simp: CheckErase_def find_None_iff)
  moreover have "length pools = ROW_NUM" using assms by (simp add: board_ok_def)
  ultimately show ?thesis using None by (auto simp: in_set_conv_nth)
next
  case (Some k)
  then obtain i where "i < ROW_NUM" "k = i" "row_full pools i" "\<forall>j < i. \<not> row_full pools j"
    by (auto simp: CheckErase_def find_Some_iff)
  then show ?thesis using Some row_full_eq [OF assms] by (auto simp: in_set_conv_nth)
qed

lemma erase_rows_eq:
  "board_ok pools \<Longrightarrow> erase_rows pools = Some (cleared pools)"
proof (induction "length (filter full pools)" arbitrary: pools rule: less_induct)
  case less
  note ok = less.prems
  have len: "length pools = ROW_NUM" using ok by (simp add: board_ok_def)
  show ?case
  proof (cases "CheckErase pools")
    case None
    then have "filter (\<lambda>r. \<not> full r) pools = pools" using CheckErase_eq [OF ok] by simp
    then show ?thesis using None len by (simp add: erase_rows.simps cleared_def)
  next
    case (Some k)
    then have k: "k < ROW_NUM" "full (pools ! k)" using CheckErase_eq [OF ok] by auto
    let ?q = "EraseTetris k pools" and ?e = "replicate COLUMN_NUM 0 :: 32 word list"
    have q: "?q = ?e # take k pools @ drop (Suc k) pools" by (rule EraseTetris_eq [OF ok k(1)])
    have p: "pools = take k pools @ pools ! k # drop (Suc k) pools" using k(1) len by (simp add: id_take_nth_drop)
    have e: "\<not> full ?e" by (simp add: full_def COLUMN_NUM_def)
    have okq: "board_ok ?q" using ok k(1) by (auto simp: q board_ok_def dest: in_set_takeD in_set_dropD)
    have f: "filter P pools = filter P (take k pools) @ (if P (pools ! k) then [pools ! k] else []) @ filter P (drop (Suc k) pools)" for P
      by (subst (1) p) simp
    have "length (filter full ?q) < length (filter full pools)" using e k(2) f [of full] by (simp add: q)
    then have "erase_rows ?q = Some (cleared ?q)" using okq by (rule less.hyps)
    moreover have "cleared ?q = cleared pools"
    proof -
      let ?kept = "filter (\<lambda>r. \<not> full r) pools"
      have "filter (\<lambda>r. \<not> full r) ?q = ?e # ?kept" using e k(2) f [of "\<lambda>r. \<not> full r"] by (simp add: q)
      moreover have "length ?kept < ROW_NUM"
      proof -
        have "length ?kept + length (filter full pools) = ROW_NUM" using sum_length_filter_compl [of full pools] len by simp
        moreover have "0 < length (filter full pools)" using k(2) f [of full] by simp
        ultimately show ?thesis by linarith
      qed
      ultimately show ?thesis
        by (simp add: cleared_def Suc_diff_Suc [symmetric] replicate_append_same [symmetric] del: replicate_append_same)
           (simp add: replicate_app_Cons_same Let_def)
    qed
    ultimately show ?thesis using Some by (subst erase_rows.simps) simp
  qed
qed

lemma cleared_ok: "board_ok pools \<Longrightarrow> board_ok (cleared pools)"
proof -
  assume ok: "board_ok pools"
  then have "length (filter (\<lambda>r. \<not> full r) pools) \<le> ROW_NUM" using length_filter_le by (metis board_ok_def)
  then show ?thesis using ok by (auto simp: cleared_def board_ok_def Let_def)
qed

section \<open>The invariant\<close>

lemma new_tetris_ok:
  "piece_ok (new_tetris r1 r2 r3)" "m_dwPosX (new_tetris r1 r2 r3) = 4" "m_dwPosY (new_tetris r1 r2 r3) = int TETRIS_UNIT"
proof -
  have "r1 mod 7 < 2 ^ 32" by (rule less_trans [of _ 7]) simp_all
  moreover have "r2 mod 4 < 2 ^ 32" by (rule less_trans [of _ 4]) simp_all
  ultimately have "unat (of_nat (r1 mod 7) :: 32 word) = r1 mod 7" "unat (of_nat (r2 mod 4) :: 32 word) = r2 mod 4"
    by (simp_all only: unsigned_of_nat) (simp_all add: take_bit_nat_eq_self)
  then show "piece_ok (new_tetris r1 r2 r3)" by (simp add: piece_ok_def new_tetris_def SHAPE_COUNT_def)
qed (simp_all add: new_tetris_def COLUMN_NUM_def TETRIS_UNIT_def)

lemma rotated_ok: "piece_ok p \<Longrightarrow> piece_ok (p\<lparr>m_dwTetrisDirect := w mod of_nat TETRIS_UNIT\<rparr>)"
proof -
  assume "piece_ok p"
  moreover have "unat (w mod 4) < 4" using unsigned_less [of "w mod 4"] by (simp add: unat_mod_distrib)
  ultimately show ?thesis by (simp add: piece_ok_def TETRIS_UNIT_def)
qed

lemma Init_inv: "tetris_inv (CommonTetris_Init r g)"
  using new_tetris_ok by (auto simp: tetris_inv_def CommonTetris_Init_def notify_def Let_def board_ok_def empty_board_def intro!: inside_start)

lemma inv_simps [simp]: "tetris_inv (notify n g) = tetris_inv g" "tetris_inv (g\<lparr>m_bNeedRefresh := b\<rparr>) = tetris_inv g"
  by (simp_all add: tetris_inv_def notify_def)

lemma PrintInfo_ok: "tetris_inv g \<Longrightarrow> \<exists>b. PrintInfo g = Some b"
  using place_cells_ok [of "m_oCurrentTetris g" "m_dwTetrisPools g" cell_loop] by (auto simp: PrintInfo_def tetris_inv_def)

lemma moved_inv:
  "tetris_inv g \<Longrightarrow> inside (move dx dy (m_oCurrentTetris g)) \<Longrightarrow> 0 \<le> dy \<Longrightarrow>
    tetris_inv (g\<lparr>m_oCurrentTetris := move dx dy (m_oCurrentTetris g)\<rparr>)"
  by (simp add: tetris_inv_def)

lemma move_eqs:
  "p\<lparr>m_dwPosY := m_dwPosY p + 1\<rparr> = move 0 1 p" "p\<lparr>m_dwPosX := m_dwPosX p - 1\<rparr> = move (-1) 0 p"
  "p\<lparr>m_dwPosX := m_dwPosX p + 1\<rparr> = move 1 0 p"
  by (simp_all add: move_def)

lemma DownTetris_inv:
  assumes inv: "tetris_inv g"
  shows "\<exists>g'. DownTetris r1 r2 r3 g = Some g' \<and> tetris_inv g'"
proof (cases "CheckDownTetris g")
  case False
  let ?g = "notify EMD_Down (g\<lparr>m_oCurrentTetris := move 0 1 (m_oCurrentTetris g)\<rparr>)"
  have "tetris_inv ?g"
    using moved_inv [OF inv, of 0 1] inv inside_checked(1) [OF _ _ refl False] by (simp add: tetris_inv_def notify_def)
  then show ?thesis using False PrintInfo_ok [of ?g] by (auto simp: DownTetris_def Let_def move_eqs)
next
  case True
  have p: "inside (m_oCurrentTetris g)" "board_ok (m_dwTetrisPools g)" using inv by (simp_all add: tetris_inv_def)
  obtain b where b: "place_cells (m_oCurrentTetris g) cell_loop (m_dwTetrisPools g) = Some b" "board_ok b"
    using place_cells_ok [OF p subset_refl] by blast
  show ?thesis
  proof (cases "m_dwPosY (m_oCurrentTetris g) \<le> int TETRIS_UNIT")
    case True
    then show ?thesis using \<open>CheckDownTetris g\<close> b inv by (simp add: DownTetris_def Let_def) (simp add: tetris_inv_def)
  next
    case False
    let ?n = "new_tetris r1 r2 r3"
    let ?g = "g\<lparr>m_dwTetrisPools := cleared b, m_oCurrentTetris := m_oNextTetris g, m_oNextTetris := ?n\<rparr>"
    have inv': "tetris_inv ?g"
      using inv cleared_ok [OF b(2)] new_tetris_ok inside_start by (simp add: tetris_inv_def)
    let ?h = "notify (Note_Next ?n) ((notify EMD_Down (g\<lparr>m_dwTetrisPools := cleared b\<rparr>))
      \<lparr>m_oCurrentTetris := m_oNextTetris g, m_oNextTetris := ?n\<rparr>)"
    have "?h = notify (Note_Next ?n) (notify EMD_Down ?g)" by (simp add: notify_def)
    then have h: "tetris_inv ?h" using inv' by (simp only: inv_simps)
    then obtain c where "PrintInfo ?h = Some c" using PrintInfo_ok by blast
    moreover have "m_oNextTetris (notify EMD_Down (g\<lparr>m_dwTetrisPools := cleared b\<rparr>)) = m_oNextTetris g" by (simp add: notify_def)
    ultimately have "DownTetris r1 r2 r3 g = Some (?h\<lparr>m_bNeedRefresh := True\<rparr>)"
      using True False b(1) erase_rows_eq [OF b(2)] by (simp add: DownTetris_def Let_def)
    moreover have "tetris_inv (?h\<lparr>m_bNeedRefresh := True\<rparr>)" using h by (simp only: inv_simps)
    ultimately show ?thesis by blast
  qed
qed

lemma tetris_step_inv: "tetris_inv g \<Longrightarrow> \<exists>g'. tetris_step e g = Some g' \<and> tetris_inv g'"
proof (cases e)
  case (Down r1 r2 r3)
  then show "tetris_inv g \<Longrightarrow> ?thesis" using DownTetris_inv by simp
next
  case MoveLeft
  then show "tetris_inv g \<Longrightarrow> ?thesis"
    using inside_checked(2) [OF _ _ refl, of g] moved_inv [of g "-1" 0]
    by (auto simp: LeftTetris_def Let_def move_eqs tetris_inv_def notify_def)
next
  case MoveRight
  then show "tetris_inv g \<Longrightarrow> ?thesis"
    using inside_checked(3) [OF _ _ refl, of g] moved_inv [of g 1 0]
    by (auto simp: RightTetris_def Let_def move_eqs tetris_inv_def notify_def)
next
  case RotateLeft
  then show "tetris_inv g \<Longrightarrow> ?thesis" using inside_rotated rotated_ok
    by (auto simp: LeftRotation_def Let_def tetris_inv_def notify_def)
next
  case RotateRight
  then show "tetris_inv g \<Longrightarrow> ?thesis" using inside_rotated rotated_ok
    by (auto simp: RightRotation_def Let_def tetris_inv_def notify_def)
qed

lemma tetris_run_inv: "tetris_inv g \<Longrightarrow> \<exists>g'. tetris_run es g = Some g' \<and> tetris_inv g'"
proof (induction es arbitrary: g)
  case (Cons e es)
  then show ?case using tetris_step_inv [OF Cons.prems, of e] by fastforce
qed simp

section \<open>Properties\<close>

text \<open>
  C35: However a player moves and rotates the falling pieces, and whatever numbers \<open>rand\<close> returns, no
  operation writes outside the board, the removal of full rows ends, and every cell of the falling
  piece lies on the board.
\<close>

theorem tetris_stays_on_board:
  "\<exists>g. tetris_run es (CommonTetris_Init r g0) = Some g \<and> board_ok (m_dwTetrisPools g) \<and> inside (m_oCurrentTetris g)"
  using tetris_run_inv [OF Init_inv, of es r g0] by (auto simp: tetris_inv_def)

text \<open>
  C36: The loop over \<open>CheckErase\<close> and \<open>EraseTetris\<close> ends on every board and removes exactly the full
  rows: the others keep their order at the bottom, and as many empty rows come in at the top.
\<close>

theorem erase_rows_correct:
  assumes "length pools = ROW_NUM" "\<forall>r \<in> set pools. length r = COLUMN_NUM"
  shows "erase_rows pools = Some
    (let kept = filter (\<lambda>r. 0 \<in> set r) pools in replicate (ROW_NUM - length kept) (replicate COLUMN_NUM 0) @ kept)"
  using erase_rows_eq [of pools] assms by (simp add: board_ok_def cleared_def full_def)

theorem erase_rows_correct_witness:
  "erase_rows (replicate 20 (replicate 12 0) @ [replicate 12 1, 0 # replicate 11 1]) =
    Some (replicate 21 (replicate 12 0) @ [0 # replicate 11 1])"
  using erase_rows_correct [of "replicate 20 (replicate 12 0) @ [replicate 12 1, 0 # replicate 11 1]"]
  by (simp add: ROW_NUM_def COLUMN_NUM_def Let_def numeral_eq_Suc)

text \<open>
  C37: The tests at the edges of a piece agree with the cells of the piece: for a piece that overlaps
  nothing, \<open>CheckDownTetris\<close>, \<open>CheckLeftTetris\<close> and \<open>CheckRightTetris\<close> hold exactly when the piece, moved
  by one, would leave the board or overlap a settled cell.  Two entries of the table are wrong: the left
  edge of shape 3 in direction 0 and the right edge of shape 2 in direction 2 are excluded.
\<close>

theorem edge_tests_exact:
  assumes "unat (m_dwTetrisShape p) < SHAPE_COUNT" "unat (m_dwTetrisDirect p) < 4" "m_oCurrentTetris g = p"
    and "fits p (m_dwTetrisPools g)"
  shows "(CheckDownTetris g \<longleftrightarrow> \<not> fits (move 0 1 p) (m_dwTetrisPools g)) \<and>
    ((m_dwTetrisShape p, m_dwTetrisDirect p) \<noteq> (3, 0) \<longrightarrow> (CheckLeftTetris g \<longleftrightarrow> \<not> fits (move (-1) 0 p) (m_dwTetrisPools g))) \<and>
    ((m_dwTetrisShape p, m_dwTetrisDirect p) \<noteq> (2, 2) \<longrightarrow> (CheckRightTetris g \<longleftrightarrow> \<not> fits (move 1 0 p) (m_dwTetrisPools g)))"
proof -
  have ok: "piece_ok p" using assms(1,2) by (simp add: piece_ok_def)
  note e = edges_at [OF ok] and t = edge_test [OF _ assms(4)]
  have "CheckDownTetris g \<longleftrightarrow> \<not> fits (move 0 1 p) (m_dwTetrisPools g)"
    unfolding check_sets assms(3) by (rule t [OF e(1)])
  moreover have "CheckLeftTetris g \<longleftrightarrow> \<not> fits (move (-1) 0 p) (m_dwTetrisPools g)"
    if "(m_dwTetrisShape p, m_dwTetrisDirect p) \<noteq> (3, 0)"
    unfolding check_sets assms(3) by (rule t [OF e(2) [OF that]])
  moreover have "CheckRightTetris g \<longleftrightarrow> \<not> fits (move 1 0 p) (m_dwTetrisPools g)"
    if "(m_dwTetrisShape p, m_dwTetrisDirect p) \<noteq> (2, 2)"
    unfolding check_sets assms(3) by (rule t [OF e(3) [OF that]])
  ultimately show ?thesis by blast
qed

theorem edge_tests_exact_witness:
  "let g = CommonTetris_Init [2, 0, 1, 2, 0, 1] TetrisBase; p = m_oCurrentTetris g in
    CheckRightTetris g = (\<not> fits (move 1 0 p) (m_dwTetrisPools g)) \<and> \<not> CheckRightTetris g"
proof -
  let ?g = "CommonTetris_Init [2, 0, 1, 2, 0, 1] TetrisBase"
  let ?p = "m_oCurrentTetris ?g"
  have "unat (m_dwTetrisShape ?p) < SHAPE_COUNT" "unat (m_dwTetrisDirect ?p) < 4" "(m_dwTetrisShape ?p, m_dwTetrisDirect ?p) \<noteq> (2, 2)"
    "list_all (\<lambda>(x, y). \<not> occupied (m_dwTetrisPools ?g) (m_dwPosX ?p + x, m_dwPosY ?p - 4 + y)) (cells (piece ?p))" "\<not> CheckRightTetris ?g"
    by code_simp+
  moreover from this(4) have "fits ?p (m_dwTetrisPools ?g)" by (auto simp: fits_def places_def list_all_iff)
  ultimately show ?thesis using edge_tests_exact [of ?p ?g] by (simp add: Let_def)
qed

text \<open>
  What the wrong right edge allows: a piece of shape 2 in direction 2 is moved into settled cells.
\<close>

lemma right_move_overlaps:
  "case tetris_run (replicate 5 MoveRight @ replicate 39 (Down 0 0 0) @ replicate 3 MoveRight)
      (CommonTetris_Init [6, 0, 0, 2, 2, 1] TetrisBase) of
     None \<Rightarrow> False
   | Some g \<Rightarrow> (let p = m_oCurrentTetris g in
       list_ex (\<lambda>(x, y). m_dwTetrisPools g ! nat (m_dwPosY p - 4 + y) ! nat (m_dwPosX p + x) \<noteq> 0) (cells (piece p)))"
  by code_simp

text \<open>A move that arrives before \<open>Init\<close> draws the piece above the board.\<close>

lemma move_before_Init: "DownTetris r1 r2 r3 TetrisBase = None"
proof -
  have "\<not> CheckDownTetris TetrisBase" "PrintInfo (TetrisBase\<lparr>m_oCurrentTetris := Tetris\<lparr>m_dwPosY := 1\<rparr>\<rparr>) = None" by code_simp+
  then show ?thesis by (simp add: DownTetris_def Let_def PrintInfo_def notify_def TetrisBase_def Tetris_def)
qed

end
