(* ===== verification/Sha1Spec.thy ===== *)
theory Sha1Spec imports Prelude begin

text \<open>
  The Secure Hash Algorithm SHA-1 as the standard (FIPS 180-4) defines it, over the whole message at
  once: the reference for the class in \<open>Server/meta_header/sha1.h\<close> (theory \<open>Sha1\<close>) and for the routines
  of the data server in \<open>Server/redis-3.2.1/src/sha1.c\<close> (theory \<open>RedisSha1\<close>).
\<close>

unbundle bit_operations_syntax

type_synonym regs = "32 word \<times> 32 word \<times> 32 word \<times> 32 word \<times> 32 word"

section \<open>The standard\<close>

definition ROTL :: "nat \<Rightarrow> 32 word \<Rightarrow> 32 word" where
  "ROTL n x = push_bit n x OR drop_bit (32 - n) x"

definition sha1_f :: "nat \<Rightarrow> 32 word \<Rightarrow> 32 word \<Rightarrow> 32 word \<Rightarrow> 32 word" where
  "sha1_f t x y z =
    (if t < 20 then (x AND y) XOR (NOT x AND z)
     else if t < 40 then x XOR y XOR z
     else if t < 60 then (x AND y) XOR (x AND z) XOR (y AND z)
     else x XOR y XOR z)"

definition sha1_K :: "nat \<Rightarrow> 32 word" where
  "sha1_K t = (if t < 20 then 0x5A827999 else if t < 40 then 0x6ED9EBA1 else if t < 60 then 0x8F1BBCDC else 0xCA62C1D6)"

text \<open>The words of a block of 64 bytes, and the message schedule.\<close>

definition block_word :: "bytes \<Rightarrow> nat \<Rightarrow> 32 word" where
  "block_word M t = of_nat (be_nat (take 4 (drop (4 * t) M)))"

fun schedule :: "bytes \<Rightarrow> nat \<Rightarrow> 32 word" where
  "schedule M t =
    (if t < 16 then block_word M t
     else ROTL 1 (schedule M (t - 3) XOR schedule M (t - 8) XOR schedule M (t - 14) XOR schedule M (t - 16)))"

declare schedule.simps [simp del]

fun sha1_step :: "bytes \<Rightarrow> nat \<Rightarrow> regs \<Rightarrow> regs" where
  "sha1_step M t (a, b, c, d, e) = (ROTL 5 a + sha1_f t b c d + e + sha1_K t + schedule M t, a, ROTL 30 b, c, d)"

primrec sha1_rounds :: "bytes \<Rightarrow> nat \<Rightarrow> regs \<Rightarrow> regs" where
  "sha1_rounds M 0 r = r"
| "sha1_rounds M (Suc t) r = sha1_step M t (sha1_rounds M t r)"

fun add_regs :: "regs \<Rightarrow> regs \<Rightarrow> regs" where
  "add_regs (a, b, c, d, e) (a', b', c', d', e') = (a + a', b + b', c + c', d + d', e + e')"

definition sha1_compress :: "regs \<Rightarrow> bytes \<Rightarrow> regs" where
  "sha1_compress H M = add_regs H (sha1_rounds M 80 H)"

definition sha1_init :: regs where
  "sha1_init = (0x67452301, 0xEFCDAB89, 0x98BADCFE, 0x10325476, 0xC3D2E1F0)"

text \<open>The padding: a one bit, the least number of zero bits that leaves room for the length, the length in bits.\<close>

definition pad_zeros :: "nat \<Rightarrow> nat" where
  "pad_zeros l = (119 - l mod 64) mod 64"

definition sha1_pad :: "bytes \<Rightarrow> bytes" where
  "sha1_pad m = m @ 0x80 # replicate (pad_zeros (length m)) 0 @ be_bytes 8 (8 * length m)"

function hash_blocks :: "regs \<Rightarrow> bytes \<Rightarrow> regs" where
  "hash_blocks H m = (if length m < 64 then H else hash_blocks (sha1_compress H (take 64 m)) (drop 64 m))"
  by pat_completeness auto
termination by (relation "measure (\<lambda>(H, m). length m)") auto

declare hash_blocks.simps [simp del]

definition sha1_regs :: "bytes \<Rightarrow> regs" where
  "sha1_regs m = hash_blocks sha1_init (sha1_pad m)"

fun regs_list :: "regs \<Rightarrow> 32 word list" where
  "regs_list (a, b, c, d, e) = [a, b, c, d, e]"

definition sha1_digest :: "bytes \<Rightarrow> 32 word list" where
  "sha1_digest m = regs_list (sha1_regs m)"

section \<open>Facts\<close>

lemma pad_zeros_cases:
  "pad_zeros l = (if l mod 64 < 56 then 55 - l mod 64 else 119 - l mod 64)"
proof -
  have "(119 - r) mod 64 = (if r < 56 then 55 - r else 119 - r)" if "r < 64" for r :: nat
    using that by (cases "r < 56") (simp_all add: le_mod_geq)
  then show ?thesis by (simp add: pad_zeros_def)
qed

lemma pad_zeros_mod: "(l + 1 + pad_zeros l) mod 64 = 56"
proof -
  have "(r + (1 + (if r < 56 then 55 - r else 119 - r))) mod 64 = 56" if "r < 64" for r :: nat
    using that by (cases "r < 56") simp_all
  then have "(l mod 64 + (1 + pad_zeros l)) mod 64 = 56" by (simp only: pad_zeros_cases mod_less_divisor zero_less_numeral)
  then show ?thesis by (simp only: mod_add_left_eq add.assoc)
qed

lemma length_sha1_pad: "length (sha1_pad m) mod 64 = 0"
proof -
  have "length (sha1_pad m) = (length m + 1 + pad_zeros (length m)) + 8" by (simp add: sha1_pad_def)
  moreover have "(x + 8) mod 64 = 0" if "x mod 64 = 56" for x :: nat using that by (simp add: mod_add_left_eq [of x, symmetric])
  ultimately show ?thesis using pad_zeros_mod by (simp only:)
qed

lemma hash_blocks_short: "length m < 64 \<Longrightarrow> hash_blocks H m = H"
  by (simp add: hash_blocks.simps)

lemma hash_blocks_block: "length b = 64 \<Longrightarrow> hash_blocks H (b @ m) = hash_blocks (sha1_compress H b) m"
  by (subst hash_blocks.simps) simp

lemma hash_blocks_append:
  "length m mod 64 = 0 \<Longrightarrow> hash_blocks H (m @ m') = hash_blocks (hash_blocks H m) m'"
proof (induction H m rule: hash_blocks.induct)
  case (1 H m)
  show ?case
  proof (cases "length m < 64")
    case True
    then have "m = []" using 1(2) by simp
    then show ?thesis by (simp add: hash_blocks_short)
  next
    case False
    then have "length (drop 64 m) mod 64 = 0" using 1(2) by (simp add: le_mod_geq)
    then have "hash_blocks (sha1_compress H (take 64 m)) (drop 64 m @ m') =
        hash_blocks (hash_blocks (sha1_compress H (take 64 m)) (drop 64 m)) m'"
      by (rule 1(1) [OF False])
    moreover have "hash_blocks H (m @ m') = hash_blocks (sha1_compress H (take 64 m)) (drop 64 m @ m')"
      using False by (subst hash_blocks.simps) simp
    moreover have "hash_blocks H m = hash_blocks (sha1_compress H (take 64 m)) (drop 64 m)"
      using False by (subst hash_blocks.simps) simp
    ultimately show ?thesis by simp
  qed
qed

text \<open>Bytes after the last whole block do not count.\<close>

lemma hash_blocks_take: "hash_blocks H (take (64 * (length m div 64)) m) = hash_blocks H m"
proof -
  let ?n = "64 * (length m div 64)"
  have "hash_blocks H (take ?n m @ drop ?n m) = hash_blocks (hash_blocks H (take ?n m)) (drop ?n m)"
    by (rule hash_blocks_append) simp
  moreover have "length (drop ?n m) < 64" by (simp add: minus_mult_div_eq_mod)
  ultimately show ?thesis by (simp add: hash_blocks_short)
qed

lemma schedule_first: "t < 16 \<Longrightarrow> schedule M t = block_word M t"
  by (simp add: schedule.simps)

lemma schedule_next:
  "16 \<le> t \<Longrightarrow> schedule M t = ROTL 1 (schedule M (t - 3) XOR schedule M (t - 8) XOR schedule M (t - 14) XOR schedule M (t - 16))"
  by (subst schedule.simps) simp

lemma length_regs_list [simp]: "length (regs_list r) = 5"
  by (cases r) simp

lemma mod64_append: "length w mod 64 = 0 \<Longrightarrow> length (w @ t) mod 64 = length t mod 64"
  using mod_add_left_eq [of "length w" 64 "length t"] by simp

text \<open>A word put together from four bytes.\<close>

lemma be_nat_4: "be_nat [a, b, c, d] = ((unat a * 256 + unat b) * 256 + unat c) * 256 + unat d"
  by (simp add: be_nat_def algebra_simps)

lemma bit_uint_of_byte: "bit (ucast (b :: byte) :: 32 word) n \<longleftrightarrow> n < 8 \<and> bit b n"
  by (auto simp: bit_simps dest: bit_imp_le_length)

lemma word_of_bytes:
  "of_nat (be_nat [a, b, c, d]) =
    push_bit 24 (ucast a :: 32 word) OR push_bit 16 (ucast b) OR push_bit 8 (ucast c) OR ucast d"
proof -
  have dis: "push_bit n x + y = push_bit n x OR y" if "\<And>i. bit y i \<Longrightarrow> i < n" for n and x y :: "32 word"
  proof -
    have "push_bit n x AND y = 0" using that by (force simp: bit_eq_iff bit_simps)
    then show ?thesis by (simp add: disjunctive_add_eq_or)
  qed
  have dis8: "push_bit 8 x + ucast y = push_bit 8 x OR ucast y" for x :: "32 word" and y :: byte
    by (rule dis) (simp add: bit_uint_of_byte)
  have "of_nat (be_nat [a, b, c, d]) = push_bit 8 (push_bit 8 (push_bit 8 (ucast a :: 32 word) + ucast b) + ucast c) + ucast d"
    by (simp add: be_nat_4 push_bit_eq_mult algebra_simps)
  also have "\<dots> = push_bit 8 (push_bit 8 (push_bit 8 (ucast a) OR ucast b) OR ucast c) OR ucast d"
    by (simp only: dis8)
  also have "\<dots> = push_bit 24 (ucast a) OR push_bit 16 (ucast b) OR push_bit 8 (ucast c) OR ucast d"
    by (simp add: push_bit_or or.assoc)
  finally show ?thesis .
qed

lemma bit_word_of_bytes:
  "bit (of_nat (be_nat [a, b, c, d]) :: 32 word) n \<longleftrightarrow>
    (if n < 8 then bit d n else if n < 16 then bit c (n - 8) else if n < 24 then bit b (n - 16) else bit a (n - 24))"
proof -
  have byte: "8 \<le> n \<Longrightarrow> \<not> bit (x :: byte) n" for x n using bit_imp_le_length [of x n] by auto
  consider "n < 8" | "8 \<le> n" "n < 16" | "16 \<le> n" "n < 24" | "24 \<le> n" "n < 32" | "32 \<le> n" by linarith
  then show ?thesis unfolding word_of_bytes
    by cases (auto simp: bit_push_bit_iff bit_or_iff bit_uint_of_byte byte)
qed

lemma take4: "length xs \<ge> 4 \<Longrightarrow> take 4 xs = [xs ! 0, xs ! 1, xs ! 2, xs ! 3]"
  by (cases xs; cases "tl xs"; cases "tl (tl xs)"; cases "tl (tl (tl xs))") auto

lemma block_word_nth:
  "4 * t + 4 \<le> length M \<Longrightarrow> block_word M t = of_nat (be_nat [M ! (4 * t), M ! (4 * t + 1), M ! (4 * t + 2), M ! (4 * t + 3)])"
  by (simp add: block_word_def take4)

text \<open>The bytes of the length.\<close>

lemma le_bytes_numeral [simp]: "le_bytes (numeral k) x = of_nat (x mod 256) # le_bytes (pred_numeral k) (x div 256)"
  by (simp only: numeral_eq_Suc [of k] le_bytes.simps)

lemma be_bytes_word: "be_bytes 4 (unat w) = [ucast (drop_bit 24 w), ucast (drop_bit 16 w), ucast (drop_bit 8 w), ucast (w :: 32 word)]"
proof -
  have b: "of_nat (x mod 256) = (of_nat x :: byte)" for x
    by (simp add: word_of_nat_eq_iff take_bit_eq_mod)
  have "of_nat (unat w div 2 ^ n) = (ucast (drop_bit n w) :: byte)" for n
    by (metis drop_bit_eq_div of_nat_unat unat_drop_bit_eq)
  from this [of 8] this [of 16] this [of 24] show ?thesis by (simp add: be_bytes_def div_mult2_eq [symmetric] b)
qed

lemma le_bytes_add: "le_bytes (m + n) x = le_bytes m x @ le_bytes n (x div 256 ^ m)"
  by (induction m arbitrary: x) (simp_all add: div_mult2_eq)

lemma le_bytes_more: "le_bytes n (x + 256 ^ n * y) = le_bytes n x"
proof (induction n arbitrary: x y)
  case (Suc n)
  have "(x + 256 ^ Suc n * y) mod 256 = x mod 256" by (simp add: mult.assoc)
  moreover have "(x + 256 ^ Suc n * y) div 256 = x div 256 + 256 ^ n * y" by (simp add: mult.assoc)
  ultimately show ?case using Suc by simp
qed simp

lemma be_bytes_pair:
  "be_bytes 8 (unat (h :: 32 word) * 2 ^ 32 + unat (l :: 32 word)) = be_bytes 4 (unat h) @ be_bytes 4 (unat l)"
proof -
  have "unat l < 256 ^ 4" using unsigned_less [of l] by simp
  then have "(unat h * 2 ^ 32 + unat l) div 256 ^ 4 = unat h" by simp
  moreover have "le_bytes 4 (unat h * 2 ^ 32 + unat l) = le_bytes 4 (unat l)"
    using le_bytes_more [of 4 "unat l" "unat h"] by (simp add: add.commute mult.commute)
  ultimately show ?thesis using le_bytes_add [of 4 4 "unat h * 2 ^ 32 + unat l"] by (simp add: be_bytes_def)
qed

section \<open>A message in pieces\<close>

text \<open>
  What both implementations promise: \<open>feed\<close> takes the next piece of the message, and the state then
  stands for the longer message, if the piece is \<open>fine\<close>.  Then any sequence of pieces stands for their
  concatenation.
\<close>

primrec feed_all :: "(bytes \<Rightarrow> 's \<Rightarrow> 's option) \<Rightarrow> bytes list \<Rightarrow> 's \<Rightarrow> 's option" where
  "feed_all feed [] s = Some s"
| "feed_all feed (p # ps) s = (case feed p s of None \<Rightarrow> None | Some s \<Rightarrow> feed_all feed ps s)"

locale absorbing =
  fixes feed :: "bytes \<Rightarrow> 's \<Rightarrow> 's option"
    and stands_for :: "bytes \<Rightarrow> 's \<Rightarrow> bool"
    and fine :: "bytes \<Rightarrow> bytes \<Rightarrow> bool"
  assumes feed_stands: "stands_for m s \<Longrightarrow> fine m p \<Longrightarrow> \<exists>s'. feed p s = Some s' \<and> stands_for (m @ p) s'"
begin

lemma feed_all_stands:
  "stands_for m s \<Longrightarrow> \<forall>i < length ps. fine (m @ concat (take i ps)) (ps ! i) \<Longrightarrow>
    \<exists>s'. feed_all feed ps s = Some s' \<and> stands_for (m @ concat ps) s'"
proof (induction ps arbitrary: m s)
  case (Cons p ps)
  have "fine m p" using Cons.prems(2) by force
  from feed_stands [OF Cons.prems(1) this] obtain s' where s': "feed p s = Some s'" "stands_for (m @ p) s'" by blast
  have "fine ((m @ p) @ concat (take i ps)) (ps ! i)" if "i < length ps" for i
    using Cons.prems(2) [rule_format, of "Suc i"] that by simp
  from Cons.IH [OF s'(2)] this show ?case by (simp add: s'(1))
qed simp

end

end
