(* ===== verification/RedisSha1.thy ===== *)
theory RedisSha1 imports Sha1Spec "HOL-Library.Monad_Syntax" begin

text \<open>
  SHA-1 of the data server, \<open>Server/redis-3.2.1/src/sha1.c\<close>, on a little-endian host.  The 80
  macro calls of \<open>SHA1Transform\<close>, in which each call names the five variables rotated by one, are a
  loop that rotates them; the block of 16 words is overwritten as the schedule advances.  All index
  arithmetic of \<open>SHA1Update\<close> is that of \<open>uint32_t\<close>; a copy out of range is the result \<open>None\<close>.
\<close>

unbundle bit_operations_syntax

record SHA1_CTX =
  state :: "32 word list"
  count :: "32 word list"
  buffer :: bytes

definition rol :: "32 word \<Rightarrow> nat \<Rightarrow> 32 word" where
  "rol w bits = push_bit bits w OR drop_bit (32 - bits) w"

section \<open>The transform\<close>

definition blk0 :: "32 word list \<Rightarrow> nat \<Rightarrow> 32 word list" where
  "blk0 l i = l[i := (rol (l ! i) 24 AND 0xFF00FF00) OR (rol (l ! i) 8 AND 0x00FF00FF)]"

definition blk :: "32 word list \<Rightarrow> nat \<Rightarrow> 32 word list" where
  "blk l i = (let at = (\<lambda>k. (i + k) mod 16) in
     l[at 0 := rol (l ! at 13 XOR l ! at 8 XOR l ! at 2 XOR l ! at 0) 1])"

text \<open>One macro call with its function and constant; the next call sees the variables rotated.\<close>

fun R_call :: "(32 word \<Rightarrow> 32 word \<Rightarrow> 32 word \<Rightarrow> 32 word) \<Rightarrow> 32 word \<Rightarrow> (32 word list \<Rightarrow> nat \<Rightarrow> 32 word list) \<Rightarrow> nat \<Rightarrow>
    regs \<times> 32 word list \<Rightarrow> regs \<times> 32 word list" where
  "R_call f k expand i ((v, w, x, y, z), l) =
    (let l = expand l i; z = z + (f w x y + l ! (i mod 16) + k + rol v 5); w = rol w 30
     in ((z, v, w, x, y), l))"

definition R_mix :: "32 word \<Rightarrow> 32 word \<Rightarrow> 32 word \<Rightarrow> 32 word" where
  "R_mix w x y = (w AND (x XOR y)) XOR y"

definition R_xor :: "32 word \<Rightarrow> 32 word \<Rightarrow> 32 word \<Rightarrow> 32 word" where
  "R_xor w x y = w XOR x XOR y"

definition R_two :: "32 word \<Rightarrow> 32 word \<Rightarrow> 32 word \<Rightarrow> 32 word" where
  "R_two w x y = ((w OR x) AND y) OR (w AND x)"

definition R0 :: "nat \<Rightarrow> regs \<times> 32 word list \<Rightarrow> regs \<times> 32 word list" where
  "R0 = R_call R_mix 0x5A827999 blk0"

definition R1 :: "nat \<Rightarrow> regs \<times> 32 word list \<Rightarrow> regs \<times> 32 word list" where
  "R1 = R_call R_mix 0x5A827999 blk"

definition R2 :: "nat \<Rightarrow> regs \<times> 32 word list \<Rightarrow> regs \<times> 32 word list" where
  "R2 = R_call R_xor 0x6ED9EBA1 blk"

definition R3 :: "nat \<Rightarrow> regs \<times> 32 word list \<Rightarrow> regs \<times> 32 word list" where
  "R3 = R_call R_two 0x8F1BBCDC blk"

definition R4 :: "nat \<Rightarrow> regs \<times> 32 word list \<Rightarrow> regs \<times> 32 word list" where
  "R4 = R_call R_xor 0xCA62C1D6 blk"


definition load_words :: "bytes \<Rightarrow> 32 word list" where
  "load_words b = map (\<lambda>i. of_nat (le_nat (take 4 (drop (4 * i) b)))) [0..<16]"

definition SHA1Transform :: "32 word list \<Rightarrow> bytes \<Rightarrow> 32 word list" where
  "SHA1Transform st buf =
    (let s = ((st ! 0, st ! 1, st ! 2, st ! 3, st ! 4), load_words buf);
         s = fold R0 [0..<16] s;
         s = fold R1 [16..<20] s;
         s = fold R2 [20..<40] s;
         s = fold R3 [40..<60] s;
         ((a, b, c, d, e), _) = fold R4 [60..<80] s
     in [st ! 0 + a, st ! 1 + b, st ! 2 + c, st ! 3 + d, st ! 4 + e])"

section \<open>Contexts\<close>

definition SHA1Init :: "SHA1_CTX \<Rightarrow> SHA1_CTX" where
  "SHA1Init context = context\<lparr>state := [0x67452301, 0xEFCDAB89, 0x98BADCFE, 0x10325476, 0xC3D2E1F0], count := [0, 0]\<rparr>"

text \<open>\<open>memcpy(&buffer[off], src, |src|)\<close> into the 64 bytes of the context.\<close>

definition fill_buffer :: "bytes \<Rightarrow> 32 word \<Rightarrow> bytes \<Rightarrow> bytes option" where
  "fill_buffer buf off src = (if unat off + length src \<le> length buf then Some (blit buf (unat off) src) else None)"

text \<open>\<open>len\<close> bytes of the data from \<open>i\<close> on.\<close>

definition data_at :: "bytes \<Rightarrow> 32 word \<Rightarrow> 32 word \<Rightarrow> bytes option" where
  "data_at data i len = (if unat i + unat len \<le> length data then Some (take (unat len) (drop (unat i) data)) else None)"

text \<open>\<open>for ( ; i + 63 < len; i += 64)\<close>; \<open>None\<close> also says that it does not end.\<close>

partial_function (option) transform_loop :: "bytes \<Rightarrow> 32 word \<Rightarrow> 32 word \<Rightarrow> 32 word list \<Rightarrow> (32 word \<times> 32 word list) option" where
  "transform_loop data len i st =
    (if i + 63 < len then do { b \<leftarrow> data_at data i 64; transform_loop data len (i + 64) (SHA1Transform st b) }
     else Some (i, st))"

definition SHA1Update :: "bytes \<Rightarrow> 32 word \<Rightarrow> SHA1_CTX \<Rightarrow> SHA1_CTX option" where
  "SHA1Update data len context =
    (let j = count context ! 0;
         c0 = j + push_bit 3 len;
         c1 = (if c0 < j then count context ! 1 + 1 else count context ! 1);
         c1 = c1 + drop_bit 29 len;
         context = context\<lparr>count := [c0, c1]\<rparr>;
         j = drop_bit 3 j AND 63
     in do {
       (context, j, i) \<leftarrow>
         (if j + len > 63 then do {
            let i = 64 - j;
            d \<leftarrow> data_at data 0 i;
            buf \<leftarrow> fill_buffer (buffer context) j d;
            let st = SHA1Transform (state context) buf;
            (i, st) \<leftarrow> transform_loop data len i st;
            Some (context\<lparr>buffer := buf, state := st\<rparr>, 0, i) }
          else Some (context, j, 0));
       d \<leftarrow> data_at data i (len - i);
       buf \<leftarrow> fill_buffer (buffer context) j d;
       Some (context\<lparr>buffer := buf\<rparr>) })"

definition finalcount :: "SHA1_CTX \<Rightarrow> bytes" where
  "finalcount context =
    map (\<lambda>i. ucast (drop_bit ((3 - i mod 4) * 8) (count context ! (if i \<ge> 4 then 0 else 1)) AND 255)) [0..<8]"

partial_function (option) pad_loop :: "SHA1_CTX \<Rightarrow> SHA1_CTX option" where
  "pad_loop context =
    (if count context ! 0 AND 504 \<noteq> 448 then do { context \<leftarrow> SHA1Update [0] 1 context; pad_loop context }
     else Some context)"

definition SHA1Final :: "SHA1_CTX \<Rightarrow> (bytes \<times> SHA1_CTX) option" where
  "SHA1Final context =
    (let fc = finalcount context in do {
       context \<leftarrow> SHA1Update [0x80] 1 context;
       context \<leftarrow> pad_loop context;
       context \<leftarrow> SHA1Update fc 8 context;
       let digest = map (\<lambda>i. ucast (drop_bit ((3 - i mod 4) * 8) (state context ! (i div 4)) AND 255)) [0..<20];
       Some (digest, context\<lparr>state := replicate 5 0, count := replicate 2 0, buffer := replicate 64 0\<rparr>) })"

section \<open>The transform computes the compression function\<close>

lemma R_functions:
  "t < 20 \<Longrightarrow> R_mix = sha1_f t" "20 \<le> t \<Longrightarrow> t < 40 \<Longrightarrow> R_xor = sha1_f t"
  "40 \<le> t \<Longrightarrow> t < 60 \<Longrightarrow> R_two = sha1_f t" "60 \<le> t \<Longrightarrow> R_xor = sha1_f t"
  by (auto simp: fun_eq_iff bit_eq_iff bit_simps sha1_f_def R_mix_def R_xor_def R_two_def)

lemma rol_ROTL: "rol w n = ROTL n w"
  by (simp add: rol_def ROTL_def)

lemma byte_swap:
  "(rol (of_nat (le_nat [a, b, c, d])) 24 AND 0xFF00FF00) OR (rol (of_nat (le_nat [a, b, c, d])) 8 AND 0x00FF00FF) =
    of_nat (be_nat [a, b, c, d])" (is "?l = ?r")
proof -
  have le: "le_nat [a, b, c, d] = be_nat [d, c, b, a]" by (simp add: be_nat_def)
  have m: "(0xFF00FF00 :: 32 word) = push_bit 24 (mask 8) OR push_bit 8 (mask 8)"
    "(0x00FF00FF :: 32 word) = push_bit 16 (mask 8) OR mask 8" by (simp_all add: mask_eq_exp_minus_1)
  have byte: "8 \<le> n \<Longrightarrow> \<not> bit (x :: byte) n" for x n using bit_imp_le_length [of x n] by auto
  have "bit ?l n = bit ?r n" if n: "n < 32" for n
  proof -
    consider "n < 8" | "8 \<le> n" "n < 16" | "16 \<le> n" "n < 24" | "24 \<le> n" "n < 32" using n not_less by blast
    then show ?thesis
      unfolding le m rol_def bit_or_iff bit_and_iff bit_push_bit_iff bit_drop_bit_eq bit_mask_iff bit_word_of_bytes
      apply cases
      subgoal by simp
      subgoal by auto
      subgoal by (auto simp: byte)
      subgoal by (auto simp: byte)
      done
  qed
  then show ?thesis by (intro bit_word_eqI) simp
qed

definition window :: "bytes \<Rightarrow> nat \<Rightarrow> 32 word list \<Rightarrow> bool" where
  "window M t l \<longleftrightarrow> length l = 16 \<and> (\<forall>i. i < t \<longrightarrow> t \<le> i + 16 \<longrightarrow> l ! (i mod 16) = schedule M i) \<and>
     (\<forall>i. t \<le> i \<longrightarrow> i < 16 \<longrightarrow> l ! i = load_words M ! i)"

lemma window_start: "window M 0 (load_words M)"
  by (simp add: window_def load_words_def)

lemma blk0_word: "length M = 64 \<Longrightarrow> t < 16 \<Longrightarrow> l ! t = load_words M ! t \<Longrightarrow> length l = 16 \<Longrightarrow> blk0 l t ! t = schedule M t"
  by (simp add: blk0_def load_words_def take4 byte_swap schedule_first block_word_nth del: of_nat_add le_nat.simps)

lemma window_other:
  assumes "window M t l" "l' = l[t mod 16 := v]" "v = schedule M t"
  shows "window M (Suc t) l'"
proof -
  have "l' ! (i mod 16) = schedule M i" if i: "i < Suc t" "Suc t \<le> i + 16" for i
  proof (cases "i = t")
    case False
    then have lt: "i < t" using i(1) by simp
    have "i mod 16 \<noteq> t mod 16"
    proof
      assume "i mod 16 = t mod 16"
      then have "16 dvd t - i" using lt by (metis less_imp_le mod_eq_dvd_iff_nat)
      then have "16 \<le> t - i" by (rule dvd_imp_le) (use lt in simp)
      then show False using i(2) by simp
    qed
    then show ?thesis using assms i False by (simp add: window_def)
  qed (use assms in \<open>simp add: window_def\<close>)
  moreover have "l' ! i = load_words M ! i" if "Suc t \<le> i" "i < 16" for i
    using that assms by (simp add: window_def)
  ultimately show ?thesis using assms(1,2) by (simp add: window_def)
qed

lemma window_blk0:
  assumes "window M t l" "t < 16" "length M = 64"
  shows "window M (Suc t) (blk0 l t) \<and> blk0 l t ! (t mod 16) = schedule M t"
proof -
  have v: "blk0 l t ! t = schedule M t" using assms by (intro blk0_word) (auto simp: window_def)
  moreover have "blk0 l t = l[t mod 16 := blk0 l t ! t]" using assms by (simp add: blk0_def window_def)
  ultimately show ?thesis using window_other [OF assms(1)] assms(2) by auto
qed

lemma window_blk:
  assumes "window M t l" "16 \<le> t"
  shows "window M (Suc t) (blk l t) \<and> blk l t ! (t mod 16) = schedule M t"
proof -
  have at: "l ! ((t + k) mod 16) = schedule M (t + k - 16)" if "k < 16" for k
  proof -
    have "(t + k) mod 16 = (t + k - 16) mod 16" using assms(2) by (simp add: le_mod_geq)
    then show ?thesis using assms that by (simp add: window_def)
  qed
  have "rol (l ! ((t + 13) mod 16) XOR l ! ((t + 8) mod 16) XOR l ! ((t + 2) mod 16) XOR l ! ((t + 0) mod 16)) 1 = schedule M t"
  proof -
    have "t + 13 - 16 = t - 3" "t + 8 - 16 = t - 8" "t + 2 - 16 = t - 14" "t + 0 - 16 = t - 16" using assms(2) by simp_all
    then show ?thesis using at [of 13] at [of 8] at [of 2] at [of 0] by (simp only: schedule_next [OF assms(2)] rol_ROTL)
  qed
  then have b: "blk l t = l[t mod 16 := schedule M t]" by (simp add: blk_def)
  then show ?thesis using window_other [OF assms(1) b refl] assms(1) by (simp add: window_def)
qed

lemma R_loop:
  assumes "a \<le> b" "window M a l"
    and "\<And>t l. a \<le> t \<Longrightarrow> t < b \<Longrightarrow> window M t l \<Longrightarrow> window M (Suc t) (ex l t) \<and> ex l t ! (t mod 16) = schedule M t"
    and "\<And>t. a \<le> t \<Longrightarrow> t < b \<Longrightarrow> f = sha1_f t \<and> k = sha1_K t"
  shows "\<exists>l'. fold (R_call f k ex) [a..<b] (sha1_rounds M a r, l) = (sha1_rounds M b r, l') \<and> window M b l'"
  using assms(1,3,4)
proof (induction b rule: dec_induct)
  case base
  show ?case using assms(2) by simp
next
  case (step n)
  then obtain l' where l': "fold (R_call f k ex) [a..<n] (sha1_rounds M a r, l) = (sha1_rounds M n r, l')" "window M n l'"
    by fastforce
  have w: "window M (Suc n) (ex l' n)" "ex l' n ! (n mod 16) = schedule M n" using step.prems(1) [of n l'] l'(2) step.hyps by auto
  have fk: "f = sha1_f n" "k = sha1_K n" using step.prems(2) [of n] step.hyps by auto
  have "R_call f k ex n (sha1_rounds M n r, l') = (sha1_rounds M (Suc n) r, ex l' n)"
    by (cases "sha1_rounds M n r") (simp add: w(2) fk rol_ROTL Let_def algebra_simps)
  then show ?case using step.hyps l'(1) w(1) by (simp del: upt_rec_numeral)
qed

lemma SHA1Transform_eq:
  assumes "length M = 64"
  shows "SHA1Transform (regs_list r) M = regs_list (sha1_compress r M)"
proof -
  obtain a b c d e where r: "r = (a, b, c, d, e)" by (cases r)
  note wb = window_blk0 [OF _ _ assms] window_blk
  obtain l0 where l0: "fold R0 [0..<16] (sha1_rounds M 0 r, load_words M) = (sha1_rounds M 16 r, l0)" "window M 16 l0"
    using R_loop [of 0 16 M "load_words M" blk0 R_mix "0x5A827999" r] wb(1) window_start
    unfolding R0_def by (fastforce simp: R_functions(1) [symmetric] sha1_K_def)
  obtain l1 where l1: "fold R1 [16..<20] (sha1_rounds M 16 r, l0) = (sha1_rounds M 20 r, l1)" "window M 20 l1"
    using R_loop [of 16 20 M l0 blk R_mix "0x5A827999" r] wb(2) l0(2)
    unfolding R1_def by (fastforce simp: R_functions(1) [symmetric] sha1_K_def)
  obtain l2 where l2: "fold R2 [20..<40] (sha1_rounds M 20 r, l1) = (sha1_rounds M 40 r, l2)" "window M 40 l2"
    using R_loop [of 20 40 M l1 blk R_xor "0x6ED9EBA1" r] wb(2) l1(2)
    unfolding R2_def by (fastforce simp: R_functions(2) [symmetric] sha1_K_def)
  obtain l3 where l3: "fold R3 [40..<60] (sha1_rounds M 40 r, l2) = (sha1_rounds M 60 r, l3)" "window M 60 l3"
    using R_loop [of 40 60 M l2 blk R_two "0x8F1BBCDC" r] wb(2) l2(2)
    unfolding R3_def by (fastforce simp: R_functions(3) [symmetric] sha1_K_def)
  obtain l4 where l4: "fold R4 [60..<80] (sha1_rounds M 60 r, l3) = (sha1_rounds M 80 r, l4)"
    using R_loop [of 60 80 M l3 blk R_xor "0xCA62C1D6" r] wb(2) l3(2)
    unfolding R4_def by (fastforce simp: R_functions(4) [symmetric] sha1_K_def)
  have s: "(regs_list r ! 0, regs_list r ! 1, regs_list r ! 2, regs_list r ! 3, regs_list r ! 4) = sha1_rounds M 0 r"
    by (simp add: r)
  show ?thesis unfolding SHA1Transform_def s Let_def l0(1) l1(1) l2(1) l3(1) l4
    by (cases "sha1_rounds M 80 r") (simp add: sha1_compress_def r)
qed

section \<open>Updates\<close>

text \<open>\<open>ctx_reading w t c\<close>: the whole blocks \<open>w\<close> are hashed, the rest \<open>t\<close> lies in the buffer.\<close>

definition ctx_reading :: "bytes \<Rightarrow> bytes \<Rightarrow> SHA1_CTX \<Rightarrow> bool" where
  "ctx_reading w t c \<longleftrightarrow> length w mod 64 = 0 \<and> length t < 64 \<and> state c = regs_list (hash_blocks sha1_init w) \<and>
     length (buffer c) = 64 \<and> take (length t) (buffer c) = t \<and>
     count c = [of_nat (8 * length (w @ t)), of_nat (8 * length (w @ t) div 2 ^ 32)]"

lemma unat_u32: "n < 2 ^ 32 \<Longrightarrow> unat (of_nat n :: 32 word) = n"
  by (simp add: unat_of_nat)

lemma count_add:
  fixes n l :: nat
  assumes "l < 2 ^ 32"
  defines "j \<equiv> of_nat (8 * n) :: 32 word"
  shows "j + push_bit 3 (of_nat l) = of_nat (8 * (n + l))"
    "(if j + push_bit 3 (of_nat l) < j then of_nat (8 * n div 2 ^ 32) + 1 else of_nat (8 * n div 2 ^ 32)) + drop_bit 29 (of_nat l) =
      (of_nat (8 * (n + l) div 2 ^ 32) :: 32 word)"
proof -
  show sum: "j + push_bit 3 (of_nat l) = of_nat (8 * (n + l))" by (simp add: j_def push_bit_eq_mult)
  let ?N = "2 ^ 32 :: nat"
  have j: "unat j = 8 * n mod ?N" unfolding j_def unat_of_nat by simp
  have j': "unat (j + push_bit 3 (of_nat l)) = 8 * (n + l) mod ?N" unfolding sum unat_of_nat by simp
  have d: "drop_bit 29 (of_nat l) = (of_nat (l div 2 ^ 29) :: 32 word)"
  proof -
    have "l div 2 ^ 29 < 2 ^ 32" using assms(1) by (rule le_less_trans [OF div_le_dividend])
    then have "unat (drop_bit 29 (of_nat l) :: 32 word) = unat (of_nat (l div 2 ^ 29) :: 32 word)"
      unfolding unat_drop_bit_eq unat_u32 [OF assms(1)] by (simp only: unat_u32 drop_bit_eq_div)
    then show ?thesis by (simp only: word_unat_eq_iff)
  qed
  have l: "8 * l div ?N = l div 2 ^ 29" by simp
  have carry: "(a mod ?N + b mod ?N) div ?N = (if (a + b) mod ?N < a mod ?N then 1 else 0)" for a b
  proof (cases "a mod ?N + b mod ?N < ?N")
    case True
    then have "(a + b) mod ?N = a mod ?N + b mod ?N" by (metis mod_add_eq mod_less)
    then show ?thesis using True by simp
  next
    case False
    have "b mod ?N < ?N" "a mod ?N < ?N" by simp_all
    moreover have "(a + b) mod ?N = (a mod ?N + b mod ?N) mod ?N" by (simp add: mod_add_eq)
    moreover have "(a mod ?N + b mod ?N) mod ?N = a mod ?N + b mod ?N - ?N"
      using False calculation(1,2) by (subst le_mod_geq) auto
    moreover have "(a mod ?N + b mod ?N) div ?N = 1" using False calculation(1,2) by (subst div_if) auto
    moreover have "x + y - N < x" if "y < N" "N \<le> x + y" for x y N :: nat using that by linarith
    from this [of "b mod ?N" ?N "a mod ?N"] have "a mod ?N + b mod ?N - ?N < a mod ?N" using False by simp
    ultimately show ?thesis using False by auto
  qed
  have "8 * (n + l) div ?N = 8 * n div ?N + l div 2 ^ 29 + (if 8 * (n + l) mod ?N < 8 * n mod ?N then 1 else 0)"
    using div_add1_eq [of "8 * n" "8 * l" ?N] carry [of "8 * n" "8 * l"] l by (simp add: distrib_left)
  moreover have "j + push_bit 3 (of_nat l) < j \<longleftrightarrow> 8 * (n + l) mod ?N < 8 * n mod ?N"
    unfolding word_less_nat_alt j j' ..
  ultimately show "(if j + push_bit 3 (of_nat l) < j then of_nat (8 * n div 2 ^ 32) + 1 else of_nat (8 * n div 2 ^ 32)) + drop_bit 29 (of_nat l) =
      (of_nat (8 * (n + l) div 2 ^ 32) :: 32 word)"
    by (simp add: d algebra_simps)
qed

lemma data_at_eq:
  "i + n \<le> length d \<Longrightarrow> length d < 2 ^ 32 \<Longrightarrow> data_at d (of_nat i) (of_nat n) = Some (take n (drop i d))"
  by (simp add: data_at_def unat_of_nat)

lemma fill_buffer_eq:
  "i + length src \<le> length buf \<Longrightarrow> i < 2 ^ 32 \<Longrightarrow> fill_buffer buf (of_nat i) src = Some (blit buf i src)"
  by (simp add: fill_buffer_def unat_of_nat)

lemma transform_loop_eq:
  assumes "length d + 63 < 2 ^ 32"
  shows "i \<le> length d \<Longrightarrow> length w mod 64 = 0 \<Longrightarrow> \<exists>i'.
    transform_loop d (of_nat (length d)) (of_nat i) (regs_list (hash_blocks sha1_init w)) =
      Some (of_nat i', regs_list (hash_blocks sha1_init (w @ take (i' - i) (drop i d)))) \<and>
    i \<le> i' \<and> i' \<le> length d \<and> (i' - i) mod 64 = 0 \<and> length d - i' < 64"
proof (induction "length d - i" arbitrary: i w rule: less_induct)
  case less
  have "(of_nat i + 63 < (of_nat (length d) :: 32 word)) = (i + 63 < length d)"
  proof -
    have "unat (of_nat (i + 63) :: 32 word) = i + 63" using less.prems(1) assms by (intro unat_u32) linarith
    moreover have "unat (of_nat (length d) :: 32 word) = length d" using assms by (intro unat_u32) linarith
    ultimately show ?thesis by (simp add: word_less_nat_alt)
  qed
  note test = this
  show ?case
  proof (cases "i + 63 < length d")
    case False
    then show ?thesis using less.prems test by (intro exI [of _ i]) (subst transform_loop.simps, auto)
  next
    case True
    let ?b = "take 64 (drop i d)"
    have b: "length ?b = 64" using True by simp
    have w: "hash_blocks sha1_init (w @ ?b) = sha1_compress (hash_blocks sha1_init w) ?b"
      using hash_blocks_block [OF b, of _ "[]"] less.prems(2) by (simp add: hash_blocks_append hash_blocks_short)
    have d: "data_at d (of_nat i) 64 = Some ?b" using data_at_eq [of i 64 d] True assms by simp
    have "length d - (i + 64) < length d - i" "i + 64 \<le> length d" "length (w @ ?b) mod 64 = 0"
      using True less.prems(2) b mod64_append [of w ?b] by simp_all
    from less.hyps [OF this] obtain i' where i': "transform_loop d (of_nat (length d)) (of_nat (i + 64)) (regs_list (hash_blocks sha1_init (w @ ?b))) =
        Some (of_nat i', regs_list (hash_blocks sha1_init ((w @ ?b) @ take (i' - (i + 64)) (drop (i + 64) d))))"
      "i + 64 \<le> i'" "i' \<le> length d" "(i' - (i + 64)) mod 64 = 0" "length d - i' < 64" by (elim exE conjE) (rule that)
    have "take (i' - i) (drop i d) = ?b @ take (i' - (i + 64)) (drop (i + 64) d)"
      using i'(2) take_add [of 64 "i' - (i + 64)" "drop i d"] by (simp add: add.commute)
    moreover have "(i' - i) mod 64 = 0" using i'(2,4) by (simp add: le_mod_geq)
    moreover have "transform_loop d (of_nat (length d)) (of_nat i) (regs_list (hash_blocks sha1_init w)) =
        transform_loop d (of_nat (length d)) (of_nat (i + 64)) (regs_list (hash_blocks sha1_init (w @ ?b)))"
    proof -
      have "of_nat (i + 64) = of_nat i + (64 :: 32 word)" by simp
      then show ?thesis by (subst (1) transform_loop.simps) (simp only: test True if_True d bind.bind_lunit w SHA1Transform_eq [OF b])
    qed
    ultimately show ?thesis using i' by (intro exI [of _ i']) simp
  qed
qed

lemma low_bits: "drop_bit 3 (of_nat (8 * n)) AND 63 = (of_nat (n mod 64) :: 32 word)"
proof -
  have m: "63 = (mask 6 :: 32 word)" by (simp add: mask_eq_exp_minus_1)
  have "unat (drop_bit 3 (of_nat (8 * n)) AND 63 :: 32 word) = (8 * n mod 2 ^ 32 div 8) mod 64"
    unfolding m take_bit_eq_mask [symmetric] unsigned_take_bit_eq unat_drop_bit_eq unat_of_nat by (simp add: drop_bit_eq_div take_bit_eq_mod)
  also have "\<dots> = n mod 64"
  proof -
    have "8 * n mod 2 ^ 32 = 8 * (n mod 2 ^ 29)" using mult_mod_right [of 8 n "2 ^ 29"] by simp
    then have "(8 * n mod 2 ^ 32 div 8) mod 64 = n mod 2 ^ 29 mod 64" by simp
    also have "\<dots> = n mod 64" by (rule mod_mod_cancel) simp
    finally show ?thesis .
  qed
  also have "\<dots> = unat (of_nat (n mod 64) :: 32 word)" by (simp add: unat_of_nat)
  finally show ?thesis by (simp only: word_unat_eq_iff)
qed

lemma SHA1Update_eq:
  assumes c: "ctx_reading w t c" and "length d + 63 < 2 ^ 32"
  shows "\<exists>c' w' t'. SHA1Update d (of_nat (length d)) c = Some c' \<and> ctx_reading w' t' c' \<and> w' @ t' = (w @ t) @ d"
proof -
  note r = c [unfolded ctx_reading_def]
  let ?l = "length d" and ?n = "length (w @ t)" and ?h = "hash_blocks sha1_init"
  have l: "?l < 2 ^ 32" using assms(2) by linarith
  have mod: "?n mod 64 = length t" using r mod64_append [of w t] by simp
    define q0 q1 L where q: "q0 = (of_nat (8 * ?n) :: 32 word)" "q1 = (of_nat (8 * ?n div 2 ^ 32) :: 32 word)" "L = (of_nat ?l :: 32 word)"
  define cs0 cs1 where cs: "cs0 = (of_nat (8 * (?n + ?l)) :: 32 word)" "cs1 = (of_nat (8 * (?n + ?l) div 2 ^ 32) :: 32 word)"
  have add: "q0 + push_bit 3 L = cs0" "(if cs0 < q0 then q1 + 1 else q1) + drop_bit 29 L = cs1"
    using count_add [OF l, of ?n] by (simp_all only: q cs)
  define jw where jw: "jw = (of_nat (length t) :: 32 word)"
  have j: "drop_bit 3 q0 AND 63 = jw" using low_bits [of ?n] by (simp only: mod q jw)
  have cnt: "count c ! 0 = q0" "count c ! 1 = q1" unfolding q using r by simp_all
  have test: "(63 < jw + L) = (63 < length t + ?l)"
  proof -
    have "unat (of_nat (length t + ?l) :: 32 word) = length t + ?l" using r assms(2) by (intro unat_u32) linarith
    then show ?thesis by (simp add: word_less_nat_alt jw q)
  qed
  show ?thesis
  proof (cases "63 < length t + ?l")
    case False
    let ?c = "c\<lparr>count := [cs0, cs1], buffer := blit (buffer c) (length t) d\<rparr>"
    have "data_at d 0 L = Some d" using data_at_eq [of 0 ?l d] l by (simp add: q)
    moreover have "fill_buffer (buffer c) jw d = Some (blit (buffer c) (length t) d)"
      unfolding jw using False r by (intro fill_buffer_eq) auto
    ultimately have "SHA1Update d L c = Some ?c"
      unfolding SHA1Update_def Let_def cnt add j using False test by simp
    moreover have "take (length t + ?l) (blit (buffer c) (length t) d) = t @ d" using False r by (simp add: blit_def)
    then have "ctx_reading w (t @ d) ?c" using False r by (simp add: ctx_reading_def cs add.assoc)
    ultimately show ?thesis unfolding q(3)
      by (intro exI [where x = ?c] exI [where x = w] exI [where x = "t @ d"] conjI) simp_all
  next
    case True
    let ?i = "64 - length t"
    define iw where iw: "iw = (of_nat ?i :: 32 word)"
    have i: "64 - jw = iw" unfolding jw iw using r by (simp add: of_nat_diff)
    have il: "?i \<le> ?l" "?i < 2 ^ 32" using True r by simp_all
    let ?B = "blit (buffer c) (length t) (take ?i d)"
    have B: "?B = t @ take ?i d" "length ?B = 64" using r il(1) by (simp_all add: blit_def)
    have d0: "data_at d 0 iw = Some (take ?i d)" unfolding iw using data_at_eq [of 0 ?i d] l il(1) by simp
    have f0: "fill_buffer (buffer c) jw (take ?i d) = Some ?B"
      unfolding jw using r il(1) by (intro fill_buffer_eq) auto
    let ?w = "w @ t @ take ?i d"
    have w: "SHA1Transform (regs_list (?h w)) ?B = regs_list (?h ?w)" "length ?w mod 64 = 0"
      using SHA1Transform_eq [OF B(2), of "?h w"] hash_blocks_block [OF B(2), of "?h w" "[]"] r B mod64_append [of w "t @ take ?i d"]
      by (simp_all add: hash_blocks_append hash_blocks_short)
    from transform_loop_eq [OF assms(2) il(1) w(2)] obtain i' where
      i': "transform_loop d (of_nat ?l) (of_nat ?i) (regs_list (?h ?w)) = Some (of_nat i', regs_list (?h (?w @ take (i' - ?i) (drop ?i d))))"
      "?i \<le> i'" "i' \<le> ?l" "(i' - ?i) mod 64 = 0" "?l - i' < 64" by (elim exE conjE) (rule that)
    define iw' where iw': "iw' = (of_nat i' :: 32 word)"
    have "take ?i d @ take (i' - ?i) (drop ?i d) = take i' d" using i'(2) take_add [of ?i "i' - ?i" d] by simp
    then have w': "?w @ take (i' - ?i) (drop ?i d) = w @ t @ take i' d" by simp
    note lp = i'(1) [unfolded w', folded iw iw' q(3)]
    have d1: "data_at d iw' (L - iw') = Some (drop i' d)"
    proof -
      have "(of_nat ?l - of_nat i' :: 32 word) = of_nat (?l - i')" using i'(3) by (simp add: of_nat_diff)
      then show ?thesis unfolding iw' q using data_at_eq [of i' "?l - i'" d] l i'(3) by simp
    qed
    have f1: "fill_buffer ?B 0 (drop i' d) = Some (blit ?B 0 (drop i' d))"
      using fill_buffer_eq [of 0 "drop i' d" ?B] i'(5) B(2) by simp
    let ?c = "c\<lparr>state := regs_list (?h (w @ t @ take i' d)), count := [cs0, cs1], buffer := blit ?B 0 (drop i' d)\<rparr>"
    have st: "state c = regs_list (?h w)" using r by simp
    have "SHA1Update d L c = Some ?c"
      unfolding SHA1Update_def Let_def cnt add j
      using True test by (simp add: i d0 f0 st w(1) lp d1 f1)
    moreover have "length (w @ t @ take i' d) mod 64 = 0"
    proof -
      have "length (w @ t @ take i' d) = length ?w + (i' - ?i)" using i'(2,3) r by simp
      then show ?thesis using w(2) i'(4) by (metis add.right_neutral mod_0 mod_add_eq)
    qed
    then have "ctx_reading (w @ t @ take i' d) (drop i' d) ?c"
    proof -
      have "length (blit X 0 y) = 64 \<and> take (length y) (blit X 0 y) = y" if "length X = 64" "length y < 64" for X y :: bytes
        using that by (simp add: blit_def)
      from this [OF B(2), of "drop i' d"] show ?thesis
        using i'(3,5) \<open>length (w @ t @ take i' d) mod 64 = 0\<close> by (simp add: ctx_reading_def cs add.assoc)
    qed
    ultimately show ?thesis unfolding q(3)
      by (intro exI [where x = ?c] exI [where x = "w @ t @ take i' d"] exI [where x = "drop i' d"] conjI) simp_all
  qed
qed

section \<open>The digest\<close>

definition update :: "bytes \<Rightarrow> SHA1_CTX \<Rightarrow> SHA1_CTX option" where
  "update d c = SHA1Update d (of_nat (length d)) c"

lemma ctx_reading_Init: "length (buffer c) = 64 \<Longrightarrow> ctx_reading [] [] (SHA1Init c)"
  by (simp add: ctx_reading_def SHA1Init_def hash_blocks_short sha1_init_def)

definition holds :: "bytes \<Rightarrow> SHA1_CTX \<Rightarrow> bool" where
  "holds m c \<longleftrightarrow> (\<exists>w t. ctx_reading w t c \<and> w @ t = m)"

interpretation redis_sha1: absorbing update holds "\<lambda>m p. length p + 63 < 2 ^ 32"
proof
  fix m p :: bytes and c assume "holds m c" and l: "length p + 63 < 2 ^ 32"
  then obtain w t where w: "ctx_reading w t c" "w @ t = m" by (auto simp: holds_def)
  then show "\<exists>c'. update p c = Some c' \<and> holds (m @ p) c'"
    using SHA1Update_eq [OF w(1) l] unfolding w(2) holds_def update_def by auto
qed

lemma last_count:
  assumes "ctx_reading w t c"
  shows "count c ! 0 AND 504 = 448 \<longleftrightarrow> length t = 56"
proof -
  let ?n = "length (w @ t)"
  have n: "?n mod 64 = length t" using assms mod64_append [of w t] by (simp add: ctx_reading_def)
  have m: "(504 :: 32 word) = push_bit 3 63" by simp
  have c: "count c ! 0 = push_bit 3 (of_nat ?n)" using assms by (simp add: ctx_reading_def push_bit_eq_mult mult.commute)
  have "count c ! 0 AND 504 = push_bit 3 (of_nat ?n AND 63)" unfolding c m by (simp only: push_bit_and)
  moreover have "of_nat ?n AND 63 = (of_nat (length t) :: 32 word)"
  proof -
    have "(63 :: 32 word) = mask 6" by (simp add: mask_eq_exp_minus_1)
    then have "unat (of_nat ?n AND 63 :: 32 word) = ?n mod 2 ^ 32 mod 64"
      by (simp only: take_bit_eq_mask [symmetric] unsigned_take_bit_eq unat_of_nat) (simp add: take_bit_eq_mod)
    also have "\<dots> = length t" unfolding n [symmetric] by (rule mod_mod_cancel) simp
    also have "\<dots> = unat (of_nat (length t) :: 32 word)" using assms by (subst unat_u32) (auto simp: ctx_reading_def)
    finally show ?thesis by (simp only: word_unat_eq_iff)
  qed
  moreover have "push_bit 3 (of_nat (length t) :: 32 word) = 448 \<longleftrightarrow> length t = 56"
  proof -
    have "unat (push_bit 3 (of_nat (length t)) :: 32 word) = 8 * length t"
    proof -
      have "8 * length t < 2 ^ 32" using assms by (simp add: ctx_reading_def)
      then have "unat (of_nat (8 * length t) :: 32 word) = 8 * length t" by (rule unat_u32)
      then show ?thesis by (simp add: push_bit_eq_mult mult.commute)
    qed
    then show ?thesis unfolding word_unat_eq_iff by simp
  qed
  ultimately show ?thesis by (simp only:)
qed

lemma pad_loop_eq:
  "ctx_reading w t c \<Longrightarrow> \<exists>c' w' t'. pad_loop c = Some c' \<and> ctx_reading w' t' c' \<and>
     w' @ t' = (w @ t) @ replicate ((120 - length t) mod 64) 0 \<and> length t' = 56"
proof (induction "(120 - length t) mod 64" arbitrary: w t c)
  case 0
  have t: "length t < 64" using 0(2) by (simp add: ctx_reading_def)
  have "x = 56" if "x < 64" "(120 - x) mod 64 = 0" for x :: nat
    using that by (cases "x < 57") (auto simp: le_mod_geq)
  then have "length t = 56" using 0(1) t by simp
  then show ?case using 0(2) last_count [OF 0(2)] by (subst pad_loop.simps) auto
next
  case (Suc k)
  have t: "length t < 64" using Suc.prems by (simp add: ctx_reading_def)
  have ne: "length t \<noteq> 56" using Suc.hyps(2) by auto
  obtain c' w' t' where c': "SHA1Update [0] 1 c = Some c'" "ctx_reading w' t' c'" "w' @ t' = (w @ t) @ [0]"
    using SHA1Update_eq [OF Suc.prems, of "[0]"] by auto
  have "length t' = (length t + 1) mod 64"
  proof -
    have "length (w' @ t') mod 64 = length t'" using c'(2) mod64_append [of w' t'] by (simp add: ctx_reading_def)
    moreover have "length ((w @ t) @ [0]) mod 64 = (length t + 1) mod 64"
      using Suc.prems mod64_append [of w "t @ [0]"] by (simp add: ctx_reading_def)
    ultimately show ?thesis unfolding c'(3) by simp
  qed
  moreover have "k = (120 - (x + 1) mod 64) mod 64" if "Suc k = (120 - x) mod 64" "x < 64" for x
    using that by (cases "x < 57"; cases "x = 63") (auto simp: le_mod_geq)
  ultimately have k: "k = (120 - length t') mod 64" using Suc.hyps(2) t by simp
  from Suc.hyps(1) [OF k c'(2)] obtain d w'' t'' where
    d: "pad_loop c' = Some d" "ctx_reading w'' t'' d" "w'' @ t'' = (w' @ t') @ replicate k 0" "length t'' = 56"
    unfolding k [symmetric] by (elim exE conjE) (rule that)
  have "pad_loop c = Some d" using c'(1) d(1) ne last_count [OF Suc.prems] by (subst pad_loop.simps) simp
  moreover have "w'' @ t'' = (w @ t) @ replicate (Suc k) 0" using d(3) c'(3) by simp
  ultimately show ?case using d(2,4) unfolding Suc.hyps(2) [symmetric] by (intro exI conjI)
qed

lemma byte_of_word: "ucast (w AND 255) = (ucast (w :: 32 word) :: byte)"
proof -
  have "(255 :: 32 word) = mask 8" by (simp add: mask_eq_exp_minus_1)
  then show ?thesis by (auto simp: bit_eq_iff bit_simps)
qed

lemma finalcount_eq:
  assumes "ctx_reading w t c"
  shows "finalcount c = be_bytes 8 (8 * length (w @ t))"
proof -
  let ?n = "8 * length (w @ t)"
  have c: "count c = [of_nat ?n, of_nat (?n div 2 ^ 32)]" using assms by (simp add: ctx_reading_def)
  have "finalcount c = be_bytes 4 (unat (count c ! 1)) @ be_bytes 4 (unat (count c ! 0))"
    by (simp add: finalcount_def be_bytes_word byte_of_word upt_rec)
  also have "\<dots> = be_bytes 8 (unat (count c ! 1) * 2 ^ 32 + unat (count c ! 0))" by (simp only: be_bytes_pair)
  also have "\<dots> = be_bytes 8 ?n"
  proof -
    have "unat (count c ! 1) * 2 ^ 32 + unat (count c ! 0) = ?n mod 2 ^ 64"
    proof -
      have m: "x mod 2 ^ 64 = (x div 2 ^ 32 mod 2 ^ 32) * 2 ^ 32 + x mod 2 ^ 32" for x :: nat
        using mod_mult2_eq [of x "2 ^ 32" "2 ^ 32"] by simp
      have "unat (count c ! 1) = ?n div 2 ^ 32 mod 2 ^ 32" "unat (count c ! 0) = ?n mod 2 ^ 32"
        unfolding c nth_Cons_0 One_nat_def nth_Cons_Suc unat_of_nat by simp_all
      then show ?thesis by (simp only: m)
    qed
    moreover have "be_bytes 8 (x mod 2 ^ 64) = be_bytes 8 x" for x
      using le_bytes_more [of 8 "x mod 2 ^ 64" "x div 2 ^ 64"] by (simp add: be_bytes_def add.commute mult.commute)
    ultimately show ?thesis by simp
  qed
  finally show ?thesis .
qed

lemma digest_bytes:
  assumes "length h = 5"
  shows "map (\<lambda>i. ucast (drop_bit ((3 - i mod 4) * 8) (h ! (i div 4)) AND 255)) [0..<20] =
    concat (map (\<lambda>x. be_bytes 4 (unat (x :: 32 word))) h)"
proof -
  have "h = [h ! 0, h ! 1, h ! 2, h ! 3, h ! 4]"
    using assms by (intro nth_equalityI) (auto simp: less_Suc_eq numeral_eq_Suc)
  then have "concat (map (\<lambda>x. be_bytes 4 (unat x)) h) = concat (map (\<lambda>x. be_bytes 4 (unat x)) [h ! 0, h ! 1, h ! 2, h ! 3, h ! 4])"
    by (rule arg_cong)
  then show ?thesis by (simp add: be_bytes_word byte_of_word upt_rec)
qed

lemma SHA1Final_eq:
  assumes "ctx_reading w t c"
  shows "\<exists>c'. SHA1Final c = Some (concat (map (\<lambda>x. be_bytes 4 (unat x)) (sha1_digest (w @ t))), c')"
proof -
  let ?m = "w @ t" and ?L = "be_bytes 8 (8 * length (w @ t))"
  obtain c1 w1 t1 where c1: "SHA1Update [0x80] 1 c = Some c1" "ctx_reading w1 t1 c1" "w1 @ t1 = ?m @ [0x80]"
    using SHA1Update_eq [OF assms, of "[0x80]"] by auto
  obtain c2 w2 t2 where c2: "pad_loop c1 = Some c2" "ctx_reading w2 t2 c2"
    "w2 @ t2 = (w1 @ t1) @ replicate ((120 - length t1) mod 64) 0" "length t2 = 56"
    using pad_loop_eq [OF c1(2)] by (elim exE conjE) (rule that)
  have L: "length ?L = 8" by simp
  obtain c3 w3 t3 where c3: "SHA1Update ?L 8 c2 = Some c3" "ctx_reading w3 t3 c3" "w3 @ t3 = (w2 @ t2) @ ?L"
    using SHA1Update_eq [OF c2(2), of ?L] unfolding L by auto
  have "length (w3 @ t3) mod 64 = 0" using c2(2,4) mod64_append [of w2 "t2 @ ?L"] unfolding c3(3) by (simp add: ctx_reading_def)
  moreover have "length (w3 @ t3) mod 64 = length t3" using c3(2) mod64_append [of w3 t3] by (simp add: ctx_reading_def)
  ultimately have t3: "t3 = []" by simp
  have "pad_zeros (length ?m) = (120 - length t1) mod 64"
  proof -
    have "length t1 = (length ?m + 1) mod 64"
      using c1(2,3) mod64_append [of w1 t1] by (simp add: ctx_reading_def del: append_assoc)
    moreover have "(119 - n mod 64) mod 64 = (120 - (n + 1) mod 64) mod 64" for n :: nat
      by (cases "n mod 64 = 63") (simp_all add: mod_Suc)
    ultimately show ?thesis by (simp add: pad_zeros_def)
  qed
  then have "w3 = sha1_pad ?m" using c3(3) c2(3) c1(3) t3 by (simp add: sha1_pad_def)
  then have st: "state c3 = sha1_digest ?m" using c3(2) by (simp add: ctx_reading_def sha1_digest_def sha1_regs_def)
  have "length (sha1_digest ?m) = 5" by (simp add: sha1_digest_def)
  from digest_bytes [OF this] show ?thesis
    unfolding SHA1Final_def Let_def finalcount_eq [OF assms] c1(1) bind.bind_lunit c2(1) c3(1) st by blast
qed

text \<open>
  C39: The digest that the data server computes is the one of the standard for the whole message, whatever
  the pieces in which the message arrives, as long as each is 63 bytes shorter than $2^{32}$ (see
  \<open>SHA1Update_overflow\<close>): no copy leaves the buffer or the data, and all loops end.
\<close>

theorem redis_sha1_correct:
  assumes "\<forall>p \<in> set ps. length p + 63 < 2 ^ 32" "length (buffer c0) = 64"
  shows "\<exists>c c'. feed_all update ps (SHA1Init c0) = Some c \<and>
    SHA1Final c = Some (concat (map (\<lambda>x. be_bytes 4 (unat x)) (sha1_digest (concat ps))), c')"
proof -
  obtain c w t where "feed_all update ps (SHA1Init c0) = Some c" "ctx_reading w t c" "w @ t = concat ps"
    
  proof -
    have "holds [] (SHA1Init c0)" using ctx_reading_Init [OF assms(2)] by (auto simp: holds_def)
    moreover have "\<forall>i < length ps. length (ps ! i) + 63 < 2 ^ 32" using assms(1) by simp
    ultimately have "\<exists>c. feed_all update ps (SHA1Init c0) = Some c \<and> holds ([] @ concat ps) c" by (rule redis_sha1.feed_all_stands)
    then show thesis using that by (auto simp: holds_def)
  qed
  then show ?thesis using SHA1Final_eq [of w t c] by auto
qed

theorem redis_sha1_correct_witness:
  "\<exists>c c'. feed_all update [[97], [98, 99]] (SHA1Init \<lparr>state = [], count = [], buffer = replicate 64 7\<rparr>) = Some c \<and>
    SHA1Final c = Some (concat (map (\<lambda>x. be_bytes 4 (unat x)) (sha1_digest [97, 98, 99])), c')"
  using redis_sha1_correct [of "[[97], [98, 99]]" "\<lparr>state = [], count = [], buffer = replicate 64 7\<rparr>"] by simp

text \<open>
  The sum of the buffered length and the new length is taken modulo $2^{32}$: a piece of $2^{32} - 1$ bytes
  after a single byte passes for a short one and is copied behind the buffer.
\<close>

lemma SHA1Update_overflow:
  assumes "length data = 2 ^ 32 - 1" "length (buffer c) = 64" "count c ! 0 = 8"
  shows "SHA1Update data (- 1) c = None"
proof -
  have "drop_bit 3 8 AND 63 = (1 :: 32 word)" by simp
  moreover have "unat (- 1 :: 32 word) = 2 ^ 32 - 1" by (simp add: unsigned_minus_1_eq_mask mask_eq_exp_minus_1)
  ultimately show ?thesis using assms
    by (simp add: SHA1Update_def Let_def data_at_def fill_buffer_def)
qed

end
