(* ===== verification/Sha1.thy ===== *)
theory Sha1 imports Sha1Spec "HOL-Library.Monad_Syntax" begin

text \<open>
  The class \<open>SHA1\<close> of \<open>Server/meta_header/sha1.h\<close>.  \<open>Message_Block\<close> is the list of its 64 bytes; an
  access to it out of range is the result \<open>None\<close>.  The theorem says that the class computes the digest
  of the standard, whatever the pieces in which the message arrives.
\<close>

unbundle bit_operations_syntax

record SHA1 =
  H :: "32 word list"
  Length_Low :: "32 word"
  Length_High :: "32 word"
  Message_Block :: bytes
  Message_Block_Index :: nat
  Computed :: bool
  Corrupted :: bool

definition Reset :: "SHA1 \<Rightarrow> SHA1" where
  "Reset s = s\<lparr>Length_Low := 0, Length_High := 0, Message_Block_Index := 0,
     H := [0x67452301, 0xEFCDAB89, 0x98BADCFE, 0x10325476, 0xC3D2E1F0], Computed := False, Corrupted := False\<rparr>"

definition CircularShift :: "nat \<Rightarrow> 32 word \<Rightarrow> 32 word" where
  "CircularShift bits w = (push_bit bits w AND 0xFFFFFFFF) OR drop_bit (32 - bits) (w AND 0xFFFFFFFF)"

section \<open>One block\<close>

definition W_first :: "bytes \<Rightarrow> nat \<Rightarrow> 32 word" where
  "W_first B t = (let w = push_bit 24 (ucast (B ! (t * 4)));
      w = w OR push_bit 16 (ucast (B ! (t * 4 + 1)));
      w = w OR push_bit 8 (ucast (B ! (t * 4 + 2)))
    in w OR ucast (B ! (t * 4 + 3)))"

definition W_words :: "bytes \<Rightarrow> 32 word list" where
  "W_words B = foldl (\<lambda>W t. W @ [CircularShift 1 (W ! (t - 3) XOR W ! (t - 8) XOR W ! (t - 14) XOR W ! (t - 16))])
     (map (W_first B) [0..<16]) [16..<80]"

definition ch_word :: "32 word \<Rightarrow> 32 word \<Rightarrow> 32 word \<Rightarrow> 32 word" where
  "ch_word B C D = (B AND C) OR (NOT B AND D)"

definition parity :: "32 word \<Rightarrow> 32 word \<Rightarrow> 32 word \<Rightarrow> 32 word" where
  "parity B C D = B XOR C XOR D"

definition majority :: "32 word \<Rightarrow> 32 word \<Rightarrow> 32 word \<Rightarrow> 32 word" where
  "majority B C D = (B AND C) OR (B AND D) OR (C AND D)"

definition K_words :: "32 word list" where
  "K_words = [0x5A827999, 0x6ED9EBA1, 0x8F1BBCDC, 0xCA62C1D6]"

text \<open>The body of the four loops, which differ in the function and the constant.\<close>

fun round_body :: "(32 word \<Rightarrow> 32 word \<Rightarrow> 32 word \<Rightarrow> 32 word) \<Rightarrow> 32 word \<Rightarrow> 32 word list \<Rightarrow> regs \<Rightarrow> nat \<Rightarrow> regs" where
  "round_body f k W (A, B, C, D, E) t =
    (let temp = CircularShift 5 A + f B C D + E + W ! t + k; temp = temp AND 0xFFFFFFFF;
         E = D; D = C; C = CircularShift 30 B; B = A; A = temp
     in (A, B, C, D, E))"

definition ProcessMessageBlock :: "SHA1 \<Rightarrow> SHA1" where
  "ProcessMessageBlock s =
    (let W = W_words (Message_Block s);
         r = (H s ! 0, H s ! 1, H s ! 2, H s ! 3, H s ! 4);
         r = foldl (round_body ch_word (K_words ! 0) W) r [0..<20];
         r = foldl (round_body parity (K_words ! 1) W) r [20..<40];
         r = foldl (round_body majority (K_words ! 2) W) r [40..<60];
         (A, B, C, D, E) = foldl (round_body parity (K_words ! 3) W) r [60..<80]
     in s\<lparr>H := [(H s ! 0 + A) AND 0xFFFFFFFF, (H s ! 1 + B) AND 0xFFFFFFFF, (H s ! 2 + C) AND 0xFFFFFFFF,
            (H s ! 3 + D) AND 0xFFFFFFFF, (H s ! 4 + E) AND 0xFFFFFFFF],
          Message_Block_Index := 0\<rparr>)"

section \<open>Input and padding\<close>

definition put_byte :: "byte \<Rightarrow> SHA1 \<Rightarrow> SHA1 option" where
  "put_byte b s = do { B \<leftarrow> wr (Message_Block s) (Message_Block_Index s) b;
     Some (s\<lparr>Message_Block := B, Message_Block_Index := Message_Block_Index s + 1\<rparr>) }"

definition count_byte :: "SHA1 \<Rightarrow> SHA1" where
  "count_byte s =
    (let s = s\<lparr>Length_Low := (Length_Low s + 8) AND 0xFFFFFFFF\<rparr> in
     if Length_Low s = 0 then
       (let s = s\<lparr>Length_High := (Length_High s + 1) AND 0xFFFFFFFF\<rparr> in
        if Length_High s = 0 then s\<lparr>Corrupted := True\<rparr> else s)
     else s)"

fun input_loop :: "bytes \<Rightarrow> SHA1 \<Rightarrow> SHA1 option" where
  "input_loop [] s = Some s"
| "input_loop (b # message_array) s =
    (if Corrupted s then Some s
     else do { s \<leftarrow> put_byte (b AND 0xFF) s;
               let s = count_byte s;
               let s = (if Message_Block_Index s = 64 then ProcessMessageBlock s else s);
               input_loop message_array s })"

definition Input :: "bytes \<Rightarrow> SHA1 \<Rightarrow> SHA1 option" where
  "Input message_array s =
    (if length message_array = 0 then Some s
     else if Computed s \<or> Corrupted s then Some (s\<lparr>Corrupted := True\<rparr>)
     else input_loop message_array s)"

text \<open>\<open>operator<<\<close> of a string: up to its NUL, one byte at a time.\<close>

fun shift_string :: "bytes \<Rightarrow> SHA1 \<Rightarrow> SHA1 option" where
  "shift_string [] s = None"
| "shift_string (c # p) s = (if c = 0 then Some s else do { s \<leftarrow> Input [c] s; shift_string p s })"

function zeros_to :: "nat \<Rightarrow> SHA1 \<Rightarrow> SHA1 option" where
  "zeros_to n s = (if Message_Block_Index s < n then do { s \<leftarrow> put_byte 0 s; zeros_to n s } else Some s)"
  by pat_completeness auto
termination
  by (relation "measure (\<lambda>(n, s). n - Message_Block_Index s)") (auto simp: put_byte_def split: bind_splits)

declare zeros_to.simps [simp del]

definition store_length :: "SHA1 \<Rightarrow> SHA1" where
  "store_length s =
    (let byte_of = (\<lambda>w i. ucast (drop_bit i w AND 0xFF)) in
     s\<lparr>Message_Block := blit (Message_Block s) 56
       [byte_of (Length_High s) 24, byte_of (Length_High s) 16, byte_of (Length_High s) 8, byte_of (Length_High s) 0,
        byte_of (Length_Low s) 24, byte_of (Length_Low s) 16, byte_of (Length_Low s) 8, byte_of (Length_Low s) 0]\<rparr>)"

definition PadMessage :: "SHA1 \<Rightarrow> SHA1 option" where
  "PadMessage s =
    do { s \<leftarrow> (if Message_Block_Index s > 55
              then do { s \<leftarrow> put_byte 0x80 s; s \<leftarrow> zeros_to 64 s; zeros_to 56 (ProcessMessageBlock s) }
              else do { s \<leftarrow> put_byte 0x80 s; zeros_to 56 s });
         Some (ProcessMessageBlock (store_length s)) }"

text \<open>\<open>Result\<close> returns \<open>false\<close>, here no digest, or fills the array.\<close>

definition Result :: "SHA1 \<Rightarrow> (32 word list option \<times> SHA1) option" where
  "Result s =
    (if Corrupted s then Some (None, s)
     else do { s \<leftarrow> (if \<not> Computed s then do { s \<leftarrow> PadMessage s; Some (s\<lparr>Computed := True\<rparr>) } else Some s);
               Some (Some (map (\<lambda>i. H s ! i) [0..<5]), s) })"

section \<open>A block is processed as the standard says\<close>

lemma and_full [simp]: "(w :: 32 word) AND 0xFFFFFFFF = w"
proof -
  have "(0xFFFFFFFF :: 32 word) = - 1" by simp
  then show ?thesis by (simp only: and.right_neutral)
qed

lemma CircularShift_ROTL: "CircularShift n w = ROTL n w"
  by (simp add: CircularShift_def ROTL_def)

lemma round_functions:
  "t < 20 \<Longrightarrow> ch_word = sha1_f t" "20 \<le> t \<Longrightarrow> t < 40 \<Longrightarrow> parity = sha1_f t"
  "40 \<le> t \<Longrightarrow> t < 60 \<Longrightarrow> majority = sha1_f t" "60 \<le> t \<Longrightarrow> parity = sha1_f t"
  by (auto simp: fun_eq_iff bit_eq_iff bit_simps sha1_f_def ch_word_def parity_def majority_def)

lemma round_constants:
  "t < 20 \<Longrightarrow> K_words ! 0 = sha1_K t" "20 \<le> t \<Longrightarrow> t < 40 \<Longrightarrow> K_words ! 1 = sha1_K t"
  "40 \<le> t \<Longrightarrow> t < 60 \<Longrightarrow> K_words ! 2 = sha1_K t" "60 \<le> t \<Longrightarrow> K_words ! 3 = sha1_K t"
  by (simp_all add: K_words_def sha1_K_def)

lemma W_first_schedule:
  assumes "t < 16" "length B = 64"
  shows "W_first B t = schedule B t"
proof -
  have "4 * t + 4 \<le> length B" using assms by simp
  then show ?thesis using assms(1) by (simp add: schedule_first block_word_nth word_of_bytes W_first_def mult.commute [of t] or.assoc)
qed

lemma W_prefix:
  assumes "length B = 64" "16 \<le> n"
  shows "foldl (\<lambda>W t. W @ [CircularShift 1 (W ! (t - 3) XOR W ! (t - 8) XOR W ! (t - 14) XOR W ! (t - 16))])
    (map (W_first B) [0..<16]) [16..<n] = map (schedule B) [0..<n]"
  using assms(2)
proof (induction n rule: dec_induct)
  case base
  show ?case using W_first_schedule [OF _ assms(1)] by (simp del: upt_conv_Cons upt_rec_numeral)
next
  case (step n)
  then show ?case by (simp add: schedule_next [of n] CircularShift_ROTL del: upt_rec_numeral)
qed

lemma W_words_schedule: "length B = 64 \<Longrightarrow> W_words B = map (schedule B) [0..<80]"
  unfolding W_words_def by (rule W_prefix) simp_all

lemma round_body_step:
  "f = sha1_f t \<Longrightarrow> k = sha1_K t \<Longrightarrow> W ! t = schedule M t \<Longrightarrow> round_body f k W r t = sha1_step M t r"
  by (cases r) (simp add: CircularShift_ROTL)

lemma round_loop:
  assumes "a \<le> b" "\<And>t. a \<le> t \<Longrightarrow> t < b \<Longrightarrow> f = sha1_f t \<and> k = sha1_K t \<and> W ! t = schedule M t"
  shows "foldl (round_body f k W) (sha1_rounds M a r) [a..<b] = sha1_rounds M b r"
  using assms
proof (induction b rule: dec_induct)
  case (step n)
  then show ?case using round_body_step [of f n k W M] by (simp del: upt_rec_numeral)
qed simp

lemma ProcessMessageBlock_eq:
  assumes "length (Message_Block s) = 64" "H s = regs_list r"
  shows "ProcessMessageBlock s = s\<lparr>H := regs_list (sha1_compress r (Message_Block s)), Message_Block_Index := 0\<rparr>"
proof -
  let ?M = "Message_Block s" and ?W = "W_words (Message_Block s)"
  have W: "?W ! t = schedule ?M t" if "t < 80" for t using that by (simp add: W_words_schedule [OF assms(1)])
  obtain a b c d e where r: "r = (a, b, c, d, e)" by (cases r)
  have s: "(H s ! 0, H s ! 1, H s ! 2, H s ! 3, H s ! 4) = sha1_rounds ?M 0 r" by (simp add: assms(2) r)
  have "foldl (round_body ch_word (K_words ! 0) ?W) (sha1_rounds ?M 0 r) [0..<20] = sha1_rounds ?M 20 r"
    by (intro round_loop) (auto simp: W round_functions(1) [symmetric] K_words_def sha1_K_def)
  moreover have "foldl (round_body parity (K_words ! 1) ?W) (sha1_rounds ?M 20 r) [20..<40] = sha1_rounds ?M 40 r"
    by (intro round_loop) (auto simp: W round_functions(2) [symmetric] K_words_def sha1_K_def)
  moreover have "foldl (round_body majority (K_words ! 2) ?W) (sha1_rounds ?M 40 r) [40..<60] = sha1_rounds ?M 60 r"
    by (intro round_loop) (auto simp: W round_functions(3) [symmetric] K_words_def sha1_K_def)
  moreover have "foldl (round_body parity (K_words ! 3) ?W) (sha1_rounds ?M 60 r) [60..<80] = sha1_rounds ?M 80 r"
    by (intro round_loop) (auto simp: W round_functions(4) [symmetric] K_words_def sha1_K_def)
  ultimately show ?thesis
    unfolding ProcessMessageBlock_def s Let_def
    by (cases "sha1_rounds ?M 80 r") (simp add: sha1_compress_def assms(2) r del: upt_rec_numeral)
qed

section \<open>The message arrives in pieces\<close>

text \<open>\<open>reading w t s\<close>: the whole blocks \<open>w\<close> are hashed, the rest \<open>t\<close> lies in the block.\<close>

definition reading :: "bytes \<Rightarrow> bytes \<Rightarrow> SHA1 \<Rightarrow> bool" where
  "reading w t s \<longleftrightarrow> length w mod 64 = 0 \<and> length t < 64 \<and> H s = regs_list (hash_blocks sha1_init w) \<and>
     length (Message_Block s) = 64 \<and> Message_Block_Index s = length t \<and> take (length t) (Message_Block s) = t \<and>
     unat (Length_High s) * 2 ^ 32 + unat (Length_Low s) = 8 * length (w @ t) \<and> \<not> Computed s \<and> \<not> Corrupted s"

lemma put_byte_eq:
  "Message_Block_Index s < length (Message_Block s) \<Longrightarrow> put_byte b s =
    Some (s\<lparr>Message_Block := (Message_Block s)[Message_Block_Index s := b], Message_Block_Index := Message_Block_Index s + 1\<rparr>)"
  by (simp add: put_byte_def)

lemma take_update: "n < length xs \<Longrightarrow> take (Suc n) (xs[n := b]) = take n xs @ [b]"
  by (simp add: take_Suc_conv_app_nth)

lemma count_byte_other [simp]: "H (count_byte s) = H s" "Message_Block (count_byte s) = Message_Block s"
  "Message_Block_Index (count_byte s) = Message_Block_Index s" "Computed (count_byte s) = Computed s"
  by (simp_all add: count_byte_def Let_def)

lemma count_byte_length:
  assumes "unat (Length_High s) * 2 ^ 32 + unat (Length_Low s) = 8 * n" "8 * (n + 1) < 2 ^ 64" "\<not> Corrupted s"
  shows "unat (Length_High (count_byte s)) * 2 ^ 32 + unat (Length_Low (count_byte s)) = 8 * (n + 1) \<and> \<not> Corrupted (count_byte s)"
proof -
  let ?h = "unat (Length_High s)" and ?l = "unat (Length_Low s)"
  have b: "?h < 2 ^ 32" "?l < 2 ^ 32" using unsigned_less [of "Length_High s"] unsigned_less [of "Length_Low s"] by simp_all
  have "l + 8 \<le> 2 ^ 32" if "h * 2 ^ 32 + l = 8 * n" "l < 2 ^ 32" for h l :: nat
  proof -
    define k where "k = n - h * 2 ^ 29"
    have "l = 8 * k" using that(1) by (simp add: k_def)
    then show ?thesis using that(2) by simp
  qed
  from this [OF assms(1) b(2)] have l: "?l + 8 \<le> 2 ^ 32" .
  have lo: "unat (Length_Low s + 8) = (if ?l + 8 = 2 ^ 32 then 0 else ?l + 8)"
    using l b(2) by (auto simp: unat_word_ariths)
  show ?thesis
  proof (cases "?l + 8 = 2 ^ 32")
    case True
    then have z: "Length_Low s + 8 = 0" using lo by (simp add: unat_eq_0)
    have "?h + 1 < 2 ^ 32" using assms(1,2) True by simp
    then have hi: "unat (Length_High s + 1) = ?h + 1" by (simp add: unat_word_ariths)
    then have "Length_High s + 1 \<noteq> 0" by (metis add_is_0 one_neq_zero unat_0)
    then show ?thesis using True z hi assms(1,3) by (simp add: count_byte_def Let_def)
  next
    case False
    then have "Length_Low s + 8 \<noteq> 0" using lo by (metis add_is_0 unat_0 zero_neq_numeral)
    then show ?thesis using False lo assms(1,3) by (simp add: count_byte_def Let_def)
  qed
qed

lemma read_byte:
  assumes "reading w t s" "8 * (length (w @ t) + 1) < 2 ^ 64"
  shows "\<exists>s' w' t'. input_loop (b # m) s = input_loop m s' \<and> reading w' t' s' \<and> w' @ t' = (w @ t) @ [b]"
proof -
  note r = assms(1) [unfolded reading_def]
  have b: "b AND 0xFF = b"
  proof -
    have "(0xFF :: byte) = - 1" by simp
    then show ?thesis by (simp only: and.right_neutral)
  qed
  let ?B = "(Message_Block s)[length t := b]"
  let ?s = "count_byte (s\<lparr>Message_Block := ?B, Message_Block_Index := length t + 1\<rparr>)"
  have B: "length ?B = 64" "take (Suc (length t)) ?B = t @ [b]" using r take_update [of "length t" "Message_Block s"] by simp_all
  have len: "unat (Length_High ?s) * 2 ^ 32 + unat (Length_Low ?s) = 8 * (length (w @ t) + 1) \<and> \<not> Corrupted ?s"
    using r assms(2) by (intro count_byte_length) simp_all
  have put: "put_byte b s = Some (s\<lparr>Message_Block := ?B, Message_Block_Index := length t + 1\<rparr>)"
    using r by (subst put_byte_eq) auto
  have step: "input_loop (b # m) s = input_loop m (if length t + 1 = 64 then ProcessMessageBlock ?s else ?s)"
    using r put by (simp add: b Let_def)
  show ?thesis
  proof (cases "length t + 1 = 64")
    case True
    have eq: "ProcessMessageBlock ?s = ?s\<lparr>H := regs_list (sha1_compress (hash_blocks sha1_init w) (t @ [b])), Message_Block_Index := 0\<rparr>"
      using r B True by (subst ProcessMessageBlock_eq) (auto simp: True)
    have "hash_blocks sha1_init (w @ (t @ [b])) = sha1_compress (hash_blocks sha1_init w) (t @ [b])"
      using r True hash_blocks_block [of "t @ [b]" _ "[]"] by (simp add: hash_blocks_append hash_blocks_short del: append_assoc)
    moreover have "length (w @ t @ [b]) mod 64 = 0" using r True mod64_append [of w "t @ [b]"] by simp
    ultimately have "reading (w @ t @ [b]) [] (ProcessMessageBlock ?s)"
      using r len B unfolding eq by (simp add: reading_def)
    then show ?thesis unfolding step using True by (intro exI [of _ "ProcessMessageBlock ?s"] exI [of _ "w @ t @ [b]"] exI [of _ "[]"]) simp
  next
    case False
    then have "reading w (t @ [b]) ?s" using r len B by (simp add: reading_def)
    then show ?thesis unfolding step using False by (intro exI [of _ ?s] exI [of _ w] exI [of _ "t @ [b]"]) simp
  qed
qed

lemma read_bytes:
  "reading w t s \<Longrightarrow> 8 * (length (w @ t) + length m) < 2 ^ 64 \<Longrightarrow>
    \<exists>s' w' t'. input_loop m s = Some s' \<and> reading w' t' s' \<and> w' @ t' = (w @ t) @ m"
proof (induction m arbitrary: w t s)
  case (Cons b m)
  have "8 * (length (w @ t) + 1) < 2 ^ 64" using Cons.prems(2) by simp
  from read_byte [OF Cons.prems(1) this, of b m] obtain s' w' t' where
    s': "input_loop (b # m) s = input_loop m s'" "reading w' t' s'" "w' @ t' = (w @ t) @ [b]" by blast
  have "length (w' @ t') = length (w @ t) + 1" unfolding s'(3) by simp
  then have "8 * (length (w' @ t') + length m) < 2 ^ 64" using Cons.prems(2) by simp
  from Cons.IH [OF s'(2) this] show ?case unfolding s'(1) by (simp add: s'(3))
next
  case Nil
  then show ?case by (intro exI [of _ s] exI [of _ w] exI [of _ t]) simp
qed

section \<open>Padding\<close>

lemma zeros_to_eq:
  "n \<le> length (Message_Block s) \<Longrightarrow> Message_Block_Index s \<le> n \<Longrightarrow>
    \<exists>B. zeros_to n s = Some (s\<lparr>Message_Block := B, Message_Block_Index := n\<rparr>) \<and> length B = length (Message_Block s) \<and>
      take n B = take (Message_Block_Index s) (Message_Block s) @ replicate (n - Message_Block_Index s) 0"
proof (induction "n - Message_Block_Index s" arbitrary: s)
  case 0
  then show ?case by (subst zeros_to.simps) (intro exI [of _ "Message_Block s"], simp)
next
  case (Suc k)
  let ?i = "Message_Block_Index s" and ?B = "Message_Block s"
  let ?s = "s\<lparr>Message_Block := ?B[?i := 0], Message_Block_Index := ?i + 1\<rparr>"
  have i: "?i < length ?B" "?i < n" using Suc.hyps(2) Suc.prems by simp_all
  have "k = n - Message_Block_Index ?s" "n \<le> length (Message_Block ?s)" "Message_Block_Index ?s \<le> n"
    using Suc.hyps(2) Suc.prems by simp_all
  from Suc.hyps(1) [OF this] obtain B where
    B: "zeros_to n ?s = Some (?s\<lparr>Message_Block := B, Message_Block_Index := n\<rparr>)" "length B = length ?B"
      "take n B = take (Suc ?i) (?B[?i := 0]) @ replicate (n - Suc ?i) 0" by auto
  have "zeros_to n s = zeros_to n ?s" using i by (subst zeros_to.simps) (simp add: put_byte_eq)
  moreover have "take n B = take ?i ?B @ replicate (n - ?i) 0"
    using B(3) i Suc_diff_Suc [OF i(2)] by (simp add: take_update) (metis replicate_Suc)
  ultimately show ?case using B by (intro exI [of _ B]) simp
qed

lemma pad_block:
  assumes "length (Message_Block s) = 64" "Message_Block_Index s = length t" "take (length t) (Message_Block s) = t"
    and "length t < n" "n \<le> 64"
  shows "\<exists>B. do { s \<leftarrow> put_byte 0x80 s; zeros_to n s } = Some (s\<lparr>Message_Block := B, Message_Block_Index := n\<rparr>) \<and>
    length B = 64 \<and> take n B = t @ 0x80 # replicate (n - 1 - length t) 0"
proof -
  let ?s = "s\<lparr>Message_Block := (Message_Block s)[length t := 0x80], Message_Block_Index := length t + 1\<rparr>"
  have put: "put_byte 0x80 s = Some ?s" using assms by (subst put_byte_eq) auto
  have tk: "take (Suc (length t)) ((Message_Block s)[length t := 0x80]) = t @ [0x80]"
    using assms take_update [of "length t" "Message_Block s"] by simp
  have "n \<le> length (Message_Block ?s)" "Message_Block_Index ?s \<le> n" using assms by simp_all
  from zeros_to_eq [OF this] obtain B where "zeros_to n ?s = Some (?s\<lparr>Message_Block := B, Message_Block_Index := n\<rparr>)"
    "length B = 64" "take n B = t @ [0x80] @ replicate (n - Suc (length t)) 0" using assms(1) tk by auto
  then show ?thesis using put by (intro exI [of _ B]) simp
qed

lemma store_length_eq:
  assumes "length (Message_Block s) = 64" "unat (Length_High s) * 2 ^ 32 + unat (Length_Low s) = n"
  shows "store_length s = s\<lparr>Message_Block := take 56 (Message_Block s) @ be_bytes 8 n\<rparr>"
proof -
  have b: "ucast (w AND 0xFF) = (ucast w :: byte)" for w :: "32 word"
  proof -
    have "(0xFF :: 32 word) = mask 8" by (simp add: mask_eq_exp_minus_1)
    then show ?thesis by (auto simp: bit_eq_iff bit_simps)
  qed
  have "be_bytes 8 n = be_bytes 4 (unat (Length_High s)) @ be_bytes 4 (unat (Length_Low s))"
    using be_bytes_pair [of "Length_High s" "Length_Low s"] assms(2) by simp
  then show ?thesis using assms(1) by (simp add: store_length_def blit_def Let_def be_bytes_word b)
qed

lemma PadMessage_eq:
  assumes "reading w t s" "8 * length (w @ t) < 2 ^ 64"
  shows "\<exists>B. PadMessage s = Some (s\<lparr>H := sha1_digest (w @ t), Message_Block := B, Message_Block_Index := 0\<rparr>)"
proof -
  note r = assms(1) [unfolded reading_def]
  let ?L = "be_bytes 8 (8 * length (w @ t))"
  have mod: "length (w @ t) mod 64 = length t" using r mod64_append [of w t] by simp
  have last: "ProcessMessageBlock (store_length (s\<lparr>H := regs_list q, Message_Block := B, Message_Block_Index := 56\<rparr>)) =
      s\<lparr>H := regs_list (hash_blocks q (take 56 B @ ?L)), Message_Block := take 56 B @ ?L, Message_Block_Index := 0\<rparr>"
    if "length B = 64" for B q
    using that r hash_blocks_block [of "take 56 B @ ?L" q "[]"]
    by (subst store_length_eq) (auto simp: ProcessMessageBlock_eq hash_blocks_short)
  show ?thesis
  proof (cases "length t > 55")
    case True
    obtain B where B: "do { s \<leftarrow> put_byte 0x80 s; zeros_to 64 s } = Some (s\<lparr>Message_Block := B, Message_Block_Index := 64\<rparr>)"
      "length B = 64" "take 64 B = t @ 0x80 # replicate (63 - length t) 0"
      using pad_block [of s t 64] r by auto
    have B': "B = t @ 0x80 # replicate (63 - length t) 0" using B(2,3) by simp
    let ?q = "sha1_compress (hash_blocks sha1_init w) B"
    have p: "ProcessMessageBlock (s\<lparr>Message_Block := B, Message_Block_Index := 64\<rparr>) = s\<lparr>H := regs_list ?q, Message_Block := B, Message_Block_Index := 0\<rparr>"
      using r B(2) by (subst ProcessMessageBlock_eq) auto
    obtain C where C: "zeros_to 56 (s\<lparr>H := regs_list ?q, Message_Block := B, Message_Block_Index := 0\<rparr>) =
        Some (s\<lparr>H := regs_list ?q, Message_Block := C, Message_Block_Index := 56\<rparr>)" "length C = 64" "take 56 C = replicate 56 0"
      using zeros_to_eq [of 56 "s\<lparr>H := regs_list ?q, Message_Block := B, Message_Block_Index := 0\<rparr>"] B(2) by auto
    have "pad_zeros (length (w @ t)) = (63 - length t) + 56" using mod True r by (simp add: pad_zeros_cases)
    then have "sha1_pad (w @ t) = w @ B @ replicate 56 0 @ ?L" unfolding sha1_pad_def B' by (simp add: replicate_add)
    moreover have "hash_blocks (hash_blocks sha1_init w) B = ?q" using hash_blocks_block [OF B(2), of _ "[]"] by (simp add: hash_blocks_short)
    ultimately have "sha1_digest (w @ t) = regs_list (hash_blocks ?q (replicate 56 0 @ ?L))"
      using r B(2) by (simp add: sha1_digest_def sha1_regs_def hash_blocks_append)
    moreover have "do { s \<leftarrow> put_byte 0x80 s; s \<leftarrow> zeros_to 64 s; zeros_to 56 (ProcessMessageBlock s) } =
        Some (s\<lparr>H := regs_list ?q, Message_Block := C, Message_Block_Index := 56\<rparr>)"
      using B(1) p C(1) by (cases "put_byte 0x80 s") auto
    ultimately show ?thesis using True r last [OF C(2), of ?q] C(3) by (simp add: PadMessage_def) blast
  next
    case False
    obtain B where B: "do { s \<leftarrow> put_byte 0x80 s; zeros_to 56 s } = Some (s\<lparr>Message_Block := B, Message_Block_Index := 56\<rparr>)"
      "length B = 64" "take 56 B = t @ 0x80 # replicate (55 - length t) 0"
      using pad_block [of s t 56] r False by auto
    have "pad_zeros (length (w @ t)) = 55 - length t" using mod False by (simp add: pad_zeros_cases)
    then have "sha1_digest (w @ t) = regs_list (hash_blocks (hash_blocks sha1_init w) (take 56 B @ ?L))"
      using r B(3) by (simp add: sha1_digest_def sha1_regs_def sha1_pad_def hash_blocks_append)
    moreover have h: "s\<lparr>Message_Block := B, Message_Block_Index := 56\<rparr> = s\<lparr>H := regs_list (hash_blocks sha1_init w), Message_Block := B, Message_Block_Index := 56\<rparr>"
      using r by simp
    moreover have "PadMessage s = Some (ProcessMessageBlock (store_length (s\<lparr>Message_Block := B, Message_Block_Index := 56\<rparr>)))"
      using False r B(1) by (simp add: PadMessage_def)
    ultimately show ?thesis unfolding h last [OF B(2), of "hash_blocks sha1_init w"] by (intro exI [of _ "take 56 B @ ?L"]) simp
  qed
qed

section \<open>The digest\<close>

lemma reading_Reset: "length (Message_Block s) = 64 \<Longrightarrow> reading [] [] (Reset s)"
  by (simp add: reading_def Reset_def hash_blocks_short sha1_init_def)

definition holds :: "bytes \<Rightarrow> SHA1 \<Rightarrow> bool" where
  "holds m s \<longleftrightarrow> (\<exists>w t. reading w t s \<and> w @ t = m)"

interpretation sha1: absorbing Input holds "\<lambda>m p. 8 * (length m + length p) < 2 ^ 64"
proof
  fix m p :: bytes and s assume "holds m s" and l: "8 * (length m + length p) < 2 ^ 64"
  then obtain w t where w: "reading w t s" "w @ t = m" by (auto simp: holds_def)
  have "Input p s = input_loop p s" using w(1) by (cases p) (simp_all add: Input_def reading_def)
  then show "\<exists>s'. Input p s = Some s' \<and> holds (m @ p) s'"
    using read_bytes [OF w(1), of p] l unfolding w(2) holds_def by auto
qed

lemma length_concat_take: "i < length ps \<Longrightarrow> length (concat (take i ps)) + length (ps ! i) \<le> length (concat ps)"
proof (induction ps arbitrary: i)
  case (Cons p ps)
  then show ?case by (cases i) auto
qed simp

lemma H_list: "length h = 5 \<Longrightarrow> map (\<lambda>i. h ! i) [0..<5] = h"
  using map_nth [of h] by simp

lemma Result_eq:
  assumes "reading w t s" "8 * length (w @ t) < 2 ^ 64"
  shows "\<exists>u. Result s = Some (Some (sha1_digest (w @ t)), u) \<and> H u = sha1_digest (w @ t) \<and> Computed u \<and> \<not> Corrupted u"
proof -
  obtain B where "PadMessage s = Some (s\<lparr>H := sha1_digest (w @ t), Message_Block := B, Message_Block_Index := 0\<rparr>)"
    using PadMessage_eq [OF assms] by blast
  moreover have "length (sha1_digest (w @ t)) = 5" by (simp add: sha1_digest_def)
  ultimately show ?thesis using assms(1) H_list [of "sha1_digest (w @ t)"]
    by (simp add: Result_def reading_def del: upt_rec_numeral)
qed

lemma sha1_digests:
  assumes "8 * length (concat ps) < 2 ^ 64" "length (Message_Block s0) = 64"
  shows "\<exists>s u. feed_all Input ps (Reset s0) = Some s \<and> Result s = Some (Some (sha1_digest (concat ps)), u) \<and>
    H u = sha1_digest (concat ps) \<and> Computed u \<and> \<not> Corrupted u"
proof -
  obtain s w t where s: "feed_all Input ps (Reset s0) = Some s" "reading w t s" "w @ t = concat ps"
  proof -
    have "holds [] (Reset s0)" using reading_Reset [OF assms(2)] by (auto simp: holds_def)
    moreover have "\<forall>i < length ps. 8 * (length ([] @ concat (take i ps)) + length (ps ! i)) < 2 ^ 64"
      using assms(1) length_concat_take [of _ ps] by fastforce
    ultimately have "\<exists>s. feed_all Input ps (Reset s0) = Some s \<and> holds ([] @ concat ps) s" by (rule sha1.feed_all_stands)
    then show thesis using that by (auto simp: holds_def)
  qed
  then show ?thesis using Result_eq [OF s(2)] assms(1) by (auto simp: s(3))
qed

text \<open>
  C38: For every message of less than $2^{64}$ bits and every way to cut it into the pieces of the calls
  of \<open>Input\<close>, \<open>Result\<close> gives the SHA-1 digest that the standard defines for the whole message; no
  access leaves the block of the object; \<open>Result\<close> can be repeated, and input after it makes every
  further \<open>Result\<close> fail.
\<close>

theorem sha1_correct:
  assumes "8 * length (concat ps) < 2 ^ 64" "length (Message_Block s0) = 64"
  shows "\<exists>s t. feed_all Input ps (Reset s0) = Some s \<and> Result s = Some (Some (sha1_digest (concat ps)), t) \<and>
    Result t = Some (Some (sha1_digest (concat ps)), t) \<and>
    (\<forall>p. p \<noteq> [] \<longrightarrow> (\<exists>u. Input p t = Some u \<and> Result u = Some (None, u)))"
proof -
  obtain s u where s: "feed_all Input ps (Reset s0) = Some s"
    and u: "Result s = Some (Some (sha1_digest (concat ps)), u)" "H u = sha1_digest (concat ps)" "Computed u" "\<not> Corrupted u"
    using sha1_digests [OF assms] by (elim exE conjE) (rule that)
  have "length (sha1_digest (concat ps)) = 5" by (simp add: sha1_digest_def)
  then have "Result u = Some (Some (sha1_digest (concat ps)), u)"
    using u H_list [of "sha1_digest (concat ps)"] by (simp add: Result_def del: upt_rec_numeral)
  moreover have "\<forall>p. p \<noteq> [] \<longrightarrow> (\<exists>v. Input p u = Some v \<and> Result v = Some (None, v))"
    using u by (simp add: Input_def Result_def)
  ultimately show ?thesis using s u(1) by blast
qed

theorem sha1_correct_witness:
  "let s0 = \<lparr>H = [], Length_Low = 7, Length_High = 7, Message_Block = replicate 64 9, Message_Block_Index = 3, Computed = True, Corrupted = True\<rparr>
   in \<exists>s t. feed_all Input [[97], [], [98, 99]] (Reset s0) = Some s \<and> Result s = Some (Some (sha1_digest [97, 98, 99]), t)"
  using sha1_correct [of "[[97], [], [98, 99]]" "\<lparr>H = [], Length_Low = 7, Length_High = 7, Message_Block = replicate 64 9,
    Message_Block_Index = 3, Computed = True, Corrupted = True\<rparr>"] by auto

end
