(* ===== verification/Handshake.thy ===== *)
theory Handshake imports Sha1 Base64 NetStream begin

text \<open>
  The answer to a web socket handshake: \<open>ResponseKey\<close> of \<open>Server/Net/mytcpsock.cpp\<close>, which reads the
  header lines of the request and signs the key of the client with SHA-1 and base64.  Strings are
  lists of bytes; \<open>None\<close> is an access outside a string.
\<close>

definition getline :: "bytes \<Rightarrow> (bytes \<times> bytes) option" where
  "getline s = (if s = [] then None else Some (takeWhile (\<lambda>c. c \<noteq> 10) s, drop 1 (dropWhile (\<lambda>c. c \<noteq> 10) s)))"

lemma getline_shorter:
  assumes "getline s = Some (l, s')"
  shows "length s' < length s"
proof -
  have "length s > 0" "s' = drop 1 (dropWhile (\<lambda>c. c \<noteq> 10) s)" using assms by (auto simp: getline_def split: if_splits)
  moreover have "length (dropWhile (\<lambda>c. c \<noteq> 10) s) \<le> length s" by (rule length_dropWhile_le)
  ultimately show ?thesis by (simp only: length_drop)
qed

text \<open>\<open>szHeader.find(": ", 0)\<close>.\<close>

fun find_colon :: "bytes \<Rightarrow> nat option" where
  "find_colon [] = None"
| "find_colon (c # cs) = (if c = 58 \<and> cs \<noteq> [] \<and> hd cs = 32 then Some 0 else map_option Suc (find_colon cs))"

definition last_char :: "bytes \<Rightarrow> byte option" where
  "last_char s = (if s = [] then None else Some (last s))"

definition parse_header :: "bytes \<Rightarrow> (bytes \<rightharpoonup> bytes) \<Rightarrow> (bytes \<rightharpoonup> bytes)" where
  "parse_header szHeader mapHeader =
    (case find_colon szHeader of None \<Rightarrow> mapHeader
     | Some sizetypeEnd \<Rightarrow> mapHeader(take sizetypeEnd szHeader \<mapsto> drop (sizetypeEnd + 2) szHeader))"

function header_loop :: "bytes \<Rightarrow> (bytes \<rightharpoonup> bytes) \<Rightarrow> (bytes \<rightharpoonup> bytes) option" where
  "header_loop s mapHeader =
    (case getline s of None \<Rightarrow> Some mapHeader
     | Some (szHeader, s') \<Rightarrow>
         if szHeader = [13] then Some mapHeader
         else (case last_char szHeader of None \<Rightarrow> None
               | Some c \<Rightarrow> if c \<noteq> 13 then header_loop s' mapHeader
                  else header_loop s' (parse_header (butlast szHeader) mapHeader)))"
  by pat_completeness auto
termination
  by (relation "measure (\<lambda>(s, m). length s)") (auto dest: getline_shorter)

declare header_loop.simps [simp del]

definition Sec_WebSocket_Key :: bytes where
  "Sec_WebSocket_Key = [83, 101, 99, 45, 87, 101, 98, 83, 111, 99, 107, 101, 116, 45, 75, 101, 121]"

text \<open>\<open>258EAFA5-E914-47DA-95CA-C5AB0DC85B11\<close>\<close>

definition websocket_guid :: bytes where
  "websocket_guid = [50, 53, 56, 69, 65, 70, 65, 53, 45, 69, 57, 49, 52, 45, 52, 55, 68, 65, 45, 57, 53, 67, 65, 45,
     67, 53, 65, 66, 48, 68, 67, 56, 53, 66, 49, 49]"

text \<open>\<open>sha\<close> is the object as the stack left it.\<close>

definition sign_key :: "SHA1 \<Rightarrow> bytes \<Rightarrow> bytes option" where
  "sign_key sha szServerKey =
    do { sha \<leftarrow> shift_string (szServerKey @ [0]) (Reset (Reset sha));
         (digest, sha) \<leftarrow> Result sha;
         let dwarrMessageDigest = (case digest of None \<Rightarrow> replicate 5 0 | Some d \<Rightarrow> d);
         let dwarrMessageDigest = map ntohl dwarrMessageDigest;
         Some (base64_encode (concat (map (store 4) dwarrMessageDigest))) }"

definition ResponseKey :: "SHA1 \<Rightarrow> bytes \<Rightarrow> bytes option" where
  "ResponseKey sha szWebInfo =
    (let (szRequest, s) = (case getline szWebInfo of None \<Rightarrow> ([], []) | Some x \<Rightarrow> x) in
     do { c \<leftarrow> last_char szRequest;
          if c \<noteq> 13 then Some []
          else do { mapHeader \<leftarrow> header_loop s Map.empty;
                    let szServerKey = (case mapHeader Sec_WebSocket_Key of None \<Rightarrow> [] | Some v \<Rightarrow> v);
                    sign_key sha (szServerKey @ websocket_guid) } })"

section \<open>The key is signed as the protocol says\<close>

text \<open>The answer of RFC 6455 to a key, with the digest of the standard (\<open>Sha1Spec\<close>), the text of RFC 4648
  (\<open>Base64\<close>) and the identifier as the RFC prints it: nothing of the code is used.\<close>

definition rfc6455_guid :: string where
  "rfc6455_guid = ''258EAFA5-E914-47DA-95CA-C5AB0DC85B11''"

definition accept_key :: "bytes \<Rightarrow> bytes" where
  "accept_key key = rfc4648 (concat (map (\<lambda>x. be_bytes 4 (unat x)) (sha1_digest (key @ map of_char rfc6455_guid))))"

lemma guid_rfc6455: "websocket_guid = map of_char rfc6455_guid"
  by code_simp

lemma shift_string_eq: "0 \<notin> set p \<Longrightarrow> shift_string (p @ [0]) s = feed_all Input (map (\<lambda>c. [c]) p) s"
  by (induction p arbitrary: s) (auto split: bind_splits option.splits)

lemma concat_singles: "concat (map (\<lambda>c. [c]) p) = p"
  by (induction p) auto

lemma sign_key_eq:
  assumes "0 \<notin> set key" "8 * length key < 2 ^ 64" "length (Message_Block sha) = 64"
  shows "sign_key sha key = Some (base64_encode (concat (map (\<lambda>x. be_bytes 4 (unat x)) (sha1_digest key))))"
proof -
  have "length (Message_Block (Reset sha)) = 64" using assms(3) by (simp add: Reset_def)
  then obtain s u where "feed_all Input (map (\<lambda>c. [c]) key) (Reset (Reset sha)) = Some s" "Result s = Some (Some (sha1_digest key), u)"
    using sha1_digests [of "map (\<lambda>c. [c]) key" "Reset sha"] assms(2) by (auto simp: concat_singles)
  moreover have "store 4 (ntohl w) = be_bytes 4 (unat w)" for w :: "32 word" by (rule store_net(2))
  ultimately show ?thesis by (simp add: sign_key_def shift_string_eq [OF assms(1)] comp_def)
qed

section \<open>The header lines\<close>

definition crlf :: bytes where
  "crlf = [13, 10]"

definition header_line :: "bytes \<times> bytes \<Rightarrow> bytes" where
  "header_line h = fst h @ [58, 32] @ snd h @ crlf"

definition good_header :: "bytes \<times> bytes \<Rightarrow> bool" where
  "good_header h \<longleftrightarrow> 58 \<notin> set (fst h) \<and> 10 \<notin> set (fst h) \<and> 10 \<notin> set (snd h)"

lemma getline_line: "10 \<notin> set l \<Longrightarrow> getline (l @ [10] @ s) = Some (l, s)"
proof -
  assume "10 \<notin> set l"
  then have "takeWhile (\<lambda>c. c \<noteq> 10) (l @ 10 # s) = l" "dropWhile (\<lambda>c. c \<noteq> 10) (l @ 10 # s) = 10 # s"
    by (auto simp: takeWhile_append dropWhile_append)
  then show ?thesis by (simp add: getline_def)
qed

lemma find_colon_key: "58 \<notin> set k \<Longrightarrow> find_colon (k @ 58 # 32 # v) = Some (length k)"
  by (induction k) auto

lemma header_loop_lines:
  "\<forall>h \<in> set hs. good_header h \<Longrightarrow> header_loop (concat (map header_line hs) @ crlf @ body) m = Some (m ++ map_of (rev hs))"
proof (induction hs arbitrary: m)
  case Nil
  then show ?case using getline_line [of "[13]" body] by (subst header_loop.simps) (simp add: crlf_def)
next
  case (Cons h hs)
  obtain k v where h: "h = (k, v)" by (cases h)
  let ?rest = "concat (map header_line hs) @ crlf @ body"
  have g: "58 \<notin> set k" "10 \<notin> set k" "10 \<notin> set v" using Cons.prems by (simp_all add: h good_header_def)
  have "getline ((k @ [58, 32] @ v @ [13]) @ [10] @ ?rest) = Some (k @ [58, 32] @ v @ [13], ?rest)"
    using g by (intro getline_line) auto
  moreover have "parse_header (butlast (k @ [58, 32] @ v @ [13])) m = m(k \<mapsto> v)"
    using find_colon_key [OF g(1), of v] by (simp add: parse_header_def butlast_append)
  moreover have "k @ [58, 32] @ v @ [13] \<noteq> [13]" by (cases k) auto
  ultimately have "header_loop ((k @ [58, 32] @ v @ [13]) @ [10] @ ?rest) m = header_loop ?rest (m(k \<mapsto> v))"
    by (subst header_loop.simps) (simp add: last_char_def)
  moreover have "header_loop ?rest (m(k \<mapsto> v)) = Some (m ++ map_of (rev (h # hs)))"
  proof -
    have "m(k \<mapsto> v) ++ map_of (rev hs) = m ++ map_of (rev (h # hs))" by (simp add: h)
    moreover have "\<forall>h \<in> set hs. good_header h" using Cons.prems by simp
    ultimately show ?thesis using Cons.IH [of "m(k \<mapsto> v)"] by (simp only:)
  qed
  ultimately show ?case by (simp add: h header_line_def [of "(k, v)"] crlf_def)
qed




lemma ResponseKey_signs:
  assumes "10 \<notin> set req" "\<forall>h \<in> set hs. good_header h"
    and "key = (case map_of (rev hs) Sec_WebSocket_Key of None \<Rightarrow> [] | Some v \<Rightarrow> v)"
    and "0 \<notin> set key" "8 * (length key + 36) < 2 ^ 64" "length (Message_Block sha) = 64"
  shows "ResponseKey sha (req @ crlf @ concat (map header_line hs) @ crlf @ body) = Some (accept_key key)"
proof -
  let ?s = "concat (map header_line hs) @ crlf @ body"
  have "getline ((req @ [13]) @ [10] @ ?s) = Some (req @ [13], ?s)" using assms(1) by (intro getline_line) simp
  moreover have "header_loop ?s Map.empty = Some (map_of (rev hs))" using header_loop_lines [OF assms(2), of body Map.empty] by simp
  moreover have "sign_key sha (key @ websocket_guid) = Some (accept_key key)"
    unfolding accept_key_def guid_rfc6455 [symmetric] base64_encode_rfc4648 [symmetric]
    using assms(4-6) by (intro sign_key_eq) (auto simp: websocket_guid_def)
  ultimately show ?thesis by (simp add: ResponseKey_def crlf_def last_char_def assms(3))
qed



text \<open>A request without the header, or with its name in another case, is signed with an empty key instead of being refused.\<close>

lemma response_key_missing:
  assumes "10 \<notin> set req" "\<forall>h \<in> set hs. good_header h" "Sec_WebSocket_Key \<notin> fst ` set hs" "length (Message_Block sha) = 64"
  shows "ResponseKey sha (req @ crlf @ concat (map header_line hs) @ crlf @ body) = Some (accept_key [])"
proof -
  have "map_of (rev hs) Sec_WebSocket_Key = None" using assms(3) by (simp add: map_of_eq_None_iff)
  then show ?thesis using ResponseKey_signs [OF assms(1,2) refl _ _ assms(4)] by simp
qed

text \<open>A request without any byte, and an empty line between the headers, are read before their start.\<close>

lemma response_key_empty: "ResponseKey sha [] = None"
  by (simp add: ResponseKey_def getline_def last_char_def)

lemma response_key_empty_line: "10 \<notin> set req \<Longrightarrow> ResponseKey sha (req @ crlf @ 10 # s) = None"
proof -
  assume "10 \<notin> set req"
  then have "getline ((req @ [13]) @ [10] @ 10 # s) = Some (req @ [13], 10 # s)" by (intro getline_line) simp
  moreover have "header_loop (10 # s) Map.empty = None"
    using getline_line [of "[]" s] by (subst header_loop.simps) (simp add: last_char_def)
  ultimately show ?thesis by (simp add: ResponseKey_def crlf_def last_char_def)
qed

end
