(* ===== verification/UdpSock.thy ===== *)
theory UdpSock imports TcpSock Complex_Main begin

text \<open>
  Reliable transfer over UDP: \<open>FxUDPConnectSock\<close> of \<open>Server/Net/myudpsock.cpp\<close> with the
  \<open>SlidingWindow\<close> of \<open>myudpsock.h\<close> (the branches for Linux).  A window has 32 buffers of 512 bytes,
  the free ones linked through their first byte, and maps the sequence numbers between \<open>m_btBegin\<close>
  and \<open>m_btEnd\<close>, which are bytes and wrap, to buffers.  The clock, the round-trip estimates and the
  congestion control are floating-point numbers that only decide how much is sent and when; their
  decisions are arguments of \<open>udp_PostSend\<close>.  What \<open>recv\<close> and \<open>send\<close> return is an argument too.
  \<open>None\<close> is an access outside an array.
\<close>

section \<open>The sliding window\<close>

definition s_dwBufferSize :: nat where "s_dwBufferSize = 512"
definition s_dwWindowSize :: nat where "s_dwWindowSize = 32"

record slide =
  m_ppBuffer :: "bytes list"
  m_btFreeBufferId :: byte
  m_pSeqBufferId :: "byte list"
  m_pSeqSize :: "nat list"
  m_btBegin :: byte
  m_btEnd :: byte

definition Count :: "slide \<Rightarrow> byte" where
  "Count w = m_btEnd w - m_btBegin w"

definition IsValidIndex :: "byte \<Rightarrow> slide \<Rightarrow> bool" where
  "IsValidIndex btId w = (let btPos = btId - m_btBegin w; btCount = m_btEnd w - m_btBegin w in btPos < btCount)"

definition ClearBuffer :: "slide \<Rightarrow> slide" where
  "ClearBuffer w = w\<lparr>m_btFreeBufferId := 0,
     m_ppBuffer := map (\<lambda>i. (m_ppBuffer w ! i)[0 := of_nat (i + 1)]) [0..<s_dwWindowSize]\<rparr>"

text \<open>The place of a sequence number, and the buffer operations that the methods below share.\<close>

definition seq_id :: "byte \<Rightarrow> nat" where
  "seq_id i = unat i mod s_dwWindowSize"

definition the_buffer :: "byte \<Rightarrow> slide \<Rightarrow> bytes option" where
  "the_buffer b w = (if unat b < s_dwWindowSize then Some (m_ppBuffer w ! unat b) else None)"

definition write_buffer :: "byte \<Rightarrow> bytes \<Rightarrow> slide \<Rightarrow> slide option" where
  "write_buffer b src w =
    do { buf \<leftarrow> the_buffer b w; buf \<leftarrow> copy_to buf 0 src; Some (w\<lparr>m_ppBuffer := (m_ppBuffer w)[unat b := buf]\<rparr>) }"

definition take_free :: "slide \<Rightarrow> (byte \<times> slide) option" where
  "take_free w =
    (let btBufferId = m_btFreeBufferId w in
     do { buf \<leftarrow> the_buffer btBufferId w; b0 \<leftarrow> rd buf 0; Some (btBufferId, w\<lparr>m_btFreeBufferId := b0\<rparr>) })"

definition give_back :: "byte \<Rightarrow> slide \<Rightarrow> slide option" where
  "give_back btBufferId w =
    do { w \<leftarrow> write_buffer btBufferId [m_btFreeBufferId w] w; Some (w\<lparr>m_btFreeBufferId := btBufferId\<rparr>) }"

section \<open>The socket\<close>

record udp_sock =
  m_oSendWindow :: slide
  m_oRecvWindow :: slide
  m_poSendBuf :: loopbuff
  m_poRecvBuf :: loopbuff
  m_pDataHeader :: data_header
  m_bSendAck :: bool
  m_nState :: ESocketState
  m_hSock :: bool
  m_bSendLinger :: bool
  m_bDelayClose :: bool
  m_events :: "net_event list"

definition state_byte :: "ESocketState \<Rightarrow> byte" where
  "state_byte st = (case st of SSTATE_INVALID \<Rightarrow> 0 | SSTATE_LISTEN \<Rightarrow> 1 | SSTATE_STOP_LISTEN \<Rightarrow> 2 | SSTATE_CONNECT \<Rightarrow> 3
     | SSTATE_ESTABLISH \<Rightarrow> 4 | SSTATE_CLOSE \<Rightarrow> 5 | SSTATE_RELEASE \<Rightarrow> 6)"

definition UDPPacketHeader :: "ESocketState \<Rightarrow> byte \<Rightarrow> byte \<Rightarrow> bytes" where
  "UDPPacketHeader st syn ack = [state_byte st, syn, ack]"

definition udp_IsConnected :: "udp_sock \<Rightarrow> bool" where
  "udp_IsConnected s \<longleftrightarrow> m_nState s = SSTATE_ESTABLISH"

definition udp_PushNetEvent :: "net_event \<Rightarrow> udp_sock \<Rightarrow> udp_sock" where
  "udp_PushNetEvent e s = s\<lparr>m_events := m_events s @ [e]\<rparr>"

definition udp_Close :: "udp_sock \<Rightarrow> udp_sock" where
  "udp_Close s =
    (if m_nState s = SSTATE_RELEASE \<or> m_nState s = SSTATE_CLOSE then s
     else let s = (if udp_IsConnected s then s\<lparr>m_nState := SSTATE_CLOSE\<rparr> else s) in
       if \<not> m_hSock s then s else udp_PushNetEvent NETEVT_TERMINATE (s\<lparr>m_hSock := False\<rparr>))"

definition udp_fail :: "ENetErrCode \<Rightarrow> udp_sock \<Rightarrow> udp_sock" where
  "udp_fail e s = udp_Close (udp_PushNetEvent (NETEVT_ERROR e) s)"

definition udp_PostClose :: "udp_sock \<Rightarrow> udp_sock" where
  "udp_PostClose s = s\<lparr>m_bDelayClose := True\<rparr>"

text \<open>\<open>Init\<close>, with the results of \<open>realloc\<close> for the two ring buffers, and the loop with which the
  three ways to establish a connection empty the receive window.\<close>

definition udp_Init :: "bytes option \<Rightarrow> bytes option \<Rightarrow> udp_sock \<Rightarrow> bool \<times> udp_sock" where
  "udp_Init rblk sblk s =
    (let (ok, b) = Init rblk RECV_BUFF_SIZE (m_poRecvBuf s); s = s\<lparr>m_poRecvBuf := b\<rparr> in
     if \<not> ok then (False, s)
     else
       (let (ok, b) = Init sblk SEND_BUFF_SIZE (m_poSendBuf s); s = s\<lparr>m_poSendBuf := b\<rparr> in
        if \<not> ok then (False, s)
        else (True, s\<lparr>m_bSendAck := False,
          m_oRecvWindow := (ClearBuffer (m_oRecvWindow s))\<lparr>m_btBegin := 1, m_btEnd := 1 + of_nat s_dwWindowSize\<rparr>,
          m_oSendWindow := (ClearBuffer (m_oSendWindow s))\<lparr>m_btBegin := 1, m_btEnd := 1\<rparr>\<rparr>)))"

function empty_from :: "byte \<Rightarrow> slide \<Rightarrow> slide" where
  "empty_from i w =
    (if i = m_btEnd w then w
     else empty_from (i + 1) (w\<lparr>m_pSeqBufferId := (m_pSeqBufferId w)[seq_id i := of_nat s_dwWindowSize],
            m_pSeqSize := (m_pSeqSize w)[seq_id i := 0]\<rparr>))"
  by pat_completeness auto

lemma next_seq_less: "(i :: byte) \<noteq> e \<Longrightarrow> unat (e - (i + 1)) < unat (e - i)"
proof -
  assume "i \<noteq> e"
  then have "e - i \<noteq> 0" by simp
  then have "unat (e - i - 1) = unat (e - i) - 1" by (rule unat_minus_one)
  moreover have "unat (e - i) \<noteq> 0" using \<open>e - i \<noteq> 0\<close> by (simp add: unat_eq_0)
  ultimately show ?thesis by (simp add: diff_diff_eq)
qed

termination empty_from
  by (relation "measure (\<lambda>(i, w). unat (m_btEnd w - i))") (auto simp: next_seq_less)

declare empty_from.simps [simp del]

definition establish :: "udp_sock \<Rightarrow> udp_sock" where
  "establish s = s\<lparr>m_nState := SSTATE_ESTABLISH,
     m_oRecvWindow := empty_from (m_btBegin (m_oRecvWindow s)) (m_oRecvWindow s)\<rparr>"

section \<open>Sending\<close>

text \<open>\<open>Send\<close> puts a framed message into the send buffer; \<open>pTemData\<close> is its static array, the loop around
  \<open>PushBuff\<close> the one of the TCP connection.\<close>

definition udp_Send :: "(loopbuff \<Rightarrow> loopbuff) \<Rightarrow> bytes \<Rightarrow> nat \<Rightarrow> bytes \<Rightarrow> udp_sock \<Rightarrow> (bool \<times> bytes \<times> udp_sock) option" where
  "udp_Send sleep pData dwLen pTemData s =
    (if \<not> udp_IsConnected s then Some (False, pTemData, s)
     else do {
       let s = (if IsEmpty (m_poSendBuf s) then s\<lparr>m_poSendBuf := Clear (m_poSendBuf s)\<rparr> else s);
       if int (dwLen + GetHeaderLength (m_pDataHeader s)) > GetTotalLen (m_poSendBuf s)
       then Some (False, pTemData, udp_PostClose (udp_PushNetEvent (NETEVT_ERROR NET_SEND_OVERFLOW) s))
       else do {
         let os = CNetStream ENetStreamType_Write pTemData 0 (dwLen + GetHeaderLength (m_pDataHeader s));
         (pDataHeaderBuff, dwHeaderLen, h) \<leftarrow> BuildSendPkgHeader (of_nat dwLen) (m_pDataHeader s);
         let s = s\<lparr>m_pDataHeader := h\<rparr>;
         (r, os) \<leftarrow> WriteData pDataHeaderBuff dwHeaderLen os;
         (r, os) \<leftarrow> WriteData pData dwLen os;
         let pTemData = m_mem os;
         (ok, b) \<leftarrow> push_retry sleep (m_bSendLinger s) 30 pTemData (int (dwLen + dwHeaderLen)) (m_poSendBuf s);
         Some (ok, pTemData, s\<lparr>m_poSendBuf := b\<rparr>) } })"

text \<open>A packet with the next sequence number and at most 509 bytes of the data; without data it is the
  empty packet that keeps the connection alive.\<close>

definition room_per_packet :: nat where
  "room_per_packet = s_dwBufferSize - 3"

definition add_packet :: "ESocketState \<Rightarrow> byte \<Rightarrow> bytes \<Rightarrow> slide \<Rightarrow> slide option" where
  "add_packet st ack pSendBuffer w =
    do { let btId = seq_id (m_btEnd w);
         (btBufferId, w) \<leftarrow> take_free w;
         let data = take room_per_packet pSendBuffer;
         w \<leftarrow> write_buffer btBufferId (UDPPacketHeader st (m_btEnd w) ack @ data) w;
         Some (w\<lparr>m_pSeqBufferId := (m_pSeqBufferId w)[btId := btBufferId],
                m_pSeqSize := (m_pSeqSize w)[btId := length data + 3], m_btEnd := m_btEnd w + 1\<rparr>) }"

text \<open>The loop that cuts the data into packets, with the window control \<open>ctl\<close>; the result are the bytes
  that are left.  The difference of the two positions is that of C \<open>int\<close>s.\<close>

definition window_spread :: "slide \<Rightarrow> int" where
  "window_spread w = uint (m_btEnd w) - uint (m_btBegin w)"

function fill_window :: "real \<Rightarrow> ESocketState \<Rightarrow> byte \<Rightarrow> bytes \<Rightarrow> slide \<Rightarrow> (bytes \<times> slide) option" where
  "fill_window ctl st ack pSendBuffer w =
    (if unat (m_btFreeBufferId w) < s_dwWindowSize \<and> length pSendBuffer > 0 then
       (if real_of_int (window_spread w) > ctl then Some (pSendBuffer, w)
        else do { w \<leftarrow> add_packet st ack pSendBuffer w;
                  fill_window ctl st ack (drop room_per_packet pSendBuffer) w })
     else Some (pSendBuffer, w))"
  by pat_completeness auto
termination
  by (relation "measure (\<lambda>(ctl, st, ack, d, w). length d)") (auto simp: room_per_packet_def s_dwBufferSize_def)

declare fill_window.simps [simp del]

text \<open>The loop that sends what is due: how it ends, the packets given to the operating system, the window.\<close>

datatype send_end = To_the_end | Returns bool

function send_loop :: "real \<Rightarrow> (byte \<Rightarrow> bool) \<Rightarrow> (byte \<Rightarrow> send_result) \<Rightarrow> ESocketState \<Rightarrow> byte \<Rightarrow> byte \<Rightarrow> slide
    \<Rightarrow> (send_end \<times> bytes list \<times> slide) option" where
  "send_loop ctl due sys st ack i w =
    (if i = m_btEnd w then Some (To_the_end, [], w)
     else if real_of_int (uint i - uint (m_btBegin w)) \<ge> ctl then Some (To_the_end, [], w)
     else if \<not> due i then send_loop ctl due sys st ack (i + 1) w
     else do {
       let btId = seq_id i;
       let b = m_pSeqBufferId w ! btId;
       buf \<leftarrow> the_buffer b w;
       buf \<leftarrow> copy_to buf 0 (UDPPacketHeader st i ack);
       let w' = w\<lparr>m_ppBuffer := (m_ppBuffer w)[unat b := buf]\<rparr>;
       case sys i of
         Again \<Rightarrow> Some (Returns True, [], w')
       | Failed \<Rightarrow> Some (Returns False, [], w')
       | Sent n \<Rightarrow>
           if n = 0 then Some (Returns False, [], w')
           else do { p \<leftarrow> copy_from buf 0 (m_pSeqSize w ! btId);
                     (r, ps, w'') \<leftarrow> send_loop ctl due sys st ack (i + 1) w';
                     Some (r, p # ps, w'') } })"
  by pat_completeness auto
termination
  by (relation "measure (\<lambda>(ctl, due, sys, st, ack, i, w). unat (m_btEnd w - i))") (auto simp: next_seq_less)

declare send_loop.simps [simp del]

text \<open>\<open>quiet\<close>: the time to send has not come; \<open>lost\<close>: no acknowledgement for too long; \<open>idle\<close>: the
  time for an empty packet has come.\<close>

record send_choice =
  lost :: bool
  quiet :: bool
  idle :: bool
  control :: real
  due :: "byte \<Rightarrow> bool"
  sys_send :: "byte \<Rightarrow> send_result"
  sys_ack :: send_result

definition udp_PostSend :: "send_choice \<Rightarrow> udp_sock \<Rightarrow> (bool \<times> bytes list \<times> udp_sock) option" where
  "udp_PostSend c s =
    (if lost c then Some (False, [], s)
     else if quiet c then Some (True, [], s)
     else do {
       let ack = m_btBegin (m_oRecvWindow s) - 1;
       let (pSendBuffer, dwSize) = GetOutCursorPtr (m_poSendBuf s);
       d \<leftarrow> (if dwSize > 0 then copy_out pSendBuffer dwSize (m_poSendBuf s) else Some []);
       (rst, w) \<leftarrow> fill_window (control c) (m_nState s) ack d (m_oSendWindow s);
       let dwOffset = length d - length rst;
       let s = (if dwOffset > 0 then s\<lparr>m_poSendBuf := snd (DiscardBuff (int dwOffset) (m_poSendBuf s))\<rparr> else s);
       w \<leftarrow> (if m_btBegin w = m_btEnd w \<and> idle c \<and> unat (m_btFreeBufferId w) < s_dwWindowSize
             then add_packet (m_nState s) ack [] w else Some w);
       (r, ps, w) \<leftarrow> send_loop (control c) (due c) (sys_send c) (m_nState s) ack (m_btBegin w) w;
       let s = s\<lparr>m_oSendWindow := w, m_bSendAck := (m_bSendAck s \<and> ps = [])\<rparr>;
       case r of
         Returns ok \<Rightarrow> Some (ok, ps, s)
       | To_the_end \<Rightarrow>
           if \<not> m_bSendAck s then Some (True, ps, s)
           else (case sys_ack c of
                   Again \<Rightarrow> Some (True, ps, s)
                 | Failed \<Rightarrow> Some (False, ps, s)
                 | Sent n \<Rightarrow> if n = 0 then Some (False, ps, s)
                     else Some (True, ps @ [UDPPacketHeader (m_nState s) (m_btBegin w - 1) ack], s\<lparr>m_bSendAck := False\<rparr>)) })"

text \<open>\<open>Update\<close>, which the network thread calls in every round; \<open>err\<close> is \<open>errno\<close>.\<close>

definition udp_Update :: "nat \<Rightarrow> send_choice \<Rightarrow> udp_sock \<Rightarrow> (bytes list \<times> udp_sock) option" where
  "udp_Update err c s =
    do { (ok, ps, s) \<leftarrow> udp_PostSend c s; Some (ps, if \<not> ok then udp_fail (NET_ERRNO err) s else s) }"

section \<open>Receiving\<close>

text \<open>The acknowledged packets leave the send window.\<close>

function ack_loop :: "byte \<Rightarrow> slide \<Rightarrow> slide option" where
  "ack_loop cAck w =
    (if m_btBegin w = cAck + 1 then Some w
     else (case give_back (m_pSeqBufferId w ! seq_id (m_btBegin w)) w of None \<Rightarrow> None
           | Some w' \<Rightarrow> ack_loop cAck (w'\<lparr>m_btBegin := m_btBegin w + 1\<rparr>)))"
  by pat_completeness auto
termination
  by (relation "measure (\<lambda>(a, w). unat (a + 1 - m_btBegin w))") (auto dest: next_seq_less)

declare ack_loop.simps [simp del]

text \<open>The last sequence number up to which everything is there.\<close>

function new_ack :: "byte \<Rightarrow> byte \<Rightarrow> slide \<Rightarrow> byte" where
  "new_ack i btNewAck w =
    (if i = m_btEnd w then btNewAck
     else if unat (m_pSeqBufferId w ! seq_id i) \<ge> s_dwWindowSize then btNewAck
     else new_ack (i + 1) i w)"
  by pat_completeness auto
termination
  by (relation "measure (\<lambda>(i, a, w). unat (m_btEnd w - i))") (auto simp: next_seq_less)

declare new_ack.simps [simp del]

text \<open>The data of a packet goes into the receive buffer, in two parts where the block ends; \<open>False\<close> when it
  does not fit.  A \<open>memcpy\<close> of no bytes does nothing.\<close>

definition copy_in_some :: "int option \<Rightarrow> bytes \<Rightarrow> loopbuff \<Rightarrow> loopbuff option" where
  "copy_in_some p src b = (if src = [] then Some b else copy_in p src b)"

definition put_recv :: "bytes \<Rightarrow> loopbuff \<Rightarrow> (bool \<times> loopbuff) option" where
  "put_recv pBuffer b =
    (let wSize = int (length pBuffer); (pBuffRecv, nLenRecv) = GetInCursorPtr b in
     if wSize \<le> nLenRecv then
       do { b \<leftarrow> copy_in_some pBuffRecv pBuffer b; Some (True, snd (CostBuff wSize b)) }
     else
       do { b \<leftarrow> copy_in_some pBuffRecv (take (nat nLenRecv) pBuffer) b;
            let b = snd (CostBuff nLenRecv b);
            let pBuffer = drop (nat nLenRecv) pBuffer;
            let wSize = wSize - nLenRecv;
            let (pBuffRecv, n) = GetInCursorPtr b;
            if n < wSize then Some (False, b)
            else do { b \<leftarrow> copy_in_some pBuffRecv pBuffer b; Some (True, snd (CostBuff wSize b)) } })"

text \<open>The packets up to \<open>btNewAck\<close> leave the receive window; the flag says that there is something to
  parse.  \<open>wSize\<close> is an unsigned short.\<close>

function deliver_loop :: "byte \<Rightarrow> bool \<Rightarrow> udp_sock \<Rightarrow> (bool \<times> bool \<times> udp_sock) option" where
  "deliver_loop btNewAck bParseMessage s =
    (let w = m_oRecvWindow s in
     if m_btBegin w = btNewAck + 1 then Some (True, bParseMessage, s)
     else
       (let btId = seq_id (m_btBegin w); btBufferId = m_pSeqBufferId w ! btId; wSize = (m_pSeqSize w ! btId + (2 ^ 16 - 3)) mod 2 ^ 16 in
        case do { buf \<leftarrow> the_buffer btBufferId w;
                  pBuffer \<leftarrow> copy_from buf 3 wSize;
                  (if wSize > 0 then put_recv pBuffer (m_poRecvBuf s) else Some (True, m_poRecvBuf s)) } of
          None \<Rightarrow> None
        | Some (False, b) \<Rightarrow> Some (False, bParseMessage, udp_fail (NET_ERRNO 0) (s\<lparr>m_poRecvBuf := b\<rparr>))
        | Some (True, b) \<Rightarrow>
            (case give_back btBufferId w of None \<Rightarrow> None
             | Some w' \<Rightarrow> deliver_loop btNewAck (bParseMessage \<or> wSize > 0)
                 (s\<lparr>m_poRecvBuf := b, m_bSendAck := True,
                    m_oRecvWindow := w'\<lparr>m_pSeqSize := (m_pSeqSize w')[btId := 0],
                      m_pSeqBufferId := (m_pSeqBufferId w')[btId := of_nat s_dwWindowSize],
                      m_btBegin := m_btBegin w + 1, m_btEnd := m_btEnd w' + 1\<rparr>\<rparr>))))"
  by pat_completeness auto
termination
  by (relation "measure (\<lambda>(a, f, s). unat (a + 1 - m_btBegin (m_oRecvWindow s)))") (auto dest: next_seq_less)

declare deliver_loop.simps [simp del]

text \<open>\<open>OnRecv\<close> up to the parsing of the received bytes, which is the one of the TCP connection; the flag
  of the result says whether it runs.\<close>

definition udp_OnRecv :: "recv_result \<Rightarrow> udp_sock \<Rightarrow> (bool \<times> udp_sock) option" where
  "udp_OnRecv rr s =
    (if \<not> udp_IsConnected s then Some (False, s)
     else do {
       let s = (if IsEmpty (m_poRecvBuf s) then s\<lparr>m_poRecvBuf := Clear (m_poRecvBuf s)\<rparr> else s);
       (btBufferId, w) \<leftarrow> take_free (m_oRecvWindow s);
       let s = s\<lparr>m_oRecvWindow := w\<rparr>;
       case rr of
         Recv_error again err \<Rightarrow> Some (False, if again then s else udp_fail (NET_ERRNO err) s)
       | Eof \<Rightarrow> Some (False, udp_fail NET_EOF_ERROR s)
       | Received pkt \<Rightarrow> do {
           w \<leftarrow> write_buffer btBufferId pkt w;
           let nLen = length pkt;
           if nLen < 3 then do { w \<leftarrow> give_back btBufferId w;
                                 Some (False, udp_fail NET_PACKET_ERROR (s\<lparr>m_oRecvWindow := w\<rparr>)) }
           else if pkt ! 0 \<noteq> state_byte SSTATE_ESTABLISH
           then Some (False, udp_fail NET_CONNECT_FAIL (s\<lparr>m_oRecvWindow := w\<rparr>))
           else do {
             let cSyn = pkt ! 1;
             let cAck = pkt ! 2;
             sw \<leftarrow> (if IsValidIndex cAck (m_oSendWindow s) then ack_loop cAck (m_oSendWindow s) else Some (m_oSendWindow s));
             let s = s\<lparr>m_oSendWindow := sw\<rparr>;
             let id = seq_id cSyn;
             if IsValidIndex cSyn w \<and> unat (m_pSeqBufferId w ! id) \<ge> s_dwWindowSize then do {
               let w = w\<lparr>m_pSeqBufferId := (m_pSeqBufferId w)[id := btBufferId], m_pSeqSize := (m_pSeqSize w)[id := nLen]\<rparr>;
               let btLastAck = m_btBegin w - 1;
               let btNewAck = new_ack (m_btBegin w) btLastAck w;
               let s = s\<lparr>m_oRecvWindow := w\<rparr>;
               if btNewAck \<noteq> btLastAck then do { (ok, parse, s) \<leftarrow> deliver_loop btNewAck False s; Some (ok \<and> parse, s) }
               else Some (False, s) }
             else do { w \<leftarrow> give_back btBufferId w; Some (False, s\<lparr>m_oRecvWindow := w\<rparr>) } } } })"

text \<open>\<open>__ProcRecv\<close> in the main thread, for a socket that still belongs to its connection: \<open>buf\<close> is the
  session's receive buffer of which \<open>recv_size\<close> bytes count; the result is what the session's \<open>OnRecv\<close>
  is called with.\<close>

definition udp_ProcRecv :: "nat \<Rightarrow> nat \<Rightarrow> bytes \<Rightarrow> udp_sock \<Rightarrow> (bytes option \<times> bytes \<times> udp_sock) option" where
  "udp_ProcRecv recv_size dwLen buf s =
    (if recv_size < dwLen
     then Some (None, buf, udp_PostClose (udp_PushNetEvent (NETEVT_ERROR NET_RECV_ERROR) s))
     else do {
       (ok, out, b) \<leftarrow> PopBuff (int dwLen) (m_poRecvBuf s);
       if \<not> ok then Some (None, buf, s)
       else do {
         buf \<leftarrow> copy_to buf 0 out;
         let s = s\<lparr>m_poRecvBuf := b\<rparr>;
         let n = nat ((int dwLen - int (GetHeaderLength (m_pDataHeader s))) mod 2 ^ 32);
         src \<leftarrow> copy_from buf (GetHeaderLength (m_pDataHeader s)) n;
         buf \<leftarrow> copy_to buf 0 src;
         buf \<leftarrow> copy_to buf n [0];
         Some (Some (take n buf), buf, s) } })"

end
