(* ===== verification/UdpWindow.thy ===== *)
theory UdpWindow imports UdpSock begin

text \<open>
  What the operations on a sliding window do (definitions in \<open>UdpSock\<close>), in terms of sequence numbers
  that do not wrap: a window holds the packets of a set of sequence numbers, every buffer is either in
  the free list or holds one packet, and sending, acknowledging and accepting change that set.
\<close>

section \<open>Windows and their buffers\<close>

fun chain :: "bytes list \<Rightarrow> byte \<Rightarrow> nat list \<Rightarrow> bool" where
  "chain bufs f [] \<longleftrightarrow> unat f = 32"
| "chain bufs f (b # bs) \<longleftrightarrow> unat f = b \<and> b < 32 \<and> chain bufs (bufs ! b ! 0) bs"

definition buf_of :: "slide \<Rightarrow> nat \<Rightarrow> nat" where
  "buf_of w n = unat (m_pSeqBufferId w ! (n mod 32))"

definition shaped :: "slide \<Rightarrow> bool" where
  "shaped w \<longleftrightarrow> length (m_ppBuffer w) = 32 \<and> (\<forall>b \<in> set (m_ppBuffer w). length b = 512) \<and>
     length (m_pSeqBufferId w) = 32 \<and> length (m_pSeqSize w) = 32"

definition carries :: "slide \<Rightarrow> nat \<Rightarrow> bytes \<Rightarrow> bool" where
  "carries w n d \<longleftrightarrow> buf_of w n < 32 \<and> m_pSeqSize w ! (n mod 32) = length d + 3 \<and> length d \<le> 509 \<and>
     take (length d) (drop 3 (m_ppBuffer w ! buf_of w n)) = d"

text \<open>\<open>holds w P pay X\<close>: the window has the packets \<open>P\<close> with the data \<open>pay\<close>, and the buffers \<open>X\<close> are
  neither free nor in the window: in use by a running method, or lost.\<close>

definition holds :: "slide \<Rightarrow> nat set \<Rightarrow> (nat \<Rightarrow> bytes) \<Rightarrow> nat set \<Rightarrow> bool" where
  "holds w P pay X \<longleftrightarrow> shaped w \<and> inj_on (buf_of w) P \<and> (\<forall>n \<in> P. carries w n (pay n)) \<and>
     X \<subseteq> {..<32} \<and> X \<inter> buf_of w ` P = {} \<and>
     (\<exists>fl. chain (m_ppBuffer w) (m_btFreeBufferId w) fl \<and> distinct fl \<and> set fl = {..<32} - buf_of w ` P - X)"

lemma seq_id_of_nat: "seq_id (of_nat n) = n mod 32"
proof -
  have "unat (of_nat n :: byte) = n mod 256" by (simp add: unat_of_nat)
  then show ?thesis by (simp add: seq_id_def s_dwWindowSize_def mod_mod_cancel)
qed

lemma chain_bound: "chain bufs f fl \<Longrightarrow> set fl \<subseteq> {..<32}"
  by (induction fl arbitrary: f) auto

lemma chain_cong: "(\<And>b. b \<in> set fl \<Longrightarrow> bufs' ! b ! 0 = bufs ! b ! 0) \<Longrightarrow> chain bufs' f fl = chain bufs f fl"
  by (induction fl arbitrary: f) auto

lemma chain_free: "chain bufs f fl \<Longrightarrow> unat f < 32 \<longleftrightarrow> fl \<noteq> []"
  by (cases fl) auto

lemma buffer_length: "shaped w \<Longrightarrow> b < 32 \<Longrightarrow> length (m_ppBuffer w ! b) = 512"
  by (simp add: shaped_def)

lemma the_buffer_eq: "unat b < 32 \<Longrightarrow> the_buffer b w = Some (m_ppBuffer w ! unat b)"
  by (simp add: the_buffer_def s_dwWindowSize_def)

lemma write_buffer_eq:
  assumes "shaped w" "unat b < 32" "length src \<le> 512"
  shows "write_buffer b src w = Some (w\<lparr>m_ppBuffer := (m_ppBuffer w)[unat b := blit (m_ppBuffer w ! unat b) 0 src]\<rparr>)"
  using assms buffer_length [OF assms(1,2)] by (simp add: write_buffer_def the_buffer_eq copy_to_def)

lemma shaped_buffer: "shaped w \<Longrightarrow> length buf = 512 \<Longrightarrow> shaped (w\<lparr>m_ppBuffer := (m_ppBuffer w)[b := buf]\<rparr>)"
  by (auto simp: shaped_def dest!: set_update_subset_insert [THEN subsetD])

text \<open>Only the window's own fields count.\<close>

lemma holds_pay: "holds w P pay X \<Longrightarrow> (\<And>n. n \<in> P \<Longrightarrow> pay' n = pay n) \<Longrightarrow> holds w P pay' X"
  by (simp add: holds_def)

lemma buf_of_simps [simp]: "buf_of (w\<lparr>m_ppBuffer := x\<rparr>) n = buf_of w n" "buf_of (w\<lparr>m_btFreeBufferId := f\<rparr>) n = buf_of w n"
  "buf_of (w\<lparr>m_btBegin := i\<rparr>) n = buf_of w n" "buf_of (w\<lparr>m_btEnd := i\<rparr>) n = buf_of w n" "buf_of (w\<lparr>m_pSeqSize := z\<rparr>) n = buf_of w n"
  by (simp_all add: buf_of_def)

lemma holds_ends [simp]: "holds (w\<lparr>m_btBegin := i\<rparr>) P pay X = holds w P pay X" "holds (w\<lparr>m_btEnd := i\<rparr>) P pay X = holds w P pay X"
  by (simp_all add: holds_def shaped_def carries_def cong: inj_on_cong)

lemma take_free_ok:
  assumes "holds w P pay L" "unat (m_btFreeBufferId w) < 32"
  shows "\<exists>w'. take_free w = Some (m_btFreeBufferId w, w') \<and> holds w' P pay (insert (unat (m_btFreeBufferId w)) L) \<and>
    unat (m_btFreeBufferId w) \<notin> L \<and> m_btBegin w' = m_btBegin w \<and> m_btEnd w' = m_btEnd w \<and> m_pSeqBufferId w' = m_pSeqBufferId w"
proof -
  let ?b = "unat (m_btFreeBufferId w)"
  obtain fl where fl: "chain (m_ppBuffer w) (m_btFreeBufferId w) fl" "distinct fl" "set fl = {..<32} - buf_of w ` P - L"
    using assms(1) by (auto simp: holds_def)
  then obtain fl' where fl': "fl = ?b # fl'" using assms(2) by (cases fl) auto
  let ?w = "w\<lparr>m_btFreeBufferId := m_ppBuffer w ! ?b ! 0\<rparr>"
  have "length (m_ppBuffer w ! ?b) = 512" using assms buffer_length by (simp add: holds_def)
  then have "take_free w = Some (m_btFreeBufferId w, ?w)" using assms(2) by (simp add: take_free_def the_buffer_eq Let_def)
  moreover have "holds ?w P pay (insert ?b L)"
    using assms(1) fl fl' by (auto simp: holds_def shaped_def carries_def cong: inj_on_cong intro!: exI [of _ fl'])
  moreover have "?b \<notin> L" using fl(3) fl' by auto
  ultimately show ?thesis by simp
qed

lemma take_free_full: "shaped w \<Longrightarrow> \<not> unat (m_btFreeBufferId w) < 32 \<Longrightarrow> take_free w = None"
  by (simp add: take_free_def the_buffer_def s_dwWindowSize_def)

text \<open>Writing into a buffer in use.\<close>

lemma holds_write:
  assumes "holds w P pay X" "b \<in> X" "length buf = 512"
  shows "holds (w\<lparr>m_ppBuffer := (m_ppBuffer w)[b := buf]\<rparr>) P pay X"
proof -
  let ?w = "w\<lparr>m_ppBuffer := (m_ppBuffer w)[b := buf]\<rparr>"
  obtain fl where fl: "chain (m_ppBuffer w) (m_btFreeBufferId w) fl" "distinct fl" "set fl = {..<32} - buf_of w ` P - X"
    using assms(1) by (auto simp: holds_def)
  have "chain (m_ppBuffer ?w) (m_btFreeBufferId ?w) fl"
  proof -
    have "chain (m_ppBuffer ?w) (m_btFreeBufferId w) fl = chain (m_ppBuffer w) (m_btFreeBufferId w) fl"
      using fl(3) assms(2) by (intro chain_cong) (simp, metis DiffD2 nth_list_update_neq)
    then show ?thesis using fl(1) by simp
  qed
  moreover have "carries ?w n (pay n)" if "n \<in> P" for n
  proof -
    have "buf_of w n \<noteq> b" "carries w n (pay n)" using assms that by (auto simp: holds_def)
    then show ?thesis by (simp add: carries_def)
  qed
  ultimately show ?thesis using assms fl shaped_buffer [of w buf b] by (auto simp: holds_def cong: inj_on_cong)
qed

text \<open>A buffer in use becomes the one of a packet.\<close>

lemma holds_assign:
  assumes "holds w P pay (insert b L)" "b \<notin> L" "n \<notin> P" "\<And>m. m \<in> P \<Longrightarrow> m mod 32 \<noteq> n mod 32"
    and "length d \<le> 509" "take (length d) (drop 3 (m_ppBuffer w ! b)) = d" "b = unat bw"
  shows "holds (w\<lparr>m_pSeqBufferId := (m_pSeqBufferId w)[n mod 32 := bw], m_pSeqSize := (m_pSeqSize w)[n mod 32 := length d + 3]\<rparr>)
    (insert n P) (pay(n := d)) L" (is "holds ?w _ _ _")
proof -
  have sh: "shaped w" "b < 32" "b \<notin> buf_of w ` P" using assms(1) by (auto simp: holds_def)
  have n: "buf_of ?w n = b" using sh assms(7) by (simp add: buf_of_def shaped_def)
  have m: "buf_of ?w m = buf_of w m" if "m \<in> P" for m using assms(4) [OF that] by (simp add: buf_of_def)
  have im: "buf_of ?w ` P = buf_of w ` P" using m by auto
  have "shaped ?w" using sh by (simp add: shaped_def)
  moreover have "inj_on (buf_of ?w) (insert n P)"
  proof -
    have "inj_on (buf_of ?w) P" using assms(1) m by (simp add: holds_def cong: inj_on_cong)
    then show ?thesis using n im sh(3) assms(3) by (auto simp: inj_on_insert)
  qed
  moreover have "carries ?w k ((pay(n := d)) k)" if "k \<in> insert n P" for k
  proof (cases "k = n")
    case True
    then show ?thesis using n sh assms(5,6) by (simp add: carries_def shaped_def)
  next
    case False
    then have k: "k \<in> P" using that by simp
    then show ?thesis using assms(1) m [OF k] assms(4) [OF k] False by (simp add: carries_def holds_def)
  qed
  moreover obtain fl where "chain (m_ppBuffer w) (m_btFreeBufferId w) fl" "distinct fl" "set fl = {..<32} - buf_of w ` P - insert b L"
    using assms(1) by (auto simp: holds_def)
  then have "\<exists>fl. chain (m_ppBuffer ?w) (m_btFreeBufferId ?w) fl \<and> distinct fl \<and> set fl = {..<32} - buf_of ?w ` insert n P - L"
    using n im by (auto intro!: exI [of _ fl])
  moreover have "L \<subseteq> {..<32}" "L \<inter> buf_of ?w ` insert n P = {}" using assms(1,2) n im by (auto simp: holds_def)
  ultimately show ?thesis unfolding holds_def by blast
qed

text \<open>A packet leaves the window; its buffer is in use by the method.\<close>

lemma holds_remove:
  "holds w P pay L \<Longrightarrow> n \<in> P \<Longrightarrow> holds w (P - {n}) pay (insert (buf_of w n) L) \<and> buf_of w n \<notin> L"
proof -
  assume a: "holds w P pay L" "n \<in> P"
  have i: "buf_of w n \<notin> buf_of w ` (P - {n})" "buf_of w ` P = insert (buf_of w n) (buf_of w ` (P - {n}))"
    using a by (auto simp: holds_def inj_on_def)
  obtain fl where fl: "chain (m_ppBuffer w) (m_btFreeBufferId w) fl" "distinct fl" "set fl = {..<32} - buf_of w ` P - L"
    using a(1) by (auto simp: holds_def)
  then have "set fl = {..<32} - buf_of w ` (P - {n}) - insert (buf_of w n) L" using i by auto
  then show ?thesis using a i fl by (auto simp: holds_def carries_def intro: inj_on_diff)
qed

lemma give_back_ok:
  assumes "holds w P pay (insert b L)" "b \<notin> L" "unat bw = b"
  shows "\<exists>w'. give_back bw w = Some w' \<and> holds w' P pay L \<and> m_btBegin w' = m_btBegin w \<and> m_btEnd w' = m_btEnd w \<and>
    m_pSeqBufferId w' = m_pSeqBufferId w"
proof -
  have sh: "shaped w" "b < 32" "b \<notin> buf_of w ` P" using assms(1) by (auto simp: holds_def)
  let ?buf = "blit (m_ppBuffer w ! b) 0 [m_btFreeBufferId w]"
  let ?v = "w\<lparr>m_ppBuffer := (m_ppBuffer w)[b := ?buf]\<rparr>"
  have l: "length (m_ppBuffer w ! b) = 512" using buffer_length sh by simp
  have g: "give_back bw w = Some (?v\<lparr>m_btFreeBufferId := bw\<rparr>)"
    using write_buffer_eq [OF sh(1), of bw "[m_btFreeBufferId w]"] sh assms(3) by (simp add: give_back_def)
  have v: "holds ?v P pay (insert b L)" using holds_write [OF assms(1), of b ?buf] l by simp
  obtain fl where fl: "chain (m_ppBuffer ?v) (m_btFreeBufferId w) fl" "distinct fl" "set fl = {..<32} - buf_of w ` P - insert b L"
    using v by (auto simp: holds_def)
  have "m_ppBuffer ?v ! b ! 0 = m_btFreeBufferId w" using sh l by (simp add: shaped_def blit_def)
  then have "chain (m_ppBuffer ?v) bw (b # fl)" using fl(1) assms(3) sh(2) by simp
  moreover have "distinct (b # fl)" "set (b # fl) = {..<32} - buf_of w ` P - L" using fl sh assms(2) by auto
  ultimately have "holds (?v\<lparr>m_btFreeBufferId := bw\<rparr>) P pay L"
    using v unfolding holds_def by (auto simp: shaped_def carries_def cong: inj_on_cong intro!: exI [of _ "b # fl"])
  then show ?thesis using g by simp
qed

lemma holds_free:
  assumes "holds w P pay L" "finite P"
  shows "unat (m_btFreeBufferId w) < 32 \<longleftrightarrow> card P + card L < 32" "card P + card L \<le> 32"
proof -
  obtain fl where fl: "chain (m_ppBuffer w) (m_btFreeBufferId w) fl" "distinct fl" "set fl = {..<32} - (buf_of w ` P \<union> L)"
    using assms(1) by (auto simp: holds_def set_diff_eq)
  have sub: "buf_of w ` P \<union> L \<subseteq> {..<32}" using assms(1) by (auto simp: holds_def carries_def)
  have "finite L" "L \<inter> buf_of w ` P = {}" using assms(1) by (auto simp: holds_def intro: finite_subset)
  then have "card (buf_of w ` P \<union> L) = card (buf_of w ` P) + card L" using assms(2) by (intro card_Un_disjoint) auto
  then have c: "card (buf_of w ` P \<union> L) = card P + card L" using assms(1) by (simp add: holds_def card_image)
  have "length fl = card (set fl)" using distinct_card [OF fl(2)] by simp
  also have "\<dots> = 32 - (card P + card L)" using card_Diff_subset [OF finite_subset [OF sub] sub] c by (simp add: fl(3))
  finally have "length fl = 32 - (card P + card L)" .
  moreover show "card P + card L \<le> 32" using card_mono [OF _ sub] c by simp
  ultimately show "unat (m_btFreeBufferId w) < 32 \<longleftrightarrow> card P + card L < 32" using chain_free [OF fl(1)] by (cases fl) auto
qed

lemma holds_header:
  assumes "holds w P pay {}" "n \<in> P" "length h = 3"
  shows "holds (w\<lparr>m_ppBuffer := (m_ppBuffer w)[buf_of w n := blit (m_ppBuffer w ! buf_of w n) 0 h]\<rparr>) P pay {}" (is "holds ?w _ _ _")
proof -
  let ?b = "buf_of w n"
  have sh: "shaped w" "?b < 32" using assms by (auto simp: holds_def carries_def)
  have l: "length (blit (m_ppBuffer w ! ?b) 0 h) = 512" using buffer_length [OF sh] assms(3) by simp
  obtain fl where fl: "chain (m_ppBuffer w) (m_btFreeBufferId w) fl" "distinct fl" "set fl = {..<32} - buf_of w ` P"
    using assms(1) by (auto simp: holds_def)
  have "chain (m_ppBuffer ?w) (m_btFreeBufferId ?w) fl = chain (m_ppBuffer w) (m_btFreeBufferId ?w) fl"
    using fl(3) assms(2) by (intro chain_cong) (simp, metis DiffD2 imageI nth_list_update_neq)
  moreover have "carries ?w m (pay m)" if "m \<in> P" for m
  proof -
    have c: "carries w m (pay m)" using assms(1) that by (simp add: holds_def)
    have "drop 3 (m_ppBuffer ?w ! buf_of w m) = drop 3 (m_ppBuffer w ! buf_of w m)"
      using sh assms(3) by (cases "buf_of w m = ?b") (auto simp: shaped_def blit_def)
    then show ?thesis using c by (simp add: carries_def)
  qed
  ultimately show ?thesis using assms fl shaped_buffer [OF sh(1) l] by (auto simp: holds_def cong: inj_on_cong)
qed

section \<open>The send window\<close>

definition sends :: "slide \<Rightarrow> nat \<Rightarrow> nat \<Rightarrow> (nat \<Rightarrow> bytes) \<Rightarrow> bool" where
  "sends w bs es pay \<longleftrightarrow> holds w {bs..<es} pay {} \<and> bs \<le> es \<and> m_btBegin w = of_nat bs \<and> m_btEnd w = of_nat es"

lemma sends_bound: "sends w bs es pay \<Longrightarrow> es \<le> bs + 32"
  using holds_free(2) [of w "{bs..<es}" pay "{}"] by (simp add: sends_def)

lemma mod32_neq: "m < n \<Longrightarrow> n < m + 32 \<Longrightarrow> m mod 32 \<noteq> (n :: nat) mod 32"
proof
  assume "m < n" "n < m + 32" "m mod 32 = n mod 32"
  then have "32 dvd n - m" by (metis less_imp_le mod_eq_dvd_iff_nat)
  then have "32 \<le> n - m" by (rule dvd_imp_le) (use \<open>m < n\<close> in simp)
  then show False using \<open>n < m + 32\<close> by simp
qed

lemma room_eq: "room_per_packet = 509"
  by (simp add: room_per_packet_def s_dwBufferSize_def)

lemma add_packet_ok:
  assumes "sends w bs es pay" "unat (m_btFreeBufferId w) < 32"
  shows "\<exists>w'. add_packet st ack data w = Some w' \<and> sends w' bs (Suc es) (pay(es := take 509 data))"
proof -
  let ?b = "m_btFreeBufferId w" and ?d = "take 509 data" and ?h = "UDPPacketHeader st (of_nat es) ack"
  have w: "holds w {bs..<es} pay {}" "bs \<le> es" "m_btBegin w = of_nat bs" "m_btEnd w = of_nat es" using assms(1) by (simp_all add: sends_def)
  have room: "es < bs + 32" using holds_free(1) [OF w(1)] assms(2) by simp
  obtain w1 where w1: "take_free w = Some (?b, w1)" "holds w1 {bs..<es} pay (insert (unat ?b) {})" "m_btBegin w1 = of_nat bs" "m_btEnd w1 = of_nat es"
    using take_free_ok [OF w(1) assms(2)] w(3,4) by auto
  have sh: "shaped w1" using w1(2) by (simp add: holds_def)
  let ?buf = "blit (m_ppBuffer w1 ! unat ?b) 0 (?h @ ?d)"
  let ?w2 = "w1\<lparr>m_ppBuffer := (m_ppBuffer w1)[unat ?b := ?buf]\<rparr>"
  have h: "length (?h @ ?d) \<le> 512" "length ?h = 3" by (simp_all add: UDPPacketHeader_def)
  have lb: "length (m_ppBuffer w1 ! unat ?b) = 512" using buffer_length [OF sh assms(2)] .
  have w2: "write_buffer ?b (?h @ ?d) w1 = Some ?w2" by (rule write_buffer_eq [OF sh assms(2) h(1)])
  have "holds ?w2 {bs..<es} pay (insert (unat ?b) {})" using holds_write [OF w1(2), of "unat ?b" ?buf] lb h by simp
  moreover have "take (length ?d) (drop 3 (m_ppBuffer ?w2 ! unat ?b)) = ?d"
    using sh assms(2) by (simp add: shaped_def blit_def UDPPacketHeader_def min_def)
  moreover have "m mod 32 \<noteq> es mod 32" if "m \<in> {bs..<es}" for m using mod32_neq [of m es] that room by simp
  ultimately have "holds (?w2\<lparr>m_pSeqBufferId := (m_pSeqBufferId ?w2)[es mod 32 := ?b], m_pSeqSize := (m_pSeqSize ?w2)[es mod 32 := length ?d + 3]\<rparr>)
      (insert es {bs..<es}) (pay(es := ?d)) {}"
    by (intro holds_assign) auto
  moreover have "insert es {bs..<es} = {bs..<Suc es}" using w(2) by auto
  moreover have "add_packet st ack data w = Some (?w2\<lparr>m_pSeqBufferId := (m_pSeqBufferId ?w2)[es mod 32 := ?b],
      m_pSeqSize := (m_pSeqSize ?w2)[es mod 32 := length ?d + 3], m_btEnd := of_nat (Suc es)\<rparr>)"
    using w1(1,4) w2 by (simp add: add_packet_def w(4) seq_id_of_nat room_eq Let_def)
  ultimately show ?thesis using w(2) w1(3) by (simp add: sends_def)
qed

lemma fill_window_ok:
  "sends w bs es pay \<Longrightarrow> \<exists>rst w' es' pay'. fill_window ctl st ack data w = Some (rst, w') \<and> sends w' bs es' pay' \<and> es \<le> es' \<and>
    (\<forall>n < es. pay' n = pay n) \<and> concat (map pay' [es..<es']) @ rst = data \<and>
    (bs = es \<longrightarrow> data \<noteq> [] \<longrightarrow> 0 \<le> ctl \<longrightarrow> es < es')"
proof (induction "length data" arbitrary: data w es pay rule: less_induct)
  case less
  show ?case
  proof (cases "unat (m_btFreeBufferId w) < 32 \<and> data \<noteq> [] \<and> \<not> real_of_int (window_spread w) > ctl")
    case False
    then have "fill_window ctl st ack data w = Some (data, w)"
      by (subst fill_window.simps) (auto simp: s_dwWindowSize_def)
    moreover have "\<not> (bs = es \<and> data \<noteq> [] \<and> 0 \<le> ctl)"
    proof
      assume a: "bs = es \<and> data \<noteq> [] \<and> 0 \<le> ctl"
      then have "unat (m_btFreeBufferId w) < 32" "window_spread w = 0"
        using less.prems holds_free(1) [of w "{}" pay "{}"] by (auto simp: sends_def window_spread_def)
      then show False using False a by simp
    qed
    ultimately show ?thesis using less.prems by (intro exI [of _ data] exI [of _ w] exI [of _ es] exI [of _ pay]) auto
  next
    case True
    let ?d = "take 509 data"
    obtain w1 where w1: "add_packet st ack data w = Some w1" "sends w1 bs (Suc es) (pay(es := ?d))"
      using add_packet_ok [OF less.prems] True by blast
    have "length (drop 509 data) < length data" using True by simp
    from less.hyps [OF this w1(2)] obtain rst w' es' pay' where
      r: "fill_window ctl st ack (drop 509 data) w1 = Some (rst, w')" "sends w' bs es' pay'" "Suc es \<le> es'"
        "\<forall>n < Suc es. pay' n = (pay(es := ?d)) n" "concat (map pay' [Suc es..<es']) @ rst = drop 509 data"
      by (elim exE conjE) (rule that)
    have "fill_window ctl st ack data w = Some (rst, w')"
      using True w1(1) r(1) by (subst fill_window.simps) (simp add: s_dwWindowSize_def room_eq)
    moreover have "concat (map pay' [es..<es']) @ rst = data"
      using r(3,4,5) by (simp add: upt_conv_Cons append_assoc)
    ultimately show ?thesis using r(2,3,4) by (intro exI conjI) auto
  qed
qed

lemma of_nat_byte_eq: "(of_nat m = (of_nat n :: byte)) \<longleftrightarrow> m mod 256 = n mod 256"
  by (simp add: word_of_nat_eq_iff take_bit_eq_mod)

lemma of_nat_near: "m \<le> n \<Longrightarrow> n < m + 256 \<Longrightarrow> (of_nat m = (of_nat n :: byte)) \<longleftrightarrow> m = n"
proof -
  assume a: "m \<le> n" "n < m + 256"
  have "m = n" if "m mod 256 = n mod 256"
  proof (rule ccontr)
    assume "m \<noteq> n"
    have "256 dvd n - m" using that a(1) by (metis mod_eq_dvd_iff_nat)
    then have "256 \<le> n - m" by (rule dvd_imp_le) (use a \<open>m \<noteq> n\<close> in simp)
    then show False using a(2) by simp
  qed
  then show ?thesis by (auto simp: of_nat_byte_eq)
qed

text \<open>A packet on the wire.\<close>

definition packet :: "ESocketState \<Rightarrow> nat \<Rightarrow> byte \<Rightarrow> bytes \<Rightarrow> bytes" where
  "packet st n ack d = UDPPacketHeader st (of_nat n) ack @ d"

lemma send_loop_ok:
  "sends w bs es pay \<Longrightarrow> bs \<le> n \<Longrightarrow> n \<le> es \<Longrightarrow> \<exists>r ps w'. send_loop ctl du sys st ack (of_nat n) w = Some (r, ps, w') \<and>
    sends w' bs es pay \<and> (\<forall>p \<in> set ps. \<exists>m. bs \<le> m \<and> m < es \<and> p = packet st m ack (pay m)) \<and>
    (du (of_nat n) \<and> ps \<noteq> [] \<longrightarrow> hd ps = packet st n ack (pay n))"
proof (induction "es - n" arbitrary: n w)
  case 0
  then have "send_loop ctl du sys st ack (of_nat n) w = Some (To_the_end, [], w)"
    by (subst send_loop.simps) (simp add: sends_def)
  then show ?case using 0 by auto
next
  case (Suc k)
  have w: "holds w {bs..<es} pay {}" "m_btBegin w = of_nat bs" "m_btEnd w = of_nat es" using Suc.prems(1) by (simp_all add: sends_def)
  have n: "n < es" "n \<in> {bs..<es}" using Suc.hyps(2) Suc.prems(2) by auto
  have ne: "(of_nat n :: byte) \<noteq> m_btEnd w"
    using of_nat_near [of n es] n sends_bound [OF Suc.prems(1)] Suc.prems(2) by (simp add: w(3))
  have k: "k = es - Suc n" "bs \<le> Suc n" "Suc n \<le> es" using Suc.hyps(2) Suc.prems n by auto
  show ?case
  proof (cases "ctl \<le> real_of_int (uint (of_nat n :: byte) - uint (m_btBegin w))")
    case True
    then have "send_loop ctl du sys st ack (of_nat n) w = Some (To_the_end, [], w)"
      using ne by (subst send_loop.simps) simp
    then show ?thesis using Suc.prems by auto
  next
    case ctl: False
    show ?thesis
    proof (cases "du (of_nat n)")
      case False
      then have "send_loop ctl du sys st ack (of_nat n) w = send_loop ctl du sys st ack (of_nat (Suc n)) w"
        using ne ctl by (subst send_loop.simps) (simp add: add.commute)
      then show ?thesis using Suc.hyps(1) [OF k(1) Suc.prems(1) k(2,3)] False by auto
    next
      case True
      let ?h = "UDPPacketHeader st (of_nat n) ack"
      let ?b = "buf_of w n"
      let ?buf = "blit (m_ppBuffer w ! ?b) 0 ?h"
      let ?w = "w\<lparr>m_ppBuffer := (m_ppBuffer w)[?b := ?buf]\<rparr>"
      have sh: "shaped w" "carries w n (pay n)" using w(1) n(2) by (auto simp: holds_def)
      have b: "?b < 32" "unat (m_pSeqBufferId w ! (n mod 32)) = ?b" using sh(2) by (simp_all add: carries_def buf_of_def)
      have l: "length (m_ppBuffer w ! ?b) = 512" using buffer_length [OF sh(1) b(1)] .
      have w': "sends ?w bs es pay"
        using holds_header [OF w(1) n(2), of ?h] Suc.prems(1) by (simp add: sends_def UDPPacketHeader_def)
      have cp: "copy_from ?buf 0 (m_pSeqSize w ! (n mod 32)) = Some (packet st n ack (pay n))"
      proof -
        have z: "m_pSeqSize w ! (n mod 32) = length (pay n) + 3" "length (pay n) \<le> 509" using sh(2) by (simp_all add: carries_def)
        have "take (length (pay n) + 3) ?buf = ?h @ take (length (pay n)) (drop 3 (m_ppBuffer w ! ?b))"
          by (simp add: blit_def UDPPacketHeader_def numeral_3_eq_3)
        then have "take (length (pay n) + 3) ?buf = packet st n ack (pay n)" using sh(2) by (simp add: carries_def packet_def)
        then show ?thesis using z l by (simp add: copy_from_def UDPPacketHeader_def)
      qed
      have ct: "copy_to (m_ppBuffer w ! ?b) 0 ?h = Some ?buf" using l by (simp add: copy_to_def UDPPacketHeader_def)
      have step: "send_loop ctl du sys st ack (of_nat n) w =
        (case sys (of_nat n) of Again \<Rightarrow> Some (Returns True, [], ?w) | Failed \<Rightarrow> Some (Returns False, [], ?w)
         | Sent q \<Rightarrow> if q = 0 then Some (Returns False, [], ?w)
             else do { (r, ps, w'') \<leftarrow> send_loop ctl du sys st ack (of_nat (Suc n)) ?w; Some (r, packet st n ack (pay n) # ps, w'') })"
        using ne ctl True b cp ct
        by (subst send_loop.simps) (simp add: seq_id_of_nat the_buffer_eq Let_def add.commute split: send_result.split)
      obtain r ps w'' where r: "send_loop ctl du sys st ack (of_nat (Suc n)) ?w = Some (r, ps, w'')" "sends w'' bs es pay"
        "\<forall>p \<in> set ps. \<exists>m. bs \<le> m \<and> m < es \<and> p = packet st m ack (pay m)"
        using Suc.hyps(1) [OF k(1) w' k(2,3)] by (elim exE conjE) (rule that)
      show ?thesis
      proof (cases "sys (of_nat n)")
        case (Sent q)
        then show ?thesis using step r w' n by (cases "q = 0") auto
      qed (use step w' in auto)
    qed
  qed
qed

lemma ack_loop_ok:
  "sends w bs es pay \<Longrightarrow> bs \<le> Suc a \<Longrightarrow> Suc a \<le> es \<Longrightarrow> \<exists>w'. ack_loop (of_nat a) w = Some w' \<and> sends w' (Suc a) es pay"
proof (induction "Suc a - bs" arbitrary: bs w)
  case 0
  then have bs: "bs = Suc a" by simp
  then have "ack_loop (of_nat a) w = Some w" using 0(2) by (subst ack_loop.simps) (simp add: sends_def)
  then show ?case using 0 bs by simp
next
  case (Suc k)
  have w: "holds w {bs..<es} pay {}" "m_btBegin w = of_nat bs" "m_btEnd w = of_nat es" using Suc.prems(1) by (simp_all add: sends_def)
  have bs: "bs < Suc a" "bs \<in> {bs..<es}" using Suc.hyps(2) Suc.prems by auto
  have "(of_nat bs :: byte) \<noteq> of_nat (Suc a)" using of_nat_near [of bs "Suc a"] bs Suc.prems sends_bound [OF Suc.prems(1)] by simp
  then have ne: "m_btBegin w \<noteq> of_nat a + 1" by (simp add: w(2) add.commute)
  have h: "holds w ({bs..<es} - {bs}) pay (insert (buf_of w bs) {})" using holds_remove [OF w(1) bs(2)] by simp
  obtain w1 where w1: "give_back (m_pSeqBufferId w ! seq_id (m_btBegin w)) w = Some w1" "holds w1 ({bs..<es} - {bs}) pay {}" "m_btEnd w1 = m_btEnd w"
    using give_back_ok [OF h, of "m_pSeqBufferId w ! seq_id (m_btBegin w)"] by (auto simp: w(2) seq_id_of_nat buf_of_def)
  have "{bs..<es} - {bs} = {Suc bs..<es}" by auto
  then have s: "sends (w1\<lparr>m_btBegin := m_btBegin w + 1\<rparr>) (Suc bs) es pay"
    using w1 w bs by (simp add: sends_def add.commute)
  have "ack_loop (of_nat a) w = ack_loop (of_nat a) (w1\<lparr>m_btBegin := m_btBegin w + 1\<rparr>)"
    using ne w1(1) by (subst ack_loop.simps) simp
  moreover have "k = Suc a - Suc bs" "Suc bs \<le> Suc a" using Suc.hyps(2) bs by auto
  ultimately show ?case using Suc.hyps(1) [OF _ s] Suc.prems(3) by simp
qed

text \<open>When the first packet of the window is due, the control lets one packet out and the operating
  system takes it, it is sent first.\<close>

lemma send_loop_some:
  assumes "send_loop ctl du sys st ack i w = Some (r, ps, w')" "i = m_btBegin w" "i \<noteq> m_btEnd w" "0 < ctl" "du i" "sys i = Sent k" "0 < k"
  shows "ps \<noteq> []"
  using assms by (subst (asm) send_loop.simps) (auto simp: Let_def split: bind_splits)

lemma send_loop_first:
  assumes "sends w bs es pay" "bs < es" "send_loop ctl du sys st ack (of_nat bs) w = Some (r, ps, w')"
    "0 < ctl" "du (of_nat bs)" "sys (of_nat bs) = Sent k" "0 < k"
  shows "ps \<noteq> [] \<and> hd ps = packet st bs ack (pay bs)"
proof -
  have "of_nat bs \<noteq> m_btEnd w" using of_nat_near [of bs es] sends_bound [OF assms(1)] assms(1,2) by (simp add: sends_def)
  then have ne: "ps \<noteq> []" by (intro send_loop_some [OF assms(3)]) (use assms in \<open>simp_all add: sends_def\<close>)
  moreover have "hd ps = packet st bs ack (pay bs)"
    using send_loop_ok [OF assms(1) order_refl, of ctl du sys st ack] assms(2,3,5) ne by auto
  ultimately show ?thesis by blast
qed

end
