(* ===== verification/UdpRecv.thy ===== *)
theory UdpRecv imports UdpWindow begin

text \<open>
  Receiving (definitions in \<open>UdpSock\<close>): the data of a packet goes into the ring buffer, the receive
  window moves on over everything that is there, and \<open>OnRecv\<close> on a packet whose numbers are less than
  224 behind the windows.
\<close>

section \<open>Data into the receive buffer\<close>

lemma copy_in_part:
  assumes "lb_core b" "GetInCursorPtr b = (p, k)" "src \<noteq> []" "int (length src) \<le> k"
  shows "\<exists>b1 b'. copy_in_some p src b = Some b1 \<and> CostBuff (int (length src)) b1 = (True, b') \<and> lb_core b' \<and>
    lb_data b' = lb_data b @ src \<and> m_nFreeLen b' = m_nFreeLen b - int (length src) \<and>
    m_nTotalLen b1 = m_nTotalLen b \<and> m_nFreeLen b1 = m_nFreeLen b \<and> m_nInCursor b1 = m_nInCursor b \<and>
    m_nOutCursor b1 = m_nOutCursor b \<and> m_bLoop b1 = m_bLoop b"
proof -
  have "0 < k" using assms(3,4) by (cases src) auto
  then have free: "0 < m_nFreeLen b" using GetInCursorPtr_room(1) [OF assms(1,2)] by simp
  then obtain off where off: "p = Some off" using GetInCursorPtr_room(2) [OF assms(1,2)] by auto
  obtain b1 where b1: "copy_in (Some off) src b = Some b1" "PushBuff src (int (length src)) b = Some (CostBuff (int (length src)) b1)"
    using CostBuff_after_recv [OF assms(1) assms(2) [unfolded off] assms(3,4)] by blast
  have "0 < int (length src)" "int (length src) \<le> m_nFreeLen b"
    using assms(3,4) GetInCursorPtr_room(1) [OF assms(1,2)] by auto
  from PushBuff_core [OF assms(1) this, of src] obtain b' where
    b': "PushBuff src (int (length src)) b = Some (True, b')" "lb_core b'" "lb_data b' = lb_data b @ src" "m_nFreeLen b' = m_nFreeLen b - int (length src)"
    by auto
  moreover have "m_nTotalLen b1 = m_nTotalLen b \<and> m_nFreeLen b1 = m_nFreeLen b \<and> m_nInCursor b1 = m_nInCursor b \<and>
    m_nOutCursor b1 = m_nOutCursor b \<and> m_bLoop b1 = m_bLoop b"
    using b1(1) by (auto simp: copy_in_def split: option.splits if_splits)
  ultimately show ?thesis using b1 off assms(3) by (simp add: copy_in_some_def)
qed

text \<open>When the room up to the end of the block is used up, the rest of the room lies at its start.\<close>

lemma room_after_end:
  assumes "lb_core b" "GetInCursorPtr b = (p, k)" "0 < k" "k < m_nFreeLen b" "CostBuff k b1 = (True, b')"
    and "m_nTotalLen b1 = m_nTotalLen b" "m_nFreeLen b1 = m_nFreeLen b" "m_nInCursor b1 = m_nInCursor b"
    and "m_nOutCursor b1 = m_nOutCursor b" "m_bLoop b1 = m_bLoop b"
  shows "snd (GetInCursorPtr b') = m_nFreeLen b'"
proof -
  have l: "\<not> m_bLoop b" "k = m_nTotalLen b - m_nInCursor b" "m_nFreeLen b = k + m_nOutCursor b"
    using assms(1-4) by (auto simp: GetInCursorPtr_def lb_core_def used_len_def split: if_splits)
  then have "b' = b1\<lparr>m_nInCursor := 0, m_bLoop := True, m_bUseLoop := True, m_nFreeLen := m_nFreeLen b - k\<rparr>"
    using assms(3-) int32_small [of 0] int32_small [of "m_nTotalLen b"] assms(1)
    by (auto simp: CostBuff_def lb_core_def split: if_splits)
  then show ?thesis using l assms(3-) by (auto simp: GetInCursorPtr_def)
qed

lemma put_recv_ok:
  assumes "lb_core b" "src \<noteq> []"
  shows "\<exists>ok b'. put_recv src b = Some (ok, b') \<and> (ok \<longrightarrow> lb_core b' \<and> lb_data b' = lb_data b @ src \<and> m_nFreeLen b' = m_nFreeLen b - int (length src)) \<and>
    (int (length src) \<le> m_nFreeLen b \<longrightarrow> ok)"
proof -
  obtain p k where pk: "GetInCursorPtr b = (p, k)" by (cases "GetInCursorPtr b")
  have k: "0 \<le> k" "k \<le> m_nFreeLen b" using assms(1) pk GetInCursorPtr_room(1) [OF assms(1) pk]
    by (auto simp: GetInCursorPtr_def lb_core_def used_len_def split: if_splits)
  show ?thesis
  proof (cases "int (length src) \<le> k")
    case True
    then obtain b1 b' where "copy_in_some p src b = Some b1" "CostBuff (int (length src)) b1 = (True, b')" "lb_core b'"
      "lb_data b' = lb_data b @ src" "m_nFreeLen b' = m_nFreeLen b - int (length src)"
      using copy_in_part [OF assms(1) pk assms(2)] by blast
    then show ?thesis using True pk by (intro exI [of _ True]) (simp add: put_recv_def)
  next
    case big: False
    let ?t = "take (nat k) src" and ?r = "drop (nat k) src"
    show ?thesis
    proof (cases "k = 0")
      case True
      then have z: "m_nFreeLen b = 0" using GetInCursorPtr_room(2) [OF assms(1) pk] k by force
      then have "GetInCursorPtr b = (None, 0)" by (simp add: GetInCursorPtr_def)
      then show ?thesis using big True z assms(2)
        by (intro exI [of _ False] exI [of _ "snd (CostBuff 0 b)"]) (simp add: put_recv_def copy_in_some_def CostBuff_def)
    next
      case False
      then have kp: "0 < k" using k by simp
      have t: "?t \<noteq> []" "int (length ?t) = k" "?r \<noteq> []" "int (length ?r) = int (length src) - k"
        using kp big assms(2) by auto
      obtain b1 b2 where b1: "copy_in_some p ?t b = Some b1" "CostBuff k b1 = (True, b2)" "lb_core b2"
        "lb_data b2 = lb_data b @ ?t" "m_nFreeLen b2 = m_nFreeLen b - k"
        and same: "m_nTotalLen b1 = m_nTotalLen b" "m_nFreeLen b1 = m_nFreeLen b" "m_nInCursor b1 = m_nInCursor b"
          "m_nOutCursor b1 = m_nOutCursor b" "m_bLoop b1 = m_bLoop b"
        using copy_in_part [OF assms(1) pk t(1)] t(2) by auto
      obtain p2 n where p2: "GetInCursorPtr b2 = (p2, n)" by (cases "GetInCursorPtr b2")
      have run: "put_recv src b = (if n < int (length src) - k then Some (False, b2)
          else do { b3 \<leftarrow> copy_in_some p2 ?r b2; Some (True, snd (CostBuff (int (length src) - k) b3)) })"
        using big pk b1 p2 by (simp add: put_recv_def)
      show ?thesis
      proof (cases "n < int (length src) - k")
        case True
        have "\<not> int (length src) \<le> m_nFreeLen b"
        proof
          assume "int (length src) \<le> m_nFreeLen b"
          then have "k < m_nFreeLen b" using big by simp
          then have "n = m_nFreeLen b2" using room_after_end [OF assms(1) pk kp _ b1(2) same] p2 by simp
          then show False using True b1(5) \<open>int (length src) \<le> m_nFreeLen b\<close> by simp
        qed
        then show ?thesis using True run by (intro exI [of _ False] exI [of _ b2]) simp
      next
        case False
        then obtain b3 b' where "copy_in_some p2 ?r b2 = Some b3" "CostBuff (int (length ?r)) b3 = (True, b')" "lb_core b'"
          "lb_data b' = lb_data b2 @ ?r" "m_nFreeLen b' = m_nFreeLen b2 - int (length ?r)"
          using copy_in_part [OF b1(3) p2 t(3)] False unfolding t(4) by force
        then show ?thesis using False run b1 unfolding t(4) by (intro exI [of _ True] exI [of _ b']) simp
      qed
    qed
  qed
qed

section \<open>The receive window\<close>

text \<open>The window expects the numbers from \<open>br\<close> on and has the packets \<open>P\<close>; the buffers \<open>L\<close> are lost.\<close>

definition recvs :: "nat set \<Rightarrow> slide \<Rightarrow> nat \<Rightarrow> nat set \<Rightarrow> (nat \<Rightarrow> bytes) \<Rightarrow> bool" where
  "recvs L w br P pay \<longleftrightarrow> holds w P pay L \<and> P \<subseteq> {br..<br + 32} \<and> m_btBegin w = of_nat br \<and> m_btEnd w = of_nat (br + 32) \<and>
     (\<forall>n \<in> {br..<br + 32} - P. 32 \<le> buf_of w n)"

lemma recvs_in: "recvs L w br P pay \<Longrightarrow> n \<in> {br..<br + 32} \<Longrightarrow> 32 \<le> buf_of w n \<longleftrightarrow> n \<notin> P"
  by (auto simp: recvs_def holds_def carries_def not_less [symmetric])

lemma new_ack_ok:
  assumes "recvs L w br P pay"
  shows "br \<le> n \<Longrightarrow> n \<le> br + 32 \<Longrightarrow> 1 \<le> n \<Longrightarrow>
    \<exists>k. new_ack (of_nat n) (of_nat (n - 1)) w = of_nat (k - 1) \<and> n \<le> k \<and> k \<le> br + 32 \<and> {n..<k} \<subseteq> P \<and> k \<notin> P"
proof (induction "br + 32 - n" arbitrary: n)
  case 0
  then have n: "n = br + 32" by simp
  then have "new_ack (of_nat n) (of_nat (n - 1)) w = of_nat (n - 1)"
    using assms by (subst new_ack.simps) (simp add: recvs_def)
  then show ?case using n assms by (intro exI [of _ n]) (auto simp: recvs_def)
next
  case (Suc j)
  have n: "n \<in> {br..<br + 32}" "n < br + 32" using Suc.hyps(2) Suc.prems by auto
  have ne: "(of_nat n :: byte) \<noteq> m_btEnd w" using of_nat_near [of n "br + 32"] n Suc.prems assms by (simp add: recvs_def)
  have b: "unat (m_pSeqBufferId w ! seq_id (of_nat n)) = buf_of w n" by (simp add: seq_id_of_nat buf_of_def)
  show ?case
  proof (cases "n \<in> P")
    case False
    then have "32 \<le> buf_of w n" using recvs_in [OF assms n(1)] by simp
    then have "new_ack (of_nat n) (of_nat (n - 1)) w = of_nat (n - 1)"
      using ne b by (subst new_ack.simps) (simp add: s_dwWindowSize_def)
    then show ?thesis using False n Suc.prems by (intro exI [of _ n]) auto
  next
    case True
    then have "\<not> 32 \<le> buf_of w n" using recvs_in [OF assms n(1)] by simp
    then have "new_ack (of_nat n) (of_nat (n - 1)) w = new_ack (of_nat (Suc n)) (of_nat (Suc n - 1)) w"
      using ne b by (subst new_ack.simps) (simp add: s_dwWindowSize_def add.commute)
    moreover obtain k where "new_ack (of_nat (Suc n)) (of_nat (Suc n - 1)) w = of_nat (k - 1)" "Suc n \<le> k" "k \<le> br + 32"
      "{Suc n..<k} \<subseteq> P" "k \<notin> P"
      using Suc.hyps(1) [of "Suc n"] Suc.hyps(2) Suc.prems n by (elim meta_impE) auto
    moreover have "{n..<k} \<subseteq> insert n {Suc n..<k}" by auto
    ultimately show ?thesis using True by (intro exI [of _ k]) auto
  qed
qed

text \<open>The first packet leaves the window.\<close>

lemma recvs_step:
  assumes "recvs L w br P pay" "br \<in> P"
  defines "sl \<equiv> br mod 32"
  shows "\<exists>w'. give_back (m_pSeqBufferId w ! sl) w = Some w' \<and> m_btEnd w' = of_nat (br + 32) \<and>
    recvs L (w'\<lparr>m_pSeqSize := (m_pSeqSize w')[sl := 0], m_pSeqBufferId := (m_pSeqBufferId w')[sl := 32],
      m_btBegin := of_nat (Suc br), m_btEnd := of_nat (br + 33)\<rparr>) (Suc br) (P - {br}) pay"
proof -
  have w: "holds w P pay L" "P \<subseteq> {br..<br + 32}" using assms(1) by (simp_all add: recvs_def)
  have out: "holds w (P - {br}) pay (insert (buf_of w br) L)" "buf_of w br \<notin> L" using holds_remove [OF w(1) assms(2)] by simp_all
  obtain w' where w': "give_back (m_pSeqBufferId w ! sl) w = Some w'" "holds w' (P - {br}) pay L" "m_btEnd w' = of_nat (br + 32)"
    "m_pSeqBufferId w' = m_pSeqBufferId w"
    using give_back_ok [OF out, of "m_pSeqBufferId w ! sl"] assms(1) by (auto simp: buf_of_def sl_def recvs_def)
  let ?v = "w'\<lparr>m_pSeqSize := (m_pSeqSize w')[sl := 0], m_pSeqBufferId := (m_pSeqBufferId w')[sl := 32]\<rparr>"
  have sh: "shaped w'" using w'(2) by (simp add: holds_def)
  have other: "m mod 32 \<noteq> sl" if "m \<in> {br..<br + 32}" "m \<noteq> br" for m
    using mod32_neq [of br m] that by (auto simp: sl_def)
  have bv: "buf_of ?v m = buf_of w' m" if "m \<in> {br..<br + 32}" "m \<noteq> br" for m
    using other [OF that] by (simp add: buf_of_def)
  have bw: "buf_of w' m = buf_of w m" for m using w'(4) by (simp add: buf_of_def)
  have inP: "m \<in> {br..<br + 32} \<and> m \<noteq> br" if "m \<in> P - {br}" for m using that w(2) by auto
  have im: "buf_of ?v ` (P - {br}) = buf_of w' ` (P - {br})" using bv inP by (intro image_cong) auto
  have "inj_on (buf_of ?v) (P - {br}) = inj_on (buf_of w') (P - {br})" using bv inP by (intro inj_on_cong) blast
  then have "inj_on (buf_of ?v) (P - {br})" using w'(2) by (simp add: holds_def)
  moreover have "carries ?v m (pay m)" if "m \<in> P - {br}" for m
  proof -
    have "carries w' m (pay m)" using w'(2) that by (simp add: holds_def)
    then show ?thesis using bv [of m] other [of m] inP [OF that] by (simp add: carries_def)
  qed
  ultimately have h: "holds ?v (P - {br}) pay L" using w'(2) sh im by (simp add: holds_def shaped_def)
  have empty: "32 \<le> buf_of ?v n" if "n \<in> {Suc br..<br + 33}" "n \<notin> P - {br}" for n
  proof (cases "n = br + 32")
    case True
    then show ?thesis using sh by (simp add: buf_of_def sl_def shaped_def)
  next
    case False
    then have n: "n \<in> {br..<br + 32}" "n \<noteq> br" "n \<notin> P" using that by auto
    then show ?thesis using bv [OF n(1,2)] bw [of n] assms(1) by (simp add: recvs_def)
  qed
  have "P - {br} \<subseteq> {Suc br..<Suc br + 32}" using w(2) by auto
  moreover have "\<forall>n \<in> {Suc br..<Suc br + 32} - (P - {br}). 32 \<le> buf_of ?v n" by (intro ballI empty) auto
  ultimately show ?thesis using w'(1,3) h by (intro exI [of _ w'] conjI) (simp_all add: recvs_def)
qed

definition received :: "nat set \<Rightarrow> udp_sock \<Rightarrow> nat \<Rightarrow> nat set \<Rightarrow> (nat \<Rightarrow> bytes) \<Rightarrow> bool" where
  "received L s br P pay \<longleftrightarrow> recvs L (m_oRecvWindow s) br P pay \<and> lb_core (m_poRecvBuf s) \<and> m_nState s = SSTATE_ESTABLISH"

text \<open>The parts of the socket that receiving does not touch.\<close>

definition recv_kept :: "udp_sock \<Rightarrow> udp_sock \<Rightarrow> bool" where
  "recv_kept s s' \<longleftrightarrow> m_poSendBuf s' = m_poSendBuf s \<and> m_pDataHeader s' = m_pDataHeader s \<and> m_bSendLinger s' = m_bSendLinger s"

lemma recv_kept_update [simp]: "recv_kept s s" "recv_kept (s\<lparr>m_oRecvWindow := w\<rparr>) s' = recv_kept s s'" "recv_kept (s\<lparr>m_oSendWindow := w\<rparr>) s' = recv_kept s s'"
  "recv_kept (s\<lparr>m_poRecvBuf := b\<rparr>) s' = recv_kept s s'" "recv_kept (s\<lparr>m_bSendAck := f\<rparr>) s' = recv_kept s s'"
  "recv_kept s (s'\<lparr>m_oRecvWindow := w\<rparr>) = recv_kept s s'" "recv_kept s (s'\<lparr>m_oSendWindow := w\<rparr>) = recv_kept s s'"
  "recv_kept s (s'\<lparr>m_poRecvBuf := b\<rparr>) = recv_kept s s'"
  by (simp_all add: recv_kept_def)

lemma recv_kept_trans: "recv_kept s s' \<Longrightarrow> recv_kept s' s'' \<Longrightarrow> recv_kept s s''"
  by (simp add: recv_kept_def)

text \<open>The first packet of the window is handed over, or the connection closes for want of room.\<close>

lemma deliver_first:
  assumes "received L s br P pay" "br \<in> P" "br < k" "k \<le> br + 32"
  shows "(\<exists>s1. deliver_loop (of_nat (k - 1)) f s = deliver_loop (of_nat (k - 1)) (f \<or> pay br \<noteq> []) s1 \<and>
      received L s1 (Suc br) (P - {br}) pay \<and> m_oSendWindow s1 = m_oSendWindow s \<and> recv_kept s s1 \<and>
      lb_data (m_poRecvBuf s1) = lb_data (m_poRecvBuf s) @ pay br \<and>
      m_nFreeLen (m_poRecvBuf s1) = m_nFreeLen (m_poRecvBuf s) - int (length (pay br))) \<or>
    (\<exists>s1. deliver_loop (of_nat (k - 1)) f s = Some (False, f, s1) \<and> m_oSendWindow s1 = m_oSendWindow s \<and> recv_kept s s1 \<and>
      m_nState s1 \<noteq> SSTATE_ESTABLISH \<and> \<not> int (length (pay br)) \<le> m_nFreeLen (m_poRecvBuf s))"
proof -
  let ?w = "m_oRecvWindow s" and ?id = "br mod 32"
  let ?b = "m_pSeqBufferId ?w ! ?id"
  have r: "recvs L ?w br P pay" "lb_core (m_poRecvBuf s)" "m_nState s = SSTATE_ESTABLISH" using assms(1) by (simp_all add: received_def)
  have c: "carries ?w br (pay br)" "shaped ?w" using r(1) assms(2) by (auto simp: recvs_def holds_def)
  have b: "unat ?b < 32" "m_pSeqSize ?w ! ?id = length (pay br) + 3" "length (pay br) \<le> 509" using c(1) by (simp_all add: carries_def buf_of_def)
  have bg: "m_btBegin ?w = of_nat br" using r(1) by (simp add: recvs_def)
  have ne: "m_btBegin ?w \<noteq> of_nat (k - 1) + 1"
  proof -
    have "of_nat (k - 1) + 1 = (of_nat k :: byte)" using assms(3) by (cases k) (simp_all add: add.commute)
    then show ?thesis using of_nat_near [of br k] assms(3,4) bg by simp
  qed
  have src: "copy_from (m_ppBuffer ?w ! unat ?b) 3 (length (pay br)) = Some (pay br)"
    using c b(1) buffer_length [OF c(2) b(1)] by (simp add: copy_from_def carries_def buf_of_def)
  obtain ok1 b1 where b1: "(if length (pay br) > 0 then put_recv (pay br) (m_poRecvBuf s) else Some (True, m_poRecvBuf s)) = Some (ok1, b1)"
    "ok1 \<longrightarrow> lb_core b1 \<and> lb_data b1 = lb_data (m_poRecvBuf s) @ pay br \<and> m_nFreeLen b1 = m_nFreeLen (m_poRecvBuf s) - int (length (pay br))"
    "int (length (pay br)) \<le> m_nFreeLen (m_poRecvBuf s) \<longrightarrow> ok1"
    using put_recv_ok [OF r(2), of "pay br"] r(2) by (cases "pay br = []") auto
  have sz: "length (pay br) mod 65536 = length (pay br)" using b(3) by simp
  have got: "do { buf \<leftarrow> the_buffer ?b ?w; pBuffer \<leftarrow> copy_from buf 3 (length (pay br));
      (if length (pay br) > 0 then put_recv pBuffer (m_poRecvBuf s) else Some (True, m_poRecvBuf s)) } = Some (ok1, b1)"
    using b1(1) b(1) src by (simp add: the_buffer_eq)
  obtain w' where w': "give_back ?b ?w = Some w'" "m_btEnd w' = of_nat (br + 32)"
    "recvs L (w'\<lparr>m_pSeqSize := (m_pSeqSize w')[?id := 0], m_pSeqBufferId := (m_pSeqBufferId w')[?id := 32],
      m_btBegin := of_nat (Suc br), m_btEnd := of_nat (br + 33)\<rparr>) (Suc br) (P - {br}) pay"
    using recvs_step [OF r(1) assms(2)] by blast
  let ?v = "w'\<lparr>m_pSeqSize := (m_pSeqSize w')[?id := 0], m_pSeqBufferId := (m_pSeqBufferId w')[?id := 32],
      m_btBegin := of_nat (Suc br), m_btEnd := of_nat (br + 33)\<rparr>"
  let ?s = "s\<lparr>m_poRecvBuf := b1, m_bSendAck := True, m_oRecvWindow := ?v\<rparr>" and ?t = "udp_fail (NET_ERRNO 0) (s\<lparr>m_poRecvBuf := b1\<rparr>)"
  have e: "of_nat br + (1 :: byte) = of_nat (Suc br)" "of_nat (br + 32) + (1 :: byte) = of_nat (br + 33)" by (simp_all add: add.commute)
  have step: "deliver_loop (of_nat (k - 1)) f s = (if ok1 then deliver_loop (of_nat (k - 1)) (f \<or> length (pay br) > 0) ?s else Some (False, f, ?t))"
    using ne got bg w'(1,2) b(2) e sz
    by (subst deliver_loop.simps, cases ok1) (simp_all add: Let_def seq_id_of_nat s_dwWindowSize_def del: of_nat_Suc of_nat_add)
  show ?thesis
  proof (cases ok1)
    case True
    then have "received L ?s (Suc br) (P - {br}) pay" using w'(3) b1(2) r(3) by (simp add: received_def)
    then show ?thesis using step True b1(2) by (intro disjI1 exI [of _ ?s]) (simp add: recv_kept_def)
  next
    case False
    moreover have "m_nState ?t \<noteq> SSTATE_ESTABLISH" "m_oSendWindow ?t = m_oSendWindow s" "recv_kept s ?t"
      using r(3) by (auto simp: recv_kept_def udp_fail_def udp_Close_def udp_PushNetEvent_def udp_IsConnected_def Let_def)
    ultimately show ?thesis using step b1(3) by (intro disjI2 exI [of _ ?t]) simp
  qed
qed

lemma deliver_loop_ok:
  "received L s br P pay \<Longrightarrow> br \<le> k \<Longrightarrow> k \<le> br + 32 \<Longrightarrow> {br..<k} \<subseteq> P \<Longrightarrow> 1 \<le> br \<Longrightarrow>
    \<exists>ok f' s'. deliver_loop (of_nat (k - 1)) f s = Some (ok, f', s') \<and> m_oSendWindow s' = m_oSendWindow s \<and> recv_kept s s' \<and>
     (if ok then received L s' k (P - {..<k}) pay \<and> lb_data (m_poRecvBuf s') = lb_data (m_poRecvBuf s) @ concat (map pay [br..<k])
      else m_nState s' \<noteq> SSTATE_ESTABLISH) \<and>
     (int (length (concat (map pay [br..<k]))) \<le> m_nFreeLen (m_poRecvBuf s) \<longrightarrow> ok)"
proof (induction "k - br" arbitrary: br P s f)
  case 0
  then have k: "k = br" by simp
  then have d: "deliver_loop (of_nat (k - 1)) f s = Some (True, f, s)"
    using 0 by (subst deliver_loop.simps) (simp add: received_def recvs_def of_nat_diff)
  have P: "P - {..<k} = P" using 0 k by (auto simp: received_def recvs_def)
  show ?case by (rule exI [of _ True], rule exI [of _ f], rule exI [of _ s]) (use d P 0(2) k in simp)
next
  case (Suc j)
  have br: "br < k" "br \<in> P" using Suc.hyps(2) Suc.prems by auto
  have hd: "concat (map pay [br..<k]) = pay br @ concat (map pay [Suc br..<k])" using br(1) by (simp add: upt_conv_Cons)
  from deliver_first [OF Suc.prems(1) br(2,1) Suc.prems(3), of f] show ?case
  proof (elim disjE exE conjE)
    fix s1
    assume s1: "deliver_loop (of_nat (k - 1)) f s = deliver_loop (of_nat (k - 1)) (f \<or> pay br \<noteq> []) s1"
      "received L s1 (Suc br) (P - {br}) pay" "m_oSendWindow s1 = m_oSendWindow s" "recv_kept s s1"
      "lb_data (m_poRecvBuf s1) = lb_data (m_poRecvBuf s) @ pay br"
      "m_nFreeLen (m_poRecvBuf s1) = m_nFreeLen (m_poRecvBuf s) - int (length (pay br))"
    have "j = k - Suc br" "Suc br \<le> k" "k \<le> Suc br + 32" "{Suc br..<k} \<subseteq> P - {br}" "1 \<le> Suc br"
      using Suc.hyps(2) Suc.prems br by auto
    from Suc.hyps(1) [OF this(1) s1(2) this(2-5), of "f \<or> pay br \<noteq> []"] obtain ok f' s' where
      i: "deliver_loop (of_nat (k - 1)) f s = Some (ok, f', s')" "m_oSendWindow s' = m_oSendWindow s1" "recv_kept s1 s'"
        "if ok then received L s' k (P - {br} - {..<k}) pay \<and> lb_data (m_poRecvBuf s') = lb_data (m_poRecvBuf s1) @ concat (map pay [Suc br..<k])
         else m_nState s' \<noteq> SSTATE_ESTABLISH"
        "int (length (concat (map pay [Suc br..<k]))) \<le> m_nFreeLen (m_poRecvBuf s1) \<longrightarrow> ok"
      unfolding s1(1) by blast
    have Q: "P - {br} - {..<k} = P - {..<k}" using br(1) by auto
    have data: "lb_data (m_poRecvBuf s1) @ concat (map pay [Suc br..<k]) = lb_data (m_poRecvBuf s) @ concat (map pay [br..<k])"
      by (simp add: hd s1(5))
    have room: "int (length (concat (map pay [br..<k]))) \<le> m_nFreeLen (m_poRecvBuf s) \<longrightarrow> ok"
      using i(5) by (simp add: hd s1(6))
    show ?thesis
      by (intro exI conjI, rule i(1), simp only: i(2) s1(3), rule recv_kept_trans [OF s1(4) i(3)], rule i(4) [unfolded Q data], rule room)
  next
    fix s1
    assume s1: "deliver_loop (of_nat (k - 1)) f s = Some (False, f, s1)" "m_oSendWindow s1 = m_oSendWindow s" "recv_kept s s1"
      "m_nState s1 \<noteq> SSTATE_ESTABLISH" "\<not> int (length (pay br)) \<le> m_nFreeLen (m_poRecvBuf s)"
    show ?thesis by (rule exI [of _ False], rule exI [of _ f], rule exI [of _ s1]) (use s1 in \<open>simp add: hd\<close>)
  qed
qed

section \<open>A packet is received\<close>

text \<open>Which numbers are in a window.\<close>

lemma IsValidIndex_ok:
  assumes "m_btBegin w = of_nat b" "m_btEnd w = of_nat e" "b \<le> e" "e \<le> b + 32" "b \<le> x + 224" "x < b + 256"
  shows "IsValidIndex (of_nat x) w \<longleftrightarrow> b \<le> x \<and> x < e"
proof -
  have c: "unat (of_nat e - of_nat b :: byte) = e - b"
    using assms(3,4) by (simp flip: of_nat_diff add: unat_of_nat)
  show ?thesis
  proof (cases "b \<le> x")
    case True
    then have "unat (of_nat x - of_nat b :: byte) = x - b"
      using assms(6) by (simp flip: of_nat_diff add: unat_of_nat)
    then show ?thesis using c True assms(3) by (auto simp: IsValidIndex_def Let_def assms(1,2) word_less_nat_alt)
  next
    case False
    then have "of_nat (x + 256 - b) + of_nat b = (of_nat (x + 256) :: byte)" using assms(5) by (simp only: of_nat_add [symmetric]) simp
    moreover have "of_nat (x + 256) = (of_nat x :: byte)" by (simp only: of_nat_byte_eq) simp
    ultimately have "(of_nat x - of_nat b :: byte) = of_nat (x + 256 - b)" by (metis add_diff_cancel_right')
    then have "unat (of_nat x - of_nat b :: byte) = x + 256 - b"
      using False by (simp only: unat_of_nat) simp
    then show ?thesis using c False assms(4,5) by (auto simp: IsValidIndex_def Let_def assms(1,2) word_less_nat_alt)
  qed
qed

lemma recvs_finite: "recvs L w br P pay \<Longrightarrow> finite P"
  by (auto simp: recvs_def intro: finite_subset)

text \<open>The packet that is expected first is not there, so one buffer at least is free or lost.\<close>

lemma recvs_card:
  assumes "recvs L w br P pay" "br \<notin> P"
  shows "card P < 32"
proof -
  have "P \<subseteq> {Suc br..<br + 32}"
  proof
    fix n
    assume "n \<in> P"
    then show "n \<in> {Suc br..<br + 32}" using assms by (cases "n = br") (auto simp: recvs_def)
  qed
  then have "card P \<le> card {Suc br..<br + 32}" by (intro card_mono) auto
  then show ?thesis by simp
qed

lemma recvs_free:
  assumes "recvs L w br P pay"
  shows "unat (m_btFreeBufferId w) < 32 \<longleftrightarrow> card P + card L < 32" "card P + card L \<le> 32"
proof -
  have "holds w P pay L" using assms by (simp add: recvs_def)
  from holds_free [OF this recvs_finite [OF assms]]
  show "unat (m_btFreeBufferId w) < 32 \<longleftrightarrow> card P + card L < 32" "card P + card L \<le> 32" .
qed

text \<open>The packets that wait in a window, by the places of its table.\<close>

definition held :: "slide \<Rightarrow> nat" where
  "held w = length (filter (\<lambda>b. unat b < 32) (m_pSeqBufferId w))"

lemma held_ok:
  assumes "recvs L w br P pay"
  shows "held w = card P"
proof -
  have l: "length (m_pSeqBufferId w) = 32" "P \<subseteq> {br..<br + 32}" using assms by (simp_all add: recvs_def holds_def shaped_def)
  have b: "unat (m_pSeqBufferId w ! (n mod 32)) < 32 \<longleftrightarrow> n \<in> P" if "n \<in> {br..<br + 32}" for n
    using recvs_in [OF assms that] by (auto simp: buf_of_def)
  have "inj_on (\<lambda>n. n mod 32) P"
  proof (rule inj_onI)
    fix m n assume "m \<in> P" "n \<in> P" "m mod 32 = n mod 32"
    moreover from this have "m \<in> {br..<br + 32}" "n \<in> {br..<br + 32}" using l(2) by auto
    ultimately show "m = n" using mod32_neq [of m n] mod32_neq [of n m] by (cases m n rule: linorder_cases) auto
  qed
  moreover have "(\<lambda>n. n mod 32) ` P = {i. i < 32 \<and> unat (m_pSeqBufferId w ! i) < 32}"
  proof (intro set_eqI iffI)
    fix i assume "i \<in> (\<lambda>n. n mod 32) ` P"
    then obtain n where n: "i = n mod 32" "n \<in> P" by auto
    then show "i \<in> {i. i < 32 \<and> unat (m_pSeqBufferId w ! i) < 32}" using b [of n] l(2) by auto
  next
    fix i assume i: "i \<in> {i. i < 32 \<and> unat (m_pSeqBufferId w ! i) < 32}"
    define k where "k = br div 32"
    define r where "r = br mod 32"
    have br: "br = 32 * k + r" "r < 32" by (simp_all add: k_def r_def)
    define n where "n = br + (i + 32 - r) mod 32"
    have "br + (i + 32 - r) = i + 32 * (k + 1)" using br(2) by (simp add: br(1))
    then have "(br + (i + 32 - r)) mod 32 = i mod 32" by (simp only: mod_mult_self2)
    then have "(br + (i + 32 - r)) mod 32 = i" using i by simp
    then have n: "n mod 32 = i" unfolding n_def by (simp only: mod_add_right_eq)
    moreover have "n \<in> {br..<br + 32}" by (simp add: n_def)
    ultimately have "n \<in> P" using b [of n] i by simp
    then show "i \<in> (\<lambda>n. n mod 32) ` P" using n by blast
  qed
  ultimately have "card P = card {i. i < 32 \<and> unat (m_pSeqBufferId w ! i) < 32}" by (metis card_image)
  then show ?thesis by (simp add: held_def length_filter_conv_card l(1))
qed

lemma packet_in_buffer:
  assumes "recvs L w br P pay" "card P + card L < 32" "length pkt \<le> 512"
  shows "\<exists>b w1 w2. take_free w = Some (b, w1) \<and> write_buffer b pkt w1 = Some w2 \<and> holds w2 P pay (insert (unat b) L) \<and> unat b \<notin> L \<and>
    m_btBegin w2 = of_nat br \<and> m_btEnd w2 = of_nat (br + 32) \<and> m_pSeqBufferId w2 = m_pSeqBufferId w \<and>
    take (length pkt) (m_ppBuffer w2 ! unat b) = pkt"
proof -
  let ?b = "m_btFreeBufferId w"
  have w: "holds w P pay L" "P \<subseteq> {br..<br + 32}" using assms(1) by (simp_all add: recvs_def)
  have b: "unat ?b < 32" using recvs_free(1) [OF assms(1)] assms(2) by simp
  obtain w1 where w1: "take_free w = Some (?b, w1)" "holds w1 P pay (insert (unat ?b) L)" "unat ?b \<notin> L" "m_btBegin w1 = of_nat br" "m_btEnd w1 = of_nat (br + 32)"
    "m_pSeqBufferId w1 = m_pSeqBufferId w"
    using take_free_ok [OF w(1) b] assms(1) by (auto simp: recvs_def)
  have sh: "shaped w1" using w1(2) by (simp add: holds_def)
  let ?buf = "blit (m_ppBuffer w1 ! unat ?b) 0 pkt"
  let ?w2 = "w1\<lparr>m_ppBuffer := (m_ppBuffer w1)[unat ?b := ?buf]\<rparr>"
  have "write_buffer ?b pkt w1 = Some ?w2" by (rule write_buffer_eq [OF sh b assms(3)])
  moreover have "holds ?w2 P pay (insert (unat ?b) L)"
    using holds_write [OF w1(2), of "unat ?b" ?buf] buffer_length [OF sh b] assms(3) by simp
  moreover have "take (length pkt) (m_ppBuffer ?w2 ! unat ?b) = pkt"
    using sh b by (simp add: shaped_def blit_def)
  ultimately show ?thesis using w1 by (intro exI [of _ ?b] exI [of _ w1] exI [of _ ?w2]) simp
qed

text \<open>A packet that was not there yet is put into the window.\<close>

lemma recvs_insert:
  assumes "holds w P pay (insert (unat b) L)" "unat b \<notin> L" "P \<subseteq> {br..<br + 32}" "m_btBegin w = of_nat br" "m_btEnd w = of_nat (br + 32)"
    and "\<forall>m \<in> {br..<br + 32} - P. 32 \<le> buf_of w m" "n \<in> {br..<br + 32}" "n \<notin> P"
    and "length (pay n) \<le> 509" "take (length (pay n)) (drop 3 (m_ppBuffer w ! unat b)) = pay n"
  shows "recvs L (w\<lparr>m_pSeqBufferId := (m_pSeqBufferId w)[n mod 32 := b], m_pSeqSize := (m_pSeqSize w)[n mod 32 := length (pay n) + 3]\<rparr>)
    br (insert n P) pay" (is "recvs L ?w _ _ _")
proof -
  have ne: "m mod 32 \<noteq> n mod 32" if "m \<in> {br..<br + 32}" "m \<noteq> n" for m
    using mod32_neq [of m n] mod32_neq [of n m] that assms(7) by (cases "m < n") auto
  have "m mod 32 \<noteq> n mod 32" if "m \<in> P" for m by (rule ne) (use that assms(3,8) in auto)
  then have "holds ?w (insert n P) (pay(n := pay n)) L"
    by (intro holds_assign [OF assms(1,2,8) _ assms(9,10)]) auto
  moreover have "32 \<le> buf_of ?w m" if "m \<in> {br..<br + 32} - insert n P" for m
    using assms(6) that ne [of m] by (auto simp: buf_of_def)
  ultimately show ?thesis using assms(3-5,7) by (auto simp: recvs_def)
qed

text \<open>What \<open>OnRecv\<close> does with a packet of an established connection.\<close>

definition got_packet :: "nat set \<Rightarrow> udp_sock \<Rightarrow> udp_sock \<Rightarrow> nat \<Rightarrow> nat set \<Rightarrow> (nat \<Rightarrow> bytes) \<Rightarrow> bool" where
  "got_packet L s s' br Q pay \<longleftrightarrow> (\<exists>k. br \<le> k \<and> k \<le> br + 32 \<and> {br..<k} \<subseteq> Q \<and> k \<notin> Q \<and>
     (if m_nState s' = SSTATE_ESTABLISH
      then received L s' k (Q - {..<k}) pay \<and> lb_data (m_poRecvBuf s') = lb_data (m_poRecvBuf s) @ concat (map pay [br..<k])
      else m_nFreeLen (m_poRecvBuf s) < int (length (concat (map pay [br..<k])))))"

lemma deliver_new:
  assumes "recvs L w br Q pay" "lb_core (m_poRecvBuf s)" "m_nState s = SSTATE_ESTABLISH" "1 \<le> br" "m_oRecvWindow s = w"
  shows "\<exists>f s'. (if new_ack (m_btBegin w) (m_btBegin w - 1) w \<noteq> m_btBegin w - 1
      then do { (ok, parse, s') \<leftarrow> deliver_loop (new_ack (m_btBegin w) (m_btBegin w - 1) w) False s; Some (ok \<and> parse, s') }
      else Some (False, s)) = Some (f, s') \<and> m_oSendWindow s' = m_oSendWindow s \<and> recv_kept s s' \<and> got_packet L s s' br Q pay"
proof -
  have w: "m_btBegin w = of_nat br" "m_btBegin w - 1 = of_nat (br - 1)" using assms(1,4) by (simp_all add: recvs_def of_nat_diff)
  obtain k where k: "new_ack (of_nat br) (of_nat (br - 1)) w = of_nat (k - 1)" "br \<le> k" "k \<le> br + 32" "{br..<k} \<subseteq> Q" "k \<notin> Q"
    using new_ack_ok [OF assms(1), of br] assms(4) by auto
  have rec: "received L s br Q pay" using assms by (simp add: received_def)
  show ?thesis
  proof (cases "k = br")
    case True
    have "Q - {..<br} = Q" using assms(1) by (auto simp: recvs_def)
    then have "got_packet L s s br Q pay"
      unfolding got_packet_def by (intro exI [of _ br]) (use rec k(5) True assms(3) in simp)
    moreover have "new_ack (m_btBegin w) (m_btBegin w - 1) w = m_btBegin w - 1" using k(1) True w by simp
    ultimately show ?thesis by (simp add: ex_bool_eq)
  next
    case False
    have "(of_nat (br - 1) :: byte) \<noteq> of_nat (k - 1)" using of_nat_near [of "br - 1" "k - 1"] False k(2,3) assms(4) by simp
    then have ne: "new_ack (m_btBegin w) (m_btBegin w - 1) w \<noteq> m_btBegin w - 1" using k(1) w by simp
    obtain ok f s' where d: "deliver_loop (of_nat (k - 1)) False s = Some (ok, f, s')" "m_oSendWindow s' = m_oSendWindow s" "recv_kept s s'"
      "if ok then received L s' k (Q - {..<k}) pay \<and> lb_data (m_poRecvBuf s') = lb_data (m_poRecvBuf s) @ concat (map pay [br..<k])
       else m_nState s' \<noteq> SSTATE_ESTABLISH"
      "int (length (concat (map pay [br..<k]))) \<le> m_nFreeLen (m_poRecvBuf s) \<longrightarrow> ok"
      using deliver_loop_ok [OF rec k(2,3,4) assms(4), of False] by blast
    have "got_packet L s s' br Q pay"
      unfolding got_packet_def using k d(4,5) by (intro exI [of _ k]) (cases ok; simp add: received_def)
    then show ?thesis using ne d(1-3) k(1) w by simp
  qed
qed

lemma udp_OnRecv_ok:
  assumes s: "received L s br P pay" "sends (m_oSendWindow s) bs es pay'" "br \<notin> P" "1 \<le> br" "card P + card L < 32"
    and n: "n < br + 32" "br \<le> n + 224" "br \<le> n \<Longrightarrow> d = pay n" "length d \<le> 509" and a: "a < es" "bs \<le> a + 224"
  shows "\<exists>f s'. udp_OnRecv (Received (packet SSTATE_ESTABLISH n (of_nat a) d)) s = Some (f, s') \<and> recv_kept s s' \<and>
    sends (m_oSendWindow s') (if bs \<le> a then Suc a else bs) es pay' \<and> got_packet L s s' br (if br \<le> n then insert n P else P) pay"
proof -
  let ?pkt = "packet SSTATE_ESTABLISH n (of_nat a) d" and ?sw = "m_oSendWindow s"
  define s0 where "s0 = (if IsEmpty (m_poRecvBuf s) then s\<lparr>m_poRecvBuf := Clear (m_poRecvBuf s)\<rparr> else s)"
  have s0: "m_oSendWindow s0 = ?sw" "recv_kept s s0" "m_oRecvWindow s0 = m_oRecvWindow s" "m_nState s0 = SSTATE_ESTABLISH"
    "lb_core (m_poRecvBuf s0)" "lb_data (m_poRecvBuf s0) = lb_data (m_poRecvBuf s)" "m_nFreeLen (m_poRecvBuf s0) = m_nFreeLen (m_poRecvBuf s)"
    using s(1) Clear_core [of "m_poRecvBuf s"] by (auto simp: s0_def received_def)
  have con: "udp_IsConnected s" using s(1) by (simp add: received_def udp_IsConnected_def)
  have pkt: "length ?pkt = length d + 3" "?pkt ! 0 = state_byte SSTATE_ESTABLISH" "?pkt ! Suc 0 = of_nat n" "?pkt ! 2 = of_nat a" "drop 3 ?pkt = d"
    by (simp_all add: packet_def UDPPacketHeader_def)
  have r: "recvs L (m_oRecvWindow s) br P pay" using s(1) by (simp add: received_def)
  have P: "P \<subseteq> {br..<br + 32}" using r by (simp add: recvs_def)
  obtain b w1 w2 where w: "take_free (m_oRecvWindow s) = Some (b, w1)" "write_buffer b ?pkt w1 = Some w2" "holds w2 P pay (insert (unat b) L)"
    "m_btBegin w2 = of_nat br" "m_btEnd w2 = of_nat (br + 32)" "m_pSeqBufferId w2 = m_pSeqBufferId (m_oRecvWindow s)"
    "take (length ?pkt) (m_ppBuffer w2 ! unat b) = ?pkt" "unat b \<notin> L"
    using packet_in_buffer [OF r s(5), of ?pkt] n(4) pkt(1) by auto
  have bw: "buf_of w2 m = buf_of (m_oRecvWindow s) m" for m using w(6) by (simp add: buf_of_def)
  have valid: "IsValidIndex (of_nat n) w2 \<longleftrightarrow> br \<le> n" using IsValidIndex_ok [OF w(4,5), of n] n by auto
  have va: "IsValidIndex (of_nat a) ?sw \<longleftrightarrow> bs \<le> a"
    using IsValidIndex_ok [of ?sw bs es a] s(2) a sends_bound [OF s(2)] by (auto simp: sends_def)
  obtain sw where sw: "(if IsValidIndex (of_nat a) ?sw then ack_loop (of_nat a) ?sw else Some ?sw) = Some sw"
    "sends sw (if bs \<le> a then Suc a else bs) es pay'"
    using ack_loop_ok [OF s(2), of a] a(1) s(2) va by (cases "bs \<le> a") auto
  have full: "unat (m_pSeqBufferId w2 ! (n mod 32)) \<ge> 32 \<longleftrightarrow> n \<notin> P" if "br \<le> n"
    using recvs_in [OF r, of n] n(1) that w(6) by (simp add: buf_of_def)
  show ?thesis
  proof (cases "br \<le> n \<and> n \<notin> P")
    case True
    let ?w = "w2\<lparr>m_pSeqBufferId := (m_pSeqBufferId w2)[n mod 32 := b], m_pSeqSize := (m_pSeqSize w2)[n mod 32 := length d + 3]\<rparr>"
    let ?s = "s0\<lparr>m_oSendWindow := sw, m_oRecvWindow := ?w\<rparr>"
    have bg: "m_btBegin ?w = m_btBegin w2" by simp
    have d: "d = pay n" using n(3) True by simp
    have "take (length d) (drop 3 (m_ppBuffer w2 ! unat b)) = drop 3 (take (length ?pkt) (m_ppBuffer w2 ! unat b))"
      by (simp add: pkt(1) drop_take)
    then have "take (length d) (drop 3 (m_ppBuffer w2 ! unat b)) = d" by (simp add: w(7) pkt(5))
    then have "recvs L ?w br (insert n P) pay"
      using recvs_insert [OF w(3,8) P w(4,5), of n] True n(1,4) r bw d by (simp add: recvs_def)
    from deliver_new [OF this, of ?s] obtain f s' where f: "(if new_ack (m_btBegin ?w) (m_btBegin ?w - 1) ?w \<noteq> m_btBegin ?w - 1
        then do { (ok, parse, s') \<leftarrow> deliver_loop (new_ack (m_btBegin ?w) (m_btBegin ?w - 1) ?w) False ?s; Some (ok \<and> parse, s') }
        else Some (False, ?s)) = Some (f, s')" "m_oSendWindow s' = sw" "recv_kept s s'" "got_packet L ?s s' br (insert n P) pay"
      using s0 s(4) recv_kept_trans [OF s0(2)] by auto
    have "udp_OnRecv (Received ?pkt) s = Some (f, s')"
      using con w(1,2) sw(1) va pkt(1-4) valid full True f(1) [unfolded bg]
      by (cases "bs \<le> a"; cases "new_ack (m_btBegin w2) (m_btBegin w2 - 1) ?w = m_btBegin w2 - 1")
        (simp_all add: udp_OnRecv_def s0_def [symmetric] s0 seq_id_of_nat s_dwWindowSize_def Let_def)
    moreover have same: "lb_data (m_poRecvBuf ?s) = lb_data (m_poRecvBuf s)" "m_nFreeLen (m_poRecvBuf ?s) = m_nFreeLen (m_poRecvBuf s)"
      using s0 by simp_all
    then have "got_packet L s s' br (insert n P) pay" using f(4) unfolding got_packet_def same by simp
    ultimately show ?thesis using f(2,3) sw(2) True by auto
  next
    case False
    obtain w3 where w3: "give_back b w2 = Some w3" "holds w3 P pay L" "m_btBegin w3 = of_nat br" "m_btEnd w3 = of_nat (br + 32)"
      "m_pSeqBufferId w3 = m_pSeqBufferId w2"
      using give_back_ok [OF w(3,8)] w(4,5) by auto
    let ?s = "s0\<lparr>m_oSendWindow := sw, m_oRecvWindow := w3\<rparr>"
    have run: "udp_OnRecv (Received ?pkt) s = Some (False, ?s)"
      using con w(1,2) sw(1) va pkt(1-4) valid full False w3(1)
      by (cases "bs \<le> a") (auto simp: udp_OnRecv_def s0_def [symmetric] s0 seq_id_of_nat s_dwWindowSize_def Let_def)
    have "recvs L w3 br P pay" using w3 r w(6) P by (simp add: recvs_def buf_of_def)
    then have "received L ?s br P pay" using s0 by (simp add: received_def)
    moreover have "P - {..<br} = P" and Q: "(if br \<le> n then insert n P else P) = P" using P False by auto
    ultimately have "got_packet L s ?s br P pay"
      unfolding got_packet_def using s(3) s0 by (intro exI [of _ br]) simp
    with run show ?thesis unfolding Q
      by (intro exI [of _ False] exI [of _ ?s]) (use s0(2) sw(2) in simp)
  qed
qed

text \<open>When \<open>recv\<close> finds nothing to read, the buffer that was taken for it is never given back.\<close>

lemma udp_OnRecv_again:
  assumes "received L s br P pay" "card P + card L < 32"
  shows "\<exists>b s'. udp_OnRecv (Recv_error True e) s = Some (False, s') \<and> b \<notin> L \<and> received (insert b L) s' br P pay \<and>
    m_oSendWindow s' = m_oSendWindow s \<and> recv_kept s s' \<and> lb_data (m_poRecvBuf s') = lb_data (m_poRecvBuf s) \<and>
    m_btBegin (m_oRecvWindow s') = m_btBegin (m_oRecvWindow s)"
proof -
  let ?w = "m_oRecvWindow s" and ?b = "m_btFreeBufferId (m_oRecvWindow s)"
  define s0 where "s0 = (if IsEmpty (m_poRecvBuf s) then s\<lparr>m_poRecvBuf := Clear (m_poRecvBuf s)\<rparr> else s)"
  have w: "recvs L ?w br P pay" "m_nState s = SSTATE_ESTABLISH" using assms(1) by (simp_all add: received_def)
  have s0: "m_oSendWindow s0 = m_oSendWindow s" "recv_kept s s0" "m_oRecvWindow s0 = ?w" "m_nState s0 = SSTATE_ESTABLISH"
    "lb_core (m_poRecvBuf s0)" "lb_data (m_poRecvBuf s0) = lb_data (m_poRecvBuf s)"
    using assms(1) Clear_core [of "m_poRecvBuf s"] by (auto simp: s0_def received_def)
  have h: "holds ?w P pay L" using w(1) by (simp add: recvs_def)
  have "unat ?b < 32" using recvs_free(1) [OF w(1)] assms(2) by simp
  from take_free_ok [OF h this] obtain w1 where w1: "take_free ?w = Some (?b, w1)" "holds w1 P pay (insert (unat ?b) L)"
    "unat ?b \<notin> L" "m_btBegin w1 = m_btBegin ?w" "m_btEnd w1 = m_btEnd ?w" "m_pSeqBufferId w1 = m_pSeqBufferId ?w"
    by blast
  let ?s = "s0\<lparr>m_oRecvWindow := w1\<rparr>"
  have "udp_OnRecv (Recv_error True e) s = Some (False, ?s)"
    using w1(1) w(2) s0(3) by (simp add: udp_OnRecv_def udp_IsConnected_def s0_def [symmetric] Let_def)
  moreover have "received (insert (unat ?b) L) ?s br P pay"
    using w(1) w1 s0 by (simp add: received_def recvs_def buf_of_def)
  ultimately show ?thesis using w1(3,4) s0 by (intro exI [of _ "unat ?b"] exI [of _ ?s]) simp
qed

text \<open>Without a buffer even to take, \<open>OnRecv\<close> reads the pointer behind the array of buffers.\<close>

lemma udp_OnRecv_no_buffer:
  assumes "received L s br P pay" "card P + card L = 32"
  shows "udp_OnRecv rr s = None"
proof -
  let ?w = "m_oRecvWindow s"
  have w: "recvs L ?w br P pay" "m_nState s = SSTATE_ESTABLISH" using assms(1) by (simp_all add: received_def)
  have "shaped ?w" using w(1) by (simp add: recvs_def holds_def)
  moreover have "\<not> unat (m_btFreeBufferId ?w) < 32" using recvs_free(1) [OF w(1)] assms(2) by simp
  ultimately have "take_free ?w = None" by (rule take_free_full)
  then show ?thesis using w(2) by (simp add: udp_OnRecv_def udp_IsConnected_def Let_def)
qed

end
