(* ===== verification/UdpLink.thy ===== *)
theory UdpLink imports UdpRecv TcpLink begin

text \<open>
  Two connected sockets of \<open>UdpSock\<close> and the network between them, which may lose, repeat and reorder
  datagrams as long as none arrives 224 numbers behind the windows.  Each end carries what does not
  exist in the program: the unbounded numbers behind the bytes on the wire, the messages \<open>Send\<close> accepted
  and those the session was handed, every datagram ever sent, and the number of buffers that calls of
  \<open>recv\<close> which found nothing have lost.  The parsing of the received bytes, which is that of the TCP
  connection, appears as its result: the main thread reads packets of the length that the header in front
  of the stored bytes announces.
\<close>

section \<open>The sending end\<close>

definition posts :: "udp_sock \<Rightarrow> nat \<Rightarrow> nat \<Rightarrow> (nat \<Rightarrow> bytes) \<Rightarrow> bool" where
  "posts s bs es pay \<longleftrightarrow> sends (m_oSendWindow s) bs es pay \<and> lb_core (m_poSendBuf s) \<and> header_ok (m_pDataHeader s) \<and>
     \<not> m_bSendLinger s \<and> m_nState s = SSTATE_ESTABLISH"

lemma udp_Send_ok:
  assumes s: "posts s bs es pay" and m: "length m + 8 < 2 ^ 31" "int (8 + length m) \<le> m_nTotalLen (m_poSendBuf s)" "8 + length m \<le> length tem"
  defines "ok \<equiv> int (8 + length m) \<le> m_nFreeLen (m_poSendBuf s)"
  shows "\<exists>tem' s'. udp_Send sleep m (length m) tem s = Some (ok, tem', s') \<and> length tem' = length tem \<and> posts s' bs es pay \<and>
    lb_data (m_poSendBuf s') = lb_data (m_poSendBuf s) @ (if ok then pkt_frame m else []) \<and>
    m_oSendWindow s' = m_oSendWindow s \<and> m_oRecvWindow s' = m_oRecvWindow s \<and> m_poRecvBuf s' = m_poRecvBuf s"
proof -
  define s0 where "s0 = (if IsEmpty (m_poSendBuf s) then s\<lparr>m_poSendBuf := Clear (m_poSendBuf s)\<rparr> else s)"
  have s0: "posts s0 bs es pay" "lb_data (m_poSendBuf s0) = lb_data (m_poSendBuf s)" "m_nFreeLen (m_poSendBuf s0) = m_nFreeLen (m_poSendBuf s)"
    "m_nTotalLen (m_poSendBuf s0) = m_nTotalLen (m_poSendBuf s)" "m_oSendWindow s0 = m_oSendWindow s" "m_oRecvWindow s0 = m_oRecvWindow s"
    "m_poRecvBuf s0 = m_poRecvBuf s"
    using s Clear_core [of "m_poSendBuf s"] by (auto simp: s0_def posts_def)
  have "length m < 2 ^ LENGTH(32)" using m(1) by simp
  then have w: "unat (of_nat (length m) :: 32 word) = length m" by (simp add: unsigned_of_nat take_bit_nat_eq_self)
  let ?s1 = "s0\<lparr>m_pDataHeader := (m_pDataHeader s0)\<lparr>m_dataSendBuffer := pkg_header (length m)\<rparr>\<rparr>"
  have 1: "BuildSendPkgHeader (of_nat (length m)) (m_pDataHeader s0) = Some (pkg_header (length m), 8, m_pDataHeader ?s1)"
    using BuildSendPkgHeader_eq [of "m_pDataHeader s0" "of_nat (length m)"] s0(1) w by (simp add: posts_def)
  obtain os1 os2 where os: "WriteData (pkg_header (length m)) 8 (CNetStream ENetStreamType_Write tem 0 (length m + 8)) = Some (True, os1)"
    "WriteData m (length m) os1 = Some (True, os2)" "length (m_mem os2) = length tem" "take (8 + length m) (m_mem os2) = pkt_frame m"
    using write_frame [OF m(3)] by blast
  have run: "udp_Send sleep m (length m) tem s = (case PushBuff (m_mem os2) (int (length m + 8)) (m_poSendBuf s0) of
      None \<Rightarrow> None | Some (ok, b) \<Rightarrow> Some (ok, m_mem os2, ?s1\<lparr>m_poSendBuf := b\<rparr>))"
    using s s0 1 os(1,2) m(2)
    by (simp add: udp_Send_def s0_def [symmetric] posts_def udp_IsConnected_def GetTotalLen_def GetHeaderLength_def HEADER_SIZE_def Let_def
        push_retry.simps [of _ False] del: push_retry.simps split: option.split)
  have k: "posts (?s1\<lparr>m_poSendBuf := b\<rparr>) bs es pay" if "lb_core b" for b
    using s0(1) that by (simp add: posts_def header_ok_def HEADER_SIZE_def)
  show ?thesis
  proof (cases "int (8 + length m) \<le> m_nFreeLen (m_poSendBuf s)")
    case True
    obtain b where b: "PushBuff (m_mem os2) (int (length m + 8)) (m_poSendBuf s0) = Some (True, b)" "lb_core b"
      "lb_data b = lb_data (m_poSendBuf s0) @ take (length m + 8) (m_mem os2)"
      using PushBuff_core [of "m_poSendBuf s0" "int (length m + 8)" "m_mem os2"] s0 True os(3) m(3) by (auto simp: posts_def nat_add_distrib)
    then show ?thesis using run k [OF b(2)] True s0 os(3,4) by (simp add: add.commute ok_def)
  next
    case False
    then have "PushBuff (m_mem os2) (int (length m + 8)) (m_poSendBuf s0) = Some (False, m_poSendBuf s0)"
      using s0(3) by (intro PushBuff_refused) simp
    then show ?thesis using run k [of "m_poSendBuf s0"] False s0 os(3) by (simp add: posts_def ok_def)
  qed
qed

text \<open>The bytes that \<open>PostSend\<close> looks at.\<close>

lemma out_region:
  assumes "lb_core b" "GetOutCursorPtr b = (p, k)"
  shows "\<exists>d r. (if k > 0 then copy_out p k b else Some []) = Some d \<and> lb_data b = d @ r \<and> (lb_data b \<noteq> [] \<longrightarrow> d \<noteq> []) \<and>
    (\<forall>j \<le> length d. 0 < j \<longrightarrow> (\<exists>b'. DiscardBuff (int j) b = (True, b') \<and> lb_core b' \<and> lb_data b' = drop j (lb_data b)))"
proof (cases "lb_data b = []")
  case True
  then show ?thesis using GetOutCursorPtr_region [OF assms] by auto
next
  case False
  then obtain off where off: "p = Some off" "0 \<le> off" "0 < k" "nat off + nat k \<le> length (lb_block b)" "k \<le> used_len b"
    "take (nat k) (drop (nat off) (lb_block b)) = take (nat k) (lb_data b)"
    using GetOutCursorPtr_region [OF assms] by auto
  have blk: "m_pszBuff b = Some (lb_block b)" using assms(1) by (auto simp: lb_core_def lb_block_def split: option.splits)
  have out: "copy_out p k b = Some (take (nat k) (lb_data b))" using off by (simp add: copy_out_def blk)
  have "\<exists>b'. DiscardBuff (int j) b = (True, b') \<and> lb_core b' \<and> lb_data b' = drop j (lb_data b)"
    if "j \<le> length (take (nat k) (lb_data b))" "0 < j" for j
  proof -
    have j: "0 < int j" "int j \<le> used_len b" using that off(5) by auto
    show ?thesis using DiscardBuff_core [OF assms(1) j] by auto
  qed
  moreover have "lb_data b = take (nat k) (lb_data b) @ drop (nat k) (lb_data b)" "take (nat k) (lb_data b) \<noteq> []"
    using False off(3) by simp_all
  ultimately show ?thesis using out off(3)
    by (intro exI [of _ "take (nat k) (lb_data b)"] exI [of _ "drop (nat k) (lb_data b)"]) auto
qed

text \<open>\<open>PostSend\<close>: what leaves the send buffer is in the window, in order, and every datagram carries a
  number of the window with its data, or, for a bare acknowledgement, the number before the window and no
  data.\<close>

definition on_wire :: "nat \<Rightarrow> nat \<Rightarrow> (nat \<Rightarrow> bytes) \<Rightarrow> byte \<Rightarrow> bytes \<Rightarrow> bool" where
  "on_wire bs es pay ack p \<longleftrightarrow> (\<exists>n < es. bs \<le> Suc n \<and> p = packet SSTATE_ESTABLISH n ack (if bs \<le> n then pay n else []))"

lemma add_empty:
  assumes "sends w bs es pay"
  shows "\<exists>w' es' pay'. (if c \<and> unat (m_btFreeBufferId w) < s_dwWindowSize then add_packet st ack [] w else Some w) = Some w' \<and>
    sends w' bs es' pay' \<and> es \<le> es' \<and> (\<forall>n < es. pay' n = pay n) \<and> concat (map pay' [es..<es']) = []"
proof (cases "c \<and> unat (m_btFreeBufferId w) < s_dwWindowSize")
  case True
  then obtain w' where "add_packet st ack [] w = Some w'" "sends w' bs (Suc es) (pay(es := []))"
    using add_packet_ok [OF assms, of st ack "[]"] by (auto simp: s_dwWindowSize_def)
  then show ?thesis using True by (intro exI [of _ w'] exI [of _ "Suc es"] exI [of _ "pay(es := [])"]) simp
next
  case False
  then show ?thesis using assms by (intro exI [of _ w] exI [of _ es] exI [of _ pay]) auto
qed

text \<open>The decisions that let out what waits; the code keeps the control between 1 and 32.\<close>

definition all_due :: "send_choice \<Rightarrow> bool" where
  "all_due c \<longleftrightarrow> \<not> lost c \<and> \<not> quiet c \<and> 0 < control c \<and> (\<forall>i. due c i) \<and> (\<forall>i. \<exists>k > 0. sys_send c i = Sent k)"

text \<open>What a call of \<open>PostSend\<close> does to the window.\<close>

lemma window_round:
  assumes "sends w bs es pay"
  shows "\<exists>rst w1 w2 e ps w3 es2 pay2. fill_window (control c) st ack d w = Some (rst, w1) \<and>
    (if m_btBegin w1 = m_btEnd w1 \<and> idle c \<and> unat (m_btFreeBufferId w1) < s_dwWindowSize then add_packet st ack [] w1 else Some w1) = Some w2 \<and>
    m_btBegin w2 = of_nat bs \<and> send_loop (control c) (due c) (sys_send c) st ack (of_nat bs) w2 = Some (e, ps, w3) \<and> sends w3 bs es2 pay2 \<and>
    es \<le> es2 \<and> (\<forall>n < es. pay2 n = pay n) \<and> concat (map pay2 [es..<es2]) @ rst = d \<and>
    (\<forall>p \<in> set ps. \<exists>m. bs \<le> m \<and> m < es2 \<and> p = packet st m ack (pay2 m)) \<and>
    (all_due c \<longrightarrow> d \<noteq> [] \<longrightarrow> ps \<noteq> [] \<and> hd ps = packet st bs ack (pay2 bs))"
proof -
  obtain rst w1 es1 pay1 where f: "fill_window (control c) st ack d w = Some (rst, w1)" "sends w1 bs es1 pay1" "es \<le> es1"
    "\<forall>n < es. pay1 n = pay n" "concat (map pay1 [es..<es1]) @ rst = d"
    "bs = es \<longrightarrow> d \<noteq> [] \<longrightarrow> 0 \<le> control c \<longrightarrow> es < es1"
    using fill_window_ok [OF assms] by blast
  obtain w2 es2 pay2 where g: "(if m_btBegin w1 = m_btEnd w1 \<and> idle c \<and> unat (m_btFreeBufferId w1) < s_dwWindowSize
      then add_packet st ack [] w1 else Some w1) = Some w2" "sends w2 bs es2 pay2" "es1 \<le> es2" "\<forall>n < es1. pay2 n = pay1 n"
    "concat (map pay2 [es1..<es2]) = []"
    using add_empty [OF f(2), of "m_btBegin w1 = m_btEnd w1 \<and> idle c" st ack] unfolding conj_assoc by blast
  have bs2: "bs \<le> es2" "m_btBegin w2 = of_nat bs" using g(2) by (simp_all add: sends_def)
  obtain e ps w3 where l: "send_loop (control c) (due c) (sys_send c) st ack (of_nat bs) w2 = Some (e, ps, w3)"
    "sends w3 bs es2 pay2" "\<forall>p \<in> set ps. \<exists>m. bs \<le> m \<and> m < es2 \<and> p = packet st m ack (pay2 m)"
    using send_loop_ok [OF g(2) order_refl bs2(1)] by blast
  have "[es..<es2] = [es..<es1] @ [es1..<es2]" using upt_add_eq_append [OF f(3), of "es2 - es1"] g(3) by simp
  moreover have "map pay2 [es..<es1] = map pay1 [es..<es1]" using g(4) by simp
  ultimately have data: "concat (map pay2 [es..<es2]) @ rst = d"
    unfolding f(5) [symmetric] using g(5) by (simp only: map_append concat_append append_Nil2)
  have some: "ps \<noteq> [] \<and> hd ps = packet st bs ack (pay2 bs)" if "all_due c" "d \<noteq> []"
  proof -
    have "bs \<le> es" using assms by (simp add: sends_def)
    then have lt: "bs < es2" using f(3,6) that g(3) by (cases "bs = es") (auto simp: all_due_def)
    have "\<exists>k > 0. sys_send c (of_nat bs) = Sent k" using that(1) by (simp add: all_due_def)
    then obtain k where "0 < k" "sys_send c (of_nat bs) = Sent k" by (elim exE conjE)
    then show ?thesis using send_loop_first [OF g(2) lt l(1), of k] that(1) by (simp add: all_due_def)
  qed
  have "es \<le> es2" "\<forall>n < es. pay2 n = pay n" using f(3,4) g(3,4) by auto
  with f(1) g(1) bs2(2) l data some show ?thesis by blast
qed

lemma udp_PostSend_ok:
  assumes s: "posts s bs es pay" "1 \<le> bs"
  shows "\<exists>ok ps s' es' pay'. udp_PostSend c s = Some (ok, ps, s') \<and> posts s' bs es' pay' \<and> es \<le> es' \<and> (\<forall>n < es. pay' n = pay n) \<and>
    concat (map pay' [es..<es']) @ lb_data (m_poSendBuf s') = lb_data (m_poSendBuf s) \<and>
    m_oRecvWindow s' = m_oRecvWindow s \<and> m_poRecvBuf s' = m_poRecvBuf s \<and>
    (\<forall>p \<in> set ps. on_wire bs es' pay' (m_btBegin (m_oRecvWindow s) - 1) p) \<and>
    (all_due c \<longrightarrow> lb_data (m_poSendBuf s) \<noteq> [] \<longrightarrow> ps \<noteq> [] \<and> hd ps ! 1 = m_btBegin (m_oSendWindow s))"
proof (cases "lost c \<or> quiet c")
  case True
  then show ?thesis using s by (auto simp: udp_PostSend_def all_due_def intro!: exI [of _ es] exI [of _ pay])
next
  case False
  let ?ack = "m_btBegin (m_oRecvWindow s) - 1" and ?b = "m_poSendBuf s"
  have w: "sends (m_oSendWindow s) bs es pay" "lb_core ?b" "m_nState s = SSTATE_ESTABLISH" using s by (simp_all add: posts_def)
  obtain p k where pk: "GetOutCursorPtr ?b = (p, k)" by (cases "GetOutCursorPtr ?b")
  obtain d r where d: "(if k > 0 then copy_out p k ?b else Some []) = Some d" "lb_data ?b = d @ r" "lb_data ?b \<noteq> [] \<longrightarrow> d \<noteq> []"
    "\<And>j. j \<le> length d \<Longrightarrow> 0 < j \<Longrightarrow> \<exists>b'. DiscardBuff (int j) ?b = (True, b') \<and> lb_core b' \<and> lb_data b' = drop j (lb_data ?b)"
    using out_region [OF w(2) pk] by blast
  obtain rst w1 w2 e ps w3 es2 pay2 where f: "fill_window (control c) (m_nState s) ?ack d (m_oSendWindow s) = Some (rst, w1)"
    and g: "(if m_btBegin w1 = m_btEnd w1 \<and> idle c \<and> unat (m_btFreeBufferId w1) < s_dwWindowSize
      then add_packet (m_nState s) ?ack [] w1 else Some w1) = Some w2" "m_btBegin w2 = of_nat bs"
    and l: "send_loop (control c) (due c) (sys_send c) (m_nState s) ?ack (of_nat bs) w2 = Some (e, ps, w3)" "sends w3 bs es2 pay2"
      "es \<le> es2" "\<forall>n < es. pay2 n = pay n" "concat (map pay2 [es..<es2]) @ rst = d"
      "\<forall>p \<in> set ps. \<exists>m. bs \<le> m \<and> m < es2 \<and> p = packet (m_nState s) m ?ack (pay2 m)" "all_due c \<longrightarrow> d \<noteq> [] \<longrightarrow> ps \<noteq> [] \<and> hd ps = packet (m_nState s) bs ?ack (pay2 bs)"
    using window_round [OF w(1), of c "m_nState s" ?ack d] by blast
  let ?j = "length d - length rst"
  define s1 where "s1 = (if ?j > 0 then s\<lparr>m_poSendBuf := snd (DiscardBuff (int ?j) ?b)\<rparr> else s)"
  have j: "?j = length (concat (map pay2 [es..<es2]))" using l(5) by (metis add_diff_cancel_right' length_append)
  have s1: "lb_core (m_poSendBuf s1)" "lb_data (m_poSendBuf s1) = drop ?j (lb_data ?b)" "m_oRecvWindow s1 = m_oRecvWindow s" "m_poRecvBuf s1 = m_poRecvBuf s"
    "m_nState s1 = m_nState s" "m_pDataHeader s1 = m_pDataHeader s" "m_bSendLinger s1 = m_bSendLinger s"
    using d(4) [of ?j] w(2) by (auto simp: s1_def)
  have data: "concat (map pay2 [es..<es2]) @ lb_data (m_poSendBuf s1) = lb_data ?b"
    unfolding s1(2) j d(2) l(5) [symmetric] by simp
  define s2 where "s2 = s1\<lparr>m_oSendWindow := w3, m_bSendAck := (m_bSendAck s1 \<and> ps = [])\<rparr>"
  let ?a = "UDPPacketHeader (m_nState s2) (m_btBegin w3 - 1) ?ack"
  have st: "m_nState s2 = SSTATE_ESTABLISH" "m_oSendWindow s2 = w3" using s1(5) w(3) by (simp_all add: s2_def)
  have run: "udp_PostSend c s = (case e of Returns ok \<Rightarrow> Some (ok, ps, s2)
      | To_the_end \<Rightarrow> if \<not> m_bSendAck s2 then Some (True, ps, s2)
          else (case sys_ack c of Again \<Rightarrow> Some (True, ps, s2) | Failed \<Rightarrow> Some (False, ps, s2)
                | Sent n \<Rightarrow> if n = 0 then Some (False, ps, s2) else Some (True, ps @ [?a], s2\<lparr>m_bSendAck := False\<rparr>)))"
    using False
    by (simp only: udp_PostSend_def Let_def pk d(1) f g l(1) s1(5) s1_def [symmetric] s2_def [symmetric]
        prod.case Option.bind.simps if_False de_Morgan_disj simp_thms st(2) s1(3))
  have "\<exists>ok qs s'. udp_PostSend c s = Some (ok, ps @ qs, s') \<and> (s' = s2 \<or> s' = s2\<lparr>m_bSendAck := False\<rparr>) \<and> set qs \<subseteq> {?a}"
    unfolding run by (auto split: send_end.splits send_result.splits simp: ex_bool_eq)
  then obtain ok qs s' where o: "udp_PostSend c s = Some (ok, ps @ qs, s')" "s' = s2 \<or> s' = s2\<lparr>m_bSendAck := False\<rparr>" "set qs \<subseteq> {?a}"
    by blast
  have "on_wire bs es2 pay2 ?ack ?a"
  proof -
    have "m_btBegin w3 - 1 = of_nat (bs - 1)" "bs \<le> es2" using l(2) s(2) by (simp_all add: sends_def of_nat_diff)
    then show ?thesis unfolding on_wire_def using s(2) st(1) by (intro exI [of _ "bs - 1"]) (auto simp: packet_def)
  qed
  moreover have "\<forall>p \<in> set ps. on_wire bs es2 pay2 ?ack p" using l(6) w(3) by (auto simp: on_wire_def)
  ultimately have wire: "\<forall>p \<in> set (ps @ qs). on_wire bs es2 pay2 ?ack p" using o(3) by auto
  have "posts s' bs es2 pay2" "m_oRecvWindow s' = m_oRecvWindow s" "m_poRecvBuf s' = m_poRecvBuf s" "m_poSendBuf s' = m_poSendBuf s1"
    using o(2) l(2) s s1 by (auto simp: posts_def s2_def)
  moreover have "all_due c \<longrightarrow> lb_data ?b \<noteq> [] \<longrightarrow> ps @ qs \<noteq> [] \<and> hd (ps @ qs) ! 1 = m_btBegin (m_oSendWindow s)"
    using l(7) d(3) w(1) by (auto simp: packet_def UDPPacketHeader_def sends_def)
  ultimately show ?thesis using o(1) l(3,4) data wire by auto
qed

section \<open>A new connection\<close>

text \<open>A socket as it is created: the arrays have their sizes and the ring buffers are new.\<close>

definition raw_sock :: "udp_sock \<Rightarrow> bool" where
  "raw_sock s \<longleftrightarrow> shaped (m_oSendWindow s) \<and> shaped (m_oRecvWindow s) \<and> m_poSendBuf s = FxLoopBuff \<and> m_poRecvBuf s = FxLoopBuff \<and>
     header_ok (m_pDataHeader s) \<and> \<not> m_bSendLinger s"

definition fresh_end :: "udp_sock \<Rightarrow> bool" where
  "fresh_end t \<longleftrightarrow> (\<exists>s rblk sblk s'. raw_sock s \<and> length rblk = nat RECV_BUFF_SIZE \<and> length sblk = nat SEND_BUFF_SIZE \<and>
     udp_Init (Some rblk) (Some sblk) s = (True, s') \<and> t = establish s')"

lemma chain_all: "(\<And>b. b < 32 \<Longrightarrow> bufs ! b ! 0 = of_nat (b + 1)) \<Longrightarrow> k \<le> 32 \<Longrightarrow> chain bufs (of_nat k) [k..<32]"
proof (induction "32 - k" arbitrary: k)
  case 0
  then have "k = 32" by simp
  then show ?case by simp
next
  case (Suc j)
  then have k: "k < 32" by simp
  have "chain bufs (of_nat (Suc k)) [Suc k..<32]" using Suc.hyps(1) [of "Suc k"] Suc.hyps(2) Suc.prems(1) k by (auto simp del: of_nat_Suc)
  moreover have "unat (of_nat k :: byte) = k" using k by (simp add: unat_of_nat)
  moreover have "bufs ! k ! 0 = of_nat (Suc k)" using Suc.prems(1) [OF k] by simp
  ultimately show ?case using k by (simp add: upt_conv_Cons del: of_nat_Suc)
qed

lemma ClearBuffer_ok:
  assumes "shaped w"
  shows "holds (ClearBuffer w) {} pay {}"
proof -
  have b: "m_ppBuffer (ClearBuffer w) ! i = (m_ppBuffer w ! i)[0 := of_nat (i + 1)]" if "i < 32" for i
    using that by (simp add: ClearBuffer_def s_dwWindowSize_def)
  have "m_ppBuffer (ClearBuffer w) ! i ! 0 = of_nat (i + 1)" if "i < 32" for i
    using b [OF that] buffer_length [OF assms that] by simp
  then have "chain (m_ppBuffer (ClearBuffer w)) (of_nat 0) [0..<32]" by (intro chain_all) auto
  moreover have "shaped (ClearBuffer w)"
    using assms buffer_length [OF assms] by (auto simp: shaped_def ClearBuffer_def s_dwWindowSize_def)
  ultimately show ?thesis by (auto simp: holds_def ClearBuffer_def intro!: exI [of _ "[0..<32]"])
qed

lemma empty_from_ok:
  "shaped w \<Longrightarrow> m_btEnd w = of_nat e \<Longrightarrow> n \<le> e \<Longrightarrow> e \<le> n + 32 \<Longrightarrow> \<exists>w'. empty_from (of_nat n) w = w' \<and> shaped w' \<and>
    (\<forall>m. 32 \<le> buf_of w m \<longrightarrow> 32 \<le> buf_of w' m) \<and> (\<forall>m \<in> {n..<e}. 32 \<le> buf_of w' m) \<and> m_ppBuffer w' = m_ppBuffer w \<and>
    m_btFreeBufferId w' = m_btFreeBufferId w \<and> m_btBegin w' = m_btBegin w \<and> m_btEnd w' = m_btEnd w"
proof (induction "e - n" arbitrary: n w)
  case 0
  then have "empty_from (of_nat n) w = w" by (subst empty_from.simps) simp
  then show ?case using 0 by auto
next
  case (Suc j)
  let ?v = "w\<lparr>m_pSeqBufferId := (m_pSeqBufferId w)[n mod 32 := 32], m_pSeqSize := (m_pSeqSize w)[n mod 32 := 0]\<rparr>"
  have n: "n < e" using Suc.hyps(2) by simp
  have ne: "of_nat n \<noteq> m_btEnd w" using of_nat_near [of n e] n Suc.prems by simp
  have step: "empty_from (of_nat n) w = empty_from (of_nat (Suc n)) ?v"
    using ne by (subst empty_from.simps) (simp add: seq_id_of_nat s_dwWindowSize_def add.commute)
  have sh: "shaped ?v" using Suc.prems(1) by (simp add: shaped_def)
  have bn: "buf_of ?v n = 32" using Suc.prems(1) by (simp add: buf_of_def shaped_def)
  have keep: "32 \<le> buf_of ?v m" if "32 \<le> buf_of w m" for m
    using that Suc.prems(1) by (cases "m mod 32 = n mod 32") (simp_all add: buf_of_def shaped_def)
  have "j = e - Suc n" "m_btEnd ?v = of_nat e" "Suc n \<le> e" "e \<le> Suc n + 32" using Suc n by auto
  from Suc.hyps(1) [OF this(1) sh this(2-4)] obtain w' where w': "empty_from (of_nat (Suc n)) ?v = w'" "shaped w'"
    "\<forall>m. 32 \<le> buf_of ?v m \<longrightarrow> 32 \<le> buf_of w' m" "\<forall>m \<in> {Suc n..<e}. 32 \<le> buf_of w' m" "m_ppBuffer w' = m_ppBuffer w"
    "m_btFreeBufferId w' = m_btFreeBufferId w" "m_btBegin w' = m_btBegin w" "m_btEnd w' = m_btEnd w"
    by auto
  have "32 \<le> buf_of w' m" if "m \<in> {n..<e}" for m
    using that w'(3,4) bn by (cases "m = n") auto
  then show ?case using step w' keep by auto
qed

lemma fresh_end_ok:
  assumes "fresh_end t"
  shows "posts t 1 1 pay" "received {} t 1 {} pay" "lb_data (m_poSendBuf t) = []" "lb_data (m_poRecvBuf t) = []"
    "m_nFreeLen (m_poSendBuf t) = SEND_BUFF_SIZE" "m_nTotalLen (m_poSendBuf t) = SEND_BUFF_SIZE"
proof -
  obtain s rblk sblk s' where s: "raw_sock s" "length rblk = nat RECV_BUFF_SIZE" "length sblk = nat SEND_BUFF_SIZE"
    "udp_Init (Some rblk) (Some sblk) s = (True, s')" "t = establish s'"
    using assms by (auto simp: fresh_end_def)
  have "(0 :: int) < RECV_BUFF_SIZE" "(0 :: int) < SEND_BUFF_SIZE" "RECV_BUFF_SIZE \<le> 2 ^ 30" "SEND_BUFF_SIZE \<le> 2 ^ 30"
    by (simp_all add: RECV_BUFF_SIZE_def SEND_BUFF_SIZE_def)
  note i = Init_ok [OF this(1,3) s(2)] Init_ok [OF this(2,4) s(3)]
  obtain rb where rb: "Init (Some rblk) RECV_BUFF_SIZE FxLoopBuff = (True, rb)" "lb_core rb" "lb_data rb = []"
    using i(1) by (auto simp: lb_inv_core)
  obtain sb where sb: "Init (Some sblk) SEND_BUFF_SIZE FxLoopBuff = (True, sb)" "lb_core sb" "lb_data sb = []"
    "m_nFreeLen sb = SEND_BUFF_SIZE" "m_nTotalLen sb = SEND_BUFF_SIZE"
    using i(2) by (auto simp: lb_inv_core)
  note b = rb sb
  let ?r = "(ClearBuffer (m_oRecvWindow s))\<lparr>m_btBegin := of_nat 1, m_btEnd := of_nat 33\<rparr>"
  have "holds (ClearBuffer (m_oRecvWindow s)) {} pay {}" by (rule ClearBuffer_ok) (use s(1) in \<open>simp add: raw_sock_def\<close>)
  then have h1: "holds ?r {} pay {}" by (simp only: holds_ends)
  have h2: "shaped ?r" using h1 unfolding holds_def by (rule conjunct1)
  note h = h1 h2
  obtain r where r: "empty_from (of_nat 1) ?r = r" "shaped r" "\<forall>m \<in> {1..<33}. 32 \<le> buf_of r m" "m_ppBuffer r = m_ppBuffer ?r"
    "m_btFreeBufferId r = m_btFreeBufferId ?r" "m_btBegin r = of_nat 1" "m_btEnd r = of_nat 33"
    using empty_from_ok [OF h(2), of 33 1] by auto
  have hr: "holds r {} pay {}" using h(1) r(2,4,5) by (simp add: holds_def)
  let ?s = "s\<lparr>m_poRecvBuf := rb, m_poSendBuf := sb, m_bSendAck := False, m_oRecvWindow := ?r,
      m_oSendWindow := (ClearBuffer (m_oSendWindow s))\<lparr>m_btBegin := 1, m_btEnd := 1\<rparr>\<rparr>"
  have raw: "m_poSendBuf s = FxLoopBuff" "m_poRecvBuf s = FxLoopBuff" using s(1) by (simp_all add: raw_sock_def)
  have "udp_Init (Some rblk) (Some sblk) s = (True, ?s)"
    by (simp add: udp_Init_def raw b(1,4) s_dwWindowSize_def)
  then have s': "s' = ?s" unfolding s(4) by (simp only: prod.inject)
  have t: "m_oRecvWindow t = r" "m_oSendWindow t = (ClearBuffer (m_oSendWindow s))\<lparr>m_btBegin := 1, m_btEnd := 1\<rparr>" "m_poRecvBuf t = rb"
    "m_poSendBuf t = sb" "m_pDataHeader t = m_pDataHeader s" "m_bSendLinger t = m_bSendLinger s" "m_nState t = SSTATE_ESTABLISH"
    unfolding s(5) s' by (simp_all add: establish_def r(1) [simplified])
  show "posts t 1 1 pay" using t s(1) b(5) ClearBuffer_ok [of "m_oSendWindow s" pay]
    by (simp add: posts_def sends_def raw_sock_def)
  show "received {} t 1 {} pay" using t(1,3,7) b(2) hr r(3,6,7) by (simp add: received_def recvs_def)
  show "lb_data (m_poSendBuf t) = []" "lb_data (m_poRecvBuf t) = []"
    "m_nFreeLen (m_poSendBuf t) = SEND_BUFF_SIZE" "m_nTotalLen (m_poSendBuf t) = SEND_BUFF_SIZE" using t b by simp_all
qed

section \<open>The two ends and their steps\<close>

record udp_end =
  u_sock :: udp_sock
  sent_from :: nat
  recv_from :: nat
  accepted :: "bytes list"
  heard :: "bytes list"
  datagrams :: "(nat \<times> nat \<times> bytes) list"
  leaked :: nat

definition start_end :: "udp_sock \<Rightarrow> udp_end" where
  "start_end s = \<lparr>u_sock = s, sent_from = 1, recv_from = 1, accepted = [], heard = [], datagrams = [], leaked = 0\<rparr>"

text \<open>The number and the acknowledgement that a datagram's two bytes stand for when it is sent, and how far
  a window has moved.\<close>

definition stamp :: "udp_end \<Rightarrow> bytes \<Rightarrow> nat \<times> nat \<times> bytes" where
  "stamp p pkt =
    (let k = unat (pkt ! 1 - m_btBegin (m_oSendWindow (u_sock p)))
     in (if k < 32 then sent_from p + k else sent_from p - 1, recv_from p - 1, pkt))"

definition moved :: "slide \<Rightarrow> slide \<Rightarrow> nat" where
  "moved w w' = unat (m_btBegin w' - m_btBegin w)"

definition fresh :: "nat \<Rightarrow> nat \<Rightarrow> udp_end \<Rightarrow> bool" where
  "fresh n a q \<longleftrightarrow> recv_from q \<le> n + 224 \<and> sent_from q \<le> a + 224"

text \<open>The length of the packet in front of the stored bytes, as the header says.\<close>

definition announces :: "bytes \<Rightarrow> nat \<Rightarrow> bool" where
  "announces d n \<longleftrightarrow> 8 \<le> length d \<and> ParsePacket d 0 8 \<lparr>m_dataRecvBuffer = take 8 d, m_dataSendBuffer = []\<rparr> = Some (int n)"

text \<open>The step \<open>stalls\<close> is an event for which \<open>recv\<close> finds nothing to read (\<open>EAGAIN\<close>, \<open>EINTR\<close>); after any other
  error, as after a step of \<open>arrives\<close> that closes the connection, there is no further step.\<close>

inductive udp_step :: "udp_end \<times> udp_end \<Rightarrow> udp_end \<times> udp_end \<Rightarrow> bool" where
  writes: "\<lbrakk>udp_Send sleep m (length m) tem (u_sock p) = Some (ok, tem', s); length m + 8 < 2 ^ 31;
      int (8 + length m) \<le> m_nTotalLen (m_poSendBuf (u_sock p)); 8 + length m \<le> length tem\<rbrakk> \<Longrightarrow>
    udp_step (p, q) (p\<lparr>u_sock := s, accepted := accepted p @ (if ok then [m] else [])\<rparr>, q)"
| posts_data: "udp_PostSend c (u_sock p) = Some (ok, ps, s) \<Longrightarrow>
    udp_step (p, q) (p\<lparr>u_sock := s, datagrams := datagrams p @ map (stamp p) ps\<rparr>, q)"
| arrives: "\<lbrakk>(n, a, pkt) \<in> set (datagrams p); fresh n a q; udp_OnRecv (Received pkt) (u_sock q) = Some (f, s);
      m_nState s = SSTATE_ESTABLISH\<rbrakk> \<Longrightarrow>
    udp_step (p, q) (p, q\<lparr>u_sock := s, recv_from := recv_from q + moved (m_oRecvWindow (u_sock q)) (m_oRecvWindow s),
      sent_from := sent_from q + moved (m_oSendWindow (u_sock q)) (m_oSendWindow s)\<rparr>)"
| stalls: "\<lbrakk>udp_OnRecv (Recv_error again err) (u_sock q) = Some (f, s); m_nState s = SSTATE_ESTABLISH\<rbrakk> \<Longrightarrow>
    udp_step (p, q) (p, q\<lparr>u_sock := s, leaked := leaked q + 1\<rparr>)"
| reads: "\<lbrakk>announces (lb_data (m_poRecvBuf (u_sock q))) n; udp_ProcRecv sz n buf (u_sock q) = Some (Some m, buf', s)\<rbrakk> \<Longrightarrow>
    udp_step (p, q) (p, q\<lparr>u_sock := s, heard := heard q @ [m]\<rparr>)"
| other_way: "udp_step (p, q) (p', q') \<Longrightarrow> udp_step (q, p) (q', p')"

inductive udp_reach :: "udp_end \<times> udp_end \<Rightarrow> bool" where
  start: "fresh_end s \<Longrightarrow> fresh_end t \<Longrightarrow> udp_reach (start_end s, start_end t)"
| step: "udp_reach l \<Longrightarrow> udp_step l l' \<Longrightarrow> udp_reach l'"

section \<open>The invariant\<close>

text \<open>A datagram on its way from \<open>p\<close> to \<open>q\<close>.\<close>

definition datagram_ok :: "nat \<Rightarrow> nat \<Rightarrow> nat \<Rightarrow> (nat \<Rightarrow> bytes) \<Rightarrow> nat \<times> nat \<times> bytes \<Rightarrow> bool" where
  "datagram_ok br es ak pay x \<longleftrightarrow> (case x of (n, a, pkt) \<Rightarrow> n < es \<and> a < ak \<and>
     (\<exists>d. pkt = packet SSTATE_ESTABLISH n (of_nat a) d \<and> length d \<le> 509 \<and> (br \<le> n \<longrightarrow> d = pay n)))"

text \<open>The bytes between the sender's messages and the receiver's session.\<close>

definition between :: "udp_end \<Rightarrow> udp_end \<Rightarrow> bytes \<Rightarrow> bytes list \<Rightarrow> bool" where
  "between p q flight rst \<longleftrightarrow> accepted p = heard q @ rst \<and> (\<forall>m \<in> set rst. length m + 8 \<le> 2 ^ 30) \<and>
     pkt_stream rst = lb_data (m_poRecvBuf (u_sock q)) @ flight @ lb_data (m_poSendBuf (u_sock p))"

definition flows :: "udp_end \<Rightarrow> udp_end \<Rightarrow> nat \<Rightarrow> (nat \<Rightarrow> bytes) \<Rightarrow> bool" where
  "flows p q es pay \<longleftrightarrow> posts (u_sock p) (sent_from p) es pay \<and>
     (\<exists>P L. received L (u_sock q) (recv_from q) P pay \<and> card L = leaked q \<and> recv_from q \<notin> P \<and> P \<subseteq> {..<es}) \<and>
     1 \<le> sent_from p \<and> sent_from p \<le> recv_from q \<and> recv_from q \<le> es \<and>
     (\<exists>rst. between p q (concat (map pay [recv_from q..<es])) rst) \<and>
     (\<forall>x \<in> set (datagrams p). datagram_ok (recv_from q) es (recv_from p) pay x)"

definition link_ok :: "udp_end \<times> udp_end \<Rightarrow> bool" where
  "link_ok l \<longleftrightarrow> (case l of (p, q) \<Rightarrow> (\<exists>es pay. flows p q es pay) \<and> (\<exists>es pay. flows q p es pay))"

lemma link_ok_swap: "link_ok (p, q) \<Longrightarrow> link_ok (q, p)"
  by (auto simp: link_ok_def)

lemma start_ok: "fresh_end s \<Longrightarrow> fresh_end t \<Longrightarrow> flows (start_end s) (start_end t) 1 pay"
  using fresh_end_ok(1,3) [of s] fresh_end_ok(2,4) [of t] by (auto simp: flows_def between_def start_end_def intro!: exI [of _ "{}"])

text \<open>A change at one end that leaves the receiving part of its socket alone.\<close>

lemma flows_receiver:
  assumes "flows q p es pay" "m_oRecvWindow s = m_oRecvWindow (u_sock p)" "m_poRecvBuf s = m_poRecvBuf (u_sock p)" "m_nState s = SSTATE_ESTABLISH"
    and "u_sock p' = s" "recv_from p' = recv_from p" "heard p' = heard p" "leaked p' = leaked p"
  shows "flows q p' es pay"
  using assms by (fastforce simp: flows_def received_def between_def)

lemma writes_ok:
  assumes "flows p q es pay" "flows q p es' pay'" "udp_Send sleep m (length m) tem (u_sock p) = Some (ok, tem', s)" "length m + 8 < 2 ^ 31"
    "int (8 + length m) \<le> m_nTotalLen (m_poSendBuf (u_sock p))" "8 + length m \<le> length tem"
  defines "p' \<equiv> p\<lparr>u_sock := s, accepted := accepted p @ (if ok then [m] else [])\<rparr>"
  shows "flows p' q es pay" "flows q p' es' pay'"
proof -
  have p: "posts (u_sock p) (sent_from p) es pay" using assms(1) by (simp add: flows_def)
  have s: "posts s (sent_from p) es pay" "lb_data (m_poSendBuf s) = lb_data (m_poSendBuf (u_sock p)) @ (if ok then pkt_frame m else [])"
    "m_oRecvWindow s = m_oRecvWindow (u_sock p)" "m_poRecvBuf s = m_poRecvBuf (u_sock p)"
    using udp_Send_ok [OF p assms(4-6), of sleep] assms(3) by auto
  have "length m + 8 \<le> 2 ^ 30" using p assms(5) by (simp add: posts_def lb_core_def)
  moreover obtain rst where "between p q (concat (map pay [recv_from q..<es])) rst" using assms(1) by (auto simp: flows_def)
  ultimately have "between p' q (concat (map pay [recv_from q..<es])) (rst @ (if ok then [m] else []))"
    using s(2) by (auto simp: between_def p'_def pkt_stream_def)
  then show "flows p' q es pay" using assms(1) s(1) by (auto simp: flows_def p'_def)
  show "flows q p' es' pay'"
    by (rule flows_receiver [OF assms(2) s(3,4)]) (use s(1) in \<open>simp_all add: posts_def p'_def\<close>)
qed

text \<open>The packet that the header announces is the first message, and the session is handed it.\<close>

lemma first_message:
  assumes "announces d n" "d @ r = pkt_stream rst" "\<forall>m \<in> set rst. length m + 8 \<le> 2 ^ 30"
  obtains m rst' where "rst = m # rst'" "n = length m + 8"
proof -
  have d: "8 \<le> length d" using assms(1) by (simp add: announces_def)
  then obtain m rst' where rst: "rst = m # rst'" using assms(2) by (cases rst) auto
  have "take 8 d = take 8 (d @ r)" using d by simp
  also have "\<dots> = pkg_header (length m)" unfolding assms(2) by (simp add: rst pkt_frame_def)
  finally have hd: "take 8 d = pkg_header (length m)" .
  then have "d = [] @ pkg_header (length m) @ drop 8 d" by (metis append_Nil append_take_drop_id)
  moreover have "length m + 8 < 2 ^ 31" using assms(3) rst by simp
  ultimately have "CheckPkgHeader d 0 \<lparr>m_dataRecvBuffer = take 8 d, m_dataSendBuffer = []\<rparr> = Some (int (length m) + 8)"
    using CheckPkgHeader_frame [of "\<lparr>m_dataRecvBuffer = take 8 d, m_dataSendBuffer = []\<rparr>" "length m" "[]" 0 "drop 8 d"] hd by simp
  then have "n = length m + 8"
    using assms(1) by (simp add: announces_def ParsePacket_def GetHeaderLength_def HEADER_SIZE_def)
  with rst show thesis by (rule that)
qed

lemma udp_ProcRecv_frame:
  assumes "PopBuff (int (length m + 8)) (m_poRecvBuf s) = Some (True, pkt_frame m, b)" "length m + 8 < 2 ^ 31"
    and "udp_ProcRecv sz (length m + 8) buf s = Some (Some x, buf', s')"
  shows "x = m \<and> s' = s\<lparr>m_poRecvBuf := b\<rparr>"
proof -
  let ?x = "blit buf 0 (pkt_frame m)"
  have l: "length m + 8 \<le> length buf"
    using assms(1,3) by (auto simp: udp_ProcRecv_def copy_to_def Let_def add.commute split: if_splits bind_splits)
  have x: "take (length m) (drop 8 ?x) = m" "length ?x = length buf" using l by (simp_all add: blit_def pkt_frame_def)
  have w: "nat ((int (length m) + 8 - 8) mod 4294967296) = length m" using assms(2) by simp
  have "udp_ProcRecv sz (length m + 8) buf s =
      (if sz < length m + 8 then Some (None, buf, udp_PostClose (udp_PushNetEvent (NETEVT_ERROR NET_RECV_ERROR) s))
       else Some (Some m, blit (blit ?x 0 m) (length m) [0], s\<lparr>m_poRecvBuf := b\<rparr>))"
    using assms(1,2) l x w by (simp add: udp_ProcRecv_def copy_to_def copy_from_def GetHeaderLength_def HEADER_SIZE_def Let_def)
      (simp add: blit_def)
  then show ?thesis using assms(3) by (auto split: if_splits)
qed

lemma reads_ok:
  assumes "flows p q es pay" "flows q p es' pay'" "announces (lb_data (m_poRecvBuf (u_sock q))) n"
    "udp_ProcRecv sz n buf (u_sock q) = Some (Some m, buf', s)"
  defines "q' \<equiv> q\<lparr>u_sock := s, heard := heard q @ [m]\<rparr>"
  shows "flows p q' es pay" "flows q' p es' pay'"
proof -
  let ?b = "m_poRecvBuf (u_sock q)" and ?flight = "concat (map pay [recv_from q..<es])"
  have core: "lb_core ?b" using assms(1) by (auto simp: flows_def received_def)
  obtain rst where rst: "accepted p = heard q @ rst" "\<forall>m \<in> set rst. length m + 8 \<le> 2 ^ 30"
    "pkt_stream rst = lb_data ?b @ ?flight @ lb_data (m_poSendBuf (u_sock p))"
    using assms(1) by (auto simp: flows_def between_def)
  obtain m1 rst' where m1: "rst = m1 # rst'" "n = length m1 + 8"
    by (rule first_message [OF assms(3) rst(3) [symmetric] rst(2)])
  have n: "length m1 + 8 \<le> 2 ^ 30" using rst(2) m1(1) by simp
  have used: "int n \<le> used_len ?b"
  proof (rule ccontr)
    assume no: "\<not> int n \<le> used_len ?b"
    have "int 8 \<le> used_len ?b" using assms(3) length_lb_data [OF core] by (simp add: announces_def flip: length_lb_data [OF core])
    then have "0 \<le> m_nFreeLen ?b" "int n + m_nFreeLen ?b < 2 ^ 31"
      using core m1(2) n by (auto simp: lb_core_def used_len_def)
    then have "PopBuff (int n) ?b = Some (False, [], ?b)" using no by (intro PopBuff_refused) simp
    then show False using assms(4) by (simp add: udp_ProcRecv_def Let_def split: if_splits)
  qed
  obtain b where b: "PopBuff (int n) ?b = Some (True, take n (lb_data ?b), b)" "lb_core b" "lb_data b = drop n (lb_data ?b)"
    using PopBuff_core [OF core _ used] m1(2) by (simp only: nat_int) auto
  have le: "n \<le> length (lb_data ?b)" using used length_lb_data [OF core] by simp
  have "take n (lb_data ?b) = take n (pkt_stream rst)" unfolding rst(3) using le by simp
  also have "\<dots> = pkt_frame m1" using m1 by (simp add: add.commute)
  finally have fr: "take n (lb_data ?b) = pkt_frame m1" .
  have r: "m = m1" "s = (u_sock q)\<lparr>m_poRecvBuf := b\<rparr>"
    using udp_ProcRecv_frame [of m1 "u_sock q" b sz buf m buf' s] b(1) fr m1(2) n assms(4) by auto
  have "pkt_frame m1 @ drop n (lb_data ?b) = lb_data ?b" unfolding fr [symmetric] by simp
  then have "pkt_frame m1 @ pkt_stream rst' = pkt_frame m1 @ lb_data b @ ?flight @ lb_data (m_poSendBuf (u_sock p))"
    using rst(3) m1(1) by (metis append_assoc b(3) stream_simps(2))
  then have "between p q' ?flight rst'" using rst(1,2) m1(1) by (simp add: between_def q'_def r)
  then show "flows p q' es pay" using assms(1) b(2) by (auto simp: flows_def q'_def r received_def)
  show "flows q' p es' pay'" using assms(2) by (simp add: flows_def between_def q'_def r posts_def)
qed

text \<open>The buffers of the receive window.\<close>

lemma no_buffer:
  assumes "flows p q es pay"
  shows "leaked q + held (m_oRecvWindow (u_sock q)) \<le> 32" "leaked q = 0 \<longrightarrow> held (m_oRecvWindow (u_sock q)) < 32"
    "leaked q + held (m_oRecvWindow (u_sock q)) = 32 \<longrightarrow> udp_OnRecv rr (u_sock q) = None"
proof -
  obtain P L where P: "received L (u_sock q) (recv_from q) P pay" "card L = leaked q" "recv_from q \<notin> P"
    using assms by (auto simp: flows_def)
  have r: "recvs L (m_oRecvWindow (u_sock q)) (recv_from q) P pay" using P(1) by (simp add: received_def)
  show "leaked q + held (m_oRecvWindow (u_sock q)) \<le> 32" "leaked q = 0 \<longrightarrow> held (m_oRecvWindow (u_sock q)) < 32"
    "leaked q + held (m_oRecvWindow (u_sock q)) = 32 \<longrightarrow> udp_OnRecv rr (u_sock q) = None"
    using recvs_free(2) [OF r] recvs_card [OF r P(3)] udp_OnRecv_no_buffer [OF P(1)] P(2)
    by (auto simp: held_ok [OF r] add.commute)
qed

lemma stalls_ok:
  assumes "flows p q es pay" "flows q p es' pay'" "udp_OnRecv (Recv_error again err) (u_sock q) = Some (f, s)" "m_nState s = SSTATE_ESTABLISH"
  defines "q' \<equiv> q\<lparr>u_sock := s, leaked := leaked q + 1\<rparr>"
  shows "flows p q' es pay" "flows q' p es' pay'"
proof -
  obtain P L where P: "received L (u_sock q) (recv_from q) P pay" "card L = leaked q" "recv_from q \<notin> P" "P \<subseteq> {..<es}"
    using assms(1) by (auto simp: flows_def)
  have r: "recvs L (m_oRecvWindow (u_sock q)) (recv_from q) P pay" using P(1) by (simp add: received_def)
  have "card P + card L \<noteq> 32" using udp_OnRecv_no_buffer [OF P(1)] assms(3) by auto
  then have free: "card P + card L < 32" using recvs_free(2) [OF r] by simp
  have again: again
  proof (rule ccontr)
    assume "\<not> again"
    then show False using assms(3,4) P(1)
      by (auto simp: udp_OnRecv_def udp_IsConnected_def received_def udp_fail_def udp_Close_def udp_PushNetEvent_def Let_def split: bind_splits if_splits)
  qed
  obtain b where b: "b \<notin> L" "received (insert b L) s (recv_from q) P pay" "m_oSendWindow s = m_oSendWindow (u_sock q)"
    "recv_kept (u_sock q) s" "lb_data (m_poRecvBuf s) = lb_data (m_poRecvBuf (u_sock q))"
    using udp_OnRecv_again [OF P(1) free, of err] assms(3) again by auto
  have "finite L" using r by (auto simp: recvs_def holds_def intro: finite_subset)
  then have "card (insert b L) = leaked q'" using b(1) P(2) by (simp add: q'_def)
  moreover have "received (insert b L) (u_sock q') (recv_from q') P pay" "recv_from q' = recv_from q" using b(2) by (simp_all add: q'_def)
  moreover have "between p q' fl rst \<longleftrightarrow> between p q fl rst" for fl rst using b(5) by (simp add: between_def q'_def)
  ultimately show "flows p q' es pay" using assms(1) P(3,4) unfolding flows_def by auto
  show "flows q' p es' pay'" using assms(2,4) b(3,4) by (simp add: flows_def between_def q'_def posts_def recv_kept_def)
qed

text \<open>What a posted datagram stands for.\<close>

lemma stamp_ok:
  assumes "on_wire bs es pay (m_btBegin (m_oRecvWindow (u_sock p)) - 1) pkt" "sends w bs es pay"
    and "m_btBegin (m_oSendWindow (u_sock p)) = of_nat bs" "m_btBegin (m_oRecvWindow (u_sock p)) = of_nat (recv_from p)"
    and "sent_from p = bs" "1 \<le> bs" "1 \<le> recv_from p" "bs \<le> br"
  shows "datagram_ok br es (recv_from p) pay (stamp p pkt)"
proof -
  obtain n where n: "n < es" "bs \<le> Suc n" "pkt = packet SSTATE_ESTABLISH n (m_btBegin (m_oRecvWindow (u_sock p)) - 1) (if bs \<le> n then pay n else [])"
    using assms(1) by (auto simp: on_wire_def)
  have p1: "pkt ! 1 = of_nat n" by (simp add: n(3) packet_def UDPPacketHeader_def)
  have ack: "m_btBegin (m_oRecvWindow (u_sock p)) - 1 = of_nat (recv_from p - 1)" using assms(4,7) by (simp add: of_nat_diff)
  have len: "length (if bs \<le> n then pay n else []) \<le> 509"
    using assms(2) n(1) by (auto simp: sends_def holds_def carries_def)
  have num: "(if unat (pkt ! 1 - of_nat bs :: byte) < 32 then bs + unat (pkt ! 1 - of_nat bs :: byte) else bs - 1) = n"
  proof (cases "bs \<le> n")
    case True
    then have "n - bs < 32" using n(1) sends_bound [OF assms(2)] by simp
    moreover have "pkt ! 1 - of_nat bs = of_nat (n - bs)" using True p1 by (simp add: of_nat_diff)
    ultimately have "unat (pkt ! 1 - of_nat bs :: byte) = n - bs" by (simp only: unat_of_nat) simp
    then show ?thesis using True \<open>n - bs < 32\<close> by simp
  next
    case False
    then have "bs = Suc n" using n(2) by simp
    then have "pkt ! 1 - of_nat bs = - 1" using p1 by simp
    moreover have "unat (- 1 :: byte) = 255" by (simp add: unsigned_minus_1_eq_mask mask_eq_exp_minus_1)
    ultimately show ?thesis using \<open>bs = Suc n\<close> by (simp del: unsigned_minus_1_eq_mask)
  qed
  have "stamp p pkt = (n, recv_from p - 1, pkt)" by (simp only: stamp_def assms(3,5) Let_def num)
  then show ?thesis using n(1,3) ack len assms(7,8) by (auto simp: datagram_ok_def)
qed

lemma datagram_more: "datagram_ok br es ak pay x \<Longrightarrow> es \<le> es' \<Longrightarrow> (\<And>n. n < es \<Longrightarrow> pay' n = pay n) \<Longrightarrow> datagram_ok br es' ak pay' x"
  by (auto simp: datagram_ok_def)

lemma received_pay: "received L s br P pay \<Longrightarrow> (\<And>n. n \<in> P \<Longrightarrow> pay' n = pay n) \<Longrightarrow> received L s br P pay'"
  using holds_pay by (auto simp: received_def recvs_def)

lemma posts_data_ok:
  assumes "flows p q es pay" "flows q p es' pay'" "udp_PostSend c (u_sock p) = Some (ok, ps, s)"
  defines "p' \<equiv> p\<lparr>u_sock := s, datagrams := datagrams p @ map (stamp p) ps\<rparr>"
  shows "\<exists>es2 pay2. flows p' q es2 pay2" "flows q p' es' pay'"
proof -
  have p: "posts (u_sock p) (sent_from p) es pay" "1 \<le> sent_from p" "sent_from p \<le> recv_from q" "recv_from q \<le> es" using assms(1) by (auto simp: flows_def)
  obtain P L where P: "received L (u_sock q) (recv_from q) P pay" "recv_from q \<notin> P" "P \<subseteq> {..<es}" "card L = leaked q"
    using assms(1) by (auto simp: flows_def)
  obtain es2 pay2 where s: "posts s (sent_from p) es2 pay2" "es \<le> es2" "\<forall>n < es. pay2 n = pay n"
    "concat (map pay2 [es..<es2]) @ lb_data (m_poSendBuf s) = lb_data (m_poSendBuf (u_sock p))"
    "m_oRecvWindow s = m_oRecvWindow (u_sock p)" "m_poRecvBuf s = m_poRecvBuf (u_sock p)"
    "\<forall>x \<in> set ps. on_wire (sent_from p) es2 pay2 (m_btBegin (m_oRecvWindow (u_sock p)) - 1) x"
    using udp_PostSend_ok [OF p(1,2), of c] assms(3) by auto
  show "flows q p' es' pay'"
    by (rule flows_receiver [OF assms(2) s(5,6)]) (use s(1) in \<open>simp_all add: posts_def p'_def\<close>)
  have b: "m_btBegin (m_oSendWindow (u_sock p)) = of_nat (sent_from p)" using p(1) by (simp add: posts_def sends_def)
  have r: "m_btBegin (m_oRecvWindow (u_sock p)) = of_nat (recv_from p)" "1 \<le> recv_from p"
    using assms(2) by (auto simp: flows_def received_def recvs_def)
  have w: "sends (m_oSendWindow s) (sent_from p) es2 pay2" using s(1) by (simp add: posts_def)
  have new: "datagram_ok (recv_from q) es2 (recv_from p) pay2 (stamp p x)" if "x \<in> set ps" for x
    by (rule stamp_ok [OF _ w b r(1) refl p(2) r(2) p(3)]) (use s(7) that in blast)
  have old: "datagram_ok (recv_from q) es2 (recv_from p) pay2 x" if "x \<in> set (datagrams p)" for x
    by (rule datagram_more [OF _ s(2)]) (use assms(1) that s(3) in \<open>auto simp: flows_def\<close>)
  have "concat (map pay2 [recv_from q..<es2]) @ lb_data (m_poSendBuf s) = concat (map pay [recv_from q..<es]) @ lb_data (m_poSendBuf (u_sock p))"
  proof -
    have "[recv_from q..<es2] = [recv_from q..<es] @ [es..<es2]" using upt_add_eq_append [OF p(4), of "es2 - es"] s(2) by simp
    moreover have "map pay2 [recv_from q..<es] = map pay [recv_from q..<es]" using s(3) by simp
    ultimately show ?thesis using s(4) by (simp only: map_append concat_append append_assoc)
  qed
  then obtain rst where "between p' q (concat (map pay2 [recv_from q..<es2])) rst"
    using assms(1) by (auto simp: flows_def between_def p'_def)
  moreover have "received L (u_sock q) (recv_from q) P pay2" by (rule received_pay [OF P(1)]) (use P(3) s(3) in auto)
  moreover have "P \<subseteq> {..<es2}" using P(3) s(2) by auto
  ultimately have "flows p' q es2 pay2"
    unfolding flows_def using assms(1) s(1,2) p(2-4) P(2,4) old new by (auto simp: flows_def p'_def)
  then show "\<exists>es2 pay2. flows p' q es2 pay2" by blast
qed

lemma length_concat_le: "(\<And>x. x \<in> set xs \<Longrightarrow> length x \<le> c) \<Longrightarrow> length (concat xs) \<le> c * length xs"
proof (induction xs)
  case (Cons x xs)
  then have "length (concat xs) \<le> c * length xs" "length x \<le> c" by simp_all
  then show ?case by simp
qed simp

lemma datagram_moved: "datagram_ok br es ak pay x \<Longrightarrow> br \<le> br' \<Longrightarrow> ak \<le> ak' \<Longrightarrow> datagram_ok br' es ak' pay x"
  by (auto simp: datagram_ok_def)

lemma window_bytes:
  assumes "sends w bs es pay" "bs \<le> br" "k \<le> br + 32" "{br..<k} \<subseteq> {..<es}"
  shows "length (concat (map pay [br..<k])) \<le> 509 * 32"
proof -
  have "length (pay m) \<le> 509" if "m \<in> set [br..<k]" for m
  proof -
    have "m \<in> {bs..<es}" using that assms(2,4) by auto
    then show ?thesis using assms(1) by (simp add: sends_def holds_def carries_def)
  qed
  then have "length (concat (map pay [br..<k])) \<le> 509 * length (map pay [br..<k])" by (intro length_concat_le) auto
  also have "\<dots> \<le> 509 * 32" using assms(3) by simp
  finally show ?thesis .
qed

text \<open>A datagram arrives.\<close>

lemma moved_ok: "m_btBegin w = of_nat b \<Longrightarrow> m_btBegin w' = of_nat k \<Longrightarrow> b \<le> k \<Longrightarrow> k \<le> b + 32 \<Longrightarrow> b + moved w w' = k"
  unfolding moved_def by (simp flip: of_nat_diff add: unat_of_nat)

lemma arrives_ok:
  assumes f: "flows p q es pay" "flows q p es' pay'" and x: "(n, a, pkt) \<in> set (datagrams p)" "fresh n a q"
    and free: "leaked q + held (m_oRecvWindow (u_sock q)) < 32"
  defines "q' \<equiv> \<lambda>s. q\<lparr>u_sock := s, recv_from := recv_from q + moved (m_oRecvWindow (u_sock q)) (m_oRecvWindow s),
      sent_from := sent_from q + moved (m_oSendWindow (u_sock q)) (m_oSendWindow s)\<rparr>"
  shows "\<exists>fl s. udp_OnRecv (Received pkt) (u_sock q) = Some (fl, s) \<and>
    (if m_nState s = SSTATE_ESTABLISH then flows p (q' s) es pay \<and> flows (q' s) p es' pay'
     else m_nFreeLen (m_poRecvBuf (u_sock q)) < 509 * 32)"
proof -
  let ?br = "recv_from q" and ?bs = "sent_from q"
  have q: "posts (u_sock q) ?bs es' pay'" "1 \<le> ?bs" "?bs \<le> recv_from p" "recv_from p \<le> es'" using f(2) by (auto simp: flows_def)
  have p: "sends (m_oSendWindow (u_sock p)) (sent_from p) es pay" "1 \<le> sent_from p" "sent_from p \<le> ?br" "?br \<le> es"
    using f(1) by (auto simp: flows_def posts_def)
  obtain P L where P: "received L (u_sock q) ?br P pay" "?br \<notin> P" "P \<subseteq> {..<es}" "card L = leaked q" using f(1) by (auto simp: flows_def)
  have "card P + card L < 32" using free held_ok [of L "m_oRecvWindow (u_sock q)" ?br P pay] P(1,4) by (simp add: received_def)
  note P = P this
  have "datagram_ok ?br es (recv_from p) pay (n, a, pkt)" using f(1) x(1) by (auto simp: flows_def)
  then obtain d where d: "n < es" "a < recv_from p" "pkt = packet SSTATE_ESTABLISH n (of_nat a) d" "length d \<le> 509" "?br \<le> n \<Longrightarrow> d = pay n"
    by (auto simp: datagram_ok_def)
  have w: "sends (m_oSendWindow (u_sock q)) ?bs es' pay'" using q(1) by (simp add: posts_def)
  let ?bs' = "if ?bs \<le> a then Suc a else ?bs" and ?Q = "if ?br \<le> n then insert n P else P"
  have h: "1 \<le> ?br" "n < ?br + 32" "?br \<le> n + 224" "a < es'" "?bs \<le> a + 224"
    using p d(1,2) q(4) x(2) sends_bound [OF p(1)] by (auto simp: fresh_def)
  obtain fl s where s: "udp_OnRecv (Received pkt) (u_sock q) = Some (fl, s)" "recv_kept (u_sock q) s" "sends (m_oSendWindow s) ?bs' es' pay'"
    "got_packet L (u_sock q) s ?br ?Q pay"
    using udp_OnRecv_ok [OF P(1) w P(2) h(1) P(5) h(2,3) d(5,4) h(4,5)] unfolding d(3) by blast
  obtain k where k: "?br \<le> k" "k \<le> ?br + 32" "{?br..<k} \<subseteq> ?Q" "k \<notin> ?Q"
    "if m_nState s = SSTATE_ESTABLISH
     then received L s k (?Q - {..<k}) pay \<and> lb_data (m_poRecvBuf s) = lb_data (m_poRecvBuf (u_sock q)) @ concat (map pay [?br..<k])
     else m_nFreeLen (m_poRecvBuf (u_sock q)) < int (length (concat (map pay [?br..<k])))"
    using s(4) unfolding got_packet_def by blast
  have Q: "?Q \<subseteq> {..<es}" using P(3) d(1) by auto
  show ?thesis
  proof (cases "m_nState s = SSTATE_ESTABLISH")
    case True
    have rec: "received L s k (?Q - {..<k}) pay" "lb_data (m_poRecvBuf s) = lb_data (m_poRecvBuf (u_sock q)) @ concat (map pay [?br..<k])"
      using k(5) True by simp_all
    have kes: "k \<le> es"
    proof (cases "k = ?br")
      case False
      then have "k - 1 \<in> {?br..<k}" using k(1) by auto
      then have "k - 1 \<in> {..<es}" using k(3) Q by blast
      then show ?thesis by simp
    qed (use p(4) in simp)
    have rf: "recv_from (q' s) = k"
      unfolding q'_def using moved_ok [OF _ _ k(1,2), of "m_oRecvWindow (u_sock q)" "m_oRecvWindow s"] P(1) rec(1)
      by (simp add: received_def recvs_def)
    have "?bs \<le> ?bs'" "?bs' \<le> ?bs + 32" using h(4) sends_bound [OF w] by auto
    from moved_ok [OF _ _ this, of "m_oSendWindow (u_sock q)" "m_oSendWindow s"] have sf: "sent_from (q' s) = ?bs'"
      unfolding q'_def using w s(3) by (simp add: sends_def)
    have us: "u_sock (q' s) = s" "accepted (q' s) = accepted q" "heard (q' s) = heard q" "datagrams (q' s) = datagrams q" "leaked (q' s) = leaked q"
      by (simp_all add: q'_def)
    have "[?br..<es] = [?br..<k] @ [k..<es]" using upt_add_eq_append [OF k(1), of "es - k"] kes by simp
    then have data: "lb_data (m_poRecvBuf s) @ concat (map pay [k..<es]) = lb_data (m_poRecvBuf (u_sock q)) @ concat (map pay [?br..<es])"
      by (simp add: rec(2))
    obtain rst where "between p q (concat (map pay [?br..<es])) rst" using f(1) by (auto simp: flows_def)
    then have bt: "between p (q' s) (concat (map pay [k..<es])) rst"
      using data unfolding between_def us by (metis append_assoc)
    have dg: "\<forall>x \<in> set (datagrams p). datagram_ok k es (recv_from p) pay x"
      using f(1) k(1) by (auto simp: flows_def intro: datagram_moved)
    have "k \<notin> ?Q - {..<k}" "?Q - {..<k} \<subseteq> {..<es}" "sent_from p \<le> k" using k(1,4) Q p(3) by auto
    then have "flows p (q' s) es pay"
      unfolding flows_def rf us using f(1) [unfolded flows_def] rec(1) kes dg bt P(4) by blast
    moreover have "flows (q' s) p es' pay'"
    proof -
      have "posts s ?bs' es' pay'" using q(1) s(2,3) True by (simp add: posts_def recv_kept_def)
      moreover have "\<forall>x \<in> set (datagrams q). datagram_ok (recv_from p) es' k pay' x"
        using f(2) k(1) by (auto simp: flows_def intro: datagram_moved)
      moreover have "1 \<le> ?bs'" "?bs' \<le> recv_from p" using q(2,3) d(2) by auto
      moreover have "between (q' s) p fl rst \<longleftrightarrow> between q p fl rst" for fl rst
        unfolding between_def us using s(2) by (simp add: recv_kept_def)
      ultimately show ?thesis unfolding flows_def rf us(1,4) sf using f(2) by (auto simp: flows_def)
    qed
    ultimately show ?thesis using s(1) True by auto
  next
    case False
    have "length (concat (map pay [?br..<k])) \<le> 509 * 32"
      by (rule window_bytes [OF p(1,3) k(2)]) (use k(3) Q in blast)
    then show ?thesis using s(1) False k(5) by auto
  qed
qed

section \<open>Every reachable link\<close>

lemma link_okI: "flows p q es pay \<Longrightarrow> flows q p es' pay' \<Longrightarrow> link_ok (p, q)"
  unfolding link_ok_def by blast

lemma link_okE:
  assumes "link_ok (p, q)"
  obtains es pay es' pay' where "flows p q es pay" "flows q p es' pay'"
  using assms unfolding link_ok_def by auto

lemma udp_step_ok: "udp_step l l' \<Longrightarrow> link_ok l \<Longrightarrow> link_ok l'"
proof (induction rule: udp_step.induct)
  case (writes sleep m tem p ok tem' s q)
  obtain es pay es' pay' where f: "flows p q es pay" "flows q p es' pay'" using writes.prems by (rule link_okE)
  show ?case by (rule link_okI [OF writes_ok [OF f writes.hyps]])
next
  case (posts_data c p ok ps s q)
  obtain es pay es' pay' where f: "flows p q es pay" "flows q p es' pay'" using posts_data.prems by (rule link_okE)
  note g = posts_data_ok [OF f posts_data.hyps]
  from g(1) obtain es2 pay2 where "flows (p\<lparr>u_sock := s, datagrams := datagrams p @ map (stamp p) ps\<rparr>) q es2 pay2" by blast
  then show ?case by (rule link_okI [OF _ g(2)])
next
  case (arrives n a pkt p q f s)
  obtain es pay es' pay' where f: "flows p q es pay" "flows q p es' pay'" using arrives.prems by (rule link_okE)
  have "leaked q + held (m_oRecvWindow (u_sock q)) < 32"
    using no_buffer(1) [OF f(1)] no_buffer(3) [OF f(1), of "Received pkt"] arrives.hyps(3) by (cases "leaked q + held (m_oRecvWindow (u_sock q)) = 32") auto
  then show ?case using arrives_ok [OF f arrives.hyps(1,2)] arrives.hyps(3,4) by (auto intro: link_okI)
next
  case (stalls again err q f s p)
  obtain es pay es' pay' where f: "flows p q es pay" "flows q p es' pay'" using stalls.prems by (rule link_okE)
  show ?case by (rule link_okI [OF stalls_ok [OF f stalls.hyps]])
next
  case (reads q n sz buf m buf' s p)
  obtain es pay es' pay' where f: "flows p q es pay" "flows q p es' pay'" using reads.prems by (rule link_okE)
  show ?case by (rule link_okI [OF reads_ok [OF f reads.hyps]])
next
  case (other_way p q p' q')
  then show ?case by (auto intro: link_ok_swap)
qed

lemma udp_reach_ok: "udp_reach l \<Longrightarrow> link_ok l"
proof (induction rule: udp_reach.induct)
  case (start s t)
  then show ?case using start_ok [of s t "\<lambda>_. []"] start_ok [of t s "\<lambda>_. []"] by (blast intro: link_okI)
qed (rule udp_step_ok)

text \<open>A link on which a message was written and posted.\<close>

definition new_slide :: slide where
  "new_slide = \<lparr>m_ppBuffer = replicate 32 (replicate 512 0), m_btFreeBufferId = 0, m_pSeqBufferId = replicate 32 0,
     m_pSeqSize = replicate 32 0, m_btBegin = 0, m_btEnd = 0\<rparr>"

definition new_udp_sock :: udp_sock where
  "new_udp_sock = \<lparr>m_oSendWindow = new_slide, m_oRecvWindow = new_slide, m_poSendBuf = FxLoopBuff, m_poRecvBuf = FxLoopBuff,
     m_pDataHeader = \<lparr>m_dataRecvBuffer = replicate 8 0, m_dataSendBuffer = replicate 8 0\<rparr>, m_bSendAck = False,
     m_nState = SSTATE_INVALID, m_hSock = True, m_bSendLinger = False, m_bDelayClose = False, m_events = []\<rparr>"

definition blank :: "int \<Rightarrow> bytes" where
  "blank n = replicate (nat n) 0"

definition new_end :: udp_sock where
  "new_end = establish (snd (udp_Init (Some (blank RECV_BUFF_SIZE)) (Some (blank SEND_BUFF_SIZE)) new_udp_sock))"

lemma new_end_fresh: "fresh_end new_end"
proof -
  have raw: "raw_sock new_udp_sock" by (simp add: raw_sock_def shaped_def header_ok_def HEADER_SIZE_def new_udp_sock_def new_slide_def)
  have l: "length (blank RECV_BUFF_SIZE) = nat RECV_BUFF_SIZE" "length (blank SEND_BUFF_SIZE) = nat SEND_BUFF_SIZE"
    by (simp_all add: blank_def)
  have "(0 :: int) < RECV_BUFF_SIZE" "(0 :: int) < SEND_BUFF_SIZE" "RECV_BUFF_SIZE \<le> 2 ^ 30" "SEND_BUFF_SIZE \<le> 2 ^ 30"
    by (simp_all add: RECV_BUFF_SIZE_def SEND_BUFF_SIZE_def)
  then have "fst (Init (Some (blank RECV_BUFF_SIZE)) RECV_BUFF_SIZE FxLoopBuff)" "fst (Init (Some (blank SEND_BUFF_SIZE)) SEND_BUFF_SIZE FxLoopBuff)"
    using Init_ok [OF _ _ l(1)] Init_ok [OF _ _ l(2)] by auto
  then have "fst (udp_Init (Some (blank RECV_BUFF_SIZE)) (Some (blank SEND_BUFF_SIZE)) new_udp_sock)"
    by (auto simp: udp_Init_def new_udp_sock_def Let_def split: prod.splits)
  then have "udp_Init (Some (blank RECV_BUFF_SIZE)) (Some (blank SEND_BUFF_SIZE)) new_udp_sock =
      (True, snd (udp_Init (Some (blank RECV_BUFF_SIZE)) (Some (blank SEND_BUFF_SIZE)) new_udp_sock))"
    by (simp add: prod_eq_iff)
  then show ?thesis using raw l unfolding fresh_end_def new_end_def by blast
qed

definition eager :: send_choice where
  "eager = \<lparr>lost = False, quiet = False, idle = False, control = 1, due = \<lambda>_. True, sys_send = \<lambda>_. Sent 1, sys_ack = Again\<rparr>"

lemma posted_link:
  "\<exists>p. udp_reach (p, start_end new_end) \<and> accepted p = [[1, 2, 3]] \<and> datagrams p \<noteq> []"
proof -
  let ?m = "[1, 2, 3] :: bytes" and ?q = "start_end new_end"
  note f = fresh_end_ok [OF new_end_fresh]
  have big: "int (8 + length ?m) \<le> SEND_BUFF_SIZE" by (simp add: SEND_BUFF_SIZE_def)
  have "length ?m + 8 < 2 ^ 31" "8 + length ?m \<le> length (replicate 11 0 :: bytes)" by simp_all
  from udp_Send_ok [OF f(1) this(1) _ this(2)] f(3,5,6) big obtain tem' s where
    s: "udp_Send id ?m (length ?m) (replicate 11 0) new_end = Some (True, tem', s)" "lb_data (m_poSendBuf s) = pkt_frame ?m"
      "posts s 1 1 (\<lambda>_. [])"
    by force
  let ?p = "(start_end new_end)\<lparr>u_sock := s, accepted := [?m]\<rparr>"
  have "udp_step (?q, ?q) (?q\<lparr>u_sock := s, accepted := accepted ?q @ (if True then [?m] else [])\<rparr>, ?q)"
    by (rule udp_step.writes [where sleep = id and tem = "replicate 11 0" and tem' = tem'])
      (use s(1) f(6) big in \<open>simp_all add: start_end_def\<close>)
  then have "udp_reach (?p, ?q)"
    using udp_reach.step [OF udp_reach.start [OF new_end_fresh new_end_fresh]] by (simp add: start_end_def)
  moreover have "all_due eager" by (simp add: all_due_def eager_def)
  then obtain ok ps s' where ps: "udp_PostSend eager s = Some (ok, ps, s')" "ps \<noteq> []"
    using udp_PostSend_ok [OF s(3), of eager] s(2) by (auto simp: pkt_frame_def)
  then have "udp_step (?p, ?q) (?p\<lparr>u_sock := s', datagrams := datagrams ?p @ map (stamp ?p) ps\<rparr>, ?q)"
    by (intro udp_step.posts_data) simp
  ultimately have "udp_reach (?p\<lparr>u_sock := s', datagrams := datagrams ?p @ map (stamp ?p) ps\<rparr>, ?q)" by (rule udp_reach.step)
  then show ?thesis using ps(2) by (intro exI conjI) auto
qed

section \<open>The connection as a reliable byte stream\<close>

text \<open>C32: over a network that loses, repeats and reorders datagrams, and with events for which there is
  nothing to receive, the messages the session of one end was handed are a prefix of those that \<open>Send\<close>
  accepted at the other, unchanged and in order.  The frames of the remaining ones are what waits in the
  receive buffer, what is in flight and what waits in the send buffer; when the send window is empty,
  nothing is in flight.\<close>

theorem udp_stream:
  assumes "udp_reach (p, q)"
  shows "\<exists>rst flight. accepted p = heard q @ rst \<and>
    pkt_stream rst = lb_data (m_poRecvBuf (u_sock q)) @ flight @ lb_data (m_poSendBuf (u_sock p)) \<and>
    (Count (m_oSendWindow (u_sock p)) = 0 \<longrightarrow> flight = [])"
proof -
  obtain es pay where f: "flows p q es pay" using udp_reach_ok [OF assms] by (auto simp: link_ok_def)
  have "recv_from q = es" if "Count (m_oSendWindow (u_sock p)) = 0"
  proof -
    have w: "sends (m_oSendWindow (u_sock p)) (sent_from p) es pay" using f by (simp add: flows_def posts_def)
    then have "of_nat (sent_from p) = (of_nat es :: byte)" using that by (simp add: Count_def sends_def)
    then have "sent_from p = es" using of_nat_near [of "sent_from p" es] w sends_bound [OF w] by (simp add: sends_def)
    then show ?thesis using f by (simp add: flows_def)
  qed
  moreover obtain rst where "between p q (concat (map pay [recv_from q..<es])) rst" using f by (auto simp: flows_def)
  ultimately show ?thesis
    by (intro exI [of _ rst] exI [of _ "concat (map pay [recv_from q..<es])"]) (auto simp: between_def)
qed

theorem udp_stream_witness:
  "\<exists>p q rst flight. udp_reach (p, q) \<and> datagrams p \<noteq> [] \<and> [[1, 2, 3]] = heard q @ rst \<and>
    pkt_stream rst = lb_data (m_poRecvBuf (u_sock q)) @ flight @ lb_data (m_poSendBuf (u_sock p))"
proof -
  obtain p where p: "udp_reach (p, start_end new_end)" "accepted p = [[1, 2, 3]]" "datagrams p \<noteq> []" using posted_link by blast
  then show ?thesis using udp_stream [OF p(1)] by metis
qed

text \<open>C33: on every reachable link posting stays inside the arrays whatever the timers, the control and the
  operating system do; when data waits and everything is due, for every control above 0 (the code keeps
  it between 1 and 32), something is sent, the oldest number that is not acknowledged first.  A buffer of
  the receive window is free, held by a packet that waits for an earlier one, or lost to a call of \<open>recv\<close>
  that found nothing to read; without such calls one is always left.  While one is left, every fresh
  datagram is taken without an access outside an array, the connection staying up unless less room is left
  in the receive buffer than a window holds; when none is left, \<open>OnRecv\<close> reads outside the array.\<close>

theorem udp_no_fault:
  assumes "udp_reach (p, q)"
  shows "(\<exists>ps s. udp_Update err c (u_sock p) = Some (ps, s) \<and>
      (all_due c \<longrightarrow> lb_data (m_poSendBuf (u_sock p)) \<noteq> [] \<longrightarrow> ps \<noteq> [] \<and> hd ps ! 1 = m_btBegin (m_oSendWindow (u_sock p)))) \<and>
    leaked q + held (m_oRecvWindow (u_sock q)) \<le> 32 \<and> (leaked q = 0 \<longrightarrow> held (m_oRecvWindow (u_sock q)) < 32) \<and>
    (\<forall>(n, a, pkt) \<in> set (datagrams p). fresh n a q \<longrightarrow>
      (if leaked q + held (m_oRecvWindow (u_sock q)) < 32
       then \<exists>parse s. udp_OnRecv (Received pkt) (u_sock q) = Some (parse, s) \<and>
         (m_nState s = SSTATE_ESTABLISH \<or> m_nFreeLen (m_poRecvBuf (u_sock q)) < 32 * 509)
       else udp_OnRecv (Received pkt) (u_sock q) = None))"
proof -
  obtain es pay es' pay' where f: "flows p q es pay" "flows q p es' pay'" using udp_reach_ok [OF assms] by (rule link_okE)
  have "posts (u_sock p) (sent_from p) es pay" "1 \<le> sent_from p" using f(1) by (simp_all add: flows_def)
  from udp_PostSend_ok [OF this, of c]
  have "\<exists>ps s. udp_Update err c (u_sock p) = Some (ps, s) \<and>
      (all_due c \<longrightarrow> lb_data (m_poSendBuf (u_sock p)) \<noteq> [] \<longrightarrow> ps \<noteq> [] \<and> hd ps ! 1 = m_btBegin (m_oSendWindow (u_sock p)))"
    by (auto simp: udp_Update_def)
  moreover have "\<exists>parse s. udp_OnRecv (Received pkt) (u_sock q) = Some (parse, s) \<and>
      (m_nState s = SSTATE_ESTABLISH \<or> m_nFreeLen (m_poRecvBuf (u_sock q)) < 32 * 509)"
    if "(n, a, pkt) \<in> set (datagrams p)" "fresh n a q" "leaked q + held (m_oRecvWindow (u_sock q)) < 32" for n a pkt
    using arrives_ok [OF f that] by (auto split: if_splits)
  moreover have "udp_OnRecv rr (u_sock q) = None" if "\<not> leaked q + held (m_oRecvWindow (u_sock q)) < 32" for rr
    using no_buffer(1,3) [OF f(1)] that by simp
  ultimately show ?thesis using no_buffer(1,2) [OF f(1)] by auto
qed

theorem udp_no_fault_witness:
  "\<exists>p q n a pkt parse s. udp_reach (p, q) \<and> (n, a, pkt) \<in> set (datagrams p) \<and> fresh n a q \<and>
    udp_OnRecv (Received pkt) (u_sock q) = Some (parse, s) \<and> udp_Update 0 eager (u_sock p) \<noteq> None"
proof -
  obtain p where p: "udp_reach (p, start_end new_end)" "datagrams p \<noteq> []" using posted_link by blast
  then obtain n a pkt where x: "(n, a, pkt) \<in> set (datagrams p)" by (metis list.set_intros(1) neq_Nil_conv prod_cases3)
  have "fresh n a (start_end new_end)" "leaked (start_end new_end) = 0" by (simp_all add: fresh_def start_end_def)
  then show ?thesis using udp_no_fault [OF p(1), of 0 eager] p(1) x by fastforce
qed

end
