(* ===== verification/Sds.thy ===== *)
theory Sds imports Http Util begin

text \<open>
  Dynamic strings: \<open>sds.c\<close> and \<open>sds.h\<close> of \<open>Server/redis-3.2.1/src\<close>.  A string is the memory behind its
  header, which is one of five structs; its kind is in the low bits of the flags.  The fields of the
  record are those of the struct of its kind (the smallest has neither length nor allocation, its
  length is in the flags).  \<open>fresh\<close> is what new memory holds; allocation succeeds, as the server's allocator
  ends the process otherwise.  A string that is passed beside the one that is changed lies in other
  memory.  \<open>None\<close> is an access outside a block, or a failed \<open>assert\<close>.  \<open>size_t\<close> has 64 bits, \<open>int\<close> 32.
\<close>

unbundle bit_operations_syntax

section \<open>The header\<close>

record sds =
  sh_flags :: byte
  sh_len :: nat
  sh_alloc :: nat
  sh_buf :: bytes

definition SDS_TYPE_5 :: byte where "SDS_TYPE_5 = 0"
definition SDS_TYPE_8 :: byte where "SDS_TYPE_8 = 1"
definition SDS_TYPE_16 :: byte where "SDS_TYPE_16 = 2"
definition SDS_TYPE_32 :: byte where "SDS_TYPE_32 = 3"
definition SDS_TYPE_64 :: byte where "SDS_TYPE_64 = 4"
definition SDS_TYPE_MASK :: byte where "SDS_TYPE_MASK = 7"
definition SDS_MAX_PREALLOC :: nat where "SDS_MAX_PREALLOC = 1024 * 1024"

lemmas sds_types = SDS_TYPE_5_def SDS_TYPE_8_def SDS_TYPE_16_def SDS_TYPE_32_def SDS_TYPE_64_def SDS_TYPE_MASK_def

definition sds_type :: "sds \<Rightarrow> byte" where
  "sds_type s = sh_flags s AND SDS_TYPE_MASK"

text \<open>The bits of the fields of a header.\<close>

definition hdr_bits :: "byte \<Rightarrow> nat" where
  "hdr_bits t = (if t = SDS_TYPE_8 then 8 else if t = SDS_TYPE_16 then 16 else if t = SDS_TYPE_32 then 32 else 64)"

definition sdsHdrSize :: "byte \<Rightarrow> nat" where
  "sdsHdrSize ty =
    (let t = ty AND SDS_TYPE_MASK in
     if t = SDS_TYPE_5 then 1 else if t = SDS_TYPE_8 then 3 else if t = SDS_TYPE_16 then 5
     else if t = SDS_TYPE_32 then 9 else if t = SDS_TYPE_64 then 17 else 0)"

definition sdsReqType :: "nat \<Rightarrow> byte" where
  "sdsReqType string_size =
    (if string_size < 2 ^ 5 then SDS_TYPE_5 else if string_size < 2 ^ 8 then SDS_TYPE_8
     else if string_size < 2 ^ 16 then SDS_TYPE_16 else if string_size < 2 ^ 32 then SDS_TYPE_32 else SDS_TYPE_64)"

definition SDS_TYPE_5_LEN :: "byte \<Rightarrow> nat" where
  "SDS_TYPE_5_LEN f = unat (drop_bit 3 f)"

definition sdslen :: "sds \<Rightarrow> nat" where
  "sdslen s = (if sds_type s = SDS_TYPE_5 then SDS_TYPE_5_LEN (sh_flags s) else if sds_type s \<le> SDS_TYPE_64 then sh_len s else 0)"

definition size_t :: "int \<Rightarrow> nat" where
  "size_t x = nat (x mod 2 ^ 64)"

text \<open>\<open>sh->alloc - sh->len\<close>, in \<open>int\<close> for the two short kinds, unsigned for the others.\<close>

definition hdr_free :: "sds \<Rightarrow> int" where
  "hdr_free s =
    (let d = int (sh_alloc s) - int (sh_len s)
     in if sds_type s = SDS_TYPE_32 then d mod 2 ^ 32 else if sds_type s = SDS_TYPE_64 then d mod 2 ^ 64 else d)"

definition sdsavail :: "sds \<Rightarrow> nat" where
  "sdsavail s = (if sds_type s = SDS_TYPE_5 \<or> sds_type s > SDS_TYPE_64 then 0 else size_t (hdr_free s))"

definition sdssetlen :: "nat \<Rightarrow> sds \<Rightarrow> sds" where
  "sdssetlen newlen s =
    (if sds_type s = SDS_TYPE_5 then s\<lparr>sh_flags := SDS_TYPE_5 OR of_nat (newlen * 2 ^ 3)\<rparr>
     else if sds_type s \<le> SDS_TYPE_64 then s\<lparr>sh_len := newlen mod 2 ^ hdr_bits (sds_type s)\<rparr> else s)"

definition sdsalloc :: "sds \<Rightarrow> nat" where
  "sdsalloc s = (if sds_type s = SDS_TYPE_5 then SDS_TYPE_5_LEN (sh_flags s) else if sds_type s \<le> SDS_TYPE_64 then sh_alloc s else 0)"

definition sdssetalloc :: "nat \<Rightarrow> sds \<Rightarrow> sds" where
  "sdssetalloc newlen s =
    (if sds_type s = SDS_TYPE_5 then s
     else if sds_type s \<le> SDS_TYPE_64 then s\<lparr>sh_alloc := newlen mod 2 ^ hdr_bits (sds_type s)\<rparr> else s)"

section \<open>Memory\<close>

definition new_block :: "(nat \<Rightarrow> byte) \<Rightarrow> nat \<Rightarrow> bytes" where
  "new_block fresh n = map fresh [0..<n]"

text \<open>The bytes behind a header of \<open>hdrlen\<close> bytes in a block for a string of \<open>n\<close>, if the header fits,
  and the block after \<open>realloc\<close>.\<close>

definition str_room :: "nat \<Rightarrow> nat \<Rightarrow> nat option" where
  "str_room hdrlen n =
    (let size = (hdrlen + n + 1) mod 2 ^ 64 in if hdrlen \<le> size then Some (size - hdrlen) else None)"

definition re_block :: "(nat \<Rightarrow> byte) \<Rightarrow> nat \<Rightarrow> bytes \<Rightarrow> bytes" where
  "re_block fresh n old = take n old @ map fresh [length old..<n]"

definition bytes_at :: "bytes \<Rightarrow> nat \<Rightarrow> nat \<Rightarrow> bytes option" where
  "bytes_at mem off n = (if off + n \<le> length mem then Some (take n (drop off mem)) else None)"

definition put_at :: "nat \<Rightarrow> bytes \<Rightarrow> sds \<Rightarrow> sds option" where
  "put_at off src s = (if off + length src \<le> length (sh_buf s) then Some (s\<lparr>sh_buf := blit (sh_buf s) off src\<rparr>) else None)"

definition strlen :: "bytes \<Rightarrow> nat option" where
  "strlen t = (if 0 \<in> set t then Some (length (takeWhile (\<lambda>c. c \<noteq> 0) t)) else None)"

section \<open>Creating strings\<close>

definition sdsnewlen :: "(nat \<Rightarrow> byte) \<Rightarrow> bytes option \<Rightarrow> nat \<Rightarrow> sds option" where
  "sdsnewlen fresh init initlen =
    (let type = sdsReqType initlen;
         type = (if type = SDS_TYPE_5 \<and> initlen = 0 then SDS_TYPE_8 else type)
     in do {
       room \<leftarrow> str_room (sdsHdrSize type) initlen;
       let s = \<lparr>sh_flags = (if type = SDS_TYPE_5 then type OR of_nat (initlen * 2 ^ 3) else type),
                sh_len = initlen mod 2 ^ hdr_bits type, sh_alloc = initlen mod 2 ^ hdr_bits type,
                sh_buf = (if init = None then replicate room 0 else new_block fresh room)\<rparr>;
       s \<leftarrow> (case init of Some src \<Rightarrow> if initlen \<noteq> 0 then do { d \<leftarrow> bytes_at src 0 initlen; put_at 0 d s } else Some s
             | None \<Rightarrow> Some s);
       put_at initlen [0] s })"

definition sdsnew :: "(nat \<Rightarrow> byte) \<Rightarrow> bytes option \<Rightarrow> sds option" where
  "sdsnew fresh init = do { initlen \<leftarrow> (case init of None \<Rightarrow> Some 0 | Some t \<Rightarrow> strlen t); sdsnewlen fresh init initlen }"

definition sdsempty :: "(nat \<Rightarrow> byte) \<Rightarrow> sds option" where
  "sdsempty fresh = sdsnewlen fresh (Some []) 0"

definition sdsdup :: "(nat \<Rightarrow> byte) \<Rightarrow> sds \<Rightarrow> sds option" where
  "sdsdup fresh s = sdsnewlen fresh (Some (sh_buf s)) (sdslen s)"

definition sdsupdatelen :: "sds \<Rightarrow> sds option" where
  "sdsupdatelen s = do { reallen \<leftarrow> strlen (sh_buf s); Some (sdssetlen (size_t (int32 (int reallen))) s) }"

definition sdsclear :: "sds \<Rightarrow> sds option" where
  "sdsclear s = put_at 0 [0] (sdssetlen 0 s)"

section \<open>Room\<close>

text \<open>The change of a header with the allocation: the struct of the new kind, in the same block grown or
  in a new one.\<close>

definition move_header :: "(nat \<Rightarrow> byte) \<Rightarrow> byte \<Rightarrow> nat \<Rightarrow> sds \<Rightarrow> sds option" where
  "move_header fresh type newlen s =
    do { room \<leftarrow> str_room (sdsHdrSize type) newlen;
         s \<leftarrow> (if sds_type s = type then Some (s\<lparr>sh_buf := re_block fresh room (sh_buf s)\<rparr>)
               else do { d \<leftarrow> bytes_at (sh_buf s) 0 (sdslen s + 1);
                         s' \<leftarrow> put_at 0 d (s\<lparr>sh_buf := new_block fresh room\<rparr>);
                         Some (sdssetlen (sdslen s) (s'\<lparr>sh_flags := type\<rparr>)) });
         Some (sdssetalloc newlen s) }"

definition sdsMakeRoomFor :: "(nat \<Rightarrow> byte) \<Rightarrow> nat \<Rightarrow> sds \<Rightarrow> sds option" where
  "sdsMakeRoomFor fresh addlen s =
    (if sdsavail s \<ge> addlen then Some s
     else
       (let newlen = (sdslen s + addlen) mod 2 ^ 64;
            newlen = (if newlen < SDS_MAX_PREALLOC then newlen * 2 else (newlen + SDS_MAX_PREALLOC) mod 2 ^ 64);
            type = sdsReqType newlen;
            type = (if type = SDS_TYPE_5 then SDS_TYPE_8 else type)
        in move_header fresh type newlen s))"

definition sdsRemoveFreeSpace :: "(nat \<Rightarrow> byte) \<Rightarrow> sds \<Rightarrow> sds option" where
  "sdsRemoveFreeSpace fresh s = (let len = sdslen s in move_header fresh (sdsReqType len) len s)"

definition sdsAllocSize :: "sds \<Rightarrow> nat" where
  "sdsAllocSize s = sdsHdrSize (sh_flags s) + sdsalloc s + 1"

definition sdsIncrLen :: "int \<Rightarrow> sds \<Rightarrow> sds option" where
  "sdsIncrLen incr s =
    (if sds_type s = SDS_TYPE_5 then
       (let oldlen = int (SDS_TYPE_5_LEN (sh_flags s)) in
        if incr > 0 \<and> oldlen + incr < 32 \<or> incr < 0 \<and> oldlen \<ge> - incr
        then put_at (nat (oldlen + incr)) [0] (s\<lparr>sh_flags := SDS_TYPE_5 OR of_int ((oldlen + incr) * 2 ^ 3)\<rparr>) else None)
     else if sds_type s \<le> SDS_TYPE_64 then
       (if incr \<ge> 0 \<and> hdr_free s \<ge> incr \<or> incr < 0 \<and> int (sh_len s) \<ge> - incr
        then (let s = s\<lparr>sh_len := nat ((int (sh_len s) + incr) mod 2 ^ hdr_bits (sds_type s))\<rparr> in put_at (sh_len s) [0] s)
        else None)
     else put_at 0 [0] s)"

section \<open>Changing strings\<close>

definition sdsgrowzero :: "(nat \<Rightarrow> byte) \<Rightarrow> nat \<Rightarrow> sds \<Rightarrow> sds option" where
  "sdsgrowzero fresh len s =
    (let curlen = sdslen s in
     if len \<le> curlen then Some s
     else do { s \<leftarrow> sdsMakeRoomFor fresh (len - curlen) s;
               s \<leftarrow> put_at curlen (replicate (len - curlen + 1) 0) s;
               Some (sdssetlen len s) })"

definition sdscatlen :: "(nat \<Rightarrow> byte) \<Rightarrow> bytes \<Rightarrow> nat \<Rightarrow> sds \<Rightarrow> sds option" where
  "sdscatlen fresh t len s =
    (let curlen = sdslen s in
     do { s \<leftarrow> sdsMakeRoomFor fresh len s;
          d \<leftarrow> bytes_at t 0 len;
          s \<leftarrow> put_at curlen d s;
          put_at (curlen + len) [0] (sdssetlen (curlen + len) s) })"

definition sdscat :: "(nat \<Rightarrow> byte) \<Rightarrow> bytes \<Rightarrow> sds \<Rightarrow> sds option" where
  "sdscat fresh t s = do { n \<leftarrow> strlen t; sdscatlen fresh t n s }"

definition sdscatsds :: "(nat \<Rightarrow> byte) \<Rightarrow> sds \<Rightarrow> sds \<Rightarrow> sds option" where
  "sdscatsds fresh t s = sdscatlen fresh (sh_buf t) (sdslen t) s"

definition sdscpylen :: "(nat \<Rightarrow> byte) \<Rightarrow> bytes \<Rightarrow> nat \<Rightarrow> sds \<Rightarrow> sds option" where
  "sdscpylen fresh t len s =
    do { s \<leftarrow> (if sdsalloc s < len then sdsMakeRoomFor fresh (size_t (int len - int (sdslen s))) s else Some s);
         d \<leftarrow> bytes_at t 0 len;
         s \<leftarrow> put_at 0 d s;
         s \<leftarrow> put_at len [0] s;
         Some (sdssetlen len s) }"

definition sdscpy :: "(nat \<Rightarrow> byte) \<Rightarrow> bytes \<Rightarrow> sds \<Rightarrow> sds option" where
  "sdscpy fresh t s = do { n \<leftarrow> strlen t; sdscpylen fresh t n s }"

text \<open>The set of characters is given without its NUL, but \<open>strchr\<close> finds that one, too.\<close>

definition in_cset :: "bytes \<Rightarrow> byte \<Rightarrow> bool" where
  "in_cset cset c \<longleftrightarrow> c \<in> set cset \<or> c = 0"

text \<open>The pointers \<open>sp\<close> and \<open>ep\<close> are positions, \<open>ep\<close> of an empty string is one before its start.\<close>

function trim_left :: "bytes \<Rightarrow> bytes \<Rightarrow> int \<Rightarrow> int \<Rightarrow> int option" where
  "trim_left cset buf sp end =
    (if sp \<le> end then
       if sp < 0 \<or> int (length buf) \<le> sp then None
       else if in_cset cset (buf ! nat sp) then trim_left cset buf (sp + 1) end else Some sp
     else Some sp)"
  by pat_completeness auto
termination by (relation "measure (\<lambda>(c, b, sp, e). nat (e + 1 - sp))") auto

function trim_right :: "bytes \<Rightarrow> bytes \<Rightarrow> int \<Rightarrow> int \<Rightarrow> int option" where
  "trim_right cset buf sp ep =
    (if ep > sp then
       if ep < 0 \<or> int (length buf) \<le> ep then None
       else if in_cset cset (buf ! nat ep) then trim_right cset buf sp (ep - 1) else Some ep
     else Some ep)"
  by pat_completeness auto
termination by (relation "measure (\<lambda>(c, b, sp, ep). nat (ep - sp))") auto

declare trim_left.simps [simp del] trim_right.simps [simp del]

definition sdstrim :: "bytes \<Rightarrow> sds \<Rightarrow> sds option" where
  "sdstrim cset s =
    (let end = int (sdslen s) - 1 in
     do { sp \<leftarrow> trim_left cset (sh_buf s) 0 end;
          ep \<leftarrow> trim_right cset (sh_buf s) sp end;
          let len = (if sp > ep then 0 else nat (ep - sp + 1));
          s \<leftarrow> (if sp \<noteq> 0 then do { d \<leftarrow> bytes_at (sh_buf s) (nat sp) len; put_at 0 d s } else Some s);
          s \<leftarrow> put_at len [0] s;
          Some (sdssetlen len s) })"

text \<open>The conversions of \<open>sdsrange\<close> between \<open>int\<close> and \<open>size_t\<close>; \<open>end - start + 1\<close> is taken to wrap.\<close>

definition range_len :: "int \<Rightarrow> int \<Rightarrow> nat" where
  "range_len start end = (if start > end then 0 else size_t (int32 (end - start + 1)))"

definition range_index :: "nat \<Rightarrow> int \<Rightarrow> int" where
  "range_index len i = (if i < 0 then (let i = int32 (int len + i) in if i < 0 then 0 else i) else i)"

definition sdsrange :: "int \<Rightarrow> int \<Rightarrow> sds \<Rightarrow> sds option" where
  "sdsrange start end s =
    (let len = sdslen s in
     if len = 0 then Some s
     else
       (let start = range_index len start;
            end = range_index len end;
            newlen = range_len start end;
            (start, newlen) =
              (if newlen \<noteq> 0 then
                 (if start \<ge> int32 (int len) then (start, 0)
                  else if end \<ge> int32 (int len) then (start, range_len start (int32 (int len - 1)))
                  else (start, newlen))
               else (0, newlen))
        in do { s \<leftarrow> (if start \<noteq> 0 \<and> newlen \<noteq> 0 then do { d \<leftarrow> bytes_at (sh_buf s) (nat start) newlen; put_at 0 d s } else Some s);
                s \<leftarrow> put_at newlen [0] s;
                Some (sdssetlen newlen s) }))"

text \<open>\<open>tolower\<close> and \<open>toupper\<close> in the C locale.  The loops run over an \<open>int\<close>.\<close>

definition toupper :: "byte \<Rightarrow> byte" where
  "toupper c = (if 97 \<le> c \<and> c \<le> 122 then c - 32 else c)"

definition each_char :: "(byte \<Rightarrow> byte) \<Rightarrow> nat \<Rightarrow> sds \<Rightarrow> sds option" where
  "each_char f n s = do { d \<leftarrow> bytes_at (sh_buf s) 0 n; put_at 0 (map f d) s }"

definition sdstolower :: "sds \<Rightarrow> sds option" where
  "sdstolower s = each_char tolower (nat (int32 (int (sdslen s)))) s"

definition sdstoupper :: "sds \<Rightarrow> sds option" where
  "sdstoupper s = each_char toupper (nat (int32 (int (sdslen s)))) s"

text \<open>The inner loop of \<open>sdsmapchars\<close>: the first place of the character in \<open>from\<close> counts;
  both arrays have \<open>setlen\<close> characters.\<close>

fun map_char :: "bytes \<Rightarrow> bytes \<Rightarrow> byte \<Rightarrow> byte" where
  "map_char (f # from) (u # to) c = (if c = f then u else map_char from to c)"
| "map_char _ _ c = c"

definition sdsmapchars :: "bytes \<Rightarrow> bytes \<Rightarrow> nat \<Rightarrow> sds \<Rightarrow> sds option" where
  "sdsmapchars from to setlen s =
    do { from \<leftarrow> bytes_at from 0 setlen; to \<leftarrow> bytes_at to 0 setlen; each_char (map_char from to) (sdslen s) s }"

section \<open>The invariant\<close>

text \<open>\<open>sds_hdr_ok\<close>: the header is one of the five, its allocation fits its field and the block holds it and
  one byte more.  \<open>sds_ok\<close>: the string is within the allocation and a NUL follows it.\<close>

definition sds_hdr_ok :: "sds \<Rightarrow> bool" where
  "sds_hdr_ok s \<longleftrightarrow> sds_type s \<le> SDS_TYPE_64 \<and> (sds_type s \<noteq> SDS_TYPE_5 \<longrightarrow> sh_alloc s < 2 ^ hdr_bits (sds_type s)) \<and>
    sdsalloc s < length (sh_buf s)"

definition sds_ok :: "sds \<Rightarrow> bool" where
  "sds_ok s \<longleftrightarrow> sds_hdr_ok s \<and> sdslen s \<le> sdsalloc s \<and> sh_buf s ! sdslen s = 0"

definition contents :: "sds \<Rightarrow> bytes" where
  "contents s = take (sdslen s) (sh_buf s)"

definition str_holds :: "sds \<Rightarrow> bytes \<Rightarrow> bool" where
  "str_holds s xs \<longleftrightarrow> sds_ok s \<and> contents s = xs"

lemma type_5_flags:
  assumes "n < 32"
  shows "unat (drop_bit 3 (SDS_TYPE_5 OR word_of_nat (n * 2 ^ 3))) = n"
    "(SDS_TYPE_5 OR word_of_nat (n * 2 ^ 3)) AND SDS_TYPE_MASK = SDS_TYPE_5"
proof -
  have "\<forall>n \<in> set [0..<32]. unat (drop_bit 3 (0 OR word_of_nat (n * 8) :: byte)) = n \<and> (0 OR word_of_nat (n * 8) :: byte) AND 7 = 0"
    by (simp add: upt_rec)
  then show "unat (drop_bit 3 (SDS_TYPE_5 OR word_of_nat (n * 2 ^ 3))) = n"
    "(SDS_TYPE_5 OR word_of_nat (n * 2 ^ 3)) AND SDS_TYPE_MASK = SDS_TYPE_5"
    using assms by (simp_all add: SDS_TYPE_5_def SDS_TYPE_MASK_def)
qed

lemma header_buf [simp]:
  "sds_type (s\<lparr>sh_buf := b\<rparr>) = sds_type s" "sdslen (s\<lparr>sh_buf := b\<rparr>) = sdslen s"
  "sdsalloc (s\<lparr>sh_buf := b\<rparr>) = sdsalloc s" "sdsavail (s\<lparr>sh_buf := b\<rparr>) = sdsavail s"
  by (simp_all add: sds_type_def sdslen_def sdsalloc_def sdsavail_def hdr_free_def Let_def)

lemma sdssetlen_buf: "sdssetlen n (s\<lparr>sh_buf := b\<rparr>) = (sdssetlen n s)\<lparr>sh_buf := b\<rparr>"
  by (simp add: sdssetlen_def)

lemma sds_hdr_ok_buf: "sds_hdr_ok s \<Longrightarrow> length b = length (sh_buf s) \<Longrightarrow> sds_hdr_ok (s\<lparr>sh_buf := b\<rparr>)"
  by (simp add: sds_hdr_ok_def)

lemma type_5_bound: "sds_type s = SDS_TYPE_5 \<Longrightarrow> sdsalloc s < 32"
proof -
  have "drop_bit 3 f < 32" for f :: byte
    using unat_byte_bound [of f] by (simp add: word_less_nat_alt unat_drop_bit_eq drop_bit_eq_div unat_div)
  then show "sds_type s = SDS_TYPE_5 \<Longrightarrow> sdsalloc s < 32"
    by (simp add: sdsalloc_def SDS_TYPE_5_LEN_def word_less_nat_alt)
qed

lemma sdssetlen_hdr:
  assumes "sds_hdr_ok s" "n \<le> sdsalloc s"
  shows "sdslen (sdssetlen n s) = n" "sds_hdr_ok (sdssetlen n s)" "n \<le> sdsalloc (sdssetlen n s)"
    "sh_buf (sdssetlen n s) = sh_buf s" "sds_type (sdssetlen n s) = sds_type s"
proof -
  have *: "sdslen (sdssetlen n s) = n \<and> sds_hdr_ok (sdssetlen n s) \<and> n \<le> sdsalloc (sdssetlen n s) \<and>
      sds_type (sdssetlen n s) = sds_type s"
  proof (cases "sds_type s = SDS_TYPE_5")
    case True
    then show ?thesis using assms type_5_bound [OF True] type_5_flags [of n]
      by (auto simp: sdssetlen_def sds_hdr_ok_def sds_type_def sdslen_def sdsalloc_def SDS_TYPE_5_LEN_def)
  next
    case False
    then have "sds_type (sdssetlen n s) = sds_type s" by (simp add: sdssetlen_def sds_type_def)
    then show ?thesis using assms False by (auto simp: sdssetlen_def sds_hdr_ok_def sdslen_def sdsalloc_def)
  qed
  then show "sdslen (sdssetlen n s) = n" "sds_hdr_ok (sdssetlen n s)" "n \<le> sdsalloc (sdssetlen n s)"
    "sds_type (sdssetlen n s) = sds_type s" by blast+
  show "sh_buf (sdssetlen n s) = sh_buf s" by (simp add: sdssetlen_def)
qed

text \<open>Whatever was written into the block, setting a length with a NUL behind it makes a string.\<close>

lemma set_string:
  assumes "sds_hdr_ok s" "n \<le> sdsalloc s" "length b = length (sh_buf s)" "b ! n = 0"
  shows "str_holds ((sdssetlen n s)\<lparr>sh_buf := b\<rparr>) (take n b)"
  using sdssetlen_hdr [OF assms(1,2)] assms sds_hdr_ok_buf [of "sdssetlen n s" b]
  by (simp add: str_holds_def sds_ok_def contents_def)

lemma set_string_at:
  assumes "sds_hdr_ok s" "n \<le> sdsalloc s" "length b = length (sh_buf s)" "b ! n = 0"
  shows "\<exists>s'. Some ((sdssetlen n s)\<lparr>sh_buf := b\<rparr>) = Some s' \<and> str_holds s' (take n b)"
  using set_string [OF assms] by blast

lemma okD:
  assumes "sds_ok s"
  shows "sds_hdr_ok s" "sdslen s \<le> sdsalloc s" "sdsalloc s < length (sh_buf s)" "sh_buf s ! sdslen s = 0"
    "sdslen s < length (sh_buf s)" "length (contents s) = sdslen s"
  using assms by (auto simp: sds_ok_def sds_hdr_ok_def contents_def)

section \<open>Making room\<close>

lemma hdr_bits_bound: "2 ^ hdr_bits ty \<le> (2 :: nat) ^ 64"
  by (rule power_increasing) (auto simp: hdr_bits_def)

lemma sdsReqType_fits:
  assumes "n < 2 ^ 64"
  shows "sdsReqType n \<le> SDS_TYPE_64" "sdsReqType n AND SDS_TYPE_MASK = sdsReqType n"
    "sdsReqType n = SDS_TYPE_5 \<Longrightarrow> n < 32" "n < 2 ^ hdr_bits (sdsReqType n)"
  using assms by (simp_all add: sdsReqType_def sds_types hdr_bits_def split: if_splits)

lemma hdr_free_ok:
  assumes "sds_hdr_ok s" "sdslen s \<le> sdsalloc s" "sds_type s \<noteq> SDS_TYPE_5"
  shows "hdr_free s = int (sdsalloc s - sdslen s)" "sdsalloc s < 2 ^ 64" "sdsalloc s = sh_alloc s" "sdslen s = sh_len s"
proof -
  have t: "sds_type s \<le> SDS_TYPE_64" "sh_alloc s < 2 ^ hdr_bits (sds_type s)" using assms by (auto simp: sds_hdr_ok_def)
  then show a: "sdsalloc s = sh_alloc s" "sdslen s = sh_len s" using assms(3) by (auto simp: sdsalloc_def sdslen_def)
  show "sdsalloc s < 2 ^ 64" using a t(2) hdr_bits_bound [of "sds_type s"] by linarith
  show "hdr_free s = int (sdsalloc s - sdslen s)"
    using assms(2) a t(2) hdr_bits_bound [of "sds_type s"]
    by (simp add: hdr_free_def hdr_bits_def Let_def sds_types of_nat_diff split: if_splits)
qed

lemma sdsavail_ok:
  assumes "sds_ok s"
  shows "sdsavail s = sdsalloc s - sdslen s"
proof (cases "sds_type s = SDS_TYPE_5")
  case False
  note f = hdr_free_ok [OF okD(1,2) [OF assms] False]
  have "sds_type s \<le> SDS_TYPE_64" using assms by (simp add: sds_ok_def sds_hdr_ok_def)
  moreover have "int (sdsalloc s - sdslen s) mod 2 ^ 64 = int (sdsalloc s - sdslen s)" using f(2) by simp
  ultimately show ?thesis using False f(1) by (simp add: sdsavail_def size_t_def)
qed (use okD [OF assms] in \<open>simp add: sdsavail_def sdsalloc_def sdslen_def\<close>)

lemma sdsHdrSize_bound: "sdsHdrSize ty \<le> 17"
  by (simp add: sdsHdrSize_def Let_def)

lemma str_room_small: "n < 2 ^ 63 \<Longrightarrow> str_room (sdsHdrSize ty) n = Some (n + 1)"
  using sdsHdrSize_bound [of ty] by (simp add: str_room_def Let_def)

text \<open>A header that was just written: its kind, its length, its allocation.\<close>

lemma sdssetalloc_hdr:
  assumes "sds_type s \<le> SDS_TYPE_64" "sds_type s = SDS_TYPE_5 \<Longrightarrow> n = sdslen s" "n < 2 ^ hdr_bits (sds_type s)"
    and "sdslen s \<le> n" "n < length (sh_buf s)" "sh_buf s ! sdslen s = 0"
  shows "str_holds (sdssetalloc n s) (contents s)" "sdsalloc (sdssetalloc n s) = n"
proof -
  have t: "sds_type (sdssetalloc n s) = sds_type s" by (simp add: sdssetalloc_def sds_type_def)
  have l: "sdslen (sdssetalloc n s) = sdslen s" "sh_buf (sdssetalloc n s) = sh_buf s"
    using t by (simp_all add: sdslen_def) (simp_all add: sdssetalloc_def)
  show a: "sdsalloc (sdssetalloc n s) = n"
    using assms(1-3) t by (auto simp: sdsalloc_def sdslen_def sdssetalloc_def sds_type_def)
  have "sds_type s \<noteq> SDS_TYPE_5 \<longrightarrow> sh_alloc (sdssetalloc n s) < 2 ^ hdr_bits (sds_type s)"
    using assms(1,3) by (simp add: sdssetalloc_def)
  then show "str_holds (sdssetalloc n s) (contents s)"
    using assms t l a by (simp add: str_holds_def sds_ok_def sds_hdr_ok_def contents_def)
qed

lemma sdssetlen_kind:
  assumes "type AND SDS_TYPE_MASK = type" "type \<le> SDS_TYPE_64" "type = SDS_TYPE_5 \<longrightarrow> n < 32" "n < 2 ^ hdr_bits type"
  shows "sds_type (sdssetlen n (s\<lparr>sh_flags := type\<rparr>)) = type" "sdslen (sdssetlen n (s\<lparr>sh_flags := type\<rparr>)) = n"
    "sh_buf (sdssetlen n (s\<lparr>sh_flags := type\<rparr>)) = sh_buf s"
  using assms type_5_flags [of n]
  by (auto simp: sdssetlen_def sds_type_def sdslen_def SDS_TYPE_5_LEN_def)

lemma move_header_ok:
  assumes ok: "sds_ok s" and n: "sdslen s \<le> n" "n < 2 ^ 63"
    and ty: "type AND SDS_TYPE_MASK = type" "type \<le> SDS_TYPE_64" "type = SDS_TYPE_5 \<Longrightarrow> n = sdslen s \<and> n < 32"
      "n < 2 ^ hdr_bits type"
  shows "\<exists>s'. move_header fresh type n s = Some s' \<and> str_holds s' (contents s) \<and> sdsalloc s' = n"
proof -
  note d = okD [OF ok]
  have room: "str_room (sdsHdrSize type) n = Some (n + 1)" by (rule str_room_small [OF n(2)])
  show ?thesis
  proof (cases "sds_type s = type")
    case True
    let ?s = "s\<lparr>sh_buf := re_block fresh (n + 1) (sh_buf s)\<rparr>"
    have b: "length (sh_buf ?s) = n + 1" "sh_buf ?s ! sdslen ?s = 0" "contents ?s = contents s"
      using d n(1) by (simp_all add: re_block_def nth_append contents_def min_def)
    show ?thesis
      using sdssetalloc_hdr [of ?s n] True room b ty n(1) by (simp add: move_header_def)
  next
    case False
    let ?d = "take (sdslen s + 1) (sh_buf s)"
    let ?b = "blit (new_block fresh (n + 1)) 0 ?d"
    let ?s = "sdssetlen (sdslen s) (s\<lparr>sh_buf := ?b, sh_flags := type\<rparr>)"
    have l: "sdslen s < 2 ^ hdr_bits type" using n(1) ty(4) by linarith
    have "type = SDS_TYPE_5 \<longrightarrow> sdslen s < 32" using ty(3) by auto
    note k = sdssetlen_kind [OF ty(1,2) this l, of "s\<lparr>sh_buf := ?b\<rparr>", simplified sds.select_convs]
    have bl: "length ?d \<le> n + 1" "length (new_block fresh (n + 1)) = n + 1" using n(1) by (simp_all add: new_block_def)
    have b: "length ?b = n + 1" "?b ! sdslen s = 0" "take (sdslen s) ?b = contents s"
      using bl d n(1) nth_blit [of 0 ?d "new_block fresh (n + 1)" "sdslen s"]
      by (simp_all add: contents_def blit_def min_def)
    have "move_header fresh type n s = Some (sdssetalloc n ?s)"
      using False room bl d n(1) by (simp add: move_header_def bytes_at_def put_at_def)
    moreover have "sds_type ?s \<le> SDS_TYPE_64" "sds_type ?s = SDS_TYPE_5 \<Longrightarrow> n = sdslen ?s" "n < 2 ^ hdr_bits (sds_type ?s)"
      "sdslen ?s \<le> n" "n < length (sh_buf ?s)" "sh_buf ?s ! sdslen ?s = 0" "contents ?s = contents s"
      unfolding k contents_def [of ?s] using ty n(1) b by auto
    ultimately show ?thesis using sdssetalloc_hdr [of ?s n] by metis
  qed
qed

lemma sdsMakeRoomFor_ok:
  assumes ok: "sds_ok s" and n: "sdslen s + k < 2 ^ 62"
  shows "\<exists>s'. sdsMakeRoomFor fresh k s = Some s' \<and> str_holds s' (contents s) \<and> sdslen s + k \<le> sdsalloc s'"
proof (cases "k \<le> sdsavail s")
  case True
  then show ?thesis using sdsavail_ok [OF ok] okD(2) [OF ok] ok by (simp add: sdsMakeRoomFor_def str_holds_def)
next
  case False
  let ?n = "sdslen s + k"
  define m where "m = (if ?n < SDS_MAX_PREALLOC then ?n * 2 else ?n + SDS_MAX_PREALLOC)"
  define ty where "ty = (if sdsReqType m = SDS_TYPE_5 then SDS_TYPE_8 else sdsReqType m)"
  have m: "?n \<le> m" "m < 2 ^ 63" using n by (auto simp: m_def SDS_MAX_PREALLOC_def)
  have "m < 2 ^ 64" using m(2) by simp
  note r = sdsReqType_fits [OF this]
  have t: "ty AND SDS_TYPE_MASK = ty" "ty \<le> SDS_TYPE_64" "ty \<noteq> SDS_TYPE_5" "m < 2 ^ hdr_bits ty"
    using r by (auto simp: ty_def) (auto simp: sds_types hdr_bits_def)
  have "sdsMakeRoomFor fresh k s = move_header fresh ty m s"
    using False n by (simp add: sdsMakeRoomFor_def Let_def m_def ty_def SDS_MAX_PREALLOC_def)
  then show ?thesis using move_header_ok [OF ok _ m(2) t(1,2) _ t(4), of fresh] t(3) m(1) by fastforce
qed

lemma sdsRemoveFreeSpace_ok:
  assumes ok: "sds_ok s" and n: "sdslen s < 2 ^ 62"
  shows "\<exists>s'. sdsRemoveFreeSpace fresh s = Some s' \<and> str_holds s' (contents s) \<and> sdsalloc s' = sdslen s"
proof -
  have "sdslen s < 2 ^ 64" "sdslen s < 2 ^ 63" using n by simp_all
  then show ?thesis using move_header_ok [OF ok, of "sdslen s" "sdsReqType (sdslen s)" fresh] sdsReqType_fits [of "sdslen s"]
    by (simp add: sdsRemoveFreeSpace_def Let_def)
qed

section \<open>The operations on what a string holds\<close>

lemma str_holdsI:
  "sds_hdr_ok s \<Longrightarrow> sdslen s \<le> sdsalloc s \<Longrightarrow> sh_buf s ! sdslen s = 0 \<Longrightarrow> take (sdslen s) (sh_buf s) = xs \<Longrightarrow> str_holds s xs"
  by (simp add: str_holds_def sds_ok_def contents_def)

lemma str_holdsD:
  assumes "str_holds s xs"
  shows "sds_ok s" "contents s = xs" "sdslen s = length xs" "sds_hdr_ok s" "length xs \<le> sdsalloc s"
    "sdsalloc s < length (sh_buf s)" "take (length xs) (sh_buf s) = xs" "sh_buf s ! length xs = 0"
  using assms okD [of s] by (auto simp: str_holds_def contents_def min_def)

lemma str_holds_mem:
  assumes "str_holds s xs"
  shows "\<exists>u. sh_buf s = xs @ 0 # u"
proof -
  note d = str_holdsD [OF assms]
  have "length xs < length (sh_buf s)" using d(5,6) by linarith
  from id_take_nth_drop [OF this] show ?thesis unfolding d(7,8) by blast
qed

lemma sdsnewlen_ok:
  assumes n: "n < 2 ^ 62" and init: "case init of None \<Rightarrow> xs = replicate n 0 | Some t \<Rightarrow> n \<le> length t \<and> xs = take n t"
  shows "\<exists>s. sdsnewlen fresh init n = Some s \<and> str_holds s xs"
proof -
  define ty where "ty = (if sdsReqType n = SDS_TYPE_5 \<and> n = 0 then SDS_TYPE_8 else sdsReqType n)"
  have "n < 2 ^ 64" "n < 2 ^ 63" using n by simp_all
  note r = sdsReqType_fits [OF this(1)]
  have t: "ty AND SDS_TYPE_MASK = ty" "ty \<le> SDS_TYPE_64" "ty = SDS_TYPE_5 \<Longrightarrow> n < 32" "n < 2 ^ hdr_bits ty"
    using r by (simp_all add: ty_def sds_types hdr_bits_def split: if_splits)
  define b0 where "b0 = (if init = None then replicate (n + 1) 0 else new_block fresh (n + 1))"
  define s where "s = \<lparr>sh_flags = (if ty = SDS_TYPE_5 then ty OR of_nat (n * 2 ^ 3) else ty),
    sh_len = n mod 2 ^ hdr_bits ty, sh_alloc = n mod 2 ^ hdr_bits ty, sh_buf = b0\<rparr>"
  have s: "sdslen s = n" "sdsalloc s = n" "sh_buf s = b0" "length b0 = n + 1" "sds_hdr_ok s"
    using t type_5_flags [of n]
    by (auto simp: s_def b0_def new_block_def sds_hdr_ok_def sds_type_def sdslen_def sdsalloc_def SDS_TYPE_5_LEN_def)
  have *: "sdsnewlen fresh init n = (case init of Some src \<Rightarrow> if n \<noteq> 0 then do { d \<leftarrow> bytes_at src 0 n; put_at 0 d s } else Some s
      | None \<Rightarrow> Some s) \<bind> put_at n [0]"
    by (simp only: sdsnewlen_def Let_def ty_def [symmetric] str_room_small [OF \<open>n < 2 ^ 63\<close>] Option.bind.simps
        b0_def [symmetric] s_def [symmetric])
  obtain b where b: "sdsnewlen fresh init n = put_at n [0] (s\<lparr>sh_buf := b\<rparr>)" "length b = n + 1" "take n b = xs"
  proof (cases init)
    case None
    have e: "s\<lparr>sh_buf := b0\<rparr> = s" using s(3) by (cases s) simp
    have "take n b0 = xs" using None init by (simp add: b0_def min_def flip: replicate_append_same)
    then show ?thesis using that [of b0, unfolded e] * s None by simp
  next
    case (Some src)
    then show ?thesis
      using that [of "blit b0 0 (take n src)"] * s init
      by (cases "n = 0") (simp_all add: bytes_at_def put_at_def blit_def min_def)
  qed
  have "sdsnewlen fresh init n = Some (s\<lparr>sh_buf := blit b n [0]\<rparr>)" using b by (simp add: put_at_def)
  moreover have "str_holds (s\<lparr>sh_buf := blit b n [0]\<rparr>) xs"
    by (rule str_holdsI) (use s b in \<open>simp_all add: sds_hdr_ok_buf take_blit_before nth_blit\<close>)
  ultimately show ?thesis by blast
qed

lemma sdsempty_ok: "\<exists>s. sdsempty fresh = Some s \<and> str_holds s []"
  using sdsnewlen_ok [of 0 "[]" "Some []" fresh] by (simp add: sdsempty_def)

lemma sdsdup_ok: "str_holds s xs \<Longrightarrow> length xs < 2 ^ 62 \<Longrightarrow> \<exists>s'. sdsdup fresh s = Some s' \<and> str_holds s' xs"
  using sdsnewlen_ok [of "length xs" xs "Some (sh_buf s)" fresh] str_holdsD [of s xs] by (simp add: sdsdup_def)

lemma sdscatlen_ok:
  assumes s: "str_holds s xs" and t: "n \<le> length t" "length xs + n < 2 ^ 62"
  shows "\<exists>s'. sdscatlen fresh t n s = Some s' \<and> str_holds s' (xs @ take n t)"
proof -
  note d = str_holdsD [OF s]
  obtain r where r: "sdsMakeRoomFor fresh n s = Some r" "str_holds r xs" "length xs + n \<le> sdsalloc r"
    using sdsMakeRoomFor_ok [OF d(1), of n fresh] t(2) d(2,3) by auto
  note e = str_holdsD [OF r(2)]
  let ?b = "blit (blit (sh_buf r) (length xs) (take n t)) (length xs + n) [0]"
  have l: "length xs + n < length (sh_buf r)" using e r(3) by linarith
  then have b: "length ?b = length (sh_buf r)" "?b ! (length xs + n) = 0" "take (length xs + n) ?b = xs @ take n t"
    using t e(7) by (simp_all add: nth_blit take_blit_before) (simp add: blit_def)
  have "sdscatlen fresh t n s = Some ((sdssetlen (length xs + n) r)\<lparr>sh_buf := ?b\<rparr>)"
    using r(1) d(3) l t by (simp add: sdscatlen_def Let_def bytes_at_def put_at_def sdssetlen_buf sdssetlen_hdr [OF e(4) r(3)])
  then show ?thesis using set_string [OF e(4) r(3) b(1,2)] b(3) by simp
qed

lemma strlen_c_string: "0 \<notin> set t \<Longrightarrow> strlen (t @ 0 # u) = Some (length t)"
proof -
  assume "0 \<notin> set t"
  then have "takeWhile (\<lambda>c. c \<noteq> 0) (t @ 0 # u) = t" by (induction t) auto
  then show ?thesis by (simp add: strlen_def)
qed

lemma sdscat_ok:
  assumes "str_holds s xs" "0 \<notin> set t" "length xs + length t < 2 ^ 62"
  shows "\<exists>s'. sdscat fresh (t @ [0]) s = Some s' \<and> str_holds s' (xs @ t)"
  using sdscatlen_ok [OF assms(1), of "length t" "t @ [0]" fresh] assms(2,3)
  by (simp add: sdscat_def strlen_c_string)

lemma sdscatsds_ok:
  assumes "str_holds s xs" "str_holds t ys" "length xs + length ys < 2 ^ 62"
  shows "\<exists>s'. sdscatsds fresh t s = Some s' \<and> str_holds s' (xs @ ys)"
  using sdscatlen_ok [OF assms(1), of "length ys" "sh_buf t" fresh] assms(3) str_holdsD [OF assms(2)]
  by (simp add: sdscatsds_def)

lemma sdscpylen_ok:
  assumes s: "str_holds s xs" and t: "n \<le> length t" "n < 2 ^ 62"
  shows "\<exists>s'. sdscpylen fresh t n s = Some s' \<and> str_holds s' (take n t)"
proof -
  note d = str_holdsD [OF s]
  obtain r where r: "(if sdsalloc s < n then sdsMakeRoomFor fresh (size_t (int n - int (sdslen s))) s else Some s) = Some r"
    "sds_hdr_ok r" "n \<le> sdsalloc r" "sdsalloc r < length (sh_buf r)"
  proof (cases "sdsalloc s < n")
    case True
    then have k: "size_t (int n - int (sdslen s)) = n - length xs" "length xs + (n - length xs) = n"
      using d(3,5) t(2) by (simp_all add: size_t_def flip: of_nat_diff)
    obtain r where "sdsMakeRoomFor fresh (n - length xs) s = Some r" "str_holds r xs" "n \<le> sdsalloc r"
      using sdsMakeRoomFor_ok [OF d(1), of "n - length xs" fresh] t(2) d(2,3) k(2) by auto
    then show ?thesis using that [of r] True k(1) str_holdsD [of r xs] by simp
  next
    case False
    then show ?thesis using that [of s] d by simp
  qed
  let ?b = "blit (blit (sh_buf r) 0 (take n t)) n [0]"
  have l: "n < length (sh_buf r)" using r by linarith
  then have b: "length ?b = length (sh_buf r)" "?b ! n = 0" "take n ?b = take n t"
    using t by (simp_all add: nth_blit take_blit_before) (simp add: blit_def)
  have "sdscpylen fresh t n s = Some ((sdssetlen n r)\<lparr>sh_buf := ?b\<rparr>)"
    unfolding sdscpylen_def r(1) using l t by (simp add: bytes_at_def put_at_def sdssetlen_buf)
  then show ?thesis using set_string [OF r(2,3) b(1,2)] b(3) by simp
qed

lemma sdsgrowzero_ok:
  assumes s: "str_holds s xs" and n: "n < 2 ^ 62"
  shows "\<exists>s'. sdsgrowzero fresh n s = Some s' \<and> str_holds s' (xs @ replicate (n - length xs) 0)"
proof (cases "n \<le> length xs")
  case True
  then show ?thesis using s str_holdsD(3) [OF s] by (simp add: sdsgrowzero_def Let_def)
next
  case False
  note d = str_holdsD [OF s]
  let ?k = "n - length xs"
  obtain r where r: "sdsMakeRoomFor fresh ?k s = Some r" "str_holds r xs" "n \<le> sdsalloc r"
    using sdsMakeRoomFor_ok [OF d(1), of ?k fresh] n d(2,3) False by auto
  note e = str_holdsD [OF r(2)]
  let ?b = "blit (sh_buf r) (length xs) (replicate (?k + 1) 0)"
  have l: "n < length (sh_buf r)" using e r(3) by linarith
  have "replicate (?k + 1) (0 :: byte) = replicate ?k 0 @ [0]" by (simp add: replicate_append_same)
  then have b: "length ?b = length (sh_buf r)" "?b ! n = 0" "take n ?b = xs @ replicate ?k 0"
    using l False e(7) by (simp_all add: nth_blit nth_append del: replicate.simps) (simp add: blit_def min_def)
  have "sdsgrowzero fresh n s = Some ((sdssetlen n r)\<lparr>sh_buf := ?b\<rparr>)"
    using r(1) d(3) l False by (simp add: sdsgrowzero_def Let_def put_at_def sdssetlen_buf del: replicate.simps)
  then show ?thesis using set_string [OF e(4) r(3) b(1,2)] b(3) by simp
qed

section \<open>Changes in place\<close>

lemma sdsclear_ok: "str_holds s xs \<Longrightarrow> \<exists>s'. sdsclear s = Some s' \<and> str_holds s' []"
proof -
  assume s: "str_holds s xs"
  note d = str_holdsD [OF s]
  obtain x r where "sh_buf s = x # r" using d(6) by (cases "sh_buf s") auto
  then have "length (blit (sh_buf s) 0 [0]) = length (sh_buf s)" "blit (sh_buf s) 0 [0] ! 0 = 0"
    "sdsclear s = Some ((sdssetlen 0 s)\<lparr>sh_buf := blit (sh_buf s) 0 [0]\<rparr>)"
    by (simp_all add: blit_def sdsclear_def put_at_def sdssetlen_hdr [OF d(4)])
  then show ?thesis using set_string [OF d(4) le0, of "blit (sh_buf s) 0 [0]"] by simp
qed

lemma sdsIncrLen_ok:
  assumes s: "sds_hdr_ok s" "sdslen s \<le> sdsalloc s" and n: "int n = int (sdslen s) + incr" "n \<le> sdsalloc s"
    and i: "sds_type s = SDS_TYPE_5 \<Longrightarrow> incr \<noteq> 0"
  shows "\<exists>s'. sdsIncrLen incr s = Some s' \<and> str_holds s' (take n (sh_buf s))"
proof -
  let ?b = "blit (sh_buf s) n [0]"
  have l: "n < length (sh_buf s)" using n(2) s by (simp add: sds_hdr_ok_def)
  have "sdsIncrLen incr s = Some ((sdssetlen n s)\<lparr>sh_buf := ?b\<rparr>)"
  proof (cases "sds_type s = SDS_TYPE_5")
    case True
    then have a: "sdslen s = SDS_TYPE_5_LEN (sh_flags s)" "sdsalloc s = sdslen s" by (simp_all add: sdsalloc_def sdslen_def)
    have "incr < 0" using a(2) n i [OF True] by linarith
    moreover have "(word_of_int ((int (sdslen s) + incr) * 2 ^ 3) :: byte) = word_of_nat (n * 2 ^ 3)"
      unfolding n(1) [symmetric] by simp
    moreover have "nat (int (SDS_TYPE_5_LEN (sh_flags s)) + incr) = n" using n(1) a(1) by linarith
    ultimately show ?thesis
      using True a l n by (simp add: sdsIncrLen_def Let_def put_at_def sdssetlen_def)
  next
    case False
    note f = hdr_free_ok [OF s False]
    have t: "sds_type s \<le> SDS_TYPE_64" "n < 2 ^ hdr_bits (sds_type s)" using s(1) False n(2) f(3) by (auto simp: sds_hdr_ok_def)
    have "int n mod 2 ^ hdr_bits (sds_type s) = int n" using t(2) by simp
    moreover have "incr \<ge> 0 \<and> hdr_free s \<ge> incr \<or> incr < 0 \<and> int (sh_len s) \<ge> - incr" using f n s(2) by linarith
    moreover have "nat (int (sh_len s) + incr) = n" using n(1) f(4) by linarith
    ultimately show ?thesis
      using False t l n(1) f(4) by (simp add: sdsIncrLen_def Let_def put_at_def sdssetlen_def)
  qed
  moreover have "str_holds ((sdssetlen n s)\<lparr>sh_buf := ?b\<rparr>) (take n ?b)"
    by (rule set_string) (use s n(2) l in \<open>simp_all add: nth_blit\<close>)
  ultimately show ?thesis using l by (simp add: take_blit_before)
qed

text \<open>Moving a part of the string to its front, as \<open>sdstrim\<close> and \<open>sdsrange\<close> do.\<close>

lemma keep_part:
  assumes s: "str_holds s xs" and n: "k + n \<le> length xs" and c: "\<not> c \<Longrightarrow> k = 0 \<or> n = 0"
  shows "\<exists>s'. do { s \<leftarrow> (if c then do { d \<leftarrow> bytes_at (sh_buf s) k n; put_at 0 d s } else Some s);
                s \<leftarrow> put_at n [0] s; Some (sdssetlen n s) } = Some s' \<and> str_holds s' (take n (drop k xs))"
proof -
  note d = str_holdsD [OF s]
  define b where "b = (if c then blit (sh_buf s) 0 (take n (drop k (sh_buf s))) else sh_buf s)"
  have l: "k + n < length (sh_buf s)" "n < length (sh_buf s)" using n d by linarith+
  have lb: "length b = length (sh_buf s)" using l by (simp add: b_def)
  have "take n (drop k (take (length xs) (sh_buf s))) = take n (drop k (sh_buf s))" using n by (simp add: drop_take min_def)
  then have e: "take n (drop k xs) = take n (drop k (sh_buf s))" unfolding d(7) .
  have tb: "take n b = take n (drop k xs)"
  proof (cases c)
    case True
    moreover have "length (take n (drop k (sh_buf s))) = n" using l by simp
    ultimately show ?thesis unfolding e by (simp add: b_def blit_def)
  next
    case False
    then show ?thesis unfolding e using c by (auto simp: b_def)
  qed
  let ?b = "blit b n [0]"
  have "?b ! n = 0" "take n ?b = take n (drop k xs)" "length ?b = length (sh_buf s)"
    using l lb tb by (simp_all add: nth_blit take_blit_before)
  moreover have "n \<le> sdsalloc s" using n d by linarith
  ultimately have "str_holds ((sdssetlen n s)\<lparr>sh_buf := ?b\<rparr>) (take n (drop k xs))" using set_string [OF d(4), of n ?b] by simp
  moreover have "do { s \<leftarrow> (if c then do { d \<leftarrow> bytes_at (sh_buf s) k n; put_at 0 d s } else Some s);
      s \<leftarrow> put_at n [0] s; Some (sdssetlen n s) } = Some ((sdssetlen n s)\<lparr>sh_buf := ?b\<rparr>)"
    using l by (simp add: bytes_at_def put_at_def b_def sdssetlen_buf)
  ultimately show ?thesis by blast
qed

lemma each_char_ok:
  assumes s: "str_holds s xs" and n: "n = length xs"
  shows "\<exists>s'. each_char f n s = Some s' \<and> str_holds s' (map f xs)"
proof -
  note d = str_holdsD [OF s]
  let ?b = "blit (sh_buf s) 0 (map f xs)"
  have l: "length xs < length (sh_buf s)" using d by linarith
  have "each_char f n s = Some (s\<lparr>sh_buf := ?b\<rparr>)"
    using l n d(7) by (simp add: each_char_def bytes_at_def put_at_def)
  moreover have "str_holds (s\<lparr>sh_buf := ?b\<rparr>) (map f xs)"
    by (rule str_holdsI) (use d l in \<open>simp_all add: sds_hdr_ok_buf nth_blit\<close>, simp add: blit_def)
  ultimately show ?thesis by blast
qed

section \<open>Trimming and ranges\<close>

lemma trim_left_ok:
  "trim_left cs (pre @ ys @ post) (int (length pre)) (int (length pre) + int (length ys) - 1) =
    Some (int (length pre) + int (length (takeWhile (in_cset cs) ys)))"
proof (induction ys arbitrary: pre)
  case (Cons y ys)
  have "trim_left cs ((pre @ [y]) @ ys @ post) (int (length (pre @ [y]))) (int (length (pre @ [y])) + int (length ys) - 1) =
      Some (int (length (pre @ [y])) + int (length (takeWhile (in_cset cs) ys)))" by (rule Cons.IH)
  then show ?case by (subst trim_left.simps) (simp add: nth_append algebra_simps)
qed (simp add: trim_left.simps)

lemma trim_right_ok:
  assumes "ys = [] \<or> \<not> in_cset cs (hd ys)"
  shows "trim_right cs (pre @ ys @ post) (int (length pre)) (int (length pre) + int (length ys) - 1) =
    Some (int (length pre) + int (length (dropWhile (in_cset cs) (rev ys))) - 1)"
  using assms
proof (induction ys arbitrary: post rule: rev_induct)
  case (snoc y ys)
  show ?case
  proof (cases "ys = []")
    case True
    then show ?thesis using snoc.prems by (subst trim_right.simps) simp
  next
    case False
    then have "trim_right cs (pre @ ys @ y # post) (int (length pre)) (int (length pre) + int (length ys) - 1) =
      Some (int (length pre) + int (length (dropWhile (in_cset cs) (rev ys))) - 1)" using snoc by simp
    then show ?thesis using False by (subst trim_right.simps) (simp add: nth_append nat_add_distrib algebra_simps)
  qed
qed (simp add: trim_right.simps)

definition trimmed :: "bytes \<Rightarrow> bytes \<Rightarrow> bytes" where
  "trimmed cs xs = rev (dropWhile (in_cset cs) (rev (dropWhile (in_cset cs) xs)))"

lemma sdstrim_ok:
  assumes s: "str_holds s xs"
  shows "\<exists>s'. sdstrim cs s = Some s' \<and> str_holds s' (trimmed cs xs)"
proof -
  note d = str_holdsD [OF s]
  define pre where "pre = takeWhile (in_cset cs) xs"
  define ys where "ys = dropWhile (in_cset cs) xs"
  define n where "n = length (trimmed cs xs)"
  define post where "post = drop (length xs) (sh_buf s)"
  have x: "xs = pre @ ys" by (simp add: pre_def ys_def)
  have bx: "sh_buf s = xs @ post" using d(7) append_take_drop_id [of "length xs" "sh_buf s"] by (simp add: post_def)
  then have b: "sh_buf s = pre @ ys @ post" using x by simp
  have h: "ys = [] \<or> \<not> in_cset cs (hd ys)" using hd_dropWhile [of "in_cset cs" xs] by (auto simp: ys_def)
  have n: "n = length (dropWhile (in_cset cs) (rev ys))" by (simp add: n_def trimmed_def ys_def)
  have L: "trim_left cs (sh_buf s) 0 (int (length xs) - 1) = Some (int (length pre))"
    using trim_left_ok [of cs "[]" xs post] by (simp add: bx pre_def)
  have R: "trim_right cs (sh_buf s) (int (length pre)) (int (length xs) - 1) = Some (int (length pre) + int n - 1)"
    using trim_right_ok [OF h, of pre post] unfolding b [symmetric] by (simp add: x n algebra_simps)
  have le: "length pre + n \<le> length xs" using length_dropWhile_le [of "in_cset cs" "rev ys"] x n by simp
  define k where "k = length (takeWhile (in_cset cs) (rev ys))"
  have e: "dropWhile (in_cset cs) (rev ys) = drop k (rev ys)" unfolding k_def by (rule dropWhile_eq_drop)
  have "n = length ys - k" unfolding n e by simp
  moreover have "trimmed cs xs = rev (drop k (rev ys))" unfolding trimmed_def ys_def [symmetric] e ..
  ultimately have "trimmed cs xs = take n ys" by (simp add: rev_drop)
  then have t: "trimmed cs xs = take n (drop (length pre) xs)" by (simp add: x)
  have "(if int p > int p + int n - 1 then 0 else nat (int p + int n - 1 - int p + 1)) = n" for p by auto
  then have "sdstrim cs s = do { s \<leftarrow> (if int (length pre) \<noteq> 0 then do { d \<leftarrow> bytes_at (sh_buf s) (length pre) n; put_at 0 d s } else Some s);
      s \<leftarrow> put_at n [0] s; Some (sdssetlen n s) }"
    unfolding sdstrim_def d(3) Let_def L Option.bind.simps(2) R by (simp only: Option.bind.simps nat_int)
  then show ?thesis
    using keep_part [OF s le, of "int (length pre) \<noteq> 0"] t by simp
qed

text \<open>The part from index \<open>start\<close> to index \<open>end\<close>, negative ones counted from the end.\<close>

definition range_spec :: "bytes \<Rightarrow> int \<Rightarrow> int \<Rightarrow> bytes" where
  "range_spec xs start end =
    (let i = (if start < 0 then max 0 (start + int (length xs)) else start);
         j = (if end < 0 then max 0 (end + int (length xs)) else end)
     in take (nat (j - i + 1)) (drop (nat i) xs))"

lemma range_index_ok:
  assumes "len < 2 ^ 31" "- (2 ^ 31) \<le> i" "i < 2 ^ 31"
  shows "range_index len i = (if i < 0 then max 0 (i + int len) else i)" "0 \<le> range_index len i" "range_index len i < 2 ^ 31"
  using assms int32_small [of "int len + i"] by (auto simp: range_index_def Let_def)

lemma range_len_ok:
  assumes "0 \<le> i" "j < 2 ^ 31 - 1 \<or> 0 < i" "j < 2 ^ 31"
  shows "range_len i j = nat (j - i + 1)"
  using assms int32_small [of "j - i + 1"] by (auto simp: range_len_def size_t_def)

lemma range_len_pos:
  assumes "0 \<le> i" "i \<le> j" "j < 2 ^ 31"
  shows "range_len i j \<noteq> 0"
proof (cases "j < 2 ^ 31 - 1 \<or> 0 < i")
  case False
  then have "i = 0" "j = 2 ^ 31 - 1" using assms by auto
  then show ?thesis by (simp add: range_len_def int32_def size_t_def)
qed (use range_len_ok assms in simp)

lemma sdsrange_ok:
  assumes s: "str_holds s xs" and l: "length xs < 2 ^ 31"
    and i: "- (2 ^ 31) \<le> start" "start < 2 ^ 31" "- (2 ^ 31) \<le> end" "end < 2 ^ 31"
  shows "\<exists>s'. sdsrange start end s = Some s' \<and> str_holds s' (range_spec xs start end)"
proof (cases "xs = []")
  case True
  then show ?thesis using s str_holdsD(3) [OF s] by (simp add: sdsrange_def Let_def range_spec_def)
next
  case False
  define i where "i = range_index (length xs) start"
  define j where "j = range_index (length xs) end"
  have ij: "0 \<le> i" "i < 2 ^ 31" "0 \<le> j" "j < 2 ^ 31" unfolding i_def j_def using range_index_ok l i by auto
  have spec: "range_spec xs start end = take (nat (j - i + 1)) (drop (nat i) xs)"
    unfolding range_spec_def i_def j_def Let_def using range_index_ok(1) [OF l] i by simp
  have L: "int32 (int (length xs)) = int (length xs)" "int32 (int (length xs) - 1) = int (length xs) - 1"
    using l False by (simp_all add: int32_small Suc_le_eq)
  define p where "p = (if range_len i j \<noteq> 0 then
      (if i \<ge> int32 (int (length xs)) then (i, 0)
       else if j \<ge> int32 (int (length xs)) then (i, range_len i (int32 (int (length xs) - 1))) else (i, range_len i j))
    else (0, range_len i j))"
  have p: "(nat (fst p) + snd p \<le> length xs \<or> snd p = 0) \<and> range_spec xs start end = take (snd p) (drop (nat (fst p)) xs)"
  proof -
    note p_def = p_def [unfolded L]
    consider "i > j" | "i \<le> j" "i \<ge> int (length xs)" | "i \<le> j" "i < int (length xs)" "j \<ge> int (length xs)"
      | "i \<le> j" "j < int (length xs)" by linarith
    then show ?thesis
    proof cases
      case 1
      then have "p = (0, 0)" by (simp add: p_def range_len_def)
      then show ?thesis using 1 spec by simp
    next
      case 2
      then have "p = (i, 0)" using range_len_pos [OF ij(1) 2(1) ij(4)] by (simp add: p_def)
      then show ?thesis using 2 spec ij by simp
    next
      case 3
      then have r: "range_len i (int (length xs) - 1) = length xs - nat i"
        using range_len_ok [of i "int (length xs) - 1"] ij l by (simp add: nat_diff_distrib)
      have "p = (i, length xs - nat i)" using range_len_pos [OF ij(1) 3(1) ij(4)] 3 r by (simp add: p_def)
      moreover have "length xs - nat i \<le> nat (j - i + 1)" using 3 ij by linarith
      ultimately show ?thesis using 3 spec ij by simp
    next
      case 4
      then have "range_len i j = nat (j - i + 1)" using range_len_ok [of i j] ij l by simp
      then have "p = (i, nat (j - i + 1))" using range_len_pos [OF ij(1) 4(1) ij(4)] 4 by (simp add: p_def)
      moreover have "nat i + nat (j - i + 1) \<le> length xs" using 4 ij by linarith
      ultimately show ?thesis using spec ij by simp
    qed
  qed
  obtain a n where an: "p = (a, n)" by (cases p)
  define k where "k = (if n = 0 then 0 else nat a)"
  have kn: "k + n \<le> length xs" "range_spec xs start end = take n (drop k xs)" using p an by (auto simp: k_def)
  have "sdsrange start end s = do { s \<leftarrow> (if a \<noteq> 0 \<and> n \<noteq> 0 then do { d \<leftarrow> bytes_at (sh_buf s) (nat a) n; put_at 0 d s } else Some s);
      s \<leftarrow> put_at n [0] s; Some (sdssetlen n s) }"
    unfolding sdsrange_def str_holdsD(3) [OF s] Let_def i_def [symmetric] j_def [symmetric] p_def [symmetric] an
    using False by simp
  also have "\<dots> = do { s \<leftarrow> (if a \<noteq> 0 \<and> n \<noteq> 0 then do { d \<leftarrow> bytes_at (sh_buf s) k n; put_at 0 d s } else Some s);
      s \<leftarrow> put_at n [0] s; Some (sdssetlen n s) }" by (simp add: k_def)
  finally show ?thesis using keep_part [OF s kn(1), of "a \<noteq> 0 \<and> n \<noteq> 0"] kn(2) by (auto simp: k_def)
qed

lemma sdsupdatelen_ok:
  assumes s: "str_holds s xs" and l: "length xs < 2 ^ 31"
  shows "\<exists>s'. sdsupdatelen s = Some s' \<and> str_holds s' (takeWhile (\<lambda>c. c \<noteq> 0) xs)"
proof -
  note d = str_holdsD [OF s]
  define ys where "ys = takeWhile (\<lambda>c. c \<noteq> 0) xs"
  obtain u where u: "sh_buf s = xs @ 0 # u" using str_holds_mem [OF s] by blast
  have "takeWhile (\<lambda>c. c \<noteq> 0) (xs @ 0 # u) = ys" unfolding ys_def by (induction xs) auto
  then have n: "strlen (sh_buf s) = Some (length ys)" by (simp add: strlen_def u)
  have yl: "length ys \<le> length xs" by (simp add: ys_def length_takeWhile_le)
  then have "size_t (int32 (int (length ys))) = length ys" using l by (simp add: int32_small size_t_def)
  then have e: "sdsupdatelen s = Some (sdssetlen (length ys) s)" using n by (simp add: sdsupdatelen_def)
  have yt: "ys = take (length ys) xs" unfolding ys_def by (rule takeWhile_eq_take)
  have z: "sh_buf s ! length ys = 0"
  proof (cases "length ys < length xs")
    case True
    then show ?thesis using nth_length_takeWhile [of "\<lambda>c. c \<noteq> 0" xs] unfolding u by (simp add: ys_def nth_append)
  next
    case False
    then show ?thesis using yl d(8) by simp
  qed
  have ya: "length ys \<le> sdsalloc s" using yl d(5) by simp
  note h = sdssetlen_hdr [OF d(4) ya]
  have "str_holds (sdssetlen (length ys) s) ys"
    by (rule str_holdsI) (use h z yt yl u in simp_all)
  then show ?thesis using e by (simp add: ys_def)
qed

text \<open>Reading into the free space, as the comment of \<open>sdsIncrLen\<close> shows it.\<close>

definition read_into :: "(nat \<Rightarrow> byte) \<Rightarrow> nat \<Rightarrow> bytes \<Rightarrow> sds \<Rightarrow> sds option" where
  "read_into fresh n d s =
    do { s' \<leftarrow> sdsMakeRoomFor fresh n s; s' \<leftarrow> put_at (sdslen s) d s'; sdsIncrLen (int (length d)) s' }"

lemma read_into_ok:
  assumes s: "str_holds s xs" and n: "length d \<le> n" "0 < n" "length xs + n < 2 ^ 62"
  shows "\<exists>s'. read_into fresh n d s = Some s' \<and> str_holds s' (xs @ d)"
proof -
  note h = str_holdsD [OF s]
  obtain r where r: "sdsMakeRoomFor fresh n s = Some r" "str_holds r xs" "length xs + n \<le> sdsalloc r"
    using sdsMakeRoomFor_ok [OF h(1), of n fresh] n(3) h(2,3) by auto
  note e = str_holdsD [OF r(2)]
  let ?r = "r\<lparr>sh_buf := blit (sh_buf r) (length xs) d\<rparr>"
  have l: "length xs + length d < length (sh_buf r)" using e r(3) n by linarith
  have "sds_type r \<noteq> SDS_TYPE_5" using e(3) r(3) n by (auto simp: sdsalloc_def sdslen_def)
  then obtain s' where s': "sdsIncrLen (int (length d)) ?r = Some s'"
      "str_holds s' (take (length xs + length d) (blit (sh_buf r) (length xs) d))"
    using sdsIncrLen_ok [of ?r "length xs + length d" "int (length d)"] e r(3) n l by (auto simp: sds_hdr_ok_buf)
  moreover have "take (length xs + length d) (blit (sh_buf r) (length xs) d) = xs @ d"
    using l e(7) by (simp add: blit_def)
  ultimately show ?thesis using r(1) h(3) l by (simp add: read_into_def put_at_def)
qed

text \<open>The smallest kind of string has no increment by zero, which the others accept.\<close>

lemma sdsIncrLen_zero:
  "sds_type s = SDS_TYPE_5 \<Longrightarrow> sdsIncrLen 0 s = None"
  "str_holds s xs \<Longrightarrow> sds_type s \<noteq> SDS_TYPE_5 \<Longrightarrow> \<exists>s'. sdsIncrLen 0 s = Some s' \<and> str_holds s' xs"
proof -
  show "sds_type s = SDS_TYPE_5 \<Longrightarrow> sdsIncrLen 0 s = None" by (simp add: sdsIncrLen_def Let_def)
  assume s: "str_holds s xs" "sds_type s \<noteq> SDS_TYPE_5"
  note d = str_holdsD [OF s(1)]
  show "\<exists>s'. sdsIncrLen 0 s = Some s' \<and> str_holds s' xs"
    using sdsIncrLen_ok [OF d(4), of "length xs" 0] d(3,5,7) s(2) by simp
qed

section \<open>Any sequence of operations\<close>

datatype sds_op = OpCat bytes | OpCatSds sds | OpCpy bytes | OpGrow nat | OpTrim bytes | OpRange int int | OpClear
  | OpRoom nat | OpShrink | OpIncr int | OpRead nat bytes | OpUpdate | OpLower | OpUpper | OpMap bytes bytes

fun sds_step :: "(nat \<Rightarrow> byte) \<Rightarrow> sds_op \<Rightarrow> sds \<Rightarrow> sds option" where
  "sds_step fresh (OpCat t) s = sdscatlen fresh t (length t) s"
| "sds_step fresh (OpCatSds t) s = sdscatsds fresh t s"
| "sds_step fresh (OpCpy t) s = sdscpylen fresh t (length t) s"
| "sds_step fresh (OpGrow n) s = sdsgrowzero fresh n s"
| "sds_step fresh (OpTrim cset) s = sdstrim cset s"
| "sds_step fresh (OpRange i j) s = sdsrange i j s"
| "sds_step fresh OpClear s = sdsclear s"
| "sds_step fresh (OpRoom n) s = sdsMakeRoomFor fresh n s"
| "sds_step fresh OpShrink s = sdsRemoveFreeSpace fresh s"
| "sds_step fresh (OpIncr i) s = sdsIncrLen i s"
| "sds_step fresh (OpRead n d) s = read_into fresh n d s"
| "sds_step fresh OpUpdate s = sdsupdatelen s"
| "sds_step fresh OpLower s = sdstolower s"
| "sds_step fresh OpUpper s = sdstoupper s"
| "sds_step fresh (OpMap from to) s = sdsmapchars from to (length from) s"

fun sds_run :: "(nat \<Rightarrow> byte) \<Rightarrow> sds_op list \<Rightarrow> sds \<Rightarrow> sds option" where
  "sds_run fresh [] s = Some s"
| "sds_run fresh (x # ops) s = do { s \<leftarrow> sds_step fresh x s; sds_run fresh ops s }"

text \<open>What they do to a byte string, and when they may be called.\<close>

fun op_spec :: "sds_op \<Rightarrow> bytes \<Rightarrow> bytes" where
  "op_spec (OpCat t) xs = xs @ t"
| "op_spec (OpCatSds t) xs = xs @ contents t"
| "op_spec (OpCpy t) xs = t"
| "op_spec (OpGrow n) xs = xs @ replicate (n - length xs) 0"
| "op_spec (OpTrim cset) xs = trimmed cset xs"
| "op_spec (OpRange i j) xs = range_spec xs i j"
| "op_spec OpClear xs = []"
| "op_spec (OpRoom n) xs = xs"
| "op_spec OpShrink xs = xs"
| "op_spec (OpIncr i) xs = take (nat (int (length xs) + i)) xs"
| "op_spec (OpRead n d) xs = xs @ d"
| "op_spec OpUpdate xs = takeWhile (\<lambda>c. c \<noteq> 0) xs"
| "op_spec OpLower xs = map tolower xs"
| "op_spec OpUpper xs = map toupper xs"
| "op_spec (OpMap from to) xs = map (map_char from to) xs"

fun op_fits :: "sds_op \<Rightarrow> bytes \<Rightarrow> bool" where
  "op_fits (OpCatSds t) xs \<longleftrightarrow> sds_ok t"
| "op_fits (OpRange i j) xs \<longleftrightarrow> - (2 ^ 31) \<le> i \<and> i < 2 ^ 31 \<and> - (2 ^ 31) \<le> j \<and> j < 2 ^ 31"
| "op_fits (OpRoom n) xs \<longleftrightarrow> n < 2 ^ 61"
| "op_fits (OpIncr i) xs \<longleftrightarrow> i < 0 \<and> 0 \<le> int (length xs) + i"
| "op_fits (OpRead n d) xs \<longleftrightarrow> length d \<le> n \<and> 0 < n \<and> n < 2 ^ 61"
| "op_fits (OpMap from to) xs \<longleftrightarrow> length from = length to"
| "op_fits _ xs \<longleftrightarrow> True"

fun ops_fit :: "sds_op list \<Rightarrow> bytes \<Rightarrow> bool" where
  "ops_fit [] xs \<longleftrightarrow> True"
| "ops_fit (x # ops) xs \<longleftrightarrow> op_fits x xs \<and> length (op_spec x xs) < 2 ^ 31 \<and> ops_fit ops (op_spec x xs)"

lemma char_ops_ok:
  assumes s: "str_holds s xs" and l: "length xs < 2 ^ 31"
  shows "\<exists>s'. sdstolower s = Some s' \<and> str_holds s' (map tolower xs)" "\<exists>s'. sdstoupper s = Some s' \<and> str_holds s' (map toupper xs)"
    "length from = length to \<Longrightarrow> \<exists>s'. sdsmapchars from to (length from) s = Some s' \<and> str_holds s' (map (map_char from to) xs)"
proof -
  have "nat (int32 (int (sdslen s))) = length xs" using l str_holdsD(3) [OF s] by (simp add: int32_small)
  then show "\<exists>s'. sdstolower s = Some s' \<and> str_holds s' (map tolower xs)" "\<exists>s'. sdstoupper s = Some s' \<and> str_holds s' (map toupper xs)"
    using each_char_ok [OF s refl] by (simp_all add: sdstolower_def sdstoupper_def)
  show "length from = length to \<Longrightarrow> \<exists>s'. sdsmapchars from to (length from) s = Some s' \<and> str_holds s' (map (map_char from to) xs)"
    using each_char_ok [OF s refl] str_holdsD(3) [OF s] by (simp add: sdsmapchars_def bytes_at_def)
qed

lemma sdsIncrLen_down:
  assumes s: "str_holds s xs" and i: "i < 0" "0 \<le> int (length xs) + i"
  shows "\<exists>s'. sdsIncrLen i s = Some s' \<and> str_holds s' (take (nat (int (length xs) + i)) xs)"
proof -
  note d = str_holdsD [OF s]
  let ?n = "nat (int (length xs) + i)"
  have n: "?n \<le> length xs" using i by simp
  have "take ?n (take (length xs) (sh_buf s)) = take ?n (sh_buf s)" using n by (simp add: min_def)
  then have "take ?n xs = take ?n (sh_buf s)" unfolding d(7) .
  then show ?thesis using sdsIncrLen_ok [OF d(4), of ?n i] d(3,5) i n by simp
qed

lemma sds_step_ok:
  assumes s: "str_holds s xs" and l: "length xs < 2 ^ 31" and x: "op_fits x xs" "length (op_spec x xs) < 2 ^ 31"
  shows "\<exists>s'. sds_step fresh x s = Some s' \<and> str_holds s' (op_spec x xs)"
proof (cases x)
  case (OpCat t)
  then show ?thesis using sdscatlen_ok [OF s, of "length t" t fresh] x(2) by simp
next
  case (OpCatSds t)
  then have "str_holds t (contents t)" using x(1) by (simp add: str_holds_def)
  then show ?thesis using sdscatsds_ok [OF s, of t "contents t" fresh] OpCatSds x(2) by simp
next
  case (OpCpy t)
  then show ?thesis using sdscpylen_ok [OF s, of "length t" t fresh] x(2) by simp
next
  case (OpGrow n)
  then show ?thesis using sdsgrowzero_ok [OF s, of n fresh] x(2) by simp
next
  case (OpTrim cs)
  then show ?thesis using sdstrim_ok [OF s] by simp
next
  case (OpRange i j)
  then show ?thesis using sdsrange_ok [OF s l] x(1) by simp
next
  case OpClear
  then show ?thesis using sdsclear_ok [OF s] by simp
next
  case (OpRoom n)
  then show ?thesis using sdsMakeRoomFor_ok [OF str_holdsD(1) [OF s], of n fresh] str_holdsD(2,3) [OF s] x l by auto
next
  case OpShrink
  then show ?thesis using sdsRemoveFreeSpace_ok [OF str_holdsD(1) [OF s], of fresh] str_holdsD(2,3) [OF s] l by auto
next
  case (OpIncr i)
  then show ?thesis using sdsIncrLen_down [OF s] x(1) by simp
next
  case (OpRead n d)
  then show ?thesis using read_into_ok [OF s, of d n fresh] x l by simp
next
  case OpUpdate
  then show ?thesis using sdsupdatelen_ok [OF s l] by simp
next
  case OpLower
  then show ?thesis using char_ops_ok(1) [OF s l] by simp
next
  case OpUpper
  then show ?thesis using char_ops_ok(2) [OF s l] by simp
next
  case (OpMap f u)
  then show ?thesis using char_ops_ok(3) [OF s l] x(1) by simp
qed

lemma sds_run_ok:
  "str_holds s xs \<Longrightarrow> length xs < 2 ^ 31 \<Longrightarrow> ops_fit ops xs \<Longrightarrow>
    \<exists>s'. sds_run fresh ops s = Some s' \<and> str_holds s' (fold op_spec ops xs)"
proof (induction ops arbitrary: s xs)
  case (Cons x ops)
  obtain s' where "sds_step fresh x s = Some s'" "str_holds s' (op_spec x xs)"
    using sds_step_ok [OF Cons.prems(1,2), of x fresh] Cons.prems(3) by auto
  then show ?case using Cons.IH [of s' "op_spec x xs"] Cons.prems(3) by simp
qed simp

text \<open>
  C15: Whatever new memory holds, a string made by \<open>sdsnewlen\<close> stays well formed under every sequence of
  operations: no operation faults, its header is one of the five with a length and an allocation that fit their
  fields, the block holds both and a NUL ends the string.  And its contents are what the operations
  compute on the byte string.
\<close>

theorem sds_well_formed:
  assumes "length t < 2 ^ 31" and "ops_fit ops t"
  shows "\<exists>s. do { s \<leftarrow> sdsnewlen fresh (Some t) (length t); sds_run fresh ops s } = Some s \<and> sds_ok s \<and>
    contents s = fold op_spec ops t"
proof -
  obtain s where s: "sdsnewlen fresh (Some t) (length t) = Some s" "str_holds s t"
    using sdsnewlen_ok [of "length t" t "Some t" fresh] assms(1) by auto
  then show ?thesis using sds_run_ok [OF s(2) assms, of fresh] by (auto simp: str_holds_def)
qed

lemma sds_well_formed_witness:
  "\<exists>s. do { s \<leftarrow> sdsnewlen (\<lambda>i. 7) (Some [32, 65, 32]) 3;
      sds_run (\<lambda>i. 7) [OpTrim [32], OpCat [66, 67], OpRange (- 2) (- 1), OpRead 9 [1], OpIncr (- 1), OpShrink] s } = Some s \<and>
    sds_ok s \<and> contents s = [66, 67]"
  using sds_well_formed [of "[32, 65, 32]" "[OpTrim [32], OpCat [66, 67], OpRange (- 2) (- 1), OpRead 9 [1], OpIncr (- 1), OpShrink]" "\<lambda>i. 7"]
  by (simp add: trimmed_def in_cset_def range_spec_def numeral_3_eq_3)

end
