(* ===== verification/SdsArgs.thy ===== *)
theory SdsArgs imports Sds "HOL-Library.Sublist" begin

text \<open>
  Splitting, joining, quoting and parsing of arguments: the second half of \<open>sds.c\<close> of
  \<open>Server/redis-3.2.1/src\<close>.  The strings are those of \<open>Sds\<close>.  Text in memory is a list of bytes, a pointer
  into it a position; \<open>None\<close> is an access outside it, a token beyond the array of tokens or an \<open>int\<close>
  that overflows.  \<open>Some None\<close> is the \<open>NULL\<close> of a failed split.  What \<open>vsnprintf\<close> makes of a format is an argument.
\<close>

section \<open>Formatted text\<close>

text \<open>The loop of \<open>sdscatvprintf\<close>: \<open>vsnprintf\<close> writes as much of the text as fits and a NUL; the last but
  one byte of the buffer tells whether that was all.\<close>

definition printf_buf :: "(nat \<Rightarrow> byte) \<Rightarrow> bytes \<Rightarrow> nat \<Rightarrow> bytes" where
  "printf_buf fresh text buflen =
    blit ((new_block fresh buflen)[buflen - 2 := 0]) 0 (take (buflen - 1) text @ [0])"

function printf_loop :: "(nat \<Rightarrow> byte) \<Rightarrow> bytes \<Rightarrow> nat \<Rightarrow> bytes option" where
  "printf_loop fresh text buflen =
    (if buflen < 2 then None
     else let buf = printf_buf fresh text buflen in
       if buf ! (buflen - 2) \<noteq> 0 then printf_loop fresh text (buflen * 2) else Some buf)"
  by pat_completeness auto

lemma printf_buf_short:
  assumes "length text < buflen - 1"
  shows "printf_buf fresh text buflen ! (buflen - 2) = 0" "\<exists>u. printf_buf fresh text buflen = text @ 0 # u"
proof -
  let ?b = "(new_block fresh buflen)[buflen - 2 := 0]"
  have b: "length ?b = buflen" by (simp add: new_block_def)
  have e: "printf_buf fresh text buflen = text @ 0 # drop (length text + 1) ?b"
    using assms by (simp add: printf_buf_def blit_def)
  then show "\<exists>u. printf_buf fresh text buflen = text @ 0 # u" by blast
  have "blit ?b 0 (text @ [0]) ! (buflen - 2) = 0"
    using assms b nth_blit [of 0 "text @ [0]" ?b "buflen - 2"] by (auto simp: nth_append)
  then show "printf_buf fresh text buflen ! (buflen - 2) = 0" using assms by (simp add: printf_buf_def)
qed

termination printf_loop
proof (relation "measure (\<lambda>(fresh, t, n). length t + 2 - n)", goal_cases)
  case (2 fresh t n x)
  then have "\<not> length t < n - 1" using printf_buf_short(1) by metis
  then show ?case using 2 by simp
qed simp

declare printf_loop.simps [simp del]

definition sdscatvprintf :: "(nat \<Rightarrow> byte) \<Rightarrow> nat \<Rightarrow> bytes \<Rightarrow> sds \<Rightarrow> sds option" where
  "sdscatvprintf fresh fmtlen text s =
    (let buflen = fmtlen * 2;
         buflen = (if buflen > 1024 then buflen else 1024)
     in do { buf \<leftarrow> printf_loop fresh text buflen; sdscat fresh buf s })"

lemma printf_loop_ok: "2 \<le> n \<Longrightarrow> 0 \<notin> set t \<Longrightarrow> \<exists>u. printf_loop fresh t n = Some (t @ 0 # u)"
proof (induction fresh t n rule: printf_loop.induct)
  case (1 fresh t n)
  show ?case
  proof (cases "length t < n - 1")
    case True
    then show ?thesis using printf_buf_short [OF True, of fresh] 1 by (subst printf_loop.simps) (auto simp: Let_def)
  next
    case False
    let ?b = "(new_block fresh n)[n - 2 := 0]"
    have l: "length ?b = n" by (simp add: new_block_def)
    have "blit ?b 0 (take (n - 1) t @ [0]) ! (n - 2) = t ! (n - 2)"
      using False 1(2) l nth_blit [of 0 "take (n - 1) t @ [0]" ?b "n - 2"] by (auto simp: nth_append)
    moreover have "n - 2 < length t" using False 1(2) by linarith
    then have "t ! (n - 2) \<noteq> 0" using 1(3) nth_mem by metis
    ultimately show ?thesis using 1 by (subst printf_loop.simps) (simp add: Let_def printf_buf_def)
  qed
qed

lemma sdscatvprintf_ok:
  assumes s: "str_holds s xs" and t: "0 \<notin> set t" "length xs + length t < 2 ^ 62"
  shows "\<exists>s'. sdscatvprintf fresh n t s = Some s' \<and> str_holds s' (xs @ t)"
proof -
  have "2 \<le> (if n * 2 > 1024 then n * 2 else 1024)" by simp
  then obtain u where "printf_loop fresh t (if n * 2 > 1024 then n * 2 else 1024) = Some (t @ 0 # u)"
    using printf_loop_ok [OF _ t(1)] by blast
  then have "sdscatvprintf fresh n t s = sdscatlen fresh (t @ 0 # u) (length t) s"
    using strlen_c_string [OF t(1)] by (simp add: sdscatvprintf_def Let_def sdscat_def)
  then show ?thesis using sdscatlen_ok [OF s, of "length t" "t @ 0 # u" fresh] t(2) by simp
qed

section \<open>Appending piece by piece\<close>

text \<open>The contract of an operation that appends a text for every item.\<close>

fun emit_all :: "('c \<Rightarrow> 's \<Rightarrow> 's option) \<Rightarrow> 'c list \<Rightarrow> 's \<Rightarrow> 's option" where
  "emit_all emit [] s = Some s"
| "emit_all emit (c # cs) s = do { s \<leftarrow> emit c s; emit_all emit cs s }"

locale emitter =
  fixes holds :: "'s \<Rightarrow> bytes \<Rightarrow> bool" and emit :: "'c \<Rightarrow> 's \<Rightarrow> 's option" and shown :: "'c \<Rightarrow> bytes" and limit :: nat
  assumes emit: "holds s xs \<Longrightarrow> length xs + length (shown c) < limit \<Longrightarrow> \<exists>s'. emit c s = Some s' \<and> holds s' (xs @ shown c)"
begin

lemma emit_list:
  "holds s xs \<Longrightarrow> length xs + length (concat (map shown cs)) < limit \<Longrightarrow>
    \<exists>s'. emit_all emit cs s = Some s' \<and> holds s' (xs @ concat (map shown cs))"
proof (induction cs arbitrary: s xs)
  case (Cons c cs)
  obtain r where "emit c s = Some r" "holds r (xs @ shown c)" using emit [of s xs c] Cons.prems by auto
  then show ?case using Cons.IH [of r "xs @ shown c"] Cons.prems by (simp add: add.assoc)
qed simp

end

section \<open>Quoting\<close>

text \<open>The digits of \<open>%02x\<close>.\<close>

definition hex_char :: "nat \<Rightarrow> byte" where
  "hex_char d = (if d < 10 then of_nat (48 + d) else of_nat (87 + d))"

text \<open>One turn of the loop of \<open>sdscatrepr\<close>; the numbers are the lengths of the formats.\<close>

definition repr_char :: "(nat \<Rightarrow> byte) \<Rightarrow> byte \<Rightarrow> sds \<Rightarrow> sds option" where
  "repr_char fresh c s =
    (if c = 92 \<or> c = 34 then sdscatvprintf fresh 3 [92, c] s
     else if c = 10 then sdscatlen fresh [92, 110] 2 s
     else if c = 13 then sdscatlen fresh [92, 114] 2 s
     else if c = 9 then sdscatlen fresh [92, 116] 2 s
     else if c = 7 then sdscatlen fresh [92, 97] 2 s
     else if c = 8 then sdscatlen fresh [92, 98] 2 s
     else if isprint c then sdscatvprintf fresh 2 [c] s
     else sdscatvprintf fresh 6 [92, 120, hex_char (unat c div 16), hex_char (unat c mod 16)] s)"

definition sdscatrepr :: "(nat \<Rightarrow> byte) \<Rightarrow> bytes \<Rightarrow> nat \<Rightarrow> sds \<Rightarrow> sds option" where
  "sdscatrepr fresh p len s =
    do { s \<leftarrow> sdscatlen fresh [34] 1 s;
         d \<leftarrow> bytes_at p 0 len;
         s \<leftarrow> emit_all (repr_char fresh) d s;
         sdscatlen fresh [34] 1 s }"

text \<open>The text they make.\<close>

definition repr_text :: "byte \<Rightarrow> bytes" where
  "repr_text c =
    (if c = 92 \<or> c = 34 then [92, c] else if c = 10 then [92, 110] else if c = 13 then [92, 114] else if c = 9 then [92, 116]
     else if c = 7 then [92, 97] else if c = 8 then [92, 98] else if isprint c then [c]
     else [92, 120, hex_char (unat c div 16), hex_char (unat c mod 16)])"

definition quoted :: "bytes \<Rightarrow> bytes" where
  "quoted xs = 34 # concat (map repr_text xs) @ [34]"

lemma hex_char_values:
  "d < 16 \<Longrightarrow> hex_char d \<in> set [48, 49, 50, 51, 52, 53, 54, 55, 56, 57, 97, 98, 99, 100, 101, 102]"
proof -
  assume "d < 16"
  then have "d \<in> set [0..<16]" by simp
  then show ?thesis by (simp add: upt_rec hex_char_def) (elim disjE; simp)
qed

lemma hex_char_nonzero: "d < 16 \<Longrightarrow> hex_char d \<noteq> 0"
  using hex_char_values [of d] by auto

lemma unat_nibbles: "unat (c :: byte) div 16 < 16" "unat (c :: byte) mod 16 < 16"
  using unat_byte_bound [of c] by simp_all

interpretation repr: emitter str_holds "repr_char fresh" repr_text "2 ^ 62" for fresh
proof
  fix s xs c
  assume s: "str_holds s xs" and l: "length xs + length (repr_text c) < 2 ^ 62"
  note cat = sdscatlen_ok [OF s, of 2 _ fresh] and fmt = sdscatvprintf_ok [OF s, of _ fresh]
  show "\<exists>s'. repr_char fresh c s = Some s' \<and> str_holds s' (xs @ repr_text c)"
  proof (cases "c \<notin> {10, 13, 9, 7, 8}")
    case True
    have z: "0 \<notin> set [92, c] \<longleftrightarrow> c \<noteq> 0" "isprint c \<Longrightarrow> c \<noteq> 0" by (auto simp: isprint_def)
    show ?thesis
      using True l fmt [of "repr_text c"] z hex_char_nonzero unat_nibbles [of c]
      by (auto simp: repr_char_def repr_text_def split: if_splits)
  next
    case False
    then show ?thesis using l cat [of "repr_text c"] by (auto simp: repr_char_def repr_text_def split: if_splits)
  qed
qed

lemma sdscatrepr_ok:
  assumes s: "str_holds s ys" and l: "length ys + length (quoted xs) < 2 ^ 62"
  shows "\<exists>s'. sdscatrepr fresh xs (length xs) s = Some s' \<and> str_holds s' (ys @ quoted xs)"
proof -
  obtain a where a: "sdscatlen fresh [34] 1 s = Some a" "str_holds a (ys @ [34])"
    using sdscatlen_ok [OF s, of 1 "[34]" fresh] l by (auto simp: quoted_def)
  obtain b where b: "emit_all (repr_char fresh) xs a = Some b" "str_holds b (ys @ [34] @ concat (map repr_text xs))"
    using repr.emit_list [OF a(2), of xs fresh] l by (auto simp: quoted_def)
  show ?thesis
    using sdscatlen_ok [OF b(2), of 1 "[34]" fresh] l a(1) b(1)
    by (simp add: sdscatrepr_def bytes_at_def quoted_def)
qed

section \<open>Parsing arguments\<close>

definition is_hex_digit :: "byte \<Rightarrow> bool" where
  "is_hex_digit c \<longleftrightarrow> 48 \<le> c \<and> c \<le> 57 \<or> 97 \<le> c \<and> c \<le> 102 \<or> 65 \<le> c \<and> c \<le> 70"

definition hex_digit_to_int :: "byte \<Rightarrow> nat" where
  "hex_digit_to_int c =
    (if 48 \<le> c \<and> c \<le> 57 then unat c - 48 else if 97 \<le> c \<and> c \<le> 102 then unat c - 87
     else if 65 \<le> c \<and> c \<le> 70 then unat c - 55 else 0)"

text \<open>The test for an escape \<open>\x\<close> with two digits, which stops at the first character that does not fit, and
  the letters after a backslash.\<close>

definition hex_escape :: "bytes \<Rightarrow> nat \<Rightarrow> bool option" where
  "hex_escape line p =
    do { a \<leftarrow> rd line p;
         if a \<noteq> 92 then Some False else do {
           x \<leftarrow> rd line (p + 1);
           if x \<noteq> 120 then Some False else do {
             h \<leftarrow> rd line (p + 2);
             if \<not> is_hex_digit h then Some False else do {
               l \<leftarrow> rd line (p + 3);
               Some (is_hex_digit l) } } } }"

definition escaped :: "byte \<Rightarrow> byte" where
  "escaped c = (if c = 110 then 10 else if c = 114 then 13 else if c = 116 then 9 else if c = 98 then 8 else if c = 97 then 7 else c)"

text \<open>One turn of the loop over a token, up to the last statement of its body: the position, whether the
  token is in double or single quotes, the token, and \<open>done\<close>; \<open>None\<close> is the jump to \<open>err\<close>.\<close>

type_synonym tok_state = "nat \<times> bool \<times> bool \<times> sds \<times> bool"

definition after_quote :: "bytes \<Rightarrow> nat \<Rightarrow> tok_state \<Rightarrow> tok_state option option" where
  "after_quote line p st = do { n \<leftarrow> rd line (p + 1); Some (if n \<noteq> 0 \<and> \<not> isspace n then None else Some st) }"

definition tok_inq :: "(nat \<Rightarrow> byte) \<Rightarrow> bytes \<Rightarrow> nat \<Rightarrow> bool \<Rightarrow> sds \<Rightarrow> tok_state option option" where
  "tok_inq fresh line p insq cur =
    do { c \<leftarrow> rd line p;
         hex \<leftarrow> hex_escape line p;
         if hex then do {
           h \<leftarrow> rd line (p + 2); l \<leftarrow> rd line (p + 3);
           cur \<leftarrow> sdscatlen fresh [of_nat (hex_digit_to_int h * 16 + hex_digit_to_int l)] 1 cur;
           Some (Some (p + 3, True, insq, cur, False)) }
         else do {
           n \<leftarrow> (if c = 92 then rd line (p + 1) else Some 0);
           if c = 92 \<and> n \<noteq> 0 then do {
             cur \<leftarrow> sdscatlen fresh [escaped n] 1 cur;
             Some (Some (p + 1, True, insq, cur, False)) }
           else if c = 34 then after_quote line p (p, True, insq, cur, True)
           else if c = 0 then Some None
           else do { cur \<leftarrow> sdscatlen fresh [c] 1 cur; Some (Some (p, True, insq, cur, False)) } } }"

definition tok_insq :: "(nat \<Rightarrow> byte) \<Rightarrow> bytes \<Rightarrow> nat \<Rightarrow> sds \<Rightarrow> tok_state option option" where
  "tok_insq fresh line p cur =
    do { c \<leftarrow> rd line p;
         n \<leftarrow> (if c = 92 then rd line (p + 1) else Some 0);
         if c = 92 \<and> n = 39 then do {
           cur \<leftarrow> sdscatlen fresh [39] 1 cur;
           Some (Some (p + 1, False, True, cur, False)) }
         else if c = 39 then after_quote line p (p, False, True, cur, True)
         else if c = 0 then Some None
         else do { cur \<leftarrow> sdscatlen fresh [c] 1 cur; Some (Some (p, False, True, cur, False)) } }"

definition tok_plain :: "(nat \<Rightarrow> byte) \<Rightarrow> bytes \<Rightarrow> nat \<Rightarrow> sds \<Rightarrow> tok_state option option" where
  "tok_plain fresh line p cur =
    do { c \<leftarrow> rd line p;
         if c \<in> {32, 10, 13, 9, 0} then Some (Some (p, False, False, cur, True))
         else if c = 34 then Some (Some (p, True, False, cur, False))
         else if c = 39 then Some (Some (p, False, True, cur, False))
         else do { cur \<leftarrow> sdscatlen fresh [c] 1 cur; Some (Some (p, False, False, cur, False)) } }"

text \<open>A whole turn, with \<open>if (*p) p++\<close> at its end.\<close>

definition tok_step :: "(nat \<Rightarrow> byte) \<Rightarrow> bytes \<Rightarrow> nat \<Rightarrow> bool \<Rightarrow> bool \<Rightarrow> sds \<Rightarrow> tok_state option option" where
  "tok_step fresh line p inq insq cur =
    do { r \<leftarrow> (if inq then tok_inq fresh line p insq cur else if insq then tok_insq fresh line p cur else tok_plain fresh line p cur);
         (case r of None \<Rightarrow> Some None
          | Some (p, inq, insq, cur, fin) \<Rightarrow>
              do { c \<leftarrow> rd line p; Some (Some (if c \<noteq> 0 then p + 1 else p, inq, insq, cur, fin)) }) }"

lemma rd_Some: "rd mem i = Some x \<longleftrightarrow> i < length mem \<and> mem ! i = x"
  by (simp add: rd_def)

lemma hex_digit_nonzero: "is_hex_digit c \<Longrightarrow> c \<noteq> 0"
  by (auto simp: is_hex_digit_def)

definition tok_sound :: "bytes \<Rightarrow> nat \<Rightarrow> tok_state \<Rightarrow> bool" where
  "tok_sound line p = (\<lambda>(q, inq, insq, cur, fin). p \<le> q \<and> p < length line \<and> (\<not> fin \<longrightarrow> line ! q \<noteq> 0) \<and> (line ! p \<noteq> 0 \<longrightarrow> line ! q \<noteq> 0))"

lemma after_quote_sound:
  "after_quote line p (p, a, b, cur, True) = Some (Some st) \<Longrightarrow> p < length line \<Longrightarrow> tok_sound line p st"
  by (auto simp: after_quote_def Option.bind_eq_Some_conv tok_sound_def split: if_splits)

lemma tok_inq_sound: "tok_inq fresh line p insq cur = Some (Some st) \<Longrightarrow> tok_sound line p st"
  unfolding tok_inq_def Option.bind_eq_Some_conv rd_Some
proof (elim exE conjE, goal_cases)
  case (1 c hex)
  then have p: "p < length line" "c = line ! p" by simp_all
  show ?case
  proof (cases hex)
    case True
    then have "line ! (p + 3) \<noteq> 0"
      using 1 hex_digit_nonzero by (auto simp: hex_escape_def Option.bind_eq_Some_conv rd_Some split: if_splits)
    then show ?thesis using 1 True p by (auto simp: Option.bind_eq_Some_conv rd_Some tok_sound_def)
  next
    case False
    then show ?thesis using 1 p after_quote_sound [of line p True insq cur st]
      by (auto simp: Option.bind_eq_Some_conv rd_Some tok_sound_def split: if_splits)
  qed
qed

lemma tok_insq_sound: "tok_insq fresh line p cur = Some (Some st) \<Longrightarrow> tok_sound line p st"
  unfolding tok_insq_def Option.bind_eq_Some_conv rd_Some
proof (elim exE conjE, goal_cases)
  case (1 c n)
  then show ?case using after_quote_sound [of line p False True cur st]
    by (auto simp: Option.bind_eq_Some_conv rd_Some tok_sound_def split: if_splits)
qed

lemma tok_plain_sound: "tok_plain fresh line p cur = Some (Some st) \<Longrightarrow> tok_sound line p st"
  by (auto simp: tok_plain_def Option.bind_eq_Some_conv rd_Some tok_sound_def split: if_splits)

lemma tok_step_moves:
  assumes "tok_step fresh line p inq insq cur = Some (Some (p', inq', insq', cur', fin))"
  shows "p < length line" "p \<le> p'" "\<not> fin \<or> line ! p \<noteq> 0 \<Longrightarrow> p < p'"
proof -
  obtain q where s: "tok_sound line p (q, inq', insq', cur', fin)" and c: "q < length line" "p' = (if line ! q \<noteq> 0 then q + 1 else q)"
    using assms tok_inq_sound [of fresh line p insq cur] tok_insq_sound [of fresh line p cur] tok_plain_sound [of fresh line p cur]
    by (auto simp: tok_step_def Option.bind_eq_Some_conv rd_Some split: if_splits option.splits)
  then show "p < length line" "p \<le> p'" "\<not> fin \<or> line ! p \<noteq> 0 \<Longrightarrow> p < p'"
    by (auto simp: tok_sound_def)
qed

function get_token :: "(nat \<Rightarrow> byte) \<Rightarrow> bytes \<Rightarrow> nat \<Rightarrow> bool \<Rightarrow> bool \<Rightarrow> sds \<Rightarrow> (nat \<times> sds) option option" where
  "get_token fresh line p inq insq cur =
    (case tok_step fresh line p inq insq cur of
       None \<Rightarrow> None
     | Some None \<Rightarrow> Some None
     | Some (Some (p', inq', insq', cur', fin)) \<Rightarrow>
         if fin then Some (Some (p', cur')) else get_token fresh line p' inq' insq' cur')"
  by pat_completeness auto
termination
proof (relation "measure (\<lambda>(fresh, line, p, inq, insq, cur). length line - p)", goal_cases)
  case (2 fresh line p inq insq cur r st p' w inq' x insq' y cur' fin)
  then show ?case using tok_step_moves [of fresh line p inq insq cur p' inq' insq' cur' fin] by simp
qed simp

declare get_token.simps [simp del]

lemma get_token_moves:
  assumes "get_token fresh line p inq insq cur = Some (Some (p', cur'))"
  shows "p < length line" "p \<le> p'" "line ! p \<noteq> 0 \<Longrightarrow> p < p'"
proof -
  have "p < length line \<and> p \<le> p' \<and> (line ! p \<noteq> 0 \<longrightarrow> p < p')"
    using assms
  proof (induction fresh line p inq insq cur rule: get_token.induct)
    case (1 fresh line p inq insq cur)
    obtain q a b c fin where q: "tok_step fresh line p inq insq cur = Some (Some (q, a, b, c, fin))"
      using "1.prems" by (subst (asm) get_token.simps) (auto split: option.splits)
    note m = tok_step_moves [OF q]
    show ?case
    proof (cases fin)
      case True
      then show ?thesis using "1.prems" q m by (subst (asm) get_token.simps) auto
    next
      case False
      then have "get_token fresh line q a b c = Some (Some (p', cur'))" using "1.prems" q by (subst (asm) get_token.simps) simp
      then show ?thesis using "1.IH" [OF q refl refl refl refl refl False] m False by fastforce
    qed
  qed
  then show "p < length line" "p \<le> p'" "line ! p \<noteq> 0 \<Longrightarrow> p < p'" by auto
qed

lemma skip_while_moves: "skip_while P mem p = Some q \<Longrightarrow> p \<le> q \<and> q < length mem \<and> \<not> P (mem ! q)"
proof (induction P mem p rule: skip_while.induct)
  case (1 P mem p)
  then show ?case by (subst (asm) (2) skip_while.simps) (auto split: if_splits)
qed

text \<open>The outer loop of \<open>sdssplitargs\<close>, with the tokens found so far.\<close>

function split_args :: "(nat \<Rightarrow> byte) \<Rightarrow> bytes \<Rightarrow> nat \<Rightarrow> sds list \<Rightarrow> sds list option option" where
  "split_args fresh line p vec =
    (case skip_while (\<lambda>c. c \<noteq> 0 \<and> isspace c) line p of
       None \<Rightarrow> None
     | Some q \<Rightarrow>
         if line ! q = 0 then Some (Some vec)
         else case sdsempty fresh \<bind> get_token fresh line q False False of
             None \<Rightarrow> None
           | Some None \<Rightarrow> Some None
           | Some (Some (p', cur)) \<Rightarrow> split_args fresh line p' (vec @ [cur]))"
  by pat_completeness auto
termination
proof (relation "measure (\<lambda>(fresh, line, p, vec). length line - p)", goal_cases)
  case (2 fresh line p vec q r st p' cur)
  then obtain e where "get_token fresh line q False False e = Some (Some (p', cur))"
    by (auto simp: Option.bind_eq_Some_conv)
  then show ?case using get_token_moves [of fresh line q False False e p' cur] skip_while_moves [OF 2(1)] 2(2) by auto
qed simp

declare split_args.simps [simp del]

definition sdssplitargs :: "(nat \<Rightarrow> byte) \<Rightarrow> bytes \<Rightarrow> sds list option option" where
  "sdssplitargs fresh line = split_args fresh line 0 []"

section \<open>Reading back what was quoted\<close>

lemma unquote_hex:
  assumes "d < 16"
  shows "is_hex_digit (hex_char d)" "hex_digit_to_int (hex_char d) = d"
proof -
  have "\<forall>d \<in> set [0..<16]. is_hex_digit (hex_char d) \<and> hex_digit_to_int (hex_char d) = d"
    by (simp add: upt_rec hex_char_def is_hex_digit_def hex_digit_to_int_def)
  then show "is_hex_digit (hex_char d)" "hex_digit_to_int (hex_char d) = d" using assms by simp_all
qed

lemma nibbles_back: "word_of_nat (unat c div 16 * 16 + unat c mod 16) = (c :: byte)"
  by simp

text \<open>A turn over the text of one character.\<close>

lemma drop_atD: "drop p line = x # xs \<Longrightarrow> rd line p = Some x \<and> drop (p + 1) line = xs"
  using rd_at drop_at_Cons by fast

lemma tok_step_append:
  assumes "(if inq then tok_inq fresh line p insq cur else if insq then tok_insq fresh line p cur else tok_plain fresh line p cur) =
    do { cur \<leftarrow> sdscatlen fresh [c] 1 cur; Some (Some (q, a, b, cur, False)) }"
    and "str_holds cur ys" "length ys + 1 < 2 ^ 62" "rd line q = Some x" "x \<noteq> 0"
  shows "\<exists>cur'. tok_step fresh line p inq insq cur = Some (Some (q + 1, a, b, cur', False)) \<and> str_holds cur' (ys @ [c])"
proof -
  obtain cur' where "sdscatlen fresh [c] 1 cur = Some cur'" "str_holds cur' (ys @ [c])"
    using sdscatlen_ok [OF assms(2), of 1 "[c]" fresh] assms(3) by auto
  then show ?thesis using assms(1,4,5) by (simp add: tok_step_def)
qed

lemma repr_text_cases:
  "(\<exists>e. repr_text c = [92, e] \<and> escaped e = c \<and> e \<noteq> 0 \<and> e \<noteq> 120) \<or> (repr_text c = [c] \<and> c \<noteq> 92 \<and> c \<noteq> 34 \<and> c \<noteq> 0) \<or>
    repr_text c = [92, 120, hex_char (unat c div 16), hex_char (unat c mod 16)]"
proof (cases "c \<in> {92, 34, 10, 13, 9, 7, 8}")
  case True
  then have "\<exists>e. repr_text c = [92, e] \<and> escaped e = c \<and> e \<noteq> 0 \<and> e \<noteq> 120"
    by (auto simp: repr_text_def escaped_def)
  then show ?thesis by blast
next
  case False
  then show ?thesis by (cases "isprint c") (auto simp: repr_text_def isprint_def)
qed

lemma tok_inq_repr:
  assumes d: "drop p line = repr_text c @ w"
  shows "tok_inq fresh line p insq cur =
      do { cur \<leftarrow> sdscatlen fresh [c] 1 cur; Some (Some (p + length (repr_text c) - 1, True, insq, cur, False)) }"
    and "\<exists>x. rd line (p + length (repr_text c) - 1) = Some x \<and> x \<noteq> 0"
proof -
  note rules = rd_at drop_at_Cons
  consider e where "repr_text c = [92, e]" "escaped e = c" "e \<noteq> 0" "e \<noteq> 120"
    | "repr_text c = [c]" "c \<noteq> 92" "c \<noteq> 34" "c \<noteq> 0"
    | "repr_text c = [92, 120, hex_char (unat c div 16), hex_char (unat c mod 16)]"
    using repr_text_cases [of c] by blast
  then have "tok_inq fresh line p insq cur =
      do { cur \<leftarrow> sdscatlen fresh [c] 1 cur; Some (Some (p + length (repr_text c) - 1, True, insq, cur, False)) } \<and>
    (\<exists>x. rd line (p + length (repr_text c) - 1) = Some x \<and> x \<noteq> 0)"
  proof cases
    case (1 e)
    then have "drop p line = 92 # e # w" using d by simp
    then have "rd line p = Some 92" "rd line (p + 1) = Some e" using drop_atD by blast+
    then show ?thesis using 1 by (simp add: tok_inq_def hex_escape_def)
  next
    case 2
    then have "rd line p = Some c" using d drop_atD by simp
    then show ?thesis using 2 by (simp add: tok_inq_def hex_escape_def)
  next
    case 3
    let ?h = "hex_char (unat c div 16)"
    let ?l = "hex_char (unat c mod 16)"
    have "drop p line = 92 # 120 # ?h # ?l # w" using 3 d by simp
    then have r: "rd line p = Some 92" "rd line (p + 1) = Some 120" "rd line (p + 1 + 1) = Some ?h" "rd line (p + 1 + 1 + 1) = Some ?l"
      using drop_atD by blast+
    then have "rd line (p + 2) = Some ?h" "rd line (p + 3) = Some ?l" by (simp_all add: numeral_2_eq_2 numeral_3_eq_3)
    moreover note r(1,2) unquote_hex [OF unat_nibbles(1) [of c]] unquote_hex [OF unat_nibbles(2) [of c]] nibbles_back [of c]
      hex_char_nonzero [OF unat_nibbles(2) [of c]]
    moreover have "p + length (repr_text c) - 1 = p + 3" using 3 by simp
    ultimately show ?thesis by (simp only:) (simp add: tok_inq_def hex_escape_def del: of_nat_add of_nat_mult)
  qed
  then show "tok_inq fresh line p insq cur =
      do { cur \<leftarrow> sdscatlen fresh [c] 1 cur; Some (Some (p + length (repr_text c) - 1, True, insq, cur, False)) }"
    "\<exists>x. rd line (p + length (repr_text c) - 1) = Some x \<and> x \<noteq> 0" by blast+
qed

lemma tok_step_repr:
  assumes d: "drop p line = repr_text c @ w" and s: "str_holds cur ys" "length ys + 1 < 2 ^ 62"
  shows "\<exists>cur'. tok_step fresh line p True insq cur = Some (Some (p + length (repr_text c), True, insq, cur', False)) \<and>
    str_holds cur' (ys @ [c])"
proof -
  have "repr_text c \<noteq> []" by (simp add: repr_text_def)
  then have "p + length (repr_text c) - 1 + 1 = p + length (repr_text c)" by (cases "repr_text c") simp_all
  then show ?thesis using tok_step_append [OF _ s, of True fresh line p insq c] tok_inq_repr [OF d] by fastforce
qed

lemma get_token_quoted:
  assumes "drop p line = concat (map repr_text xs) @ 34 # z # w" "z = 0 \<or> isspace z"
    and "str_holds cur ys" "length ys + length xs < 2 ^ 62"
  shows "\<exists>cur'. get_token fresh line p True insq cur = Some (Some (p + length (concat (map repr_text xs)) + 1, cur')) \<and>
    str_holds cur' (ys @ xs)"
  using assms
proof (induction xs arbitrary: p cur ys)
  case Nil
  then have "drop p line = 34 # z # w" by simp
  then have r: "rd line p = Some 34" "rd line (p + 1) = Some z" using drop_atD by blast+
  then have "tok_step fresh line p True insq cur = Some (Some (p + 1, True, insq, cur, True))"
    using Nil(2) r by (auto simp: tok_step_def tok_inq_def hex_escape_def after_quote_def)
  then show ?case using Nil by (subst get_token.simps) simp
next
  case (Cons c xs)
  have d: "drop p line = repr_text c @ concat (map repr_text xs) @ 34 # z # w" using Cons.prems(1) by simp
  obtain r where r: "tok_step fresh line p True insq cur = Some (Some (p + length (repr_text c), True, insq, r, False))"
    "str_holds r (ys @ [c])"
    using tok_step_repr [OF d Cons.prems(3), of fresh insq] Cons.prems(4) by auto
  have "drop (p + length (repr_text c)) line = concat (map repr_text xs) @ 34 # z # w" by (rule drop_at [OF d])
  from Cons.IH [OF this Cons.prems(2) r(2)] show ?case using Cons.prems(4) r(1)
    by (subst get_token.simps) (simp add: add.assoc)
qed

lemma get_arg:
  assumes d: "drop p line = quoted xs @ z # w" "z = 0 \<or> isspace z" and l: "length xs < 2 ^ 62"
  shows "\<exists>t. sdsempty fresh \<bind> get_token fresh line p False False = Some (Some (p + length (quoted xs), t)) \<and> str_holds t xs"
proof -
  obtain e where e: "sdsempty fresh = Some e" "str_holds e []" using sdsempty_ok by blast
  have q: "drop p line = 34 # concat (map repr_text xs) @ 34 # z # w" using d(1) by (simp add: quoted_def)
  have "tok_step fresh line p False False e = Some (Some (p + 1, True, False, e, False))"
    using drop_atD [OF q] by (simp add: tok_step_def tok_plain_def)
  then have g: "get_token fresh line p False False e = get_token fresh line (p + 1) True False e"
    by (subst get_token.simps) simp
  obtain t where "get_token fresh line (p + 1) True False e = Some (Some (p + 1 + length (concat (map repr_text xs)) + 1, t))"
    "str_holds t ([] @ xs)"
    using get_token_quoted [OF _ d(2) e(2), of "p + 1" line xs w fresh False] drop_atD [OF q] l by auto
  then show ?thesis using e(1) g by (simp add: quoted_def)
qed

section \<open>Joining and splitting\<close>

fun join_from :: "(nat \<Rightarrow> byte) \<Rightarrow> bytes \<Rightarrow> nat \<Rightarrow> sds list \<Rightarrow> sds \<Rightarrow> sds option" where
  "join_from fresh sep seplen [] join = Some join"
| "join_from fresh sep seplen (a # argv) join =
    do { join \<leftarrow> sdscatsds fresh a join;
         join \<leftarrow> (if argv \<noteq> [] then sdscatlen fresh sep seplen join else Some join);
         join_from fresh sep seplen argv join }"

definition sdsjoinsds :: "(nat \<Rightarrow> byte) \<Rightarrow> sds list \<Rightarrow> bytes \<Rightarrow> nat \<Rightarrow> sds option" where
  "sdsjoinsds fresh argv sep seplen = do { join \<leftarrow> sdsempty fresh; join_from fresh sep seplen argv join }"

fun joined :: "bytes \<Rightarrow> bytes list \<Rightarrow> bytes" where
  "joined sep [] = []"
| "joined sep [x] = x"
| "joined sep (x # y # xs) = x @ sep @ joined sep (y # xs)"

lemma join_from_ok:
  "list_all2 str_holds argv xs \<Longrightarrow> str_holds join ys \<Longrightarrow> length ys + length (joined sep xs) < 2 ^ 62 \<Longrightarrow>
    \<exists>s. join_from fresh sep (length sep) argv join = Some s \<and> str_holds s (ys @ joined sep xs)"
proof (induction sep xs arbitrary: argv join ys rule: joined.induct)
  case (2 sep x)
  then obtain a where "argv = [a]" "str_holds a x" by (auto simp: list_all2_Cons2)
  then show ?case using sdscatsds_ok [of join ys a x fresh] 2 by auto
next
  case (3 sep x y xs)
  then obtain a b as where a: "argv = a # b # as" "str_holds a x" "list_all2 str_holds (b # as) (y # xs)" by (auto simp: list_all2_Cons2)
  obtain r where r: "sdscatsds fresh a join = Some r" "str_holds r (ys @ x)" using sdscatsds_ok [of join ys a x fresh] 3 a by auto
  obtain q where q: "sdscatlen fresh sep (length sep) r = Some q" "str_holds q ((ys @ x) @ sep)"
    using sdscatlen_ok [OF r(2), of "length sep" sep fresh] 3 by auto
  show ?case using 3(1) [OF a(3) q(2)] 3(4) a(1) r(1) q(1) by simp
qed simp

lemma sdsjoinsds_ok:
  assumes "list_all2 str_holds argv xs" "length (joined sep xs) < 2 ^ 62"
  shows "\<exists>s. sdsjoinsds fresh argv sep (length sep) = Some s \<and> str_holds s (joined sep xs)"
proof -
  obtain e where "sdsempty fresh = Some e" "str_holds e []" using sdsempty_ok by blast
  then show ?thesis using join_from_ok [OF assms(1), of e "[]" sep fresh] assms(2) by (simp add: sdsjoinsds_def)
qed

text \<open>Strings that are quoted one by one, as the rewriting of the configuration and the command log do.\<close>

fun quote_all :: "(nat \<Rightarrow> byte) \<Rightarrow> bytes list \<Rightarrow> sds list option" where
  "quote_all fresh [] = Some []"
| "quote_all fresh (x # xs) =
    do { e \<leftarrow> sdsempty fresh; q \<leftarrow> sdscatrepr fresh x (length x) e; qs \<leftarrow> quote_all fresh xs; Some (q # qs) }"

lemma quote_all_ok:
  "\<forall>x \<in> set xss. length (quoted x) < 2 ^ 62 \<Longrightarrow> \<exists>qs. quote_all fresh xss = Some qs \<and> list_all2 str_holds qs (map quoted xss)"
proof (induction xss)
  case (Cons x xss)
  obtain e where e: "sdsempty fresh = Some e" "str_holds e []" using sdsempty_ok by blast
  obtain q where q: "sdscatrepr fresh x (length x) e = Some q" "str_holds q (quoted x)"
    using sdscatrepr_ok [OF e(2), of x fresh] Cons.prems by auto
  obtain qs where "quote_all fresh xss = Some qs" "list_all2 str_holds qs (map quoted xss)" using Cons by auto
  then show ?case using e(1) q by simp
qed simp

lemma quoted_hd: "\<exists>u. quoted x = 34 # u"
  by (simp add: quoted_def)

lemma skip_blank:
  assumes d: "drop p line = bs @ c # w" "\<forall>b \<in> set bs. b \<noteq> 0 \<and> isspace b" "c = 0 \<or> \<not> isspace c"
  shows "skip_while (\<lambda>c. c \<noteq> 0 \<and> isspace c) line p = Some (p + length bs)"
  using assms
proof (induction bs arbitrary: p)
  case Nil
  then have "rd line p = Some c" using drop_atD [of p line c w] by simp
  then show ?case using Nil(3) by (subst skip_while.simps) (auto simp: rd_Some)
next
  case (Cons b bs)
  then have "rd line p = Some b" "drop (p + 1) line = bs @ c # w" using drop_atD [of p line b "bs @ c # w"] by simp_all
  then show ?case using Cons.IH [of "p + 1"] Cons.prems(2,3) by (subst skip_while.simps) (auto simp: rd_Some)
qed

lemma split_quoted:
  "drop p line = bs @ joined [32] (map quoted xss) @ 0 # w \<Longrightarrow> \<forall>b \<in> set bs. b \<noteq> 0 \<and> isspace b \<Longrightarrow>
    \<forall>x \<in> set xss. length x < 2 ^ 62 \<Longrightarrow>
    \<exists>toks. split_args fresh line p vec = Some (Some (vec @ toks)) \<and> list_all2 str_holds toks xss"
proof (induction xss arbitrary: p bs vec)
  case Nil
  then have d: "drop p line = bs @ 0 # w" by simp
  have "rd line (p + length bs) = Some 0" by (rule rd_at [OF drop_at [OF d]])
  moreover have "skip_while (\<lambda>c. c \<noteq> 0 \<and> isspace c) line p = Some (p + length bs)" by (rule skip_blank [OF d Nil(2)]) simp
  ultimately show ?case by (subst split_args.simps) (simp add: rd_Some)
next
  case (Cons x xss)
  define r where "r = (if xss = [] then [] else 32 # joined [32] (map quoted xss)) @ 0 # w"
  obtain z v where z: "r = z # v" "z = 0 \<or> isspace z" by (cases xss) (auto simp: r_def isspace_def)
  have d: "drop p line = bs @ quoted x @ z # v"
    using Cons.prems(1) z(1) by (cases xss) (simp_all add: r_def)
  let ?q = "p + length bs"
  have q: "drop ?q line = quoted x @ z # v" by (rule drop_at [OF d])
  obtain u where u: "quoted x = 34 # u" using quoted_hd by blast
  have s: "skip_while (\<lambda>c. c \<noteq> 0 \<and> isspace c) line p = Some ?q"
    by (rule skip_blank [of _ _ _ 34 "u @ z # v"]) (use d u Cons.prems(2) in \<open>simp_all add: isspace_def\<close>)
  have "drop ?q line = 34 # u @ z # v" using q u by simp
  then have c: "line ! ?q = 34" using rd_at rd_Some by blast
  obtain t where t: "sdsempty fresh \<bind> get_token fresh line ?q False False = Some (Some (?q + length (quoted x), t))" "str_holds t x"
    using get_arg [OF q z(2), of fresh] Cons.prems(3) by auto
  have e: "split_args fresh line p vec = split_args fresh line (?q + length (quoted x)) (vec @ [t])"
    using s c t(1) by (subst split_args.simps) simp
  define b where "b = (if xss = [] then [] else [32 :: byte])"
  have "drop (?q + length (quoted x)) line = b @ joined [32] (map quoted xss) @ 0 # w"
    using drop_at [OF q] z(1) by (simp add: r_def b_def split: if_splits)
  moreover have "\<forall>c \<in> set b. c \<noteq> 0 \<and> isspace c" by (auto simp: b_def isspace_def)
  moreover have "\<forall>x \<in> set xss. length x < 2 ^ 62" using Cons.prems(3) by simp
  ultimately obtain toks where "split_args fresh line (?q + length (quoted x)) (vec @ [t]) = Some (Some ((vec @ [t]) @ toks))"
    "list_all2 str_holds toks xss" using Cons.IH by blast
  then show ?case using e t(2) by (intro exI [of _ "t # toks"]) simp
qed

lemma length_repr: "length (repr_text c) \<le> 4"
  by (simp add: repr_text_def)

lemma length_quoted: "length (quoted x) \<le> 4 * length x + 2"
proof -
  have "length (concat (map repr_text x)) \<le> 4 * length x"
  proof (induction x)
    case (Cons c x)
    then show ?case using length_repr [of c] by simp
  qed simp
  then show ?thesis by (simp add: quoted_def)
qed

lemma length_joined_quoted: "length (joined [32] (map quoted xss)) \<le> 4 * length (concat xss) + 3 * length xss"
proof (induction xss)
  case (Cons x xss)
  then show ?case using length_quoted [of x] by (cases xss) simp_all
qed simp

lemma list_all2_contents: "list_all2 str_holds ts xs \<Longrightarrow> map contents ts = xs \<and> (\<forall>t \<in> set ts. sds_ok t)"
  by (induction rule: list_all2_induct) (auto simp: str_holds_def)

text \<open>
  C16: Any strings, quoted with \<open>sdscatrepr\<close> and joined by spaces with \<open>sdsjoinsds\<close>, are read back by
  \<open>sdssplitargs\<close> as they were, whatever bytes they hold.
\<close>

theorem splitargs_reads_quoted:
  assumes "4 * length (concat xss) + 3 * length xss < 2 ^ 62"
  shows "\<exists>qs line toks. quote_all fresh xss = Some qs \<and> sdsjoinsds fresh qs [32] 1 = Some line \<and>
    sdssplitargs fresh (sh_buf line) = Some (Some toks) \<and> map contents toks = xss \<and> (\<forall>t \<in> set toks. sds_ok t)"
proof -
  have b: "\<forall>x \<in> set xss. length x < 2 ^ 62 \<and> length (quoted x) < 2 ^ 62"
  proof
    fix x
    assume "x \<in> set xss"
    then have "length x \<le> length (concat xss)" "0 < length xss" by (induction xss) auto
    then show "length x < 2 ^ 62 \<and> length (quoted x) < 2 ^ 62" using assms length_quoted [of x] by linarith
  qed
  obtain qs where qs: "quote_all fresh xss = Some qs" "list_all2 str_holds qs (map quoted xss)" using quote_all_ok b by blast
  obtain s where s: "sdsjoinsds fresh qs [32] 1 = Some s" "str_holds s (joined [32] (map quoted xss))"
    using sdsjoinsds_ok [OF qs(2), of "[32]" fresh] length_joined_quoted [of xss] assms by auto
  obtain w where "sh_buf s = joined [32] (map quoted xss) @ 0 # w" using str_holds_mem [OF s(2)] by blast
  then obtain toks where "sdssplitargs fresh (sh_buf s) = Some (Some toks)" "list_all2 str_holds toks xss"
    using split_quoted [of 0 "sh_buf s" "[]" xss w fresh "[]"] b by (auto simp: sdssplitargs_def)
  then show ?thesis using qs(1) s(1) list_all2_contents by blast
qed

lemma splitargs_reads_quoted_witness:
  "\<exists>qs line toks. quote_all (\<lambda>i. 9) [[0, 34, 92], [], [120, 32, 10, 200]] = Some qs \<and>
    sdsjoinsds (\<lambda>i. 9) qs [32] 1 = Some line \<and>
    sdssplitargs (\<lambda>i. 9) (sh_buf line) = Some (Some toks) \<and>
    map contents toks = [[0, 34, 92], [], [120, 32, 10, 200]] \<and> (\<forall>t \<in> set toks. sds_ok t)"
  by (rule splitargs_reads_quoted) simp

section \<open>Splitting at a separator\<close>

text \<open>The array of tokens has room for \<open>slots\<close> of them.\<close>

definition grow_slots :: "nat \<Rightarrow> nat \<Rightarrow> nat option" where
  "grow_slots slots elements = (if slots < elements + 2 then if slots * 2 < 2 ^ 31 then Some (slots * 2) else None else Some slots)"

definition put_token :: "nat \<Rightarrow> sds list \<Rightarrow> sds \<Rightarrow> sds list option" where
  "put_token slots tokens t = (if length tokens < slots then Some (tokens @ [t]) else None)"

text \<open>The loop; a separator at position \<open>j\<close> ends the token that began at \<open>start\<close>.\<close>

function split_loop :: "(nat \<Rightarrow> byte) \<Rightarrow> bytes \<Rightarrow> nat \<Rightarrow> bytes \<Rightarrow> nat \<Rightarrow> nat \<Rightarrow> nat \<Rightarrow> nat \<Rightarrow> sds list \<Rightarrow> (nat \<times> nat \<times> sds list) option" where
  "split_loop fresh s len sep seplen j start slots tokens =
    (if int j < int len - (int seplen - 1) then
       (case do { slots \<leftarrow> grow_slots slots (length tokens); d \<leftarrow> bytes_at s j seplen; e \<leftarrow> bytes_at sep 0 seplen; Some (slots, d = e) } of
          None \<Rightarrow> None
        | Some (slots, found) \<Rightarrow>
            if found then
              (case do { t \<leftarrow> sdsnewlen fresh (Some (drop start s)) (size_t (int j - int start)); put_token slots tokens t } of
                 None \<Rightarrow> None
               | Some tokens \<Rightarrow> split_loop fresh s len sep seplen (j + (seplen - 1) + 1) (j + seplen) slots tokens)
            else split_loop fresh s len sep seplen (j + 1) start slots tokens)
     else Some (start, slots, tokens))"
  by pat_completeness auto
termination
  by (relation "measure (\<lambda>(fresh, s, len, sep, seplen, j, rest). len + 1 - j)") auto

declare split_loop.simps [simp del]

definition sdssplitlen :: "(nat \<Rightarrow> byte) \<Rightarrow> bytes \<Rightarrow> int \<Rightarrow> bytes \<Rightarrow> int \<Rightarrow> sds list option option" where
  "sdssplitlen fresh s len sep seplen =
    (if seplen < 1 \<or> len < 0 then Some None
     else if len = 0 then Some (Some [])
     else do {
       (start, slots, tokens) \<leftarrow> split_loop fresh s (nat len) sep (nat seplen) 0 0 5 [];
       t \<leftarrow> sdsnewlen fresh (Some (drop start s)) (size_t (len - int start));
       tokens \<leftarrow> put_token slots tokens t;
       Some (Some tokens) })"

text \<open>The tokens so far, each followed by the separator, and what is before \<open>start\<close>.\<close>

definition ended :: "bytes \<Rightarrow> bytes list \<Rightarrow> bytes" where
  "ended sep xs = concat (map (\<lambda>x. x @ sep) xs)"

lemma joined_ended: "joined sep (xs @ [x]) = ended sep xs @ x"
proof (induction xs)
  case (Cons a xs)
  then show ?case by (cases xs) (simp_all add: ended_def)
qed (simp add: ended_def)

lemma part_has_sep:
  assumes "sublist sep (take n (drop a s))" "sep \<noteq> []"
  shows "\<exists>i. a \<le> i \<and> i + length sep \<le> a + n \<and> take (length sep) (drop i s) = sep"
proof -
  obtain ps ss where e: "take n (drop a s) = ps @ sep @ ss" using assms(1) by (auto simp: sublist_def)
  have "length (take n (drop a s)) \<le> n" by simp
  then have l: "length ps + length sep \<le> n" unfolding e by simp
  then have m: "length sep \<le> n - length ps" by linarith
  have "take (length sep) (drop (length ps) (take n (drop a s))) = sep" unfolding e by simp
  then have "take (length sep) (drop (a + length ps) s) = sep" using m by (simp add: drop_take min_def add.commute)
  then show ?thesis using l by (intro exI [of _ "a + length ps"]) simp
qed

lemma part_no_sep:
  assumes "\<forall>i. a \<le> i \<and> i < j \<longrightarrow> take (length sep) (drop i s) \<noteq> sep" "a + n < j + length sep" "sep \<noteq> []"
  shows "\<not> sublist sep (take n (drop a s))"
proof
  assume "sublist sep (take n (drop a s))"
  from part_has_sep [OF this assms(3)] obtain i where "a \<le> i" "i + length sep \<le> a + n" "take (length sep) (drop i s) = sep"
    by blast
  moreover from this have "i < j" using assms(2) by linarith
  ultimately show False using assms(1) by blast
qed

definition split_inv :: "bytes \<Rightarrow> bytes \<Rightarrow> nat \<Rightarrow> nat \<Rightarrow> nat \<Rightarrow> sds list \<Rightarrow> bytes list \<Rightarrow> bool" where
  "split_inv s sep j start slots tokens xs \<longleftrightarrow> list_all2 str_holds tokens xs \<and> start \<le> j \<and> j \<le> length s \<and>
    length xs \<le> j \<and> length xs < slots \<and>
    ended sep xs = take start s \<and> (\<forall>x \<in> set xs. \<not> sublist sep x) \<and>
    (\<forall>i. start \<le> i \<and> i < j \<longrightarrow> take (length sep) (drop i s) \<noteq> sep)"

lemma token_ok:
  assumes "a + n \<le> length s" "length s < 2 ^ 30"
  shows "\<exists>t. sdsnewlen fresh (Some (drop a s)) (size_t (int n)) = Some t \<and> str_holds t (take n (drop a s))"
proof -
  have "size_t (int n) = n" using assms by (simp add: size_t_def)
  then show ?thesis using sdsnewlen_ok [of n "take n (drop a s)" "Some (drop a s)" fresh] assms by simp
qed

lemma split_loop_ok:
  assumes "sep \<noteq> []" "length s < 2 ^ 30" and "split_inv s sep j start slots tokens xs"
  shows "\<exists>start' slots' tokens' xs' j'. split_loop fresh s (length s) sep (length sep) j start slots tokens = Some (start', slots', tokens') \<and>
    split_inv s sep j' start' slots' tokens' xs' \<and> length s < j' + length sep"
  using assms(3)
proof (induction "length s - j" arbitrary: j start slots tokens xs rule: less_induct)
  case less
  note inv = less.prems [unfolded split_inv_def]
  show ?case
  proof (cases "j + length sep \<le> length s")
    case False
    then show ?thesis using less.prems by (subst split_loop.simps) (auto simp: not_le)
  next
    case True
    have c: "int j < int (length s) - (int (length sep) - 1)" using True by linarith
    have n0: "0 < length sep" using assms(1) by simp
    have lt: "length tokens = length xs" using inv list_all2_lengthD by blast
    obtain sl where sl: "grow_slots slots (length tokens) = Some sl" "length xs + 1 < sl"
    proof -
      have "length xs + 1 < 2 ^ 30" "length xs + 1 \<le> slots" using inv assms(2) True n0 by linarith+
      then show ?thesis
        using that [of "if slots < length xs + 2 then slots * 2 else slots"] lt by (auto simp: grow_slots_def)
    qed
    have rd: "bytes_at s j (length sep) = Some (take (length sep) (drop j s))" "bytes_at sep 0 (length sep) = Some sep"
      using True by (simp_all add: bytes_at_def)
    show ?thesis
    proof (cases "take (length sep) (drop j s) = sep")
      case found: True
      obtain t where t: "sdsnewlen fresh (Some (drop start s)) (size_t (int j - int start)) = Some t"
        "str_holds t (take (j - start) (drop start s))"
        using token_ok [of start "j - start" s fresh] inv assms(2) by (auto simp: of_nat_diff)
      let ?x = "take (j - start) (drop start s)"
      have "\<not> sublist sep ?x" using inv n0 assms(1) by (intro part_no_sep [of _ j]) auto
      moreover have "ended sep (xs @ [?x]) = take (j + length sep) s"
      proof -
        have "take (j + length sep) s = take start s @ ?x @ take (length sep) (drop j s)"
          using inv by (metis add_diff_inverse_nat append.assoc not_less take_add)
        then show ?thesis using inv found by (simp add: ended_def)
      qed
      moreover obtain k where "length sep = Suc k" using assms(1) by (cases sep) auto
      ultimately have "split_inv s sep (j + length sep) (j + length sep) sl (tokens @ [t]) (xs @ [?x])"
        using inv t(2) sl(2) True n0 by (auto simp: split_inv_def list_all2_appendI)
      moreover have "split_loop fresh s (length s) sep (length sep) j start slots tokens =
          split_loop fresh s (length s) sep (length sep) (j + length sep) (j + length sep) sl (tokens @ [t])"
      proof -
        have e: "Suc (j + (length sep - Suc 0)) = j + length sep" using n0 by linarith
        show ?thesis using c sl rd found t(1) lt by (subst split_loop.simps) (simp add: put_token_def e)
      qed
      moreover have "length s - (j + length sep) < length s - j" using True n0 by linarith
      ultimately show ?thesis using less.hyps by metis
    next
      case no: False
      obtain k where "length sep = Suc k" using assms(1) by (cases sep) auto
      then have "split_inv s sep (j + 1) start sl tokens xs"
        using inv sl(2) True n0 no by (auto simp: split_inv_def less_Suc_eq)
      moreover have "split_loop fresh s (length s) sep (length sep) j start slots tokens =
          split_loop fresh s (length s) sep (length sep) (j + 1) start sl tokens"
        using c sl rd no by (subst split_loop.simps) simp
      moreover have "length s - (j + 1) < length s - j" using True n0 by linarith
      ultimately show ?thesis using less.hyps by metis
    qed
  qed
qed

text \<open>
  C17: \<open>sdssplitlen\<close> splits a string at every place where the separator is found from the left: it stays within
  the string and its array, no token holds the separator, and \<open>sdsjoinsds\<close> with the same separator gives the string back.
\<close>

theorem splitlen_joins_back:
  assumes "length s < 2 ^ 30" and "sep \<noteq> []"
  shows "\<exists>toks join. sdssplitlen fresh s (int (length s)) sep (int (length sep)) = Some (Some toks) \<and>
    (\<forall>t \<in> set toks. sds_ok t \<and> \<not> sublist sep (contents t)) \<and>
    sdsjoinsds fresh toks sep (length sep) = Some join \<and> contents join = s"
proof (cases "s = []")
  case True
  then show ?thesis using sdsjoinsds_ok [of "[]" "[]" sep fresh] assms(2)
    by (auto simp: sdssplitlen_def Suc_le_eq str_holds_def)
next
  case False
  have "split_inv s sep 0 0 5 [] []" by (simp add: split_inv_def ended_def)
  then obtain start slots tokens xs j where L: "split_loop fresh s (length s) sep (length sep) 0 0 5 [] = Some (start, slots, tokens)"
    "split_inv s sep j start slots tokens xs" "length s < j + length sep"
    using split_loop_ok [OF assms(2,1)] by metis
  note inv = L(2) [unfolded split_inv_def]
  let ?x = "take (length s - start) (drop start s)"
  obtain t where t: "sdsnewlen fresh (Some (drop start s)) (size_t (int (length s) - int start)) = Some t" "str_holds t ?x"
    using token_ok [of start "length s - start" s fresh] inv assms(1) by (auto simp: of_nat_diff)
  have "\<not> sublist sep ?x" using inv L(3) assms(2) by (intro part_no_sep [of _ j]) auto
  then have no: "\<forall>x \<in> set (xs @ [?x]). \<not> sublist sep x" using inv by auto
  have "length tokens < slots" using inv list_all2_lengthD by metis
  then have S: "sdssplitlen fresh s (int (length s)) sep (int (length sep)) = Some (Some (tokens @ [t]))"
    using L(1) t(1) False assms(2) by (simp add: sdssplitlen_def put_token_def Suc_le_eq)
  have a: "list_all2 str_holds (tokens @ [t]) (xs @ [?x])" using inv t(2) by (simp add: list_all2_appendI)
  have "joined sep (xs @ [?x]) = s" using inv by (simp add: joined_ended)
  then obtain join where "sdsjoinsds fresh (tokens @ [t]) sep (length sep) = Some join" "str_holds join s"
    using sdsjoinsds_ok [OF a, of sep fresh] assms(1) by auto
  moreover have "\<forall>u \<in> set (tokens @ [t]). sds_ok u \<and> \<not> sublist sep (contents u)"
    using list_all2_contents [OF a] no by (metis image_eqI set_map)
  ultimately show ?thesis using S by (metis str_holds_def)
qed

lemma splitlen_joins_back_witness:
  "\<exists>toks join. sdssplitlen (\<lambda>i. 5) [44, 65, 44, 44, 66] (int (length [44, 65, 44, 44, 66 :: byte])) [44] (int (length [44 :: byte])) = Some (Some toks) \<and>
    (\<forall>t \<in> set toks. sds_ok t \<and> \<not> sublist [44] (contents t)) \<and>
    sdsjoinsds (\<lambda>i. 5) toks [44] (length [44 :: byte]) = Some join \<and> contents join = [44, 65, 44, 44, 66]"
  by (rule splitlen_joins_back) simp_all

end
