(* ===== verification/Spec2Isabelle.thy ===== *)
theory Spec2Isabelle
  imports LoopBuff Endianconv Intset Crc Util Lzf Dict NetStream Base64 EventQueue Pool Timer HttpRequest TcpLink TetrisRules RedisSha1 Handshake UdpLink SdsArgs
begin

text \<open>
  Verification of FxLib, a C++ library for game servers, and of the data server (Redis 3.2.1) that
  it is delivered with.  All source paths are relative to the root of the repository.

  \<^bold>\<open>The program.\<close>  The library (\<open>Server/Net\<close>, \<open>Server/common\<close>, \<open>Server/meta_header\<close>) gives an
  application sessions over TCP, UDP and WebSocket connections.  Network threads read and write the
  sockets through ring buffers, split the received bytes into packets and push an event per packet
  into a queue; the main thread takes the events, hands the packet to the session and runs timers.
  Messages are put together with byte streams, objects come from pools.  The data server keeps keys
  in hash tables that grow step by step, sets of integers in sorted arrays, compresses strings and
  matches patterns, in strings that carry their length and grow.

  \<^bold>\<open>The theories.\<close>
  \<^item> \<open>Prelude\<close>: bytes, copies into a buffer, ring segments, big- and little-endian numbers, the maps
    and lemmas all components share.
  \<^item> \<open>LoopBuff\<close> (\<open>Server/Net/loopbuff.cpp\<close>): \<open>FxLoopBuff\<close>, a record with the fields of the class.
    \<open>lb_inv\<close> is its invariant and \<open>lb_data\<close> the queue of bytes it stands for; the sums of its C ints wrap
    (\<open>int32\<close>), so the invariant bounds a block by \<open>2 ^ 30\<close> bytes.  The locale \<open>byte_queue\<close> is the contract,
    interpreted on the operations: every answer is that of a bounded queue (\<open>queue_spec\<close>).
  \<^item> \<open>NetStream\<close>, \<open>Base64\<close> (\<open>Server/meta_header/netstream.h\<close>, \<open>base64.h\<close>): readers and writers over
    one memory object, and the text encoding; round trips and bounds, and the encoding as RFC 4648 defines
    it, on the bits of the bytes (\<open>rfc4648\<close>).
  \<^item> \<open>DataHeader\<close> (\<open>Server/GameServer/SocketSession.cpp\<close>, \<open>Server/Net/ifnet.cpp\<close>): the header of a packet.
  \<^item> \<open>TcpSock\<close>, \<open>TcpStream\<close>, \<open>TcpRecv\<close>, \<open>TcpLink\<close> (\<open>Server/Net/mytcpsock.cpp\<close>): a TCP connection as built from
    the ring buffers and the header.  \<open>TcpSock\<close> has the definitions, \<open>TcpStream\<close> the parsing loop,
    \<open>TcpRecv\<close> the handler \<open>OnRecv\<close> on any chunk of bytes, and \<open>TcpLink\<close> two connected sockets with the
    properties of the whole transport: messages arrive unchanged, in order, and all of them.
  \<^item> \<open>UdpSock\<close>, \<open>UdpWindow\<close>, \<open>UdpRecv\<close>, \<open>UdpLink\<close> (\<open>Server/Net/myudpsock.cpp\<close>, \<open>myudpsock.h\<close>): reliable transfer
    over datagrams.  \<open>UdpSock\<close> has the sliding window and the operations of \<open>FxUDPConnectSock\<close>; \<open>UdpWindow\<close> the
    invariant \<open>holds\<close> of a window (its packets, the list of its free buffers) and the sending side, \<open>UdpRecv\<close> the
    receiving side, \<open>UdpLink\<close> two connected sockets and the network as a step relation, with the invariant \<open>flows\<close>
    of each direction by rule induction.  Byte numbers that wrap are related to unbounded ones: the steps
    deliver a datagram only while it is less than 224 numbers behind the windows (\<open>fresh\<close>), which is all that is
    asked of the network, and 256 - 32 is what a byte can tell apart.  An end records the messages \<open>Send\<close> took
    (\<open>accepted\<close>), those \<open>udp_ProcRecv\<close> handed to the session (\<open>heard\<close>), and the buffers that calls of \<open>recv\<close> with
    nothing to read took out of the receive window for good (\<open>leaked\<close>).
  \<^item> \<open>Sha1Spec\<close>, \<open>Sha1\<close> (\<open>Server/meta_header/sha1.h\<close>), \<open>RedisSha1\<close> (\<open>Server/redis-3.2.1/src/sha1.c\<close>): the digest of the
    standard, and the two implementations of it in the repository; the locale \<open>absorbing\<close> is the contract of
    a digest that is fed in pieces, interpreted on both.  \<open>Handshake\<close> (\<open>ResponseKey\<close> of \<open>mytcpsock.cpp\<close>): the
    answer to a WebSocket request, built from the digest and \<open>Base64\<close>, and compared with RFC 6455, which is
    stated on the specifications of the two.
  \<^item> \<open>Tetris\<close>, \<open>TetrisRules\<close> (\<open>Server/WebGame/TetrisBase.cpp\<close>): the rules of the example game; every sequence of
    operations stays on the board, full rows are removed and nothing else, the tables of edges agree with
    the pieces but for two entries.
  \<^item> \<open>EventQueue\<close>, \<open>Pool\<close> (\<open>Server/Net/eventqueue.h\<close>, \<open>Server/meta_header/dynamicpoolex.h\<close>): the queue between
    the threads and the object pools, with or without a limit: what a pool does when its calls do not overlap,
    and the interleaving of two calls of \<open>FetchObj\<close> that their locks allow.
  \<^item> \<open>Timer\<close> (\<open>Server/meta_header/limiter_queue.h\<close>, \<open>Server/common/fxtimer.cpp\<close>): timers, and the queue of
    deferred events whose entries and events point at each other.
  \<^item> \<open>Http\<close>, \<open>HttpRequest\<close> (\<open>Server/meta_header/ifnet.h\<close>): the request parser, which works in place; memory
    safety on any input and the parse of every well-formed request.
  \<^item> \<open>Endianconv\<close>, \<open>Intset\<close>, \<open>Crc\<close>, \<open>Util\<close>, \<open>Lzf\<close>, \<open>Dict\<close> (files of the same name in
    \<open>Server/redis-3.2.1/src\<close>; \<open>keyHashSlot\<close> of \<open>cluster.c\<close> is in \<open>Crc\<close>): byte swaps, integer sets, checksums,
    decimal conversions and glob patterns, LZF compression, hash tables.  The meaning of a glob pattern
    (\<open>glob_match\<close>) is a specification of its own, on patterns as data.  The indices of \<open>Dict\<close> are C ints: it is
    a map up to \<open>2 ^ 30\<close> operations, and has negative indices from \<open>2 ^ 31\<close> buckets on.
  \<^item> \<open>Sds\<close>, \<open>SdsArgs\<close> (\<open>sds.c\<close>, \<open>sds.h\<close> of the same directory): dynamic strings with their five headers.  \<open>sds_ok\<close> is
    the well-formedness of a string and \<open>str_holds\<close> relates it to the bytes it holds; every operation is
    shown on that relation, and sequences of them by \<open>sds_run\<close> against \<open>op_spec\<close>.  \<open>SdsArgs\<close> has quoting, splitting,
    joining and the parser of arguments; the locale \<open>emitter\<close> is the contract of an operation that appends a text.

  \<^bold>\<open>How the code is rendered.\<close>  A class or struct is a record with its fields, passed in and returned.
  Integers of the code are words where their width matters and \<open>int\<close> or \<open>nat\<close> where a lemma or a
  bound of the code keeps them small; the theories say so where they do it.  A pointer into a buffer
  is an offset.  An access outside a buffer, and any other undefined behaviour, is the result
  \<open>None\<close>; so the theorems that some operation returns \<open>Some\<close> are statements of memory safety.  What
  the C library or the operating system returns is an argument.  Locks are the grain of the steps.

  \<^bold>\<open>The theorems.\<close>  Each component has its functional behaviour on every branch and, where it
  has a contract, a refinement: ring buffer and event queue are bounded queues, an integer set is a
  set, a hash table is a map, a dynamic string is a string of bytes, a pair of TCP connections is a channel of messages and a pair of UDP
  connections a stream of bytes over a network that loses, repeats and reorders.  The pools, the limiter
  queue and the connections have invariants over all sequences of steps.  Optimised code is compared
  with reference definitions (table-driven checksums, digests, the pattern matcher), encoders with their
  decoders.  Some theorems state where the code does not do what it should, for instance the header
  on which \<open>OnRecv\<close> never returns.

  \<^bold>\<open>Loops and fuel.\<close>  Loops are structural recursion or have a measure, except where the code's loop
  may run for ever: the parsing loop of \<open>OnRecv\<close> has fuel, with running out of it a value of its own
  (\<open>Some None\<close>).  \<open>recv_fuel\<close>, the largest chunk plus eleven, is shown to be enough for every chunk of well-formed
  packets; on a packet of length zero no fuel is.

  \<^bold>\<open>Not modelled, and why.\<close>  The branches for Windows and the Windows port of the data server; the network threads and
  the start-up code, which are operating-system calls around the modelled sockets; floating point;
  logging, crash dumps and shared memory; the applications on top of the library, which dispatch to
  scripts and generated messages; vendored code (Lua, jemalloc, hiredis, protobuf, curl, MySQL).  The
  data server's commands, persistence, replication and cluster work on the whole state of a process
  and on live connections; its packed lists and maps are left out for their size,
  the sorted sets and cardinality estimates for their floating point.  Of the dynamic strings, the decimal conversions, \<open>sdscatfmt\<close> and
  \<open>sdscmp\<close> are left out.  Of the UDP connections, the clock,
  the round-trip estimates and the congestion control are floating-point numbers whose decisions are
  arguments (\<open>send_choice\<close>), the exchange that establishes a connection is left out, and the received
  bytes are split into packets by the code that \<open>TcpSock\<close> models.  The life cycle of \<open>FxConnection\<close> and the
  WebSocket connections themselves are calls of the modelled sockets from the threads that are not.
\<close>

end
